(* ===== verification/Stego_Prelude.thy ===== *)
theory Stego_Prelude
  imports Main "HOL-Library.Word"
begin

text \<open>
  Shared vocabulary of the development: the machine integer types of
  \<^verbatim>\<open>src/utils/stego_types.h\<close>, the result type of code that may throw, and the generic
  facts on words, lists and results that the component theories use.  The facts are collected
  in the named collections \<open>res_simps\<close> (results) and \<open>unat_simps\<close> (machine integers read as
  natural numbers).
\<close>

unbundle bit_operations_syntax

section \<open>Machine integers\<close>

type_synonym u8 = "8 word"
type_synonym u16 = "16 word"
type_synonym u32 = "32 word"
type_synonym u64 = "64 word"
type_synonym i64 = "64 word"

text \<open>A run of raw memory: the bytes a \<open>uint8*\<close> points to, first byte first.\<close>

type_synonym bytes = "u8 list"

named_theorems res_simps "rules for results of throwing code"
named_theorems unat_simps "rules that read machine integers as natural numbers"

text \<open>The constant \<open>2 ^ 64\<close>, the number of values of a \<open>uint64\<close>.\<close>

lemma unat_u64_less: "unat (x :: u64) < 18446744073709551616"
  using unsigned_less [of x] by simp

lemma unat_u32_less: "unat (x :: u32) < 4294967296"
  using unsigned_less [of x] by simp

lemma unat_ucast_u32_u64 [unat_simps]: "unat (ucast (m :: u32) :: u64) = unat m"
  using unat_u32_less [of m] by (simp add: unsigned_ucast_eq take_bit_nat_eq_self)

lemma unat_u8_less: "unat (x :: u8) < 256"
  using unsigned_less [of x] by simp

lemma unat_of_nat_u64 [unat_simps]:
  "n < 18446744073709551616 \<Longrightarrow> unat (word_of_nat n :: u64) = n"
  by (simp add: unat_of_nat take_bit_nat_eq_self)

lemma unat_of_nat_u32 [unat_simps]:
  "n < 4294967296 \<Longrightarrow> unat (word_of_nat n :: u32) = n"
  by (simp add: unat_of_nat take_bit_nat_eq_self)

lemma unat_of_nat_below [unat_simps]:
  "i < unat (n :: u64) \<Longrightarrow> unat (word_of_nat i :: u64) = i"
  using unat_u64_less [of n] by (intro unat_of_nat_u64) simp

lemma unat_of_nat_upto [unat_simps]:
  "i \<le> unat (n :: u64) \<Longrightarrow> unat (word_of_nat i :: u64) = i"
  using unat_u64_less [of n] by (intro unat_of_nat_u64) simp

lemma unat_add_no_wrap [unat_simps]:
  "unat x + unat y < 18446744073709551616 \<Longrightarrow> unat (x + y :: u64) = unat x + unat y"
  by (simp add: unat_word_ariths)

lemma unat_mult_no_wrap [unat_simps]:
  "unat x * unat y < 18446744073709551616 \<Longrightarrow> unat (x * y :: u64) = unat x * unat y"
  by (simp add: unat_word_ariths)

lemma unat_sub_no_wrap [unat_simps]:
  "unat y \<le> unat x \<Longrightarrow> unat (x - y :: u64) = unat x - unat y"
  by (simp add: unat_sub word_le_nat_alt)

lemma unat_drop_div: "unat (drop_bit k w) = unat w div 2 ^ k"
  by (subst unat_drop_bit_eq) (simp only: drop_bit_eq_div)

lemma unat_take_mod: "unat (take_bit k (w :: u64)) = unat w mod 2 ^ k"
  by (simp add: unsigned_take_bit_eq flip: take_bit_eq_mod)

lemma unat_push_mult:
  "unat (w :: u64) * 2 ^ k < 18446744073709551616 \<Longrightarrow> unat (push_bit k w) = unat w * 2 ^ k"
  by (subst unsigned_push_bit_eq) (simp add: push_bit_eq_mult take_bit_nat_eq_self)

lemma unat_power_u64: "k < 64 \<Longrightarrow> unat (2 ^ k :: u64) = 2 ^ k"
proof -
  assume "k < 64"
  then have "(2::nat) ^ k < 2 ^ 64" by (rule power_strict_increasing) simp
  then have "unat (word_of_nat (2 ^ k) :: u64) = 2 ^ k" by (intro unat_of_nat_u64) simp
  then show ?thesis by simp
qed

section \<open>Lists as memory\<close>

text \<open>\<open>memcpy(dst + off, src, length src)\<close> on the memory \<open>dst\<close>.\<close>

definition copy_at :: "nat \<Rightarrow> 'a list \<Rightarrow> 'a list \<Rightarrow> 'a list" where
  "copy_at off src dst = take off dst @ src @ drop (off + length src) dst"

lemma length_copy_at [simp]:
  "off + length src \<le> length dst \<Longrightarrow> length (copy_at off src dst) = length dst"
  by (simp add: copy_at_def)

lemma nth_copy_at:
  assumes "off + length src \<le> length dst" and "i < length dst"
  shows "copy_at off src dst ! i =
           (if off \<le> i \<and> i < off + length src then src ! (i - off) else dst ! i)"
  using assms by (auto simp: copy_at_def nth_append min_def)

lemma take_drop_copy_at:
  assumes "off + length src \<le> length dst"
  shows "take (length src) (drop off (copy_at off src dst)) = src"
  using assms by (simp add: copy_at_def)

lemma copy_at_disjoint:
  assumes "off + length src \<le> length dst"
      and "o2 + n \<le> off \<or> off + length src \<le> o2" and "o2 + n \<le> length dst"
  shows "take n (drop o2 (copy_at off src dst)) = take n (drop o2 dst)"
  using assms by (intro nth_equalityI) (auto simp: nth_copy_at)

lemma list_eq_iff_nth:
  "xs = ys \<longleftrightarrow> length xs = length ys \<and> (\<forall>i < length xs. xs ! i = ys ! i)"
  by (auto intro: nth_equalityI)

lemma map_upt_nth: "map f [0..<n] = map g [0..<n] \<longleftrightarrow> (\<forall>i<n. f i = g i)"
  by auto

text \<open>A loop that rewrites each element of an array in place.\<close>

lemma fold_update_upt:
  assumes "n \<le> length xs"
  shows "fold (\<lambda>i ys. ys[i := g i (ys ! i)]) [0..<n] xs = map (\<lambda>i. g i (xs ! i)) [0..<n] @ drop n xs"
  using assms
proof (induction n)
  case (Suc n)
  then show ?case
    by (simp add: list_update_append nth_append Cons_nth_drop_Suc [symmetric])
qed simp

text \<open>A little-endian read of several bytes as one number, as a cast of a byte pointer reads.\<close>

fun le_bytes :: "bytes \<Rightarrow> nat" where
  "le_bytes [] = 0"
| "le_bytes (b # bs) = unat b + 256 * le_bytes bs"

lemma le_bytes_less: "le_bytes bs < 256 ^ length bs"
proof (induction bs)
  case (Cons b bs)
  have "unat b < 256" by (rule unat_u8_less)
  with Cons.IH have "unat b + 256 * le_bytes bs < 256 + 256 * (256 ^ length bs - 1)"
    by (intro add_less_le_mono mult_le_mono2) simp_all
  also have "\<dots> = 256 ^ length (b # bs)"
    by (simp add: algebra_simps)
  finally show ?case by simp
qed simp

text \<open>The bytes of a \<open>uint32\<close> in memory on a little-endian machine.\<close>

definition u32_bytes :: "u32 \<Rightarrow> bytes" where
  "u32_bytes w = [ucast w, ucast (drop_bit 8 w), ucast (drop_bit 16 w), ucast (drop_bit 24 w)]"

lemma length_u32_bytes [simp]: "length (u32_bytes w) = 4"
  by (simp add: u32_bytes_def)

section \<open>Strings\<close>

text \<open>\<open>::tolower\<close> in the default locale, applied to each character by \<open>std::transform\<close>.\<close>

definition tolower :: "char \<Rightarrow> char" where
  "tolower c = (if 65 \<le> (of_char c :: nat) \<and> (of_char c :: nat) \<le> 90
                then char_of ((of_char c :: nat) + 32) else c)"

definition lower :: "string \<Rightarrow> string" where
  "lower s = map tolower s"

text \<open>The bytes of a string, as \<open>(uint8*) data.data()\<close> reads them.\<close>

definition string_bytes :: "string \<Rightarrow> bytes" where
  "string_bytes s = map (\<lambda>c. word_of_nat (of_char c)) s"

lemma length_string_bytes [simp]: "length (string_bytes s) = length s"
  by (simp add: string_bytes_def)

lemma tolower_idem [simp]: "tolower (tolower c) = tolower c"
  by (auto simp: tolower_def)

lemma lower_idem [simp]: "lower (lower s) = lower s"
  by (simp add: lower_def)

text \<open>\<open>std::to_string\<close> of an unsigned number.\<close>

fun decimal :: "nat \<Rightarrow> string" where
  "decimal n = (if n < 10 then [char_of (48 + n)]
                else decimal (n div 10) @ [char_of (48 + n mod 10)])"

declare decimal.simps [simp del]

lemma decimal_nonempty: "decimal n \<noteq> []"
  by (subst decimal.simps) simp

text \<open>\<open>std::string::compare\<close> below 0: the order of the characters as unsigned bytes.\<close>

fun string_less :: "string \<Rightarrow> string \<Rightarrow> bool" where
  "string_less [] [] = False"
| "string_less [] (y # ys) = True"
| "string_less (x # xs) [] = False"
| "string_less (x # xs) (y # ys) =
     ((of_char x :: nat) < of_char y \<or> x = y \<and> string_less xs ys)"

end
