(* ===== verification/Stego_Exceptions.thy ===== *)
theory Stego_Exceptions
  imports Stego_Prelude
begin

text \<open>
  The exceptions of \<^verbatim>\<open>src/utils/exceptions.h\<close> and of the standard library as values, their
  texts (\<^verbatim>\<open>src/utils/exceptions.cc\<close>), and the result type of code that may throw: \<open>Inl\<close> the
  exception, \<open>Inr\<close> the value.  Two further values stand for what is no exception and no handler
  catches: \<open>Undefined\<close> for undefined behaviour (a null dereference, an access out of the bounds
  of a raw array) and \<open>Diverges\<close> for a loop that does not end.
\<close>

datatype component_state =
    notInitialized | notSetted | notActive | isActive | notConfigured
  | notOpened | notLoaded | notApplied | stopped

datatype component =
    storage | encoderC | virtualStorage | permutationC | threadPool | fileC

datatype operation =
    loadVirtualStorage | saveVirtualStorage | setEncoderArg | applyEncoder | getCapacity
  | loadStegoStorage | saveStegoStorage | ioStegoStorage | ioVirtualStorage
  | commonPermuteInputCheck | enqueue | saveOp | embedBufferUsingEncoder

datatype exn =
    InvalidState operation component component_state
  | MissingDefault string
  | EmptyArgument string
  | NullptrArgument string
  | ZeroAllocatedSize
  | EmptyMember string
  | ErrorOpenFile string
  | ParseError string string
  | ExecFailed string
  | HashSizeTooSmall
  | PermutationFailed
  | FunctionNotImplemented
  | IoError string
  | AllocError
  | OutOfRange
  | InvalidArgument
  | RuntimeError
  | RangeError
  | LengthError
  | Undefined
  | Diverges

type_synonym 'a res = "exn + 'a"

fun component_to_string :: "component \<Rightarrow> string" where
  "component_to_string storage = ''Storage''"
| "component_to_string encoderC = ''Encoder''"
| "component_to_string virtualStorage = ''Virtual storage''"
| "component_to_string permutationC = ''Permutation''"
| "component_to_string threadPool = ''Thread pool''"
| "component_to_string fileC = ''File''"

fun state_to_string :: "component_state \<Rightarrow> string" where
  "state_to_string notInitialized = ''Not initialized''"
| "state_to_string notSetted = ''Not setted''"
| "state_to_string notActive = ''Not active''"
| "state_to_string isActive = ''Is active''"
| "state_to_string notConfigured = ''Not configured''"
| "state_to_string notOpened = ''Not opened''"
| "state_to_string notLoaded = ''Not loaded''"
| "state_to_string notApplied = ''Not applied''"
| "state_to_string stopped = ''Stopped''"

fun operation_to_string :: "operation \<Rightarrow> string" where
  "operation_to_string loadVirtualStorage = ''Load virtual storage''"
| "operation_to_string saveVirtualStorage = ''Save virtual storage''"
| "operation_to_string setEncoderArg = ''Set encoder argument''"
| "operation_to_string applyEncoder = ''Apply encoder''"
| "operation_to_string getCapacity = ''Get capacity''"
| "operation_to_string loadStegoStorage = ''Load storage''"
| "operation_to_string saveStegoStorage = ''Save storage''"
| "operation_to_string ioStegoStorage = ''IO operation on storage''"
| "operation_to_string ioVirtualStorage = ''IO operation on virtual storage''"
| "operation_to_string commonPermuteInputCheck = ''Common permutate input check''"
| "operation_to_string enqueue = ''Enqueue''"
| "operation_to_string saveOp = ''Save''"
| "operation_to_string embedBufferUsingEncoder = ''Embed buffer using encoder''"

definition quoted :: "string \<Rightarrow> string" where
  "quoted s = CHR 0x27 # s @ [CHR 0x27]"

text \<open>\<open>what()\<close> of \<open>InvalidState\<close>.\<close>

definition invalid_state_what :: "operation \<Rightarrow> component \<Rightarrow> component_state \<Rightarrow> string" where
  "invalid_state_what operation component state =
     ''Required operation '' @ quoted (operation_to_string operation) @
     '' can not be applied because of current state '' @ quoted (state_to_string state) @
     '' of the component '' @ quoted (component_to_string component)"

section \<open>Sequencing of results\<close>

fun bindR :: "'a res \<Rightarrow> ('a \<Rightarrow> 'b res) \<Rightarrow> 'b res" where
  "bindR (Inl e) f = Inl e"
| "bindR (Inr x) f = f x"

declare bindR.simps [res_simps]

lemma bindR_eq_Inr [res_simps]:
  "bindR r f = Inr y \<longleftrightarrow> (\<exists>x. r = Inr x \<and> f x = Inr y)"
  by (cases r) auto

lemma bindR_cong [fundef_cong]:
  "\<lbrakk>r = r'; \<And>x. r' = Inr x \<Longrightarrow> f x = f' x\<rbrakk> \<Longrightarrow> bindR r f = bindR r' f'"
  by (cases r') auto

text \<open>\<open>if (c) throw e;\<close>\<close>

definition throw_if :: "bool \<Rightarrow> exn \<Rightarrow> unit res" where
  "throw_if c e = (if c then Inl e else Inr ())"

lemma throw_if_simps [res_simps]:
  "throw_if True e = Inl e"
  "throw_if False e = Inr ()"
  "throw_if c e = Inr u \<longleftrightarrow> \<not> c"
  by (auto simp: throw_if_def)

text \<open>A loop over a list of indices that threads a state and stops at the first throw.\<close>

fun foldR :: "('i \<Rightarrow> 's \<Rightarrow> 's res) \<Rightarrow> 'i list \<Rightarrow> 's \<Rightarrow> 's res" where
  "foldR f [] s = Inr s"
| "foldR f (i # is) s = bindR (f i s) (foldR f is)"

lemma foldR_append: "foldR f (xs @ ys) s = bindR (foldR f xs s) (foldR f ys)"
  by (induction xs arbitrary: s) (auto split: sum.splits simp: res_simps intro: bindR_cong
      , metis bindR.simps(1) bindR.simps(2) old.sum.exhaust)

lemma foldR_cong [fundef_cong]:
  assumes "is = is'" and "s = s'" and "\<And>i t. i \<in> set is' \<Longrightarrow> f i t = f' i t"
  shows "foldR f is s = foldR f' is' s'"
proof -
  have "foldR f js t = foldR f' js t" if "set js \<subseteq> set is'" for js t
    using that by (induction js arbitrary: t) (auto simp: assms(3) intro: bindR_cong)
  then show ?thesis by (simp add: assms(1,2))
qed

lemma foldR_invariant:
  assumes "foldR f is s = Inr t" and "P s"
      and "\<And>i u v. i \<in> set is \<Longrightarrow> P u \<Longrightarrow> f i u = Inr v \<Longrightarrow> P v"
  shows "P t"
  using assms
proof (induction "is" arbitrary: s)
  case (Cons i "is")
  from Cons.prems(1) obtain u where u: "f i s = Inr u" "foldR f is u = Inr t"
    by (auto simp: res_simps)
  have "P u" using Cons.prems(2,3) u(1) by auto
  then show ?case using Cons.IH [OF u(2)] Cons.prems(3) by auto
qed simp

lemma foldR_pure:
  assumes "\<And>i t. i \<in> set is \<Longrightarrow> P t \<Longrightarrow> f i t = Inr (g i t) \<and> P (g i t)" and "P s"
  shows "foldR f is s = Inr (fold g is s) \<and> P (fold g is s)"
  using assms by (induction "is" arbitrary: s) auto

lemma foldR_total:
  assumes "\<And>i t. i \<in> set is \<Longrightarrow> P t \<Longrightarrow> \<exists>u. f i t = Inr u \<and> P u" and "P s"
  shows "\<exists>t. foldR f is s = Inr t \<and> P t"
  using assms
proof (induction "is" arbitrary: s)
  case (Cons i "is")
  obtain u where "f i s = Inr u" "P u" using Cons.prems by (meson list.set_intros(1))
  with Cons show ?case by simp
qed simp

lemma foldR_inj:
  assumes "\<And>i t. i \<in> set is \<Longrightarrow> P t \<Longrightarrow> \<exists>u. f i t = Inr u \<and> P u"
      and "\<And>i t t'. i \<in> set is \<Longrightarrow> P t \<Longrightarrow> P t' \<Longrightarrow> f i t = f i t' \<Longrightarrow> t = t'"
      and "P s" and "P s'" and "foldR f is s = foldR f is s'"
  shows "s = s'"
  using assms
proof (induction "is" arbitrary: s s')
  case (Cons i "is")
  obtain u u' where u: "f i s = Inr u" "P u" "f i s' = Inr u'" "P u'"
    using Cons.prems by (meson list.set_intros(1))
  have "u = u'"
  proof (rule Cons.IH [OF _ _ u(2,4)])
    show "\<And>j t. j \<in> set is \<Longrightarrow> P t \<Longrightarrow> \<exists>v. f j t = Inr v \<and> P v" using Cons.prems(1) by simp
    show "\<And>j t t'. j \<in> set is \<Longrightarrow> P t \<Longrightarrow> P t' \<Longrightarrow> f j t = f j t' \<Longrightarrow> t = t'"
      using Cons.prems(2) by (meson list.set_intros(2))
    show "foldR f is u = foldR f is u'" using Cons.prems(5) u by simp
  qed
  then have "f i s = f i s'" using u by simp
  then show ?case using Cons.prems(2) [of i s s'] Cons.prems(3,4) by simp
qed simp

text \<open>Objects keep their state when a method throws: a method returns the object and its result.\<close>

type_synonym ('s, 'a) meth = "'s \<Rightarrow> 's \<times> 'a res"

end
