(* ===== verification/Stego_Math.thy ===== *)
theory Stego_Math
  imports Complex_Main Stego_Exceptions
begin

text \<open>
  The arithmetic of \<^verbatim>\<open>src/utils/stego_math.cc\<close> on \<open>uint64\<close> words: the Euclidean loop, modular
  power and product, the randomised primality test and the prime search built on it, bit length
  and bit count.  Loops whose end is not evident from their code are
  \<^theory_text>\<open>partial_function (option)\<close>: \<open>None\<close> is a loop that does not return.  The C library's
  \<open>rand()\<close> is the parameter \<open>rnd\<close>: \<open>rnd i\<close> is the \<open>i\<close>-th value it returns after \<open>srand(2)\<close>.
\<close>

section \<open>Definitions\<close>

text \<open>\<open>StegoMath::Gcd\<close>; the remainder by a zero \<open>b\<close> traps.\<close>

function Gcd :: "u64 \<Rightarrow> u64 \<Rightarrow> u64 res" where
  "Gcd a b =
     (if b = 0 then Inl Undefined
      else let a' = a mod b in
        if a' = 0 then Inr b
        else let b' = b mod a' in
          if b' = 0 then Inr a' else Gcd a' b')"
  by pat_completeness auto
termination
proof (relation "measure (\<lambda>(a, b). unat b)", simp, clarsimp)
  fix a b :: u64
  assume "b \<noteq> 0" "a mod b \<noteq> 0"
  have "b mod (a mod b) < a mod b"
    using \<open>a mod b \<noteq> 0\<close> by (simp add: word_less_def uint_mod pos_mod_bound word_neq_0_conv)
  also have "a mod b < b"
    using \<open>b \<noteq> 0\<close> by (simp add: word_less_def uint_mod pos_mod_bound word_neq_0_conv)
  finally show "unat (b mod (a mod b)) < unat b" by (simp add: word_less_nat_alt)
qed

declare Gcd.simps [simp del]

text \<open>\<open>StegoMath::Lcm\<close>: the product is taken in 64 bits before the division.\<close>

definition Lcm :: "u64 \<Rightarrow> u64 \<Rightarrow> u64 res" where
  "Lcm a b = bindR (Gcd a b) (\<lambda>g. Inr ((a * b) div g))"

text \<open>
  \<open>StegoMath::Modulo\<close>, the branch for 64-bit GCC targets: \<open>x\<close> and \<open>y\<close> are 128 bits wide.
\<close>

function modulo_loop :: "128 word \<Rightarrow> 128 word \<Rightarrow> u64 \<Rightarrow> u64 \<Rightarrow> 128 word" where
  "modulo_loop x y b c =
     (if b > 0
      then modulo_loop (if b mod 2 = 1 then (x * y) mod ucast c else x)
                       ((y * y) mod ucast c) (b div 2) c
      else x)"
  by pat_completeness auto
termination
  by (relation "measure (\<lambda>(x, y, b, c). unat b)")
     (auto simp: word_less_nat_alt unat_div)

declare modulo_loop.simps [simp del]

definition Modulo :: "u64 \<Rightarrow> u64 \<Rightarrow> u64 \<Rightarrow> u64 res" where
  "Modulo a b c =
     (if c = 0 then Inl Undefined
      else Inr (ucast (modulo_loop 1 (ucast a) b c mod ucast c)))"

function mulmod_loop :: "u64 \<Rightarrow> u64 \<Rightarrow> u64 \<Rightarrow> u64 \<Rightarrow> u64" where
  "mulmod_loop res a b m =
     (if a \<noteq> 0
      then mulmod_loop (if a AND 1 \<noteq> 0 then (res + b) mod m else res)
                       (drop_bit 1 a) (push_bit 1 b mod m) m
      else res)"
  by pat_completeness auto
termination
  by (relation "measure (\<lambda>(res, a, b, m). unat a)")
     (auto simp: drop_bit_eq_div unat_div word_neq_0_conv word_less_nat_alt)

declare mulmod_loop.simps [simp del]

definition Mulmod :: "u64 \<Rightarrow> u64 \<Rightarrow> u64 \<Rightarrow> u64 res" where
  "Mulmod a b m =
     (if a < 0xFFFFFF \<and> b < 0xFFFFFF
      then (if m = 0 then Inl Undefined else Inr ((a * b) mod m))
      else if m = 0 \<and> a \<noteq> 0 then Inl Undefined
      else Inr (mulmod_loop 0 a b m))"

text \<open>\<open>while (s % 2 == 0) s /= 2;\<close>, entered with \<open>s = p - 1 > 0\<close>.\<close>

function odd_part :: "u64 \<Rightarrow> u64" where
  "odd_part s = (if s mod 2 = 0 \<and> s \<noteq> 0 then odd_part (s div 2) else s)"
  by pat_completeness auto
termination
  by (relation "measure unat") (auto simp: unat_div word_neq_0_conv word_less_nat_alt)

declare odd_part.simps [simp del]

partial_function (option) square_loop :: "u64 \<Rightarrow> u64 \<Rightarrow> u64 \<Rightarrow> (u64 \<times> u64) option" where
  "square_loop p temp m =
     (if temp \<noteq> p - 1 \<and> m \<noteq> 1 \<and> m \<noteq> p - 1
      then (case Mulmod m m p of
              Inr m' \<Rightarrow> square_loop p (temp * 2) m'
            | Inl _ \<Rightarrow> None)
      else Some (temp, m))"

text \<open>
  One of the 26 rounds of \<open>StegoMath::MillerRabin\<close> with the random value \<open>r\<close>: \<open>Some True\<close>
  when the round does not reject.
\<close>

definition mr_round :: "u64 \<Rightarrow> u64 \<Rightarrow> u64 \<Rightarrow> bool option" where
  "mr_round p s r =
     (let a = r mod (p - 1) + 1 in
      case Modulo a s p of
        Inl _ \<Rightarrow> None
      | Inr m \<Rightarrow>
          (case square_loop p s m of
             None \<Rightarrow> None
           | Some (temp, m') \<Rightarrow> Some (\<not> (m' \<noteq> p - 1 \<and> temp mod 2 = 0))))"

fun mr_rounds :: "(nat \<Rightarrow> u64) \<Rightarrow> u64 \<Rightarrow> u64 \<Rightarrow> nat \<Rightarrow> nat \<Rightarrow> (bool \<times> nat) option" where
  "mr_rounds rnd p s 0 k = Some (True, k)"
| "mr_rounds rnd p s (Suc n) k =
     (case mr_round p s (rnd k) of
        None \<Rightarrow> None
      | Some False \<Rightarrow> Some (False, Suc k)
      | Some True \<Rightarrow> mr_rounds rnd p s n (Suc k))"

text \<open>
  \<open>StegoMath::MillerRabin\<close>: \<open>k\<close> counts the values taken from \<open>rand()\<close> so far, and the count
  after the test is returned with the answer.
\<close>

definition MillerRabin :: "(nat \<Rightarrow> u64) \<Rightarrow> u64 \<Rightarrow> nat \<Rightarrow> (bool \<times> nat) option" where
  "MillerRabin rnd p k =
     (if p < 2 then Some (False, k)
      else if p \<noteq> 2 \<and> p mod 2 = 0 then Some (False, k)
      else mr_rounds rnd p (odd_part (p - 1)) 26 k)"

partial_function (option) prime_loop :: "(nat \<Rightarrow> u64) \<Rightarrow> u64 \<Rightarrow> nat \<Rightarrow> u64 option" where
  "prime_loop rnd number k =
     (case MillerRabin rnd number k of
        None \<Rightarrow> None
      | Some (isp, k') \<Rightarrow>
          if \<not> isp \<and> number > 2 then prime_loop rnd (number - 2) k' else Some number)"

text \<open>\<open>StegoMath::ClosestSmallerPrime\<close>; \<open>srand(2)\<close> resets the random sequence to its start.\<close>

definition ClosestSmallerPrime :: "(nat \<Rightarrow> u64) \<Rightarrow> u64 \<Rightarrow> u64 option" where
  "ClosestSmallerPrime rnd number =
     (if number < 2 then Some 0
      else let number = (if number mod 2 = 0 then number - 1 else number) in
        (case prime_loop rnd number 0 of
           None \<Rightarrow> None
         | Some n \<Rightarrow> Some (if n > 1 then n else 0)))"

text \<open>\<open>StegoMath::HexBufferToStr\<close>: lower-case hexadecimal digits without padding.\<close>

definition hex_digit :: "nat \<Rightarrow> char" where
  "hex_digit n = (if n < 10 then char_of (48 + n) else char_of (87 + n))"

definition hex_byte :: "u8 \<Rightarrow> string" where
  "hex_byte b = (if unat b < 16 then [hex_digit (unat b)]
                 else [hex_digit (unat b div 16), hex_digit (unat b mod 16)])"

definition HexBufferToStr :: "bytes option \<Rightarrow> nat \<Rightarrow> string" where
  "HexBufferToStr buffer len =
     (case buffer of
        None \<Rightarrow> []
      | Some bs \<Rightarrow> concat (map (\<lambda>b. hex_byte b @ '' '') (take len bs)))"

text \<open>
  \<open>StegoMath::Log2\<close>.  The loop of the code has no bound; it is entered with a number that is not
  zero, where it stops before \<open>leadingZeros\<close> reaches 64 (lemma \<open>log2_loop_bit\<close>).
\<close>

function log2_loop :: "u64 \<Rightarrow> nat \<Rightarrow> nat" where
  "log2_loop number leadingZeros =
     (if leadingZeros < 64 \<and> drop_bit (63 - leadingZeros) number AND 1 = 0
      then log2_loop number (leadingZeros + 1) else leadingZeros)"
  by pat_completeness auto
termination
  by (relation "measure (\<lambda>(n, z). 64 - z)") auto

declare log2_loop.simps [simp del]

definition Log2 :: "u64 \<Rightarrow> u8" where
  "Log2 number = (if number = 0 then 0 else 64 - word_of_nat (log2_loop number 0))"

definition Popcount :: "u64 \<Rightarrow> u8" where
  "Popcount x =
     (let x = x - (drop_bit 1 x AND 0x5555555555555555);
          x = (x AND 0x3333333333333333) + (drop_bit 2 x AND 0x3333333333333333);
          x = (x + drop_bit 4 x) AND 0x0f0f0f0f0f0f0f0f;
          x = x + drop_bit 8 x;
          x = x + drop_bit 16 x;
          x = x + drop_bit 32 x
      in ucast (x AND 0x7f))"

section \<open>Correctness of the modular arithmetic\<close>

lemma Gcd_correct:
  "b \<noteq> 0 \<Longrightarrow> Gcd a b = Inr (word_of_nat (gcd (unat a) (unat b)))"
proof (induction a b rule: Gcd.induct)
  case (1 a b)
  have step: "gcd (unat a) (unat b) = gcd (unat (a mod b)) (unat b)"
    by (metis gcd.commute gcd_red_nat unat_mod)
  show ?case
  proof (cases "a mod b = 0 \<or> b mod (a mod b) = 0")
    case True
    have "b mod (a mod b) = 0 \<Longrightarrow> unat (a mod b) dvd unat b"
      by (metis dvd_eq_mod_eq_0 unat_0 unat_mod)
    with True "1.prems" step show ?thesis
      by (auto simp: Gcd.simps [of a b] Let_def gcd_nat.absorb1)
  next
    case False
    then have "Gcd (a mod b) (b mod (a mod b)) =
                 Inr (word_of_nat (gcd (unat (a mod b)) (unat (b mod (a mod b)))))"
      using "1.IH" "1.prems" by simp
    moreover have "gcd (unat (a mod b)) (unat (b mod (a mod b))) = gcd (unat (a mod b)) (unat b)"
      by (metis gcd.commute gcd_red_nat unat_mod)
    ultimately show ?thesis
      using False "1.prems" step by (simp add: Gcd.simps [of a b] Let_def)
  qed
qed

lemma unat_gcd_fits: "b \<noteq> 0 \<Longrightarrow> unat (word_of_nat (gcd (unat a) (unat (b :: u64))) :: u64) = gcd (unat a) (unat b)"
  by (intro unat_of_nat_upto [of _ b]) (simp add: gcd_le2_nat unat_eq_zero)

lemma u64_mod_2_eq: "(b :: u64) mod 2 = 1 \<longleftrightarrow> odd (unat b)" "(b :: u64) mod 2 = 0 \<longleftrightarrow> even (unat b)"
proof -
  have "unat (b mod 2) = unat b mod 2" by (simp add: unat_mod)
  then show "b mod 2 = 1 \<longleftrightarrow> odd (unat b)" "b mod 2 = 0 \<longleftrightarrow> even (unat b)"
    by (auto simp: word_unat_eq_iff odd_iff_mod_2_eq_one even_iff_mod_2_eq_zero)
qed

text \<open>Modular power.\<close>

lemma unat_mod128: "unat (x mod y :: 128 word) = unat x mod unat y"
  by (simp add: unat_mod)

lemma unat_ucast_64_128: "unat (ucast (c :: u64) :: 128 word) = unat c"
  using unat_u64_less [of c] by (simp add: unsigned_ucast_eq take_bit_nat_eq_self)

lemma unat_mult_128:
  assumes "unat (x :: 128 word) < 2 ^ 64" "unat (y :: 128 word) < 2 ^ 64"
  shows "unat (x * y) = unat x * unat y"
proof -
  have "unat x * unat y < 2 ^ 64 * 2 ^ 64"
    using assms by (intro mult_strict_mono) auto
  then show ?thesis by (simp add: unat_word_ariths)
qed

lemma power_halve: "(y :: nat) ^ n = (y * y) ^ (n div 2) * (if odd n then y else 1)"
proof -
  have "y ^ (2 * e + r) = (y * y) ^ e * y ^ r" for e r
    by (simp add: power_add power_mult power2_eq_square)
  from this [of "n div 2" "n mod 2"] show ?thesis
    by (simp add: odd_iff_mod_2_eq_one)
qed

lemma mod_add_scaled: "(x mod m + k * (y mod m)) mod m = (x + k * y) mod (m :: nat)"
proof -
  have "(x mod m + k * (y mod m)) mod m = (x mod m + (k * (y mod m)) mod m) mod m"
    by (simp only: mod_add_right_eq)
  also have "\<dots> = (x mod m + (k * y) mod m) mod m" by (simp only: mod_mult_right_eq)
  finally show ?thesis by (simp only: mod_add_eq)
qed

lemma mod_mult_power: "(a mod c * (b mod c) ^ e) mod c = (a * b ^ e) mod (c :: nat)"
  by (metis mod_mult_eq mod_mod_trivial power_mod)

lemma modulo_loop_correct:
  assumes "c \<noteq> 0" "unat x < 2 ^ 64" "unat y < 2 ^ 64"
  shows "unat (modulo_loop x y b c) mod unat c = (unat x * unat y ^ unat b) mod unat c"
  using assms
proof (induction x y b c rule: modulo_loop.induct)
  case (1 x y b c)
  show ?case
  proof (cases "b > 0")
    case False
    then have "b = 0" by (simp add: word_neq_0_conv [symmetric])
    then show ?thesis by (simp add: modulo_loop.simps [of x y 0 c])
  next
    case True
    let ?x = "if b mod 2 = 1 then (x * y) mod ucast c else x"
    let ?y = "(y * y) mod ucast c"
    let ?e = "unat b div 2"
    have c: "0 < unat c" "unat c < 2 ^ 64"
      using "1.prems"(1) unat_u64_less [of c] by (auto simp: unat_gt_0)
    have y: "unat ?y = (unat y * unat y) mod unat c" and xy: "unat ((x * y) mod ucast c) = (unat x * unat y) mod unat c"
      using "1.prems" by (simp_all add: unat_mod128 unat_ucast_64_128 unat_mult_128)
    have b2: "unat (b div 2) = ?e" and bm: "b mod 2 = 1 \<longleftrightarrow> odd (unat b)"
      by (simp_all add: unat_div u64_mod_2_eq)
    have lt: "m mod unat c < 2 ^ 64" for m
      using c by (meson less_trans mod_less_divisor)
    have "unat ?x < 2 ^ 64" "unat ?y < 2 ^ 64"
      using "1.prems"(2) y xy lt by auto
    with "1.IH" True "1.prems"(1) have IH: "unat (modulo_loop ?x ?y (b div 2) c) mod unat c = (unat ?x * unat ?y ^ ?e) mod unat c"
      by (simp add: b2)
    have pow: "unat y ^ unat b = (unat y * unat y) ^ ?e * (if odd (unat b) then unat y else 1)"
      by (rule power_halve)
    have "(unat ?x * unat ?y ^ ?e) mod unat c = (unat x * unat y ^ unat b) mod unat c"
    proof (cases "odd (unat b)")
      case True
      then have "unat ?x = (unat x * unat y) mod unat c" by (simp add: bm xy)
      with True show ?thesis unfolding y pow by (simp add: mod_mult_power mult.assoc mult.left_commute mult.commute)
    next
      case False
      then have "unat ?x = unat x" by (simp add: bm)
      with False show ?thesis unfolding y pow
        using mod_mult_right_eq [of "unat x" "(unat y * unat y mod unat c) ^ ?e" "unat c"]
          mod_mult_right_eq [of "unat x" "(unat y * unat y) ^ ?e" "unat c"] by (simp add: power_mod)
    qed
    with IH True show ?thesis by (simp add: modulo_loop.simps [of x y b c])
  qed
qed

lemma Modulo_correct:
  assumes "c \<noteq> 0"
  shows "Modulo a b c = Inr (word_of_nat (unat a ^ unat b mod unat c))"
proof -
  let ?r = "modulo_loop 1 (ucast a) b c mod ucast c"
  have a: "unat (ucast a :: 128 word) = unat a" "unat (ucast c :: 128 word) = unat c"
    by (simp_all add: unat_ucast_64_128)
  have "unat (1 :: 128 word) < 2 ^ 64" "unat (ucast a :: 128 word) < 2 ^ 64"
    using unat_u64_less [of a] a by simp_all
  from modulo_loop_correct [OF assms this, of b]
  have r: "unat ?r = unat a ^ unat b mod unat c"
    using a by (simp add: unat_mod128)
  have "ucast ?r = (word_of_nat (unat ?r) :: u64)"
    by simp
  with r assms show ?thesis by (simp add: Modulo_def)
qed

lemma drop_bit_1_unat: "unat (drop_bit 1 (a :: u64)) = unat a div 2"
  by (simp add: drop_bit_eq_div unat_div)

lemma and_1_u64: "(a :: u64) AND 1 \<noteq> 0 \<longleftrightarrow> odd (unat a)"
  by (simp add: and_one_eq u64_mod_2_eq)

lemma unat_mod_bound: "m \<noteq> 0 \<Longrightarrow> unat (x mod m :: u64) < unat m"
  by (simp add: unat_mod unat_gt_0)

lemma mulmod_loop_correct:
  assumes "unat m \<le> 2 ^ 63" "m \<noteq> 0" "unat res < unat m" "unat b < 2 ^ 63"
  shows "unat (mulmod_loop res a b m) = (unat res + unat a * unat b) mod unat m"
  using assms
proof (induction res a b m rule: mulmod_loop.induct)
  case (1 res a b m)
  show ?case
  proof (cases "a = 0")
    case True
    with "1.prems" show ?thesis by (simp add: mulmod_loop.simps [of res 0 b m])
  next
    case False
    let ?r = "if a AND 1 \<noteq> 0 then (res + b) mod m else res"
    let ?b = "push_bit 1 b mod m"
    have rb: "unat (res + b) = unat res + unat b"
      using "1.prems" by (intro unat_add_no_wrap) simp
    have bb: "unat (push_bit 1 b) = 2 * unat b"
      using "1.prems"(4) unat_mult_no_wrap [of 2 b] by (simp add: push_bit_eq_mult mult.commute)
    have r: "unat ?r = (unat res + (unat a mod 2) * unat b) mod unat m"
    proof (cases "odd (unat a)")
      case True
      then show ?thesis by (simp add: and_1_u64 unat_mod rb odd_iff_mod_2_eq_one)
    next
      case False
      then show ?thesis using "1.prems"(3) by (simp add: and_1_u64)
    qed
    have b: "unat ?b = (2 * unat b) mod unat m"
      using bb by (simp only: unat_mod)
    have "unat ?r < unat m" "unat ?b < unat m"
      using "1.prems"(2,3) unat_mod_bound by auto
    with "1.IH" [OF False "1.prems"(1,2)] "1.prems"(1)
    have "unat (mulmod_loop ?r (drop_bit 1 a) ?b m) = (unat ?r + unat (drop_bit 1 a) * unat ?b) mod unat m"
      by simp
    also have "\<dots> = ((unat res + (unat a mod 2) * unat b) + (unat a div 2) * (2 * unat b)) mod unat m"
      unfolding r b drop_bit_1_unat
      by (rule mod_add_scaled)
    also have "(unat res + (unat a mod 2) * unat b) + (unat a div 2) * (2 * unat b) = unat res + unat a * unat b"
    proof -
      have "unat a * unat b = (unat a mod 2 + 2 * (unat a div 2)) * unat b" by simp
      then show ?thesis by (simp only: distrib_right mult.assoc mult.left_commute add.assoc)
    qed
    finally show ?thesis using False by (simp add: mulmod_loop.simps [of res a b m])
  qed
qed

lemma Mulmod_correct:
  assumes "m \<noteq> 0" "unat m \<le> 2 ^ 63" "unat b < 2 ^ 63"
  shows "Mulmod a b m = Inr (word_of_nat (unat a * unat b mod unat m))"
proof (cases "a < 0xFFFFFF \<and> b < 0xFFFFFF")
  case True
  then have "unat a * unat b \<le> 0xFFFFFF * 0xFFFFFF"
    by (intro mult_le_mono) (auto simp: word_less_nat_alt)
  then have "unat (a * b) = unat a * unat b"
    by (intro unat_mult_no_wrap) simp
  then have "unat ((a * b) mod m) = unat a * unat b mod unat m" by (simp add: unat_mod)
  moreover have "(a * b) mod m = word_of_nat (unat ((a * b) mod m))" by simp
  ultimately show ?thesis using True assms(1) by (simp add: Mulmod_def)
next
  case False
  have "unat (mulmod_loop 0 a b m) = unat a * unat b mod unat m"
    using mulmod_loop_correct [of m 0 b a] assms by (simp add: unat_gt_0)
  moreover have "mulmod_loop 0 a b m = word_of_nat (unat (mulmod_loop 0 a b m))" by simp
  ultimately have "mulmod_loop 0 a b m = word_of_nat (unat a * unat b mod unat m)" by (simp only:)
  then show ?thesis using False assms(1) by (auto simp: Mulmod_def)
qed

section \<open>Prime numbers\<close>

text \<open>Primes, and Fermat's little theorem from the binomial theorem.\<close>

definition is_prime :: "nat \<Rightarrow> bool" where
  "is_prime p \<longleftrightarrow> 1 < p \<and> (\<forall>d. d dvd p \<longrightarrow> d = 1 \<or> d = p)"

lemma prime_coprime: "is_prime p \<Longrightarrow> \<not> p dvd a \<Longrightarrow> coprime p a"
  unfolding is_prime_def by (metis coprime_def gcd_dvd1 gcd_dvd2 coprime_iff_gcd_eq_1)

lemma prime_dvd_mult: "is_prime p \<Longrightarrow> p dvd a * b \<Longrightarrow> p dvd a \<or> p dvd b"
  using prime_coprime by (metis coprime_dvd_mult_right_iff)

lemma prime_dvd_choose:
  assumes "is_prime p" "0 < k" "k < p"
  shows "p dvd (p choose k)"
proof -
  have "p dvd k * (p choose k)"
    by (simp add: times_binomial_minus1_eq assms(2))
  moreover have "\<not> p dvd k" using assms(2,3) by (meson dvd_imp_le leD)
  ultimately show ?thesis using prime_dvd_mult [OF assms(1)] by blast
qed

lemma fermat_step:
  assumes "is_prime p"
  shows "(a + 1) ^ p mod p = (a ^ p + 1) mod p"
proof -
  have p: "0 < p" using assms by (simp add: is_prime_def)
  let ?f = "\<lambda>k. (p choose k) * a ^ k"
  have "{..p} = {1..<p} \<union> {0, p}" using p by auto
  moreover have "{1..<p} \<inter> {0, p} = {}" by auto
  ultimately have "(a + 1) ^ p = sum ?f {1..<p} + sum ?f {0, p}"
    by (simp only: binomial_ring [of a 1 p] power_one mult_1_right of_nat_id)
       (rule sum.union_disjoint, simp_all)
  also have "sum ?f {0, p} = a ^ p + 1" using p by simp
  finally have "(a + 1) ^ p = sum ?f {1..<p} + (a ^ p + 1)" .
  moreover have "p dvd sum ?f {1..<p}"
    by (intro dvd_sum dvd_mult2 prime_dvd_choose assms) auto
  then obtain q where "sum ?f {1..<p} = p * q" by (elim dvdE)
  ultimately have "(a + 1) ^ p = p * q + (a ^ p + 1)" by (simp only:)
  then show ?thesis by (simp only: mod_mult_self4)
qed

lemma fermat_power: "is_prime p \<Longrightarrow> a ^ p mod p = a mod p"
proof (induction a)
  case 0
  then show ?case by (simp add: is_prime_def power_0_left)
next
  case (Suc a)
  have "(a + 1) ^ p mod p = (a ^ p mod p + 1) mod p"
    using fermat_step [OF Suc.prems, of a] by (simp add: mod_simps)
  also have "\<dots> = (a + 1) mod p" by (simp add: Suc mod_simps)
  finally show ?case by simp
qed

lemma fermat:
  assumes "is_prime p" "\<not> p dvd a"
  shows "a ^ (p - 1) mod p = 1"
proof -
  have p: "1 < p" using assms(1) by (simp add: is_prime_def)
  have a: "0 < a" using assms(2) by (cases "a = 0") simp_all
  have "(a * a ^ (p - 1)) mod p = a mod p"
    using fermat_power [OF assms(1), of a] p by (simp flip: power_Suc)
  moreover have "a \<le> a * a ^ (p - 1)" using a by simp
  ultimately have "p dvd a * a ^ (p - 1) - a" by (simp add: mod_eq_dvd_iff_nat)
  then have "p dvd a * (a ^ (p - 1) - 1)" by (simp add: diff_mult_distrib2)
  then have "p dvd a ^ (p - 1) - 1" using prime_dvd_mult [OF assms(1)] assms(2) by blast
  moreover have "1 \<le> a ^ (p - 1)" using a by simp
  ultimately have "a ^ (p - 1) mod p = 1 mod p" using mod_eq_dvd_iff_nat [of 1 "a ^ (p - 1)" p] by blast
  then show ?thesis using p by simp
qed

lemma prime_sqrt_one:
  assumes "is_prime p" "x < p" "x * x mod p = 1"
  shows "x = 1 \<or> x = p - 1"
proof -
  have p: "1 < p" using assms(1) by (simp add: is_prime_def)
  have x: "1 \<le> x" using assms(3) by (cases x) simp_all
  then have "1 \<le> x * x" by simp
  moreover have "x * x mod p = 1 mod p" using assms(3) p by simp
  ultimately have "p dvd x * x - 1" using mod_eq_dvd_iff_nat [of 1 "x * x" p] by blast
  also have "x * x - 1 = (x - 1) * (x + 1)"
    using x by (simp add: algebra_simps)
  finally have "p dvd x - 1 \<or> p dvd x + 1" using prime_dvd_mult [OF assms(1)] by blast
  moreover have "p dvd x - 1 \<Longrightarrow> x = 1"
    using assms(2) x by (cases "x = 1") (auto dest: dvd_imp_le)
  moreover have "p dvd x + 1 \<Longrightarrow> x = p - 1"
    using assms(2) x by (auto dest: dvd_imp_le)
  ultimately show ?thesis by blast
qed

section \<open>The prime search returns\<close>

lemma Mulmod_total: "m \<noteq> 0 \<Longrightarrow> \<exists>r. Mulmod a b m = Inr r"
  by (simp add: Mulmod_def)

lemma odd_part_spec:
  "s \<noteq> 0 \<Longrightarrow> odd (unat (odd_part s)) \<and> (\<exists>t. unat s = unat (odd_part s) * 2 ^ t)"
proof (induction s rule: odd_part.induct)
  case (1 s)
  have m: "s mod 2 = 0 \<longleftrightarrow> even (unat s)"
  proof -
    have "unat (s mod 2) = unat s mod 2" by (simp add: unat_mod)
    then show ?thesis by (auto simp: word_unat_eq_iff even_iff_mod_2_eq_zero)
  qed
  show ?case
  proof (cases "s mod 2 = 0")
    case True
    then have "unat s = 2 * (unat s div 2)" using m by simp
    moreover have u: "unat (s div 2) = unat s div 2" by (simp add: unat_div)
    ultimately have "s div 2 \<noteq> 0" using "1.prems" by (auto simp: word_unat_eq_iff)
    with "1.IH" True "1.prems" obtain t where
      "odd (unat (odd_part (s div 2)))" "unat s div 2 = unat (odd_part (s div 2)) * 2 ^ t"
      using u by auto
    then have "odd (unat (odd_part (s div 2)))" "unat s = unat (odd_part (s div 2)) * 2 ^ Suc t"
      using \<open>unat s = 2 * (unat s div 2)\<close> by simp_all
    then show ?thesis using True "1.prems" by (subst (1 2) odd_part.simps) (auto simp del: power_Suc)
  next
    case False
    then have "odd_part s = s" by (subst odd_part.simps) simp
    then show ?thesis using False m by (auto intro: exI [of _ 0])
  qed
qed

lemma square_loop_returns:
  assumes "p \<noteq> 0" "unat temp * 2 ^ t = unat (p - 1)"
  shows "\<exists>r. square_loop p temp m = Some r"
  using assms
proof (induction t arbitrary: temp m)
  case 0
  then have "temp = p - 1" by (simp add: word_unat_eq_iff)
  then show ?case by (subst square_loop.simps) simp
next
  case (Suc t)
  have "unat temp * 2 \<le> unat temp * 2 * 2 ^ t" by simp
  also have "\<dots> = unat (p - 1)" using Suc.prems(2) by (simp add: ac_simps)
  finally have "unat (temp * 2) = unat temp * 2"
    using unat_u64_less [of "p - 1"] unat_mult_no_wrap [of temp 2] by simp
  then have "unat (temp * 2) * 2 ^ t = unat (p - 1)" using Suc.prems(2) by simp
  from Suc.IH [OF Suc.prems(1) this]
  show ?case using Mulmod_total [OF Suc.prems(1), of m m]
    by (subst square_loop.simps) auto
qed

lemma mr_round_returns:
  assumes "2 \<le> p"
  shows "\<exists>b. mr_round p (odd_part (p - 1)) r = Some b"
proof -
  have p: "p \<noteq> 0" "p - 1 \<noteq> 0" using assms by (auto simp: word_le_nat_alt)
  from odd_part_spec [OF p(2)] obtain t where "unat (odd_part (p - 1)) * 2 ^ t = unat (p - 1)" by metis
  from square_loop_returns [OF p(1) this] p(1) show ?thesis
    by (auto simp: mr_round_def Modulo_def Let_def split: option.splits)
qed

lemma mr_rounds_returns:
  assumes "2 \<le> p"
  shows "mr_rounds rnd p (odd_part (p - 1)) n k \<noteq> None"
proof (induction n arbitrary: k)
  case (Suc n)
  from mr_round_returns [OF assms] obtain b where "mr_round p (odd_part (p - 1)) (rnd k) = Some b" ..
  with Suc [of "Suc k"] show ?case by (cases b) (simp_all del: not_None_eq)
next
  case 0
  show ?case by simp
qed

lemma MillerRabin_returns: "\<exists>b k'. MillerRabin rnd p k = Some (b, k')"
proof (cases "2 \<le> p")
  case True
  from mr_rounds_returns [OF this, of rnd 26 k] show ?thesis
    by (auto simp: MillerRabin_def split: prod.splits)
next
  case False
  then show ?thesis by (auto simp: MillerRabin_def word_less_nat_alt word_le_nat_alt)
qed

lemma prime_loop_returns:
  assumes "odd (unat number)"
  shows "\<exists>n. prime_loop rnd number k = Some n \<and> n \<le> number \<and> odd (unat n)
              \<and> (n \<le> 2 \<or> (\<exists>j j'. MillerRabin rnd n j = Some (True, j')))
              \<and> (\<forall>q. n < q \<and> q \<le> number \<and> odd (unat q) \<longrightarrow> (\<exists>j j'. MillerRabin rnd q j = Some (False, j')))"
  using assms
proof (induction "unat number" arbitrary: number k rule: less_induct)
  case less
  obtain b k' where mr: "MillerRabin rnd number k = Some (b, k')"
    using MillerRabin_returns by blast
  show ?case
  proof (cases "\<not> b \<and> 2 < number")
    case False
    then have "prime_loop rnd number k = Some number"
      by (subst prime_loop.simps) (auto simp: mr)
    with False less.prems mr show ?thesis by (auto simp: not_less)
  next
    case True
    then have n2: "unat (number - 2) = unat number - 2"
      by (intro unat_sub_no_wrap [of 2, simplified]) (simp add: word_less_nat_alt)
    have "unat (number - 2) < unat number" "odd (unat (number - 2))"
      using n2 True less.prems by (auto simp: word_less_nat_alt)
    from less.hyps [OF this, of k'] obtain n where n:
      "prime_loop rnd (number - 2) k' = Some n" "n \<le> number - 2" "odd (unat n)"
      "n \<le> 2 \<or> (\<exists>j j'. MillerRabin rnd n j = Some (True, j'))"
      "\<And>q. n < q \<Longrightarrow> q \<le> number - 2 \<Longrightarrow> odd (unat q) \<Longrightarrow> \<exists>j j'. MillerRabin rnd q j = Some (False, j')"
      by blast
    have "prime_loop rnd number k = Some n"
      using True n(1) by (subst prime_loop.simps) (simp add: mr)
    moreover have "n \<le> number" using n(2) n2 by (simp add: word_le_nat_alt)
    moreover have "\<exists>j j'. MillerRabin rnd q j = Some (False, j')"
      if q: "n < q" "q \<le> number" "odd (unat q)" for q
    proof (cases "q = number")
      case True
      with mr \<open>\<not> b \<and> 2 < number\<close> show ?thesis by auto
    next
      case False
      with q less.prems have "unat q \<le> unat number - 2"
        by (auto simp: word_le_nat_alt word_unat_eq_iff) presburger
      with n2 have "q \<le> number - 2" by (simp add: word_le_nat_alt)
      with n(5) q show ?thesis by blast
    qed
    ultimately show ?thesis using n by blast
  qed
qed


section \<open>Primes pass the test\<close>


lemma unat_pred_u64: "0 < unat x \<Longrightarrow> unat (x - 1 :: u64) = unat x - 1"
  using unat_sub_no_wrap [of 1 x] by simp

lemma unat_pred_prime: "is_prime (unat p) \<Longrightarrow> unat (p - 1 :: u64) = unat p - 1"
  by (rule unat_pred_u64) (simp add: is_prime_def)

lemma square_loop_prime:
  assumes "is_prime (unat p)" "unat p \<le> 2 ^ 63" "\<not> unat p dvd a"
      and "unat temp * 2 ^ t = unat (p - 1)" "unat m = a ^ unat temp mod unat p"
      and "even (unat temp) \<Longrightarrow> m \<noteq> 1" "square_loop p temp m = Some (temp', m')"
  shows "m' = p - 1 \<or> odd (unat temp')"
  using assms(4-)
proof (induction t arbitrary: temp m)
  case 0
  then have "temp = p - 1" by (simp add: word_unat_eq_iff)
  with 0 have e: "temp' = p - 1" "m' = m" by (simp_all add: square_loop.simps [of p "p - 1" m])
  have "unat (p - 1) = unat p - 1"
    by (rule unat_pred_prime [OF assms(1)])
  then have "unat m = 1" using 0 \<open>temp = p - 1\<close> fermat [OF assms(1,3)] by simp
  then have "m = 1" by (simp add: word_unat_eq_iff)
  with 0 e \<open>temp = p - 1\<close> show ?case by auto
next
  case (Suc t)
  have p: "p \<noteq> 0" using assms(1) by (auto simp: is_prime_def)
  show ?case
  proof (cases "temp \<noteq> p - 1 \<and> m \<noteq> 1 \<and> m \<noteq> p - 1")
    case False
    then have e: "temp' = temp" "m' = m" using Suc.prems(4) by (auto simp: square_loop.simps [of p temp m])
    show ?thesis
    proof (cases "temp = p - 1")
      case True
      have "unat (p - 1) = unat p - 1"
        by (rule unat_pred_prime [OF assms(1)])
      then have "unat m = 1" using Suc.prems(2) True fermat [OF assms(1,3)] by simp
      then have "m = 1" by (simp add: word_unat_eq_iff)
      with Suc.prems(3) e show ?thesis by auto
    qed (use False Suc.prems(3) e in auto)
  next
    case True
    have "unat m < unat p" using Suc.prems(2) p by (simp add: unat_gt_0)
    then have "unat m < 2 ^ 63" using assms(2) by simp
    then obtain m2 where mm: "Mulmod m m p = Inr m2" "m2 = word_of_nat (unat m * unat m mod unat p)"
      using Mulmod_correct [OF p assms(2)] by blast
    have um2: "unat m2 = unat m * unat m mod unat p"
      unfolding mm(2) using p by (intro unat_of_nat_below [of _ p]) (simp add: unat_gt_0)
    have "unat temp * 2 \<le> unat temp * 2 * 2 ^ t" by simp
    also have "\<dots> = unat (p - 1)" using Suc.prems(1) by (simp add: ac_simps)
    finally have t2: "unat (temp * 2) = unat temp * 2"
      using unat_u64_less [of "p - 1"] unat_mult_no_wrap [of temp 2] by simp
    have "unat (temp * 2) * 2 ^ t = unat (p - 1)" using Suc.prems(1) t2 by simp
    moreover have "unat m2 = a ^ unat (temp * 2) mod unat p"
      unfolding um2 t2 Suc.prems(2) by (simp add: power_mult power2_eq_square power_mult_distrib mod_mult_eq)
    moreover have "m2 \<noteq> 1"
    proof
      assume "m2 = 1"
      then have "unat m * unat m mod unat p = 1" using um2 by simp
      with prime_sqrt_one [OF assms(1) \<open>unat m < unat p\<close>] have "unat m = 1 \<or> unat m = unat p - 1" .
      moreover have "unat (p - 1) = unat p - 1"
        by (rule unat_pred_prime [OF assms(1)])
      ultimately show False using True by (auto simp: word_unat_eq_iff)
    qed
    moreover have "square_loop p (temp * 2) m2 = Some (temp', m')"
      using Suc.prems(4) True mm(1) by (simp add: square_loop.simps [of p temp m])
    ultimately show ?thesis using Suc.IH by blast
  qed
qed

lemma mr_round_accepts_prime:
  assumes "is_prime (unat p)" "unat p \<le> 2 ^ 63"
  shows "mr_round p (odd_part (p - 1)) r = Some True"
proof -
  let ?s = "odd_part (p - 1)" and ?a = "r mod (p - 1) + 1"
  have p: "p \<noteq> 0" "2 \<le> p" and up: "unat (p - 1) = unat p - 1" and p1: "p - 1 \<noteq> 0"
    using assms(1) unat_sub_no_wrap [of 1 p] by (auto simp: is_prime_def word_le_nat_alt word_unat_eq_iff)
  from odd_part_spec [OF p1] obtain t where s: "odd (unat ?s)" "unat ?s * 2 ^ t = unat (p - 1)" by metis
  have "unat (r mod (p - 1)) < unat p - 1" using unat_mod_bound [OF p1, of r] up by simp
  moreover from this have "unat ?a = unat (r mod (p - 1)) + 1"
    using unat_u64_less [of p] unat_add_no_wrap [of "r mod (p - 1)" 1] by simp
  ultimately have a: "0 < unat ?a" "unat ?a < unat p" by simp_all
  then have nd: "\<not> unat p dvd unat ?a" by (auto dest: dvd_imp_le)
  let ?m = "word_of_nat (unat ?a ^ unat ?s mod unat p) :: u64"
  have m: "unat ?m = unat ?a ^ unat ?s mod unat p"
    using p by (intro unat_of_nat_below [of _ p]) (simp add: unat_gt_0)
  obtain temp' m' where sq: "square_loop p ?s ?m = Some (temp', m')"
    using square_loop_returns [OF p(1) s(2)] by (metis old.prod.exhaust)
  have "m' = p - 1 \<or> odd (unat temp')"
    using square_loop_prime [OF assms nd s(2) m _ sq] s(1) by blast
  then show ?thesis
    using p(1) sq by (auto simp: mr_round_def Modulo_correct Let_def u64_mod_2_eq)
qed

lemma mr_rounds_accept_prime:
  assumes "is_prime (unat p)" "unat p \<le> 2 ^ 63"
  shows "\<exists>k'. mr_rounds rnd p (odd_part (p - 1)) n k = Some (True, k')"
  by (induction n arbitrary: k) (simp_all add: mr_round_accepts_prime [OF assms])

lemma MillerRabin_accepts_prime:
  assumes "is_prime (unat p)" "unat p \<le> 2 ^ 63"
  shows "\<exists>k'. MillerRabin rnd p k = Some (True, k')"
proof -
  have "\<not> p < 2" using assms(1) by (simp add: is_prime_def word_less_nat_alt)
  moreover have "p = 2 \<or> p mod 2 \<noteq> 0"
  proof (rule ccontr)
    assume "\<not> (p = 2 \<or> p mod 2 \<noteq> 0)"
    then have "2 dvd unat p" "unat p \<noteq> 2" using u64_mod_2_eq(2) [of p] by (auto simp: word_unat_eq_iff)
    with assms(1) show False by (auto simp: is_prime_def)
  qed
  ultimately show ?thesis
    using mr_rounds_accept_prime [OF assms] by (auto simp: MillerRabin_def)
qed

lemma ClosestSmallerPrime_spec:
  "\<exists>n. ClosestSmallerPrime rnd number = Some n \<and> n \<le> number \<and> (n = 0 \<or> odd (unat n) \<and> 2 < n) \<and>
       (\<forall>q. n < q \<and> q \<le> number \<and> is_prime (unat q) \<and> unat q \<le> 2 ^ 63 \<longrightarrow> q = 2)"
proof (cases "number < 2")
  case True
  then show ?thesis by (auto simp: ClosestSmallerPrime_def is_prime_def word_less_nat_alt word_le_nat_alt)
next
  case False
  define m where "m = (if number mod 2 = 0 then number - 1 else number)"
  have n1: "unat (number - 1) = unat number - 1"
    using False by (intro unat_pred_u64) (simp add: word_less_nat_alt)
  have modd: "odd (unat m)" and mle: "m \<le> number" and mlow: "unat number \<le> unat m + 1"
    using False n1 by (auto simp: m_def u64_mod_2_eq word_less_nat_alt word_le_nat_alt)
  obtain n where n: "prime_loop rnd m 0 = Some n" "n \<le> m" "odd (unat n)"
      "\<And>q. n < q \<Longrightarrow> q \<le> m \<Longrightarrow> odd (unat q) \<Longrightarrow> \<exists>j j'. MillerRabin rnd q j = Some (False, j')"
    using prime_loop_returns [OF modd, of rnd 0] by blast
  have res: "ClosestSmallerPrime rnd number = Some (if n > 1 then n else 0)"
    using False n(1) by (simp add: ClosestSmallerPrime_def m_def [symmetric])
  have odd2: "n > 1 \<Longrightarrow> 2 < n"
    using n(3) by (cases "unat n = 2") (auto simp: word_less_nat_alt)
  have q: "q = 2" if "n < q" "q \<le> number" "is_prime (unat q)" "unat q \<le> 2 ^ 63" for q
  proof (rule ccontr)
    assume "q \<noteq> 2"
    then have oq: "odd (unat q)" using that(3) by (auto simp: is_prime_def word_unat_eq_iff)
    have "q \<le> m"
      using that(2) mlow modd oq by (cases "unat q = unat m + 1") (auto simp: word_le_nat_alt)
    with n(4) that(1) oq obtain j j' where "MillerRabin rnd q j = Some (False, j')" by blast
    with MillerRabin_accepts_prime [OF that(3,4), of rnd j] show False by simp
  qed
  show ?thesis
  proof (cases "n > 1")
    case True
    then show ?thesis using res n(2,3) mle odd2 q by auto
  next
    case False
    then have "n < q" if "is_prime (unat q)" for q :: u64
      using that by (auto simp: is_prime_def word_less_nat_alt)
    with False show ?thesis using res q by auto
  qed
qed

section \<open>Bit length and bit count\<close>

lemma log2_loop_bit:
  assumes "number \<noteq> 0" "z \<le> 63" "\<forall>i. 63 - z < i \<longrightarrow> \<not> bit number i"
  shows "log2_loop number z < 64 \<and> bit number (63 - log2_loop number z)
           \<and> (\<forall>i > 63 - log2_loop number z. \<not> bit number i)"
  using assms
proof (induction number z rule: log2_loop.induct)
  case (1 number z)
  have b: "drop_bit (63 - z) number AND 1 = 0 \<longleftrightarrow> \<not> bit number (63 - z)"
    by (simp add: and_one_eq even_drop_bit_iff_not_bit flip: even_iff_mod_2_eq_zero)
  show ?case
  proof (cases "bit number (63 - z)")
    case True
    then have "log2_loop number z = z" by (subst log2_loop.simps) (simp add: b)
    with True "1.prems" show ?thesis by auto
  next
    case False
    have "z \<noteq> 63"
    proof
      assume "z = 63"
      have "\<not> bit number i" for i using False "1.prems"(3) \<open>z = 63\<close> by (cases "i = 0") auto
      then have "number = 0" by (intro bit_eqI) simp
      with "1.prems"(1) show False ..
    qed
    with "1.prems"(2) have z: "z + 1 \<le> 63" by simp
    have n: "\<forall>i. 63 - (z + 1) < i \<longrightarrow> \<not> bit number i"
    proof clarify
      fix i assume "63 - (z + 1) < i" "bit number i"
      with False "1.prems"(3) z show False by (cases "i = 63 - z") auto
    qed
    have l: "log2_loop number z = log2_loop number (z + 1)"
      using False z by (subst log2_loop.simps) (simp add: b)
    have "z < 64 \<and> drop_bit (63 - z) number AND 1 = 0" using z False b by simp
    from "1.IH" [OF this "1.prems"(1) z n] show ?thesis unfolding l .
  qed
qed

text \<open>\<open>Log2\<close> is the number of binary digits.\<close>

lemma Log2_bounds:
  assumes "number \<noteq> 0"
  shows "1 \<le> unat (Log2 number)" "unat (Log2 number) \<le> 64"
    "2 ^ (unat (Log2 number) - 1) \<le> unat number" "unat number < 2 ^ unat (Log2 number)"
proof -
  let ?z = "log2_loop number 0"
  have z: "?z < 64" "bit number (63 - ?z)" "\<forall>i. 63 - ?z < i \<longrightarrow> \<not> bit number i"
  proof -
    have "\<forall>i. 63 - 0 < i \<longrightarrow> \<not> bit number i" using bit_imp_le_length [of number] by fastforce
    from log2_loop_bit [OF assms _ this]
    show "?z < 64" "bit number (63 - ?z)" "\<forall>i. 63 - ?z < i \<longrightarrow> \<not> bit number i" by simp_all
  qed
  have "unat (word_of_nat ?z :: u8) = ?z" using z(1) by (simp add: unat_of_nat take_bit_nat_eq_self)
  then have L: "unat (Log2 number) = 64 - ?z"
    using assms z(1) by (simp add: Log2_def unat_sub word_le_nat_alt)
  show "1 \<le> unat (Log2 number)" "unat (Log2 number) \<le> 64" using z(1) L by auto
  have bu: "bit (unat number) i = bit number i" for i
    by (simp add: bit_unsigned_iff)
  have "2 ^ (63 - ?z) \<le> unat number"
  proof (rule ccontr)
    assume "\<not> ?thesis"
    then have "unat number div 2 ^ (63 - ?z) = 0" by simp
    with z(2) bu [of "63 - ?z"] show False by (simp add: bit_iff_odd)
  qed
  then show "2 ^ (unat (Log2 number) - 1) \<le> unat number" using z(1) L by simp
  have "unat number = take_bit (64 - ?z) (unat number)"
  proof (rule bit_eqI)
    fix i
    have "i < 64 - ?z" if "bit number i"
    proof (rule ccontr)
      assume "\<not> i < 64 - ?z"
      with z(1) have "63 - ?z < i" by simp
      with z(3) that show False by blast
    qed
    then show "bit (unat number) i = bit (take_bit (64 - ?z) (unat number)) i"
      by (auto simp: bit_take_bit_iff bu)
  qed
  then show "unat number < 2 ^ unat (Log2 number)"
    unfolding L by (metis take_bit_nat_less_exp)
qed

section \<open>Bit count\<close>

fun bit_count :: "nat \<Rightarrow> nat" where
  "bit_count n = (if n = 0 then 0 else n mod 2 + bit_count (n div 2))"

declare bit_count.simps [simp del]

lemma bit_count_card: "bit_count n = card {i. bit n i}"
proof (induction n rule: bit_count.induct)
  case (1 n)
  show ?case
  proof (cases "n = 0")
    case True
    then show ?thesis by (simp add: bit_count.simps)
  next
    case False
    have fin: "finite {i. bit m i}" for m :: nat
    proof (rule finite_subset)
      show "{i. bit m i} \<subseteq> {..<m}"
      proof clarsimp
        fix i assume "bit m i"
        then have "m div 2 ^ i \<noteq> 0" by (metis bit_iff_odd even_zero)
        then have "2 ^ i \<le> m" by (meson div_less not_le)
        then show "i < m" using less_exp [of i] by linarith
      qed
    qed simp
    have "{i. bit n i} = (if odd n then {0} else {}) \<union> Suc ` {i. bit (n div 2) i}"
    proof (rule set_eqI)
      fix i show "i \<in> {i. bit n i} \<longleftrightarrow> i \<in> (if odd n then {0} else {}) \<union> Suc ` {i. bit (n div 2) i}"
        by (cases i) (auto simp: bit_0 bit_Suc)
    qed
    then have "card {i. bit n i} = (if odd n then 1 else 0) + card (Suc ` {i. bit (n div 2) i})"
      using fin [of "n div 2"] by (simp add: card_insert_if)
    then show ?thesis
      using False 1 by (simp add: bit_count.simps [of n] card_image odd_iff_mod_2_eq_one)
  qed
qed

lemma bit_count_double: "b < 2 \<Longrightarrow> bit_count (b + 2 * n) = b + bit_count n"
  by (subst bit_count.simps) (auto simp: less_2_cases_iff bit_count.simps [of 0])

lemma bit_count_byte: "d < 2 ^ k \<Longrightarrow> bit_count (d + 2 ^ k * n) = bit_count d + bit_count n"
proof (induction k arbitrary: d)
  case 0
  then show ?case by (simp add: bit_count.simps [of 0])
next
  case (Suc k)
  let ?b = "d mod 2" and ?e = "d div 2"
  have d: "d = ?b + 2 * ?e" and b: "?b < 2" by simp_all
  have "d + 2 ^ Suc k * n = ?b + 2 * (?e + 2 ^ k * n)" by (simp add: algebra_simps)
  then have "bit_count (d + 2 ^ Suc k * n) = ?b + bit_count (?e + 2 ^ k * n)"
    using bit_count_double [OF b] by (simp only:)
  also have "bit_count (?e + 2 ^ k * n) = bit_count ?e + bit_count n"
    using Suc.prems by (intro Suc.IH) auto
  finally show ?case using bit_count_double [OF b, of ?e] d by simp
qed

text \<open>
  The steps of \<open>Popcount\<close> act on the bytes of the number one by one: on a number given by its
  bytes, least significant first, no step borrows or carries across a byte.
\<close>

fun of_bytes :: "int list \<Rightarrow> int" where
  "of_bytes [] = 0"
| "of_bytes (d # ds) = d + 256 * of_bytes ds"

definition pc1 :: "int \<Rightarrow> int \<Rightarrow> int" where
  "pc1 m x = x - (x div 2 AND m)"

definition pc2 :: "int \<Rightarrow> int \<Rightarrow> int" where
  "pc2 m x = (x AND m) + (x div 4 AND m)"

definition pc3 :: "int \<Rightarrow> int \<Rightarrow> int" where
  "pc3 m x = (x + x div 16) AND m"

definition byte_ok :: "int \<Rightarrow> bool" where
  "byte_ok d \<longleftrightarrow>
     (let d1 = pc1 85 d; d2 = pc2 51 d1; d3 = pc3 15 d2
      in (d div 2 + 128) AND 85 = d div 2 AND 85 \<and> 0 \<le> d1 \<and> d1 < 256
         \<and> list_all (\<lambda>h. (d1 div 4 + 64 * h) AND 51 = d1 div 4 AND 51) [0..3]
         \<and> 0 \<le> d2 \<and> d2 < 128 \<and> d2 mod 16 \<le> 4
         \<and> list_all (\<lambda>h. d2 + d2 div 16 + 16 * h < 256 \<and> (d2 + d2 div 16 + 16 * h) AND 15 = d3) [0..4]
         \<and> d3 = int (bit_count (nat d)))"

lemma byte_ok_all: "list_all byte_ok [0..255]"
  by code_simp

lemma byte_ok: "0 \<le> d \<Longrightarrow> d < 256 \<Longrightarrow> byte_ok d"
  using byte_ok_all by (simp add: list_all_iff)

lemma and_digit:
  fixes a b c d :: int
  assumes "0 \<le> a" "a < 256" "0 \<le> c" "c < 256"
  shows "(a + 256 * b) AND (c + 256 * d) = (a AND c) + 256 * (b AND d)"
proof -
  have pb: "x + 256 * y = take_bit 8 x OR push_bit 8 y" if "0 \<le> x" "x < 256" for x y :: int
  proof -
    have "take_bit 8 x = x" using that by (simp add: take_bit_int_eq_self_iff)
    moreover have "take_bit 8 x OR push_bit 8 y = take_bit 8 x + push_bit 8 y"
      by (rule disjunctive_add [symmetric]) (auto simp: bit_simps)
    ultimately show ?thesis by (simp add: push_bit_eq_mult)
  qed
  have ac: "0 \<le> a AND c" "a AND c < 256"
    using assms AND_upper1 [of a c] by auto
  show ?thesis unfolding pb [OF assms(1,2)] pb [OF assms(3,4)] pb [OF ac]
    by (rule bit_eqI) (auto simp: bit_simps)
qed

lemma byte_shift:
  fixes d r :: int
  shows "(d + 256 * r) div 2 = d div 2 + 128 * (r mod 2) + 256 * (r div 2)"
    and "(d + 256 * r) div 4 = d div 4 + 64 * (r mod 4) + 256 * (r div 4)"
    and "d + 256 * r + (d + 256 * r) div 16 = d + d div 16 + 16 * (r mod 16) + 256 * (r + r div 16)"
    and "(d + 256 * r) mod 16 = d mod 16"
proof -
  have m: "r = k * (r div k) + r mod k" for k by simp
  have "(d + 2 * (128 * r)) div 2 = d div 2 + 128 * r" "(d + 4 * (64 * r)) div 4 = d div 4 + 64 * r"
    "(d + 16 * (16 * r)) div 16 = d div 16 + 16 * r" by simp_all
  then have q: "(d + 256 * r) div 2 = d div 2 + 128 * r" "(d + 256 * r) div 4 = d div 4 + 64 * r"
    "(d + 256 * r) div 16 = d div 16 + 16 * r" by simp_all
  show "(d + 256 * r) div 2 = d div 2 + 128 * (r mod 2) + 256 * (r div 2)"
    using q(1) m [of 2] by linarith
  show "(d + 256 * r) div 4 = d div 4 + 64 * (r mod 4) + 256 * (r div 4)"
    using q(2) m [of 4] by linarith
  show "d + 256 * r + (d + 256 * r) div 16 = d + d div 16 + 16 * (r mod 16) + 256 * (r + r div 16)"
  proof -
    have "16 * r = 16 * (16 * (r div 16) + r mod 16)" using m [of 16] by simp
    then show ?thesis unfolding q(3) by (simp only: distrib_left)
  qed
  show "(d + 256 * r) mod 16 = d mod 16"
    using mod_mult_self2 [of d 16 "16 * r"] by simp
qed

lemma pc1_bytes:
  "\<forall>d \<in> set ds. 0 \<le> d \<and> d < 256 \<Longrightarrow>
     pc1 (of_bytes (replicate (length ds) 85)) (of_bytes ds) = of_bytes (map (pc1 85) ds)"
proof (induction ds)
  case Nil
  then show ?case by (simp add: pc1_def)
next
  case (Cons d ds)
  let ?r = "of_bytes ds" and ?m = "of_bytes (replicate (length ds) 85)"
  have d: "0 \<le> d" "d < 256" using Cons.prems by simp_all
  let ?e = "d div 2 + 128 * (?r mod 2)"
  have "(d + 256 * ?r) div 2 = ?e + 256 * (?r div 2)" by (rule byte_shift)
  moreover have "0 \<le> ?e" "?e < 256" using d pos_mod_bound [of 2 ?r] by auto
  ultimately have "(d + 256 * ?r) div 2 AND (85 + 256 * ?m) = (?e AND 85) + 256 * (?r div 2 AND ?m)"
    using and_digit [of ?e 85 "?r div 2" ?m] by simp
  also have "?e AND 85 = d div 2 AND 85"
    using byte_ok [OF d] mod2_eq_if [of ?r] by (auto simp: byte_ok_def Let_def)
  finally show ?case using Cons by (simp add: pc1_def)
qed

lemma pc2_bytes:
  "\<forall>d \<in> set ds. 0 \<le> d \<and> d < 256 \<Longrightarrow>
     pc2 (of_bytes (replicate (length ds) 51)) (of_bytes (map (pc1 85) ds)) =
       of_bytes (map (pc2 51 \<circ> pc1 85) ds)"
proof (induction ds)
  case Nil
  then show ?case by (simp add: pc2_def)
next
  case (Cons d ds)
  let ?r = "of_bytes (map (pc1 85) ds)" and ?m = "of_bytes (replicate (length ds) 51)"
  let ?d = "pc1 85 d" and ?h = "?r mod 4"
  have ok: "byte_ok d" using byte_ok Cons.prems by simp
  then have d: "0 \<le> ?d" "?d < 256" by (simp_all add: byte_ok_def Let_def)
  let ?e = "?d div 4 + 64 * ?h"
  have "(?d + 256 * ?r) div 4 = ?e + 256 * (?r div 4)" by (rule byte_shift)
  moreover have h: "0 \<le> ?h" "?h \<le> 3" by simp_all
  moreover have "0 \<le> ?e" "?e < 256" using d h by auto
  ultimately have "(?d + 256 * ?r) div 4 AND (51 + 256 * ?m) = (?e AND 51) + 256 * (?r div 4 AND ?m)"
    using and_digit [of ?e 51 "?r div 4" ?m] by simp
  also have "?e AND 51 = ?d div 4 AND 51"
    using ok h by (simp add: byte_ok_def Let_def list_all_iff)
  finally show ?case
    using Cons and_digit [of ?d 51 ?r ?m] d by (simp add: pc2_def)
qed

lemma pc3_bytes:
  "\<forall>d \<in> set ds. 0 \<le> d \<and> d < 256 \<Longrightarrow>
     pc3 (of_bytes (replicate (length ds) 15)) (of_bytes (map (pc2 51 \<circ> pc1 85) ds)) =
       of_bytes (map (\<lambda>d. int (bit_count (nat d))) ds)"
proof (induction ds)
  case Nil
  then show ?case by (simp add: pc3_def)
next
  case (Cons d ds)
  let ?f = "pc2 51 \<circ> pc1 85"
  let ?r = "of_bytes (map ?f ds)" and ?m = "of_bytes (replicate (length ds) 15)"
  let ?d = "?f d" and ?h = "?r mod 16"
  have ok: "byte_ok d" using byte_ok Cons.prems by simp
  then have d: "0 \<le> ?d" "?d < 128" by (simp_all add: byte_ok_def Let_def)
  have h: "0 \<le> ?h" "?h \<le> 4"
  proof -
    show "?h \<le> 4"
    proof (cases ds)
      case (Cons d' ds')
      then have "byte_ok d'" using byte_ok Cons.prems by simp
      then have "?f d' mod 16 \<le> 4" by (simp add: byte_ok_def Let_def)
      moreover have "?r mod 16 = ?f d' mod 16" unfolding Cons list.map of_bytes.simps by (rule byte_shift)
      ultimately show ?thesis by simp
    qed simp
  qed simp
  let ?e = "?d + ?d div 16 + 16 * ?h"
  have A: "?d + 256 * ?r + (?d + 256 * ?r) div 16 = ?e + 256 * (?r + ?r div 16)" by (rule byte_shift)
  have e: "0 \<le> ?e" "?e < 256" "?e AND 15 = int (bit_count (nat d))"
    using ok d h by (auto simp: byte_ok_def Let_def list_all_iff)
  have "pc3 (15 + 256 * ?m) (?d + 256 * ?r) = (?e + 256 * (?r + ?r div 16)) AND (15 + 256 * ?m)"
    by (simp only: pc3_def A)
  also have "\<dots> = int (bit_count (nat d)) + 256 * ((?r + ?r div 16) AND ?m)"
    using and_digit [of ?e 15 "?r + ?r div 16" ?m] e by simp
  finally have "pc3 (15 + 256 * ?m) (?d + 256 * ?r) = int (bit_count (nat d)) + 256 * pc3 ?m ?r"
    by (simp only: pc3_def)
  then show ?case using Cons by (simp add: comp_def)
qed

text \<open>Every 64-bit number has eight bytes.\<close>

fun bytes_of :: "nat \<Rightarrow> int \<Rightarrow> int list" where
  "bytes_of 0 x = []"
| "bytes_of (Suc n) x = x mod 256 # bytes_of n (x div 256)"

lemma bytes_of_range: "\<forall>d \<in> set (bytes_of n x). 0 \<le> d \<and> d < 256"
  by (induction n arbitrary: x) auto

lemma length_bytes_of [simp]: "length (bytes_of n x) = n"
  by (induction n arbitrary: x) auto

lemma of_bytes_of: "0 \<le> x \<Longrightarrow> x < 256 ^ n \<Longrightarrow> of_bytes (bytes_of n x) = x"
proof (induction n arbitrary: x)
  case (Suc n)
  have "x div 256 < 256 ^ n" using Suc.prems by (simp add: div_less_iff_less_mult mult.commute)
  moreover have "0 \<le> x div 256" using Suc.prems(1) by simp
  ultimately show ?case using Suc.IH [of "x div 256"] by simp
qed simp

lemma bit_count_of_bytes:
  "\<forall>d \<in> set ds. 0 \<le> d \<and> d < 256 \<Longrightarrow>
     int (bit_count (nat (of_bytes ds))) = (\<Sum>d\<leftarrow>ds. int (bit_count (nat d))) \<and> 0 \<le> of_bytes ds"
proof (induction ds)
  case Nil
  then show ?case by (simp add: bit_count.simps)
next
  case (Cons d ds)
  then have IH: "int (bit_count (nat (of_bytes ds))) = (\<Sum>d\<leftarrow>ds. int (bit_count (nat d)))" "0 \<le> of_bytes ds"
    by simp_all
  have d: "0 \<le> d" "nat d < 2 ^ 8" using Cons.prems by auto
  have "nat (d + 256 * of_bytes ds) = nat d + 2 ^ 8 * nat (of_bytes ds)"
    using d(1) IH(2) by (simp add: nat_add_distrib nat_mult_distrib)
  then show ?case using bit_count_byte [OF d(2)] IH d(1) by simp
qed

lemma bit_count_le_byte: "nat d < 256 \<Longrightarrow> bit_count (nat d) \<le> 8"
proof -
  have "list_all (\<lambda>d. bit_count (nat d) \<le> 8) [0..255]" by code_simp
  then show "nat d < 256 \<Longrightarrow> bit_count (nat d) \<le> 8"
    by (cases "0 \<le> d") (auto simp: list_all_iff bit_count.simps [of 0])
qed

lemma of_bytes_less_128:
  "ds \<noteq> [] \<Longrightarrow> \<forall>d \<in> set ds. 0 \<le> d \<and> d < 128 \<Longrightarrow>
     0 \<le> of_bytes ds \<and> 2 * of_bytes ds < 256 ^ length ds"
proof (induction ds)
  case (Cons d ds)
  then show ?case by (cases "ds = []") auto
qed simp

lemma fold_bytes_sum:
  fixes c :: "int list"
  assumes "length c = 8" "\<forall>d \<in> set c. 0 \<le> d \<and> d \<le> 8"
  defines "t \<equiv> of_bytes c"
  defines "t1 \<equiv> t + t div 256" and "t2 \<equiv> \<lambda>u::int. u + u div 65536" and "t3 \<equiv> \<lambda>u::int. u + u div 4294967296"
  shows "t3 (t2 t1) mod 128 = sum_list c" and "0 \<le> t1" "t3 (t2 t1) < 18446744073709551616"
    "t1 < 18446744073709551616" "t2 t1 < 18446744073709551616" "0 \<le> t2 t1" "0 \<le> t3 (t2 t1)" "0 \<le> t"
proof -
  obtain a b d e f g h i where c: "c = [a, b, d, e, f, g, h, i]"
    using assms(1) by (auto simp: numeral_eq_Suc length_Suc_conv)
  have r: "0 \<le> a" "a \<le> 8" "0 \<le> b" "b \<le> 8" "0 \<le> d" "d \<le> 8" "0 \<le> e" "e \<le> 8"
    "0 \<le> f" "f \<le> 8" "0 \<le> g" "g \<le> 8" "0 \<le> h" "h \<le> 8" "0 \<le> i" "i \<le> 8"
    using assms(2) c by auto
  have sh: "(x + 256 * y) div 256 = y" if "0 \<le> x" "x < 256" for x y :: int using that by simp
  have t: "t = a + 256 * (b + 256 * (d + 256 * (e + 256 * (f + 256 * (g + 256 * (h + 256 * i))))))"
    by (simp add: t_def c)
  have "t div 256 = b + 256 * (d + 256 * (e + 256 * (f + 256 * (g + 256 * (h + 256 * i)))))"
    unfolding t by (rule sh) (use r in auto)
  then have t1: "t1 = (a + b) + 256 * ((b + d) + 256 * ((d + e) + 256 * ((e + f) + 256 * ((f + g) + 256 * ((g + h) + 256 * ((h + i) + 256 * i))))))"
    unfolding t1_def by (simp add: t)
  have q2: "u div 65536 = u div 256 div 256" for u :: int by (simp add: zdiv_zmult2_eq [symmetric])
  have q4: "u div 4294967296 = u div 65536 div 65536" for u :: int by (simp add: zdiv_zmult2_eq [symmetric])
  have "t1 div 65536 = (d + e) + 256 * ((e + f) + 256 * ((f + g) + 256 * ((g + h) + 256 * ((h + i) + 256 * i))))"
    unfolding q2 t1 using r by (simp add: sh)
  then have t2: "t2 t1 = (a + b + d + e) + 256 * ((b + d + e + f) + 256 * ((d + e + f + g) + 256 * ((e + f + g + h) + 256 * ((f + g + h + i) + 256 * ((g + h + i) + 256 * ((h + i) + 256 * i))))))"
    unfolding t2_def by (simp add: t1)
  have "t2 t1 div 4294967296 = (f + g + h + i) + 256 * ((g + h + i) + 256 * ((h + i) + 256 * i))"
    unfolding q4 q2 t2 using r by (simp add: sh)
  then have t3: "t3 (t2 t1) = (a + b + d + e + f + g + h + i) + 256 * ((b + d + e + f + g + h + i) + 256 * ((d + e + f + g + h + i) + 256 * ((e + f + g + h + i) + 256 * ((f + g + h + i) + 256 * ((g + h + i) + 256 * ((h + i) + 256 * i))))))"
    unfolding t3_def by (simp add: t2)
  show "t3 (t2 t1) mod 128 = sum_list c"
  proof -
    have m: "(x + 256 * y) mod 128 = x" if "0 \<le> x" "x < 128" for x y :: int
      using that mod_mult_self2 [of x 128 "2 * y"] by simp
    have "t3 (t2 t1) mod 128 = a + b + d + e + f + g + h + i"
      unfolding t3 by (rule m) (use r in auto)
    then show ?thesis by (simp add: c)
  qed

  have e1: "t1 = of_bytes [a + b, b + d, d + e, e + f, f + g, g + h, h + i, i]" unfolding t1 by simp
  have e2: "t2 t1 = of_bytes [a + b + d + e, b + d + e + f, d + e + f + g, e + f + g + h,
      f + g + h + i, g + h + i, h + i, i]" unfolding t2 by simp
  have e3: "t3 (t2 t1) = of_bytes [a + b + d + e + f + g + h + i, b + d + e + f + g + h + i,
      d + e + f + g + h + i, e + f + g + h + i, f + g + h + i, g + h + i, h + i, i]" unfolding t3 by simp
  have B: "0 \<le> of_bytes ds \<and> of_bytes ds < 18446744073709551616"
    if "length ds = 8" "\<forall>d \<in> set ds. 0 \<le> d \<and> d < 128" for ds
    using of_bytes_less_128 [of ds] that by (cases ds) auto
  have "0 \<le> t \<and> t < 18446744073709551616" unfolding t_def c by (rule B) (use r in auto)
  then show "0 \<le> t" by simp
  have "0 \<le> t1 \<and> t1 < 18446744073709551616" unfolding e1 by (rule B) (use r in auto)
  then show "0 \<le> t1" "t1 < 18446744073709551616" by simp_all
  have "0 \<le> t2 t1 \<and> t2 t1 < 18446744073709551616" unfolding e2 by (rule B) (use r in auto)
  then show "0 \<le> t2 t1" "t2 t1 < 18446744073709551616" by simp_all
  have "0 \<le> t3 (t2 t1) \<and> t3 (t2 t1) < 18446744073709551616" unfolding e3 by (rule B) (use r in auto)
  then show "0 \<le> t3 (t2 t1)" "t3 (t2 t1) < 18446744073709551616" by simp_all
qed


lemma Popcount_correct: "unat (Popcount x) = bit_count (unat x)"
proof -
  let ?M = "\<lambda>k::int. of_bytes (replicate 8 k)"
  define ds where "ds = bytes_of 8 (uint x)"
  have u: "0 \<le> uint x" "uint x < 18446744073709551616" using unsigned_less [of x] by simp_all
  have l: "length ds = 8" by (simp add: ds_def)
  have R: "\<forall>d \<in> set ds. 0 \<le> d \<and> d < 256" unfolding ds_def by (rule bytes_of_range)
  have ok: "byte_ok d" if "d \<in> set ds" for d using R that byte_ok by simp
  have X: "uint x = of_bytes ds" using of_bytes_of [of "uint x" 8] u by (simp add: ds_def)
  have m5: "?M 85 = 0x5555555555555555" and m3: "?M 51 = 0x3333333333333333" and mf: "?M 15 = 0x0f0f0f0f0f0f0f0f"
    by (simp_all add: numeral_eq_Suc)
  define x1 where "x1 = x - (drop_bit 1 x AND 0x5555555555555555)"
  define x2 where "x2 = (x1 AND 0x3333333333333333) + (drop_bit 2 x1 AND 0x3333333333333333)"
  define x3 where "x3 = (x2 + drop_bit 4 x2) AND 0x0f0f0f0f0f0f0f0f"
  define x4 where "x4 = x3 + drop_bit 8 x3"
  define x5 where "x5 = x4 + drop_bit 16 x4"
  define x6 where "x6 = x5 + drop_bit 32 x5"
  have ud: "uint (drop_bit n w) = uint w div 2 ^ n" for n and w :: u64
    by (subst unsigned_drop_bit_eq) (use uint_lt2p [of w] in \<open>simp add: drop_bit_eq_div take_bit_int_eq_self\<close>)
  have ua: "uint (v + w) = uint v + uint w" if "uint v + uint w < 18446744073709551616" for v w :: u64
    using that by (simp add: uint_word_ariths)
  have us: "uint (v - w) = uint v - uint w" if "uint w \<le> uint v" for v w :: u64
    using that by (simp add: uint_sub_lem [THEN iffD1])
  have le: "uint x div 2 AND 0x5555555555555555 \<le> uint x"
  proof -
    have "0 \<le> uint x div 2" "uint x div 2 \<le> uint x" using u by linarith+
    then show ?thesis using AND_upper1 [of "uint x div 2" "0x5555555555555555"] by linarith
  qed
  have "uint x1 = pc1 (?M 85) (of_bytes ds)"
    using le unfolding x1_def pc1_def m5 X [symmetric]
    by (subst us) (simp_all add: unsigned_and_eq ud)
  also have "\<dots> = of_bytes (map (pc1 85) ds)"
    using pc1_bytes [OF R] l by simp
  finally have X1: "uint x1 = of_bytes (map (pc1 85) ds)" .
  have b: "w AND 0x3333333333333333 \<le> (0x3333333333333333 :: int)" for w
    by (rule AND_upper2) simp
  have s2: "(uint x1 AND 0x3333333333333333) + (uint x1 div 4 AND 0x3333333333333333) < 18446744073709551616"
    using b [of "uint x1"] b [of "uint x1 div 4"] by linarith
  have "uint x2 = pc2 (?M 51) (uint x1)"
    using s2 unfolding x2_def pc2_def m3 by (subst ua) (simp_all add: unsigned_and_eq ud)
  also have "\<dots> = of_bytes (map (pc2 51 \<circ> pc1 85) ds)"
    using pc2_bytes [OF R] l X1 by simp
  finally have X2: "uint x2 = of_bytes (map (pc2 51 \<circ> pc1 85) ds)" .
  have B2: "2 * uint x2 < 18446744073709551616"
  proof -
    have "ds \<noteq> []" using l by auto
    then show ?thesis
      using of_bytes_less_128 [of "map (pc2 51 \<circ> pc1 85) ds"] ok l X2
      by (auto simp: byte_ok_def Let_def)
  qed
  have "uint x3 = pc3 (?M 15) (uint x2)"
  proof -
    have "uint x2 + uint x2 div 16 < 18446744073709551616" using B2 by linarith
    then show ?thesis unfolding x3_def pc3_def mf by (simp add: unsigned_and_eq ud ua)
  qed
  also have "\<dots> = of_bytes (map (\<lambda>d. int (bit_count (nat d))) ds)"
    using pc3_bytes [OF R] l X2 by simp
  finally have X3: "uint x3 = of_bytes (map (\<lambda>d. int (bit_count (nat d))) ds)" .
  let ?c = "map (\<lambda>d. int (bit_count (nat d))) ds"
  have c: "length ?c = 8" "\<forall>d \<in> set ?c. 0 \<le> d \<and> d \<le> 8"
    using l R bit_count_le_byte by auto
  note F = fold_bytes_sum [OF c, folded X3]
  have X4: "uint x4 = uint x3 + uint x3 div 256" using F(4) by (simp add: x4_def ud ua)
  have X5: "uint x5 = uint x4 + uint x4 div 65536" using F(5) by (simp add: x5_def ud ua X4)
  have X6: "uint x6 = uint x5 + uint x5 div 4294967296" using F(3) by (simp add: x6_def ud ua X4 X5)
  have "uint x6 mod 128 = sum_list ?c" using F(1) by (simp only: X4 X5 X6)
  also have "\<dots> = int (bit_count (unat x))"
    unfolding unat_eq_nat_uint X using bit_count_of_bytes [OF R] by (rule conjunct1 [THEN sym])
  finally have S: "uint x6 mod 128 = int (bit_count (unat x))" .
  have "uint x6 AND 0x7f = uint x6 mod 128"
    using take_bit_eq_mask [of 7 "uint x6"] by (simp add: mask_eq_exp_minus_1 take_bit_eq_mod)
  then have "uint (x6 AND 0x7f) = uint x6 mod 128" by (simp add: unsigned_and_eq)
  then have "uint (ucast (x6 AND 0x7f) :: u8) = uint x6 mod 128"
    by (simp add: unsigned_ucast_eq take_bit_eq_mod)
  moreover have "Popcount x = ucast (x6 AND 0x7f)"
    unfolding Popcount_def Let_def x6_def x5_def x4_def x3_def x2_def x1_def ..
  ultimately show ?thesis using S by (metis nat_int unat_eq_nat_uint)
qed

lemma bit_count_eq_1: "bit_count n = 1 \<longleftrightarrow> (\<exists>k. n = 2 ^ k)"
proof
  assume "bit_count n = 1"
  then obtain k where "{i. bit n i} = {k}" by (auto simp: bit_count_card card_1_singleton_iff)
  then have "bit n i \<longleftrightarrow> i = k" for i by auto
  then have "n = 2 ^ k" by (intro bit_eqI) (simp add: bit_exp_iff)
  then show "\<exists>k. n = 2 ^ k" ..
next
  assume "\<exists>k. n = 2 ^ k"
  then show "bit_count n = 1" by (auto simp: bit_count_card bit_exp_iff)
qed

lemma Popcount_power: "Popcount x = 1 \<longleftrightarrow> (\<exists>k. unat x = 2 ^ k)"
proof -
  have "Popcount x = 1 \<longleftrightarrow> unat (Popcount x) = 1"
    using word_eq_iff_unsigned [of "Popcount x" 1] word_unat_eq_iff [of "Popcount x" 1] by simp
  then show ?thesis by (simp only: Popcount_correct bit_count_eq_1)
qed

section \<open>What the arithmetic promises\<close>



text \<open>
  C31. Whatever \<open>rand()\<close> returns, the Miller-Rabin test ends, and it never rejects a prime up to
  \<open>2 ^ 63\<close>.
\<close>

theorem miller_rabin_complete:
  "\<exists>b k'. MillerRabin rnd p k = Some (b, k') \<and> (is_prime (unat p) \<and> unat p \<le> 2 ^ 63 \<longrightarrow> b)"
  using MillerRabin_returns [of rnd p k] MillerRabin_accepts_prime [of p rnd k] by fastforce

theorem miller_rabin_complete_witness:
  "\<exists>k'. MillerRabin (\<lambda>k. word_of_nat k) 2 0 = Some (True, k')"
proof -
  have "is_prime (unat (2 :: u64))" by (auto simp: is_prime_def dest: dvd_imp_le) (metis One_nat_def Suc_1 dvd_0_left_iff le_Suc_eq le_zero_eq zero_neq_numeral dvd_imp_le pos2)
  then show ?thesis using miller_rabin_complete [of "\<lambda>k. word_of_nat k" 2 0] by auto
qed



text \<open>
  The bit tricks are right for every 64-bit number: \<open>Popcount\<close> is the number of bits set, and
  \<open>Log2\<close> of a number other than 0 is the length of its binary notation.
\<close>

theorem bit_counting_correct:
  "unat (Popcount x) = card {i. bit (unat x) i} \<and>
   (x = 0 \<or> 2 ^ (unat (Log2 x) - 1) \<le> unat x \<and> unat x < 2 ^ unat (Log2 x) \<and> 1 \<le> unat (Log2 x))"
  using Popcount_correct [of x] bit_count_card Log2_bounds [of x] by auto

end
