(* ===== verification/Memory_Buffer.thy ===== *)
theory Memory_Buffer
  imports Stego_Math
begin

text \<open>
  \<^verbatim>\<open>src/utils/memory_buffer.h\<close> and \<^verbatim>\<open>.cc\<close>: the owned byte array every component moves its data
  in.  A buffer is a pointer (\<open>None\<close> is \<open>nullptr\<close>, \<open>Some bs\<close> an array holding \<open>bs\<close>) with its
  size.  The contents of a fresh \<open>new uint8[n]\<close> are not specified: they are the parameter
  \<open>garbage\<close>; the stream of \<open>std::mt19937\<close> is the parameter \<open>gen\<close>.  Memory is not exhausted.
\<close>

section \<open>Definitions\<close>

record mbuf =
  mb_buffer :: "bytes option"
  mb_size :: u64

text \<open>\<open>memcpy\<close> between arrays, of \<open>n\<close> bytes; out of either array it is undefined.\<close>

definition memcpy :: "bytes option \<Rightarrow> nat \<Rightarrow> bytes option \<Rightarrow> nat \<Rightarrow> bytes option res" where
  "memcpy dst off src n =
     (if n = 0 then Inr dst
      else case dst of
          None \<Rightarrow> Inl Undefined
        | Some d \<Rightarrow> (case src of
              None \<Rightarrow> Inl Undefined
            | Some s \<Rightarrow> if off + n \<le> length d \<and> n \<le> length s
                        then Inr (Some (copy_at off (take n s) d)) else Inl Undefined))"

definition MB_Init :: "(nat \<Rightarrow> u8) \<Rightarrow> u64 \<Rightarrow> mbuf" where
  "MB_Init garbage new_size =
     (if new_size > 0
      then \<lparr>mb_buffer = Some (map garbage [0..<unat new_size]), mb_size = new_size\<rparr>
      else \<lparr>mb_buffer = None, mb_size = 0\<rparr>)"

definition MB_new :: mbuf where
  "MB_new = \<lparr>mb_buffer = None, mb_size = 0\<rparr>"

definition MB_new_sized :: "(nat \<Rightarrow> u8) \<Rightarrow> u64 \<Rightarrow> mbuf" where
  "MB_new_sized garbage new_size = MB_Init garbage new_size"

definition MB_new_data :: "(nat \<Rightarrow> u8) \<Rightarrow> bytes option \<Rightarrow> u64 \<Rightarrow> mbuf res" where
  "MB_new_data garbage data len =
     (let b = MB_Init garbage len in
      if mb_size b = 0 then Inr b
      else bindR (memcpy (mb_buffer b) 0 data (unat (mb_size b)))
             (\<lambda>p. Inr (b\<lparr>mb_buffer := p\<rparr>)))"

definition MB_copy :: "(nat \<Rightarrow> u8) \<Rightarrow> mbuf \<Rightarrow> mbuf res" where
  "MB_copy garbage other =
     (let b = MB_Init garbage (mb_size other) in
      if mb_size b = 0 then Inr b
      else bindR (memcpy (mb_buffer b) 0 (mb_buffer other) (unat (mb_size b)))
             (\<lambda>p. Inr (b\<lparr>mb_buffer := p\<rparr>)))"

text \<open>
  The move constructor tests \<open>buffer_\<close> before it is set: \<open>uninit_null\<close> says whether the memory of
  the new object happened to hold a null pointer.  Otherwise a stray pointer is freed.
\<close>

definition MB_move_new :: "bool \<Rightarrow> mbuf \<Rightarrow> (mbuf \<times> mbuf) res" where
  "MB_move_new uninit_null other =
     (if \<not> uninit_null then Inl Undefined
      else Inr (other, other\<lparr>mb_buffer := None, mb_size := 0\<rparr>))"

text \<open>
  \<open>Randomize\<close>: the loop counts with an \<open>unsigned int\<close> and compares it with the 64-bit size, so for \<open>2 ^ 32\<close>
  bytes or more the counter wraps and the loop does not end.  \<open>k\<close> is the number of values the generator has given.
\<close>

partial_function (option) randomize_loop :: "(nat \<Rightarrow> u8) \<Rightarrow> u64 \<Rightarrow> u32 \<Rightarrow> nat \<Rightarrow> bytes \<Rightarrow> bytes option" where
  "randomize_loop gen n i k bs =
     (if ucast i < n then randomize_loop gen n (i + 1) (Suc k) (bs[unat i := gen k]) else Some bs)"

definition MB_Randomize :: "(nat \<Rightarrow> u8) \<Rightarrow> mbuf \<Rightarrow> mbuf res" where
  "MB_Randomize gen b =
     (if mb_buffer b = None \<or> mb_size b = 0 then Inr b
      else case randomize_loop gen (mb_size b) 0 0 (replicate (unat (mb_size b)) 0) of
          None \<Rightarrow> Inl Diverges
        | Some bs \<Rightarrow> Inr (b\<lparr>mb_buffer := Some bs\<rparr>))"

text \<open>\<open>Destroy\<close>: the second component is what the memory held when it was freed.\<close>

definition MB_Destroy :: "(nat \<Rightarrow> u8) \<Rightarrow> mbuf \<Rightarrow> (mbuf \<times> bytes option) res" where
  "MB_Destroy gen b =
     (if mb_buffer b = None then Inr (b, None)
      else bindR (MB_Randomize gen b) (\<lambda>b'. Inr (b'\<lparr>mb_buffer := None, mb_size := 0\<rparr>, mb_buffer b')))"

definition MB_assign :: "(nat \<Rightarrow> u8) \<Rightarrow> (nat \<Rightarrow> u8) \<Rightarrow> mbuf \<Rightarrow> mbuf \<Rightarrow> mbuf res" where
  "MB_assign garbage gen b other =
     bindR (if mb_size b \<noteq> mb_size other
            then bindR (MB_Destroy gen b) (\<lambda>freed. Inr (MB_Init garbage (mb_size other))) else Inr b) (\<lambda>b1.
     bindR (memcpy (mb_buffer b1) 0 (mb_buffer other) (unat (mb_size b1))) (\<lambda>p.
     Inr (b1\<lparr>mb_buffer := p\<rparr>)))"

definition MB_move_assign :: "(nat \<Rightarrow> u8) \<Rightarrow> mbuf \<Rightarrow> mbuf \<Rightarrow> (mbuf \<times> mbuf) res" where
  "MB_move_assign gen b other =
     bindR (MB_Destroy gen b) (\<lambda>(b1, freed).
     Inr (b1\<lparr>mb_buffer := mb_buffer other, mb_size := mb_size other\<rparr>, other\<lparr>mb_size := 0, mb_buffer := None\<rparr>))"

definition MB_eq :: "mbuf \<Rightarrow> mbuf \<Rightarrow> bool" where
  "MB_eq b other =
     (if mb_size b \<noteq> mb_size other then False
      else if mb_size b = 0 then True
      else case (mb_buffer other, mb_buffer b) of
          (Some o', Some s) \<Rightarrow> take (unat (mb_size b)) s = take (unat (mb_size b)) o'
        | _ \<Rightarrow> False)"

definition MB_neq :: "mbuf \<Rightarrow> mbuf \<Rightarrow> bool" where
  "MB_neq b other = (\<not> MB_eq b other)"

text \<open>
  \<open>Resize\<close> to the same size leaves the buffer as it is; the old array is overwritten with
  random bytes before it is freed.
\<close>

definition MB_Resize :: "(nat \<Rightarrow> u8) \<Rightarrow> u64 \<Rightarrow> mbuf \<Rightarrow> (mbuf \<times> bytes option) res" where
  "MB_Resize gen new_size b =
     (if new_size = mb_size b then Inr (b, None)
      else let fresh = replicate (unat new_size) 0 in
        (case mb_buffer b of
           None \<Rightarrow> Inr (b\<lparr>mb_size := new_size, mb_buffer := Some fresh\<rparr>, None)
         | Some original \<Rightarrow>
             let kept = take (unat (min new_size (mb_size b))) original in
             bindR (MB_Randomize gen b) (\<lambda>r.
             Inr (b\<lparr>mb_size := new_size, mb_buffer := Some (copy_at 0 kept fresh)\<rparr>, mb_buffer r))))"

definition MB_index :: "mbuf \<Rightarrow> u64 \<Rightarrow> u8 res" where
  "MB_index b index =
     (if index \<ge> mb_size b then Inl OutOfRange
      else case mb_buffer b of
          None \<Rightarrow> Inl Undefined
        | Some bs \<Rightarrow> if unat index < length bs then Inr (bs ! unat index) else Inl Undefined)"

text \<open>Assignment through the reference \<open>operator[]\<close> returns.\<close>

definition MB_set :: "mbuf \<Rightarrow> u64 \<Rightarrow> u8 \<Rightarrow> mbuf res" where
  "MB_set b index v =
     (if index \<ge> mb_size b then Inl OutOfRange
      else case mb_buffer b of
          None \<Rightarrow> Inl Undefined
        | Some bs \<Rightarrow> if unat index < length bs
                     then Inr (b\<lparr>mb_buffer := Some (bs[unat index := v])\<rparr>) else Inl Undefined)"

definition MB_xor_assign :: "mbuf \<Rightarrow> mbuf \<Rightarrow> mbuf res" where
  "MB_xor_assign b other =
     (if mb_size b \<noteq> mb_size other then Inl LengthError
      else foldR (\<lambda>i b. bindR (MB_index b (word_of_nat i)) (\<lambda>x.
                        bindR (MB_index other (word_of_nat i)) (\<lambda>y.
                        MB_set b (word_of_nat i) (x XOR y))))
             [0..<unat (mb_size b)] b)"

definition MB_xor :: "(nat \<Rightarrow> u8) \<Rightarrow> mbuf \<Rightarrow> mbuf \<Rightarrow> mbuf res" where
  "MB_xor garbage b other =
     (if mb_size b \<noteq> mb_size other then Inl LengthError
      else bindR (MB_copy garbage b) (\<lambda>r. MB_xor_assign r other))"

definition MB_GetData :: "mbuf \<Rightarrow> string" where
  "MB_GetData b = HexBufferToStr (mb_buffer b) (unat (mb_size b))"

text \<open>\<open>Write\<close>: the bound is checked on the 64-bit sum \<open>offset + length\<close>, which may wrap.\<close>

definition MB_Write :: "mbuf \<Rightarrow> u64 \<Rightarrow> bytes option \<Rightarrow> u64 \<Rightarrow> mbuf res" where
  "MB_Write b offset data len =
     (if offset + len > mb_size b then Inl OutOfRange
      else bindR (memcpy (mb_buffer b) (unat offset) data (unat len))
             (\<lambda>p. Inr (b\<lparr>mb_buffer := p\<rparr>)))"

definition MB_Fill :: "u8 \<Rightarrow> mbuf \<Rightarrow> mbuf" where
  "MB_Fill v b =
     (case mb_buffer b of
        None \<Rightarrow> b
      | Some bs \<Rightarrow> if mb_size b = 0 then b
                   else b\<lparr>mb_buffer := Some (replicate (unat (mb_size b)) v)\<rparr>)"

definition MB_Clear :: "mbuf \<Rightarrow> mbuf" where
  "MB_Clear b =
     (case mb_buffer b of
        None \<Rightarrow> b
      | Some bs \<Rightarrow> if mb_size b = 0 then b
                   else b\<lparr>mb_buffer := Some (replicate (unat (mb_size b)) 0)\<rparr>)"

section \<open>The invariant\<close>

text \<open>The size says how long the array is, and only an empty buffer has no array.\<close>

definition mb_ok :: "mbuf \<Rightarrow> bool" where
  "mb_ok b = (case mb_buffer b of None \<Rightarrow> mb_size b = 0 | Some bs \<Rightarrow> length bs = unat (mb_size b))"

text \<open>The contents as a list.\<close>

definition mb_bytes :: "mbuf \<Rightarrow> bytes" where
  "mb_bytes b = (case mb_buffer b of None \<Rightarrow> [] | Some bs \<Rightarrow> bs)"

text \<open>The buffer that holds a given list.\<close>

definition mb_of :: "bytes \<Rightarrow> mbuf" where
  "mb_of bs = \<lparr>mb_buffer = (if bs = [] then None else Some bs), mb_size = word_of_nat (length bs)\<rparr>"

lemma length_mb_bytes: "mb_ok b \<Longrightarrow> length (mb_bytes b) = unat (mb_size b)"
  by (auto simp: mb_ok_def mb_bytes_def split: option.splits)

lemma mb_ok_Some: "mb_buffer b = Some bs \<Longrightarrow> mb_ok b \<longleftrightarrow> length bs = unat (mb_size b)"
  by (simp add: mb_ok_def)

lemma mb_ok_size_pos: "mb_ok b \<Longrightarrow> mb_size b \<noteq> 0 \<Longrightarrow> mb_buffer b = Some (mb_bytes b)"
  by (auto simp: mb_ok_def mb_bytes_def split: option.splits)

lemma mb_of_simps [simp]:
  "length bs < 2 ^ 64 \<Longrightarrow> mb_ok (mb_of bs)"
  "mb_bytes (mb_of bs) = bs"
  by (auto simp: mb_ok_def mb_of_def mb_bytes_def unat_simps)

lemma memcpy_ok:
  "\<lbrakk>n = 0 \<or> off + n \<le> length d; n = 0 \<or> (src = Some s \<and> n \<le> length s)\<rbrakk> \<Longrightarrow>
     memcpy (Some d) off src n = Inr (Some (copy_at off (take n s) d))"
  by (auto simp: memcpy_def copy_at_def)

lemma memcpy_whole:
  "\<lbrakk>length d = n; length s = n\<rbrakk> \<Longrightarrow> memcpy (Some d) 0 (Some s) n = Inr (Some s)"
  by (auto simp: memcpy_def copy_at_def)

lemma mb_ok_new [simp]: "mb_ok MB_new" "mb_ok (MB_Init g n)" "mb_ok (MB_new_sized g n)"
  by (simp_all add: MB_new_def mb_ok_def MB_Init_def MB_new_sized_def)

lemma MB_Init_eq:
  "MB_Init g n = \<lparr>mb_buffer = (if n = 0 then None else Some (map g [0..<unat n])), mb_size = n\<rparr>"
  by (simp add: MB_Init_def word_gt_0)

lemma MB_Init_size [simp]: "mb_size (MB_Init g n) = n" "mb_size (MB_new_sized g n) = n"
  by (simp_all add: MB_Init_eq MB_new_sized_def)

lemma MB_new_data_correct:
  assumes "unat len \<le> length data"
  shows "\<exists>b. MB_new_data g (Some data) len = Inr b \<and> mb_ok b \<and> mb_size b = len
             \<and> mb_bytes b = take (unat len) data"
proof (cases "len = 0")
  case False
  have "memcpy (Some (map g [0..<unat len])) 0 (Some data) (unat len) = Inr (Some (take (unat len) data))"
    using assms memcpy_ok [where off = 0 and s = data and src = "Some data"]
    by (simp add: copy_at_def)
  with False show ?thesis using assms
    by (simp add: MB_new_data_def MB_Init_eq mb_ok_def mb_bytes_def res_simps)
qed (simp add: MB_new_data_def MB_Init_def mb_ok_def mb_bytes_def)

lemma MB_copy_correct:
  assumes "mb_ok b"
  shows "\<exists>c. MB_copy g b = Inr c \<and> mb_ok c \<and> mb_size c = mb_size b \<and> mb_bytes c = mb_bytes b"
proof (cases "mb_size b = 0")
  case False
  then obtain bs where bs: "mb_buffer b = Some bs" "length bs = unat (mb_size b)"
    using assms by (auto simp: mb_ok_def split: option.splits)
  with False show ?thesis
    by (simp add: MB_copy_def MB_Init_eq memcpy_whole res_simps mb_ok_def mb_bytes_def)
next
  case True
  then show ?thesis using assms
    by (auto simp: MB_copy_def MB_Init_def mb_ok_def mb_bytes_def split: option.splits)
qed

text \<open>The loop of \<open>Randomize\<close>: it fills the array when its size fits the counter and does not end otherwise.\<close>

lemma randomize_loop_returns:
  assumes "unat i \<le> unat n" "unat n < 2 ^ 32" "length bs = unat n"
  shows "randomize_loop gen n i (unat i) bs = Some (take (unat i) bs @ map gen [unat i..<unat n])"
  using assms
proof (induction "unat n - unat i" arbitrary: i bs)
  case 0
  then show ?case by (subst randomize_loop.simps) (simp add: word_less_nat_alt unat_ucast_u32_u64)
next
  case (Suc d)
  then have i: "unat i < unat n" by simp
  have u: "unat (i + 1) = Suc (unat i)" using i Suc.prems(2) by (simp add: unat_simps unat_arith_simps)
  have "randomize_loop gen n (i + 1) (unat (i + 1)) (bs[unat i := gen (unat i)]) =
          Some (take (unat (i + 1)) (bs[unat i := gen (unat i)]) @ map gen [unat (i + 1)..<unat n])"
    using Suc i u by (intro Suc.hyps(1)) simp_all
  moreover have "take (Suc (unat i)) (bs[unat i := gen (unat i)]) = take (unat i) bs @ [gen (unat i)]"
    using i Suc.prems(3) by (simp add: take_Suc_conv_app_nth)
  ultimately show ?case using i u
    by (subst randomize_loop.simps) (simp add: word_less_nat_alt unat_ucast_u32_u64 upt_conv_Cons)
qed

lemma randomize_loop_diverges:
  assumes "2 ^ 32 \<le> unat n"
  shows "randomize_loop gen n i k bs = None"
proof -
  have "2 ^ 32 \<le> unat n \<longrightarrow> False" if "randomize_loop gen n i k bs = Some r" for r
  proof (rule randomize_loop.raw_induct [OF _ that])
    fix loop :: "(nat \<Rightarrow> u8) \<Rightarrow> u64 \<Rightarrow> u32 \<Rightarrow> nat \<Rightarrow> bytes \<Rightarrow> bytes option" and gen n i k bs r
    assume step: "\<And>gen n i k bs r. loop gen n i k bs = Some r \<Longrightarrow> 2 ^ 32 \<le> unat n \<longrightarrow> False"
      and r: "(if ucast i < n then loop gen n (i + 1) (Suc k) (bs[unat i := gen k]) else Some bs) = Some r"
    have "ucast (i :: u32) < (n :: u64)" if "2 ^ 32 \<le> unat n"
      using that unat_u32_less [of i] by (simp add: word_less_nat_alt unat_ucast_u32_u64)
    with step r show "2 ^ 32 \<le> unat (n :: u64) \<longrightarrow> False" by metis
  qed
  with assms have "randomize_loop gen n i k bs \<noteq> Some r" for r by blast
  then show ?thesis by fastforce
qed

lemma MB_Randomize_eq:
  "MB_Randomize gen b =
     (if mb_buffer b = None \<or> mb_size b = 0 then Inr b
      else if unat (mb_size b) < 2 ^ 32 then Inr (b\<lparr>mb_buffer := Some (map gen [0..<unat (mb_size b)])\<rparr>) else Inl Diverges)"
  using randomize_loop_returns [of 0 "mb_size b" "replicate (unat (mb_size b)) 0" gen] randomize_loop_diverges
  by (simp add: MB_Randomize_def)

lemma MB_Destroy_eq:
  "mb_ok b \<Longrightarrow> MB_Destroy gen b =
     (if mb_buffer b = None then Inr (b, None)
      else if unat (mb_size b) < 2 ^ 32 then Inr (MB_new, Some (map gen [0..<unat (mb_size b)])) else Inl Diverges)"
  by (auto simp: MB_Destroy_def MB_Randomize_eq MB_new_def mb_ok_def)

lemma MB_assign_correct:
  assumes "mb_ok b" "mb_ok other" "unat (mb_size b) < 2 ^ 32"
  shows "\<exists>c. MB_assign g gen b other = Inr c \<and> mb_ok c \<and> mb_size c = mb_size other
             \<and> mb_bytes c = mb_bytes other"
proof -
  let ?b1 = "if mb_size b \<noteq> mb_size other then MB_Init g (mb_size other) else b"
  have ok: "mb_ok ?b1" "mb_size ?b1 = mb_size other" using assms by auto
  have d: "MB_assign g gen b other =
      bindR (memcpy (mb_buffer ?b1) 0 (mb_buffer other) (unat (mb_size ?b1))) (\<lambda>p. Inr (?b1\<lparr>mb_buffer := p\<rparr>))"
    using assms by (simp add: MB_assign_def MB_Destroy_eq)
  show ?thesis
  proof (cases "mb_size other = 0")
    case True
    with ok assms show ?thesis
      by (auto simp: d memcpy_def res_simps MB_Init_def mb_ok_def mb_bytes_def split: option.splits)
  next
    case False
    then have *: "mb_buffer ?b1 = Some (mb_bytes ?b1)" "mb_buffer other = Some (mb_bytes other)"
      using mb_ok_size_pos ok assms by metis+
    have "length (mb_bytes ?b1) = unat (mb_size other)" "length (mb_bytes other) = unat (mb_size other)"
      using length_mb_bytes ok assms by metis+
    then have "memcpy (mb_buffer ?b1) 0 (mb_buffer other) (unat (mb_size ?b1)) = Inr (Some (mb_bytes other))"
      unfolding * ok(2) by (intro memcpy_whole)
    then show ?thesis using ok assms length_mb_bytes [OF assms(2)]
      by (simp add: d res_simps mb_ok_def mb_bytes_def)
  qed
qed

text \<open>What a buffer is after \<open>Resize\<close>.\<close>

definition mb_resized :: "u64 \<Rightarrow> mbuf \<Rightarrow> mbuf" where
  "mb_resized n b =
     (if n = mb_size b then b
      else b\<lparr>mb_size := n, mb_buffer := Some (copy_at 0 (take (unat (min n (mb_size b))) (mb_bytes b)) (replicate (unat n) 0))\<rparr>)"

lemma MB_Resize_eq:
  "mb_ok b \<Longrightarrow> MB_Resize gen n b =
     (if n = mb_size b then Inr (b, None)
      else if mb_buffer b = None then Inr (mb_resized n b, None)
      else if unat (mb_size b) < 2 ^ 32
           then Inr (mb_resized n b, Some (if mb_size b = 0 then mb_bytes b else map gen [0..<unat (mb_size b)]))
           else Inl Diverges)"
  by (auto simp: MB_Resize_def MB_Randomize_eq mb_resized_def mb_bytes_def Let_def copy_at_def split: option.splits)

lemma MB_Resize_run:
  "mb_ok b \<Longrightarrow> unat (mb_size b) < 2 ^ 32 \<Longrightarrow> \<exists>freed. MB_Resize gen n b = Inr (mb_resized n b, freed)"
  by (simp add: MB_Resize_eq mb_resized_def)

lemma MB_Resize_new: "MB_Resize gen n MB_new = Inr (mb_resized n MB_new, None)"
  by (simp add: MB_Resize_def mb_resized_def MB_new_def mb_bytes_def copy_at_def)

lemma mb_resized_correct:
  assumes "mb_ok b"
  shows "mb_ok (mb_resized n b)" and "mb_size (mb_resized n b) = n"
    and "mb_bytes (mb_resized n b) = take (unat n) (mb_bytes b) @ replicate (unat n - unat (mb_size b)) 0"
proof -
  have m: "unat (min n (mb_size b)) = min (unat n) (unat (mb_size b))" by (simp add: min_def word_le_nat_alt)
  have l: "length (mb_bytes b) = unat (mb_size b)" using assms by (rule length_mb_bytes)
  show "mb_ok (mb_resized n b)" "mb_size (mb_resized n b) = n"
    using assms m l by (auto simp: mb_resized_def mb_ok_def copy_at_def)
  have "take (min (unat n) (unat (mb_size b))) (mb_bytes b) = take (unat n) (mb_bytes b)"
    using l by (metis take_all_iff min.cobounded1 min_def)
  then show "mb_bytes (mb_resized n b) = take (unat n) (mb_bytes b) @ replicate (unat n - unat (mb_size b)) 0"
    using m l by (auto simp: mb_resized_def mb_bytes_def copy_at_def min_def)
qed

lemma MB_index_correct:
  "mb_ok b \<Longrightarrow> MB_index b i =
     (if unat i < unat (mb_size b) then Inr (mb_bytes b ! unat i) else Inl OutOfRange)"
  by (auto simp: MB_index_def mb_ok_def mb_bytes_def word_le_nat_alt split: option.splits)

lemma MB_set_correct:
  "mb_ok b \<Longrightarrow> MB_set b i v =
     (if unat i < unat (mb_size b)
      then Inr (b\<lparr>mb_buffer := Some ((mb_bytes b)[unat i := v])\<rparr>) else Inl OutOfRange)"
  by (auto simp: MB_set_def mb_ok_def mb_bytes_def word_le_nat_alt split: option.splits)

lemma MB_set_ok:
  "mb_ok b \<Longrightarrow> MB_set b i v = Inr b' \<Longrightarrow>
     mb_ok b' \<and> mb_size b' = mb_size b \<and> mb_bytes b' = (mb_bytes b)[unat i := v]"
  by (auto simp: MB_set_correct length_mb_bytes mb_ok_def mb_bytes_def split: if_splits option.splits)

lemma MB_Write_correct:
  assumes "mb_ok b" "unat off + unat len \<le> unat (mb_size b)" "unat len \<le> length data"
  shows "\<exists>b'. MB_Write b off (Some data) len = Inr b' \<and> mb_ok b' \<and> mb_size b' = mb_size b
              \<and> mb_bytes b' = copy_at (unat off) (take (unat len) data) (mb_bytes b)"
proof -
  have le: "\<not> mb_size b < off + len"
    using assms(2) unat_u64_less [of "mb_size b"] by (simp add: word_less_nat_alt unat_simps not_less)
  show ?thesis
  proof (cases "unat len = 0")
    case True
    then show ?thesis using le assms(1)
      by (simp add: MB_Write_def memcpy_def res_simps copy_at_def)
  next
    case False
    then have "mb_size b \<noteq> 0" using assms(2) by auto
    then have buf: "mb_buffer b = Some (mb_bytes b)" using mb_ok_size_pos assms(1) by blast
    have "memcpy (mb_buffer b) (unat off) (Some data) (unat len) =
            Inr (Some (copy_at (unat off) (take (unat len) data) (mb_bytes b)))"
      unfolding buf using assms length_mb_bytes [OF assms(1)] by (intro memcpy_ok) auto
    with le show ?thesis using assms length_mb_bytes [OF assms(1)]
      by (simp add: MB_Write_def res_simps mb_ok_def mb_bytes_def)
  qed
qed

lemma MB_xor_assign_correct:
  assumes "mb_ok b" "mb_ok other" "mb_size b = mb_size other"
  shows "\<exists>c. MB_xor_assign b other = Inr c \<and> mb_ok c \<and> mb_size c = mb_size b
             \<and> mb_bytes c = map2 (XOR) (mb_bytes b) (mb_bytes other)"
proof (cases "mb_size b = 0")
  case True
  then show ?thesis using assms length_mb_bytes [OF assms(1)]
    by (auto simp: MB_xor_assign_def)
next
  case False
  then obtain bs where bs: "mb_buffer b = Some bs" "length bs = unat (mb_size b)"
    using assms by (auto simp: mb_ok_def split: option.splits)
  obtain os where os: "mb_buffer other = Some os" "length os = unat (mb_size b)"
    using assms False by (auto simp: mb_ok_def split: option.splits)
  let ?n = "unat (mb_size b)"
  let ?g = "\<lambda>i c. c\<lparr>mb_buffer := map_option (\<lambda>ys. ys[i := ys ! i XOR os ! i]) (mb_buffer c)\<rparr>"
  let ?P = "\<lambda>c. \<exists>ys. c = b\<lparr>mb_buffer := Some ys\<rparr> \<and> length ys = ?n"
  have step: "bindR (MB_index c (word_of_nat i)) (\<lambda>x. bindR (MB_index other (word_of_nat i)) (\<lambda>y.
                MB_set c (word_of_nat i) (x XOR y))) = Inr (?g i c) \<and> ?P (?g i c)"
    if "i \<in> set [0..<?n]" and "?P c" for i c
    using that os assms(3)
    by (auto simp: MB_index_def MB_set_def unat_simps word_le_nat_alt res_simps)
  have "?P b" using bs by (intro exI [of _ bs]) (cases b, simp)
  then have "foldR (\<lambda>i b. bindR (MB_index b (word_of_nat i)) (\<lambda>x.
      bindR (MB_index other (word_of_nat i)) (\<lambda>y. MB_set b (word_of_nat i) (x XOR y)))) [0..<?n] b =
        Inr (fold ?g [0..<?n] b) \<and> ?P (fold ?g [0..<?n] b)"
    by (rule foldR_pure [where P = ?P, rotated]) (rule step)
  then have "MB_xor_assign b other = Inr (fold ?g [0..<?n] b)"
    using assms(3) by (simp add: MB_xor_assign_def)
  moreover have fold_g: "fold ?g js (b\<lparr>mb_buffer := Some ys\<rparr>) =
      b\<lparr>mb_buffer := Some (fold (\<lambda>i ys. ys[i := ys ! i XOR os ! i]) js ys)\<rparr>" for js ys
    by (induction js arbitrary: ys) simp_all
  then have "fold ?g [0..<?n] b =
      b\<lparr>mb_buffer := Some (fold (\<lambda>i ys. ys[i := ys ! i XOR os ! i]) [0..<?n] bs)\<rparr>"
  proof -
    have B: "b\<lparr>mb_buffer := Some bs\<rparr> = b" using bs(1) by (cases b) simp
    show ?thesis using fold_g [of "[0..<?n]" bs] unfolding B .
  qed
  moreover have "fold (\<lambda>i ys. ys[i := ys ! i XOR os ! i]) [0..<?n] bs = map2 (XOR) bs os"
    using fold_update_upt [of ?n bs "\<lambda>i x. x XOR os ! i"] bs os
    by (auto intro: nth_equalityI)
  ultimately show ?thesis using bs os by (simp add: mb_ok_def mb_bytes_def)
qed

section \<open>What a memory buffer promises\<close>

text \<open>
  C16. \<open>Write\<close> inside the buffer puts the data where it was asked to and nowhere else: the invariant
  and the size are kept, reading the written range back gives the data, and every byte outside the
  range is unchanged.
\<close>

theorem mb_write_correct:
  assumes "mb_ok b" and "unat off + unat len \<le> unat (mb_size b)" and "length data = unat len"
  shows "\<exists>b'. MB_Write b off (Some data) len = Inr b' \<and> mb_ok b' \<and> mb_size b' = mb_size b \<and>
              take (unat len) (drop (unat off) (mb_bytes b')) = data \<and>
              (\<forall>i. unat i < unat off \<or> unat off + unat len \<le> unat i \<longrightarrow> MB_index b' i = MB_index b i)"
proof -
  obtain b' where b': "MB_Write b off (Some data) len = Inr b'" "mb_ok b'" "mb_size b' = mb_size b"
      "mb_bytes b' = copy_at (unat off) data (mb_bytes b)"
    using MB_Write_correct [OF assms(1,2), of data] assms(3) by auto
  have l: "unat off + length data \<le> length (mb_bytes b)" using assms length_mb_bytes by simp
  have "MB_index b' i = MB_index b i" if "unat i < unat off \<or> unat off + unat len \<le> unat i" for i
    using that b' l assms(1,3) by (auto simp: MB_index_correct nth_copy_at length_mb_bytes)
  then show ?thesis using b' take_drop_copy_at [OF l] assms(3) by auto
qed

theorem mb_write_correct_witness:
  "\<exists>b'. MB_Write (mb_of [1, 2, 3, 4]) 1 (Some [8, 9]) 2 = Inr b' \<and> take 2 (drop 1 (mb_bytes b')) = [8, 9] \<and>
        MB_index b' 3 = Inr 4"
proof -
  have "MB_index (mb_of [1, 2, 3, 4]) 3 = Inr 4" by (simp add: mb_of_def MB_index_def)
  then show ?thesis using mb_write_correct [of "mb_of [1, 2, 3, 4]" 1 2 "[8, 9]"] by (auto simp: mb_of_def mb_ok_def)
qed

text \<open>
  C34. No contents stay behind in memory the buffer gives up: when \<open>Destroy\<close>, or \<open>Resize\<close> to another
  size, frees the old array of a buffer of fewer than \<open>2 ^ 32\<close> bytes, the freed bytes are the values of the random
  generator and do not depend on what the buffer held, and \<open>Resize\<close> keeps the contents that fit in the new array and fills
  the rest with zeros.  For a buffer of \<open>2 ^ 32\<close> bytes or more, which the 32-bit counter of \<open>Randomize\<close> never gets to the end of,
  neither returns and nothing is freed.
\<close>

theorem mb_secure_release:
  assumes "mb_ok b" and "mb_size b \<noteq> 0" and "n \<noteq> mb_size b"
  shows "if unat (mb_size b) < 2 ^ 32
         then MB_Destroy gen b = Inr (MB_new, Some (map gen [0..<unat (mb_size b)])) \<and>
              (\<exists>b'. MB_Resize gen n b = Inr (b', Some (map gen [0..<unat (mb_size b)])) \<and> mb_ok b' \<and> mb_size b' = n \<and>
                    mb_bytes b' = take (unat n) (mb_bytes b) @ replicate (unat n - unat (mb_size b)) 0)
         else MB_Destroy gen b = Inl Diverges \<and> MB_Resize gen n b = Inl Diverges"
  using mb_ok_size_pos [OF assms(1,2)] assms mb_resized_correct [OF assms(1), of n]
  by (auto simp: MB_Destroy_eq MB_Resize_eq)

theorem mb_secure_release_witness:
  "MB_Destroy (\<lambda>_. 5) (mb_of [1, 2]) = Inr (MB_new, Some [5, 5]) \<and>
   (\<exists>b'. MB_Resize (\<lambda>_. 5) 3 (mb_of [1, 2]) = Inr (b', Some [5, 5]) \<and> mb_bytes b' = [1, 2, 0])"
  using mb_secure_release [of "mb_of [1, 2]" 3 "\<lambda>_. 5"]
  by (auto simp: mb_of_def mb_ok_def mb_bytes_def upt_conv_Cons)

text \<open>
  \<open>operator^=\<close> of two buffers of one size is the byte-wise exclusive or; applied twice with the
  same operand it restores the buffer, which is what a key mask needs.
\<close>

theorem mb_xor_involutive:
  assumes "mb_ok b" and "mb_ok k" and "mb_size b = mb_size k"
  shows "\<exists>c d. MB_xor_assign b k = Inr c \<and> mb_bytes c = map2 (XOR) (mb_bytes b) (mb_bytes k) \<and>
               MB_xor_assign c k = Inr d \<and> mb_bytes d = mb_bytes b"
proof -
  obtain c where c: "MB_xor_assign b k = Inr c" "mb_ok c" "mb_size c = mb_size b"
      "mb_bytes c = map2 (XOR) (mb_bytes b) (mb_bytes k)" using MB_xor_assign_correct [OF assms] by blast
  obtain d where d: "MB_xor_assign c k = Inr d" "mb_bytes d = map2 (XOR) (mb_bytes c) (mb_bytes k)"
    using MB_xor_assign_correct [OF c(2) assms(2)] c(3) assms(3) by auto
  have "length (mb_bytes b) = length (mb_bytes k)" using assms length_mb_bytes by metis
  then have "map2 (XOR) (map2 (XOR) (mb_bytes b) (mb_bytes k)) (mb_bytes k) = mb_bytes b"
    by (auto intro!: nth_equalityI simp: xor.assoc)
  with c d show ?thesis by auto
qed

theorem mb_xor_involutive_witness:
  "\<exists>c. MB_xor_assign (mb_of [5, 6]) (mb_of [1, 3]) = Inr c \<and> mb_bytes c = [4, 5]"
  using mb_xor_involutive [of "mb_of [5, 6]" "mb_of [1, 3]"] by (auto simp: mb_of_def mb_ok_def mb_bytes_def)

end
