(* ===== verification/Hash_Key.thy ===== *)
theory Hash_Key
  imports Memory_Buffer
begin

text \<open>
  Hashing and keys: the Keccak sponge of \<^verbatim>\<open>src/utils/keccak/keccak.cc\<close>, the hash interface with
  its Keccak implementation (\<^verbatim>\<open>src/hash\<close>), and the keys derived from passwords
  (\<^verbatim>\<open>src/keys/key.cc\<close>).  \<open>int\<close> parameters of \<open>keccak\<close> are integers; a \<open>size_t\<close> reaches them
  through the cast to 32 signed bits.
\<close>

section \<open>The Keccak permutation and sponge\<close>

definition keccakf_rndc :: "u64 list" where
  "keccakf_rndc =
     [0x0000000000000001, 0x0000000000008082, 0x800000000000808a,
      0x8000000080008000, 0x000000000000808b, 0x0000000080000001,
      0x8000000080008081, 0x8000000000008009, 0x000000000000008a,
      0x0000000000000088, 0x0000000080008009, 0x000000008000000a,
      0x000000008000808b, 0x800000000000008b, 0x8000000000008089,
      0x8000000000008003, 0x8000000000008002, 0x8000000000000080,
      0x000000000000800a, 0x800000008000000a, 0x8000000080008081,
      0x8000000000008080, 0x0000000080000001, 0x8000000080008008]"

definition keccakf_rotc :: "nat list" where
  "keccakf_rotc =
     [1, 3, 6, 10, 15, 21, 28, 36, 45, 55, 2, 14,
      27, 41, 56, 8, 25, 43, 62, 18, 39, 61, 20, 44]"

definition keccakf_piln :: "nat list" where
  "keccakf_piln =
     [10, 7, 11, 17, 18, 3, 5, 16, 8, 21, 24, 4,
      15, 23, 19, 13, 12, 2, 20, 14, 22, 9, 6, 1]"

definition ROTL64 :: "u64 \<Rightarrow> nat \<Rightarrow> u64" where
  "ROTL64 x y = push_bit y x OR drop_bit (64 - y) x"

definition keccak_theta :: "u64 list \<Rightarrow> u64 list" where
  "keccak_theta st =
     (let bc = map (\<lambda>i. st ! i XOR st ! (i + 5) XOR st ! (i + 10) XOR st ! (i + 15) XOR st ! (i + 20)) [0..<5]
      in fold (\<lambda>i st. let t = bc ! ((i + 4) mod 5) XOR ROTL64 (bc ! ((i + 1) mod 5)) 1
                      in fold (\<lambda>j st. st[j + i := st ! (j + i) XOR t]) [0, 5, 10, 15, 20] st)
           [0..<5] st)"

definition keccak_rho_pi :: "u64 list \<Rightarrow> u64 list" where
  "keccak_rho_pi st =
     snd (fold (\<lambda>i (t, st). let j = keccakf_piln ! i in (st ! j, st[j := ROTL64 t (keccakf_rotc ! i)]))
            [0..<24] (st ! 1, st))"

definition keccak_chi :: "u64 list \<Rightarrow> u64 list" where
  "keccak_chi st =
     fold (\<lambda>j st. let bc = map (\<lambda>i. st ! (j + i)) [0..<5]
                  in fold (\<lambda>i st. st[j + i := st ! (j + i) XOR (NOT (bc ! ((i + 1) mod 5)) AND bc ! ((i + 2) mod 5))])
                       [0..<5] st)
       [0, 5, 10, 15, 20] st"

definition keccakf :: "u64 list \<Rightarrow> nat \<Rightarrow> u64 list" where
  "keccakf st rounds =
     fold (\<lambda>round st. let st = keccak_chi (keccak_rho_pi (keccak_theta st))
                      in st[0 := st ! 0 XOR keccakf_rndc ! round]) [0..<rounds] st"

definition KeccakRounds :: nat where
  "KeccakRounds = 24"

text \<open>\<open>for (i = 0; i < rsizw; i++) st[i] ^= ((uint64_t *) in)[i];\<close> on a little-endian machine.\<close>

definition xor_block :: "u64 list \<Rightarrow> bytes \<Rightarrow> nat \<Rightarrow> u64 list" where
  "xor_block st inp rsizw =
     fold (\<lambda>i st. st[i := st ! i XOR word_of_nat (le_bytes (take 8 (drop (8 * i) inp)))]) [0..<rsizw] st"

function keccak_absorb :: "u64 list \<Rightarrow> bytes \<Rightarrow> nat \<Rightarrow> nat \<Rightarrow> u64 list \<times> bytes \<times> nat" where
  "keccak_absorb st inp inlen rsiz =
     (if rsiz > 0 \<and> inlen \<ge> rsiz
      then keccak_absorb (keccakf (xor_block st inp (rsiz div 8)) KeccakRounds)
             (drop rsiz inp) (inlen - rsiz) rsiz
      else (st, inp, inlen))"
  by pat_completeness auto
termination
  by (relation "measure (\<lambda>(st, inp, inlen, rsiz). inlen)") auto

declare keccak_absorb.simps [simp del]

definition u64_bytes :: "u64 \<Rightarrow> bytes" where
  "u64_bytes w = map (\<lambda>k. ucast (drop_bit (8 * k) w)) [0..<8]"

text \<open>
  \<open>keccak(in, inlen, md, mdlen)\<close>: the result is what is written to \<open>md\<close>.  A negative length or a
  rate below zero ends in accesses out of bounds, the rate zero in a loop that does not end.
\<close>

definition keccak :: "bytes \<Rightarrow> int \<Rightarrow> int \<Rightarrow> bytes res" where
  "keccak inp inlen mdlen =
     (let rsiz = 200 - 2 * mdlen in
      if inlen < 0 \<or> mdlen < 0 \<or> rsiz < 0 \<or> int (length inp) < inlen then Inl Undefined
      else if rsiz = 0 then Inl Diverges
      else
        let rsiz = nat rsiz;
            (st, inp, inlen) = keccak_absorb (replicate 25 0) inp (nat inlen) rsiz;
            temp = take inlen inp @ [1] @ replicate (rsiz - (inlen + 1)) 0;
            temp = temp[rsiz - 1 := temp ! (rsiz - 1) OR 0x80];
            st = keccakf (xor_block st temp (rsiz div 8)) KeccakRounds
        in Inr (take (nat mdlen) (concat (map u64_bytes st))))"

section \<open>The hash interface\<close>

text \<open>\<open>HashImpl\<close> with its one subclass: the object is its \<open>state_size_\<close>.\<close>

record hash_impl =
  hi_state_size :: u64

definition KeccakHashImpl :: "u64 \<Rightarrow> hash_impl" where
  "KeccakHashImpl state_size = \<lparr>hi_state_size = state_size\<rparr>"

text \<open>\<open>static_cast<int>\<close> of a \<open>size_t\<close>.\<close>

definition to_int :: "u64 \<Rightarrow> int" where
  "to_int n = sint (ucast n :: u32)"

definition KeccakHashImpl_Process :: "hash_impl \<Rightarrow> mbuf \<Rightarrow> bytes option \<Rightarrow> u64 \<Rightarrow> mbuf res" where
  "KeccakHashImpl_Process impl state data len =
     (if hi_state_size impl \<noteq> mb_size state then Inl LengthError
      else case data of
          None \<Rightarrow> Inl (NullptrArgument ''data'')
        | Some d \<Rightarrow>
            bindR (keccak d (to_int len) (to_int (hi_state_size impl))) (\<lambda>md.
            bindR (memcpy (mb_buffer state) 0 (Some md) (length md)) (\<lambda>p.
            Inr (state\<lparr>mb_buffer := p\<rparr>))))"

text \<open>\<open>HashImpl::Append\<close>: two temporary buffers with unspecified first contents.\<close>

definition HashImpl_Append ::
    "(nat \<Rightarrow> u8) \<Rightarrow> hash_impl \<Rightarrow> mbuf \<Rightarrow> bytes option \<Rightarrow> u64 \<Rightarrow> mbuf res" where
  "HashImpl_Append garbage impl state data len =
     (if hi_state_size impl \<noteq> mb_size state then Inl LengthError
      else
        bindR (KeccakHashImpl_Process impl (MB_new_sized garbage (hi_state_size impl)) data len) (\<lambda>hashed_input.
        bindR (MB_Write (MB_new_sized garbage (hi_state_size impl * 2)) 0
                 (mb_buffer hashed_input) (mb_size hashed_input)) (\<lambda>buffer.
        bindR (MB_Write buffer (hi_state_size impl) (mb_buffer state) (hi_state_size impl)) (\<lambda>buffer.
        KeccakHashImpl_Process impl state (mb_buffer buffer) (mb_size buffer)))))"

definition default_hash_impl :: "hash_impl option" where
  "default_hash_impl = Some (KeccakHashImpl 32)"

record hash =
  h_state :: mbuf

definition Hash_Init :: "(nat \<Rightarrow> u8) \<Rightarrow> hash res" where
  "Hash_Init gen =
     (case default_hash_impl of
        None \<Rightarrow> Inl (MissingDefault ''hash implementation'')
      | Some impl \<Rightarrow>
          bindR (MB_Resize gen (hi_state_size impl) MB_new) (\<lambda>(state, freed).
          Inr \<lparr>h_state = MB_Clear state\<rparr>))"

definition Hash_Process :: "hash \<Rightarrow> bytes option \<Rightarrow> u64 \<Rightarrow> hash res" where
  "Hash_Process h data len =
     (case default_hash_impl of
        None \<Rightarrow> Inl (MissingDefault ''hash implementation'')
      | Some impl \<Rightarrow> bindR (KeccakHashImpl_Process impl (h_state h) data len)
                       (\<lambda>st. Inr (h\<lparr>h_state := st\<rparr>)))"

definition Hash_Process_string :: "hash \<Rightarrow> string \<Rightarrow> hash res" where
  "Hash_Process_string h data = Hash_Process h (Some (string_bytes data)) (word_of_nat (length data))"

definition Hash_Process_buffer :: "hash \<Rightarrow> mbuf \<Rightarrow> hash res" where
  "Hash_Process_buffer h data =
     (case default_hash_impl of
        None \<Rightarrow> Inl (MissingDefault ''hash implementation'')
      | Some impl \<Rightarrow>
          if mb_size data = 0 then Inl (NullptrArgument ''data'')
          else bindR (KeccakHashImpl_Process impl (h_state h) (mb_buffer data) (mb_size data))
                 (\<lambda>st. Inr (h\<lparr>h_state := st\<rparr>)))"

definition Hash_Append :: "(nat \<Rightarrow> u8) \<Rightarrow> hash \<Rightarrow> bytes option \<Rightarrow> u64 \<Rightarrow> hash res" where
  "Hash_Append garbage h data len =
     (case default_hash_impl of
        None \<Rightarrow> Inl (MissingDefault ''hash implementation'')
      | Some impl \<Rightarrow> bindR (HashImpl_Append garbage impl (h_state h) data len)
                       (\<lambda>st. Inr (h\<lparr>h_state := st\<rparr>)))"

definition Hash_Append_string :: "(nat \<Rightarrow> u8) \<Rightarrow> hash \<Rightarrow> string \<Rightarrow> hash res" where
  "Hash_Append_string garbage h data =
     Hash_Append garbage h (Some (string_bytes data)) (word_of_nat (length data))"

definition Hash_Append_buffer :: "(nat \<Rightarrow> u8) \<Rightarrow> hash \<Rightarrow> mbuf \<Rightarrow> hash res" where
  "Hash_Append_buffer garbage h data = Hash_Append garbage h (mb_buffer data) (mb_size data)"

definition Hash_of_string :: "(nat \<Rightarrow> u8) \<Rightarrow> string \<Rightarrow> hash res" where
  "Hash_of_string gen data = bindR (Hash_Init gen) (\<lambda>h. Hash_Process_string h data)"

definition Hash_of_bytes :: "(nat \<Rightarrow> u8) \<Rightarrow> bytes option \<Rightarrow> u64 \<Rightarrow> hash res" where
  "Hash_of_bytes gen data len = bindR (Hash_Init gen) (\<lambda>h. Hash_Process h data len)"

definition Hash_GetState :: "hash \<Rightarrow> mbuf" where
  "Hash_GetState h = h_state h"

definition Hash_GetStateSize :: "hash \<Rightarrow> u64" where
  "Hash_GetStateSize h = mb_size (h_state h)"

section \<open>Keys\<close>

text \<open>A key is a \<open>unique_ptr\<close> to its buffer.\<close>

record key =
  k_data :: "mbuf option"

definition Key_new :: key where
  "Key_new = \<lparr>k_data = None\<rparr>"

definition Key_of_buffer :: "(nat \<Rightarrow> u8) \<Rightarrow> mbuf \<Rightarrow> key res" where
  "Key_of_buffer garbage data_buffer =
     bindR (MB_copy garbage data_buffer) (\<lambda>b. Inr \<lparr>k_data = Some b\<rparr>)"

definition Key_GetData :: "key \<Rightarrow> mbuf res" where
  "Key_GetData k = (case k_data k of None \<Rightarrow> Inl Undefined | Some b \<Rightarrow> Inr b)"

definition Key_GetSize :: "key \<Rightarrow> u64 res" where
  "Key_GetSize k = bindR (Key_GetData k) (\<lambda>b. Inr (mb_size b))"

definition Key_xor_assign :: "key \<Rightarrow> key \<Rightarrow> key res" where
  "Key_xor_assign k other =
     bindR (Key_GetData k) (\<lambda>a. bindR (Key_GetData other) (\<lambda>b.
     bindR (MB_xor_assign a b) (\<lambda>c. Inr (k\<lparr>k_data := Some c\<rparr>))))"

definition Key_xor :: "(nat \<Rightarrow> u8) \<Rightarrow> key \<Rightarrow> key \<Rightarrow> key res" where
  "Key_xor garbage k other =
     bindR (Key_GetData k) (\<lambda>a. bindR (Key_GetData other) (\<lambda>b.
     bindR (MB_xor garbage a b) (Key_of_buffer garbage)))"

definition Key_FromString :: "(nat \<Rightarrow> u8) \<Rightarrow> string \<Rightarrow> key res" where
  "Key_FromString garbage input =
     bindR (Hash_of_string garbage input) (\<lambda>h. Key_of_buffer garbage (Hash_GetState h))"

section \<open>Correctness of hashing\<close>

lemma length_fold_update:
  "(\<And>i ys. length (f i ys) = length ys) \<Longrightarrow> length (fold f js xs) = length xs"
  by (induction js arbitrary: xs) simp_all

lemma length_keccakf [simp]: "length (keccakf st n) = length st"
proof -
  have "length (snd (fold (\<lambda>i (t, st). let j = keccakf_piln ! i in (st ! j, st[j := ROTL64 t (keccakf_rotc ! i)]))
            js (t, st))) = length st" for js t and st :: "u64 list"
    by (induction js arbitrary: t st) (simp_all add: Let_def)
  then have "length (keccak_rho_pi st) = length st" for st by (simp add: keccak_rho_pi_def)
  moreover have "length (keccak_theta st) = length st" for st
    unfolding keccak_theta_def Let_def by (intro length_fold_update) simp
  moreover have "length (keccak_chi st) = length st" for st
    unfolding keccak_chi_def Let_def by (intro length_fold_update) simp
  ultimately show ?thesis
    unfolding keccakf_def Let_def by (intro length_fold_update) simp
qed

lemma length_xor_block [simp]: "length (xor_block st inp n) = length st"
  unfolding xor_block_def by (intro length_fold_update) simp

lemma keccak_absorb_spec:
  "rsiz > 0 \<Longrightarrow> inlen \<le> length inp \<Longrightarrow> keccak_absorb st inp inlen rsiz = (st', inp', inlen') \<Longrightarrow>
     length st' = length st \<and> inlen' = inlen mod rsiz \<and> inlen' \<le> length inp'"
proof (induction st inp inlen rsiz rule: keccak_absorb.induct)
  case (1 st inp inlen rsiz)
  show ?case
  proof (cases "inlen \<ge> rsiz")
    case True
    with "1.prems" have "keccak_absorb (keccakf (xor_block st inp (rsiz div 8)) KeccakRounds)
        (drop rsiz inp) (inlen - rsiz) rsiz = (st', inp', inlen')"
      by (simp add: keccak_absorb.simps [of st])
    moreover have "inlen - rsiz \<le> length (drop rsiz inp)" using "1.prems"(2) by simp
    ultimately show ?thesis using "1.IH" True "1.prems"(1) by (simp only: le_mod_geq length_keccakf length_xor_block)
  next
    case False
    with "1.prems" show ?thesis by (auto simp: keccak_absorb.simps [of st])
  qed
qed

lemma length_u64_bytes [simp]: "length (u64_bytes w) = 8"
  by (simp add: u64_bytes_def)

theorem keccak_returns:
  assumes "0 \<le> inlen" "inlen \<le> int (length inp)" "0 \<le> mdlen" "mdlen < 100"
  shows "\<exists>md. keccak inp inlen mdlen = Inr md \<and> length md = nat mdlen"
proof -
  have l: "length (concat (map u64_bytes st)) = 8 * length st" for st
    by (induction st) simp_all
  let ?r = "nat (200 - 2 * mdlen)"
  obtain st' inp' inlen' where a: "keccak_absorb (replicate 25 0) inp (nat inlen) ?r = (st', inp', inlen')"
    by (metis prod_cases3)
  have "length st' = 25" using keccak_absorb_spec [OF _ _ a] assms by simp
  with a assms show ?thesis
    by (simp add: keccak_def Let_def l)
qed

text \<open>The 32-byte digest of a list.\<close>

definition digest :: "bytes \<Rightarrow> bytes" where
  "digest d = (case keccak d (int (length d)) 32 of Inr md \<Rightarrow> md | Inl e \<Rightarrow> [])"

lemma keccak_digest: "keccak d (int (length d)) 32 = Inr (digest d)"
  and length_digest [simp]: "length (digest d) = 32"
proof -
  obtain md where "keccak d (int (length d)) 32 = Inr md" "length md = 32"
    using keccak_returns [of "int (length d)" d 32] by auto
  then show "keccak d (int (length d)) 32 = Inr (digest d)" "length (digest d) = 32"
    by (simp_all add: digest_def)
qed

lemma to_int_eq: "unat n < 2 ^ 31 \<Longrightarrow> to_int n = int (unat n)"
proof -
  assume n: "unat n < 2 ^ 31"
  then have "unat (ucast n :: u32) = unat n"
    by (simp add: unsigned_ucast_eq take_bit_nat_eq_self)
  then have "uint (ucast n :: u32) = int (unat n)" by (metis uint_nat)
  moreover have "signed_take_bit 31 (int (unat n)) = int (unat n)"
    using n by (intro signed_take_bit_int_eq_self) (simp_all del: of_nat_unat)
  ultimately show ?thesis unfolding to_int_def sint_uint by (simp del: of_nat_unat)
qed

lemma Process_correct:
  assumes "hi_state_size impl = 32" "mb_ok st" "mb_size st = 32" "unat len = length d" "length d < 2 ^ 31"
  shows "KeccakHashImpl_Process impl st (Some d) len = Inr (st\<lparr>mb_buffer := Some (digest d)\<rparr>)"
proof -
  obtain bs where bs: "mb_buffer st = Some bs" "length bs = 32"
    using assms by (auto simp: mb_ok_def split: option.splits)
  have "to_int len = int (length d)" "to_int 32 = 32"
    using to_int_eq [of len] to_int_eq [of 32] assms by simp_all
  with bs assms show ?thesis
    by (simp add: KeccakHashImpl_Process_def keccak_digest res_simps memcpy_whole)
qed

lemma Append_correct:
  assumes "hi_state_size impl = 32" "mb_ok st" "mb_size st = 32" "unat len = length d" "length d < 2 ^ 31"
  shows "HashImpl_Append garbage impl st (Some d) len =
           Inr (st\<lparr>mb_buffer := Some (digest (digest d @ mb_bytes st))\<rparr>)"
proof -
  obtain bs where bs: "mb_buffer st = Some bs" "length bs = 32" "mb_bytes st = bs"
    using assms by (auto simp: mb_ok_def mb_bytes_def split: option.splits)
  let ?h = "(MB_new_sized garbage 32)\<lparr>mb_buffer := Some (digest d)\<rparr>"
  have 1: "KeccakHashImpl_Process impl (MB_new_sized garbage 32) (Some d) len = Inr ?h"
    by (rule Process_correct) (use assms in simp_all)
  obtain b1 where b1: "MB_Write (MB_new_sized garbage 64) 0 (Some (digest d)) 32 = Inr b1" "mb_ok b1"
      "mb_size b1 = 64" "mb_bytes b1 = copy_at 0 (digest d) (mb_bytes (MB_new_sized garbage 64))"
    using MB_Write_correct [of "MB_new_sized garbage 64" 0 32 "digest d"] by auto
  obtain b2 where b2: "MB_Write b1 32 (Some bs) 32 = Inr b2" "mb_ok b2" "mb_size b2 = 64"
      "mb_bytes b2 = copy_at 32 bs (mb_bytes b1)"
    using MB_Write_correct [of b1 32 32 bs] b1 bs(2) by auto
  have "length (mb_bytes (MB_new_sized garbage 64)) = 64" using length_mb_bytes mb_ok_new by fastforce
  then have c: "mb_bytes b2 = digest d @ bs" unfolding b1 b2 using bs(2) by (simp add: copy_at_def)
  then have "mb_buffer b2 = Some (digest d @ bs)" using mb_ok_size_pos [OF b2(2)] b2(3) by simp
  moreover have "KeccakHashImpl_Process impl st (Some (digest d @ bs)) 64 =
      Inr (st\<lparr>mb_buffer := Some (digest (digest d @ bs))\<rparr>)"
    by (rule Process_correct) (use assms bs in simp_all)
  ultimately show ?thesis
    using b1 b2 bs assms by (simp add: HashImpl_Append_def 1 res_simps)
qed

section \<open>What hashing returns\<close>

text \<open>A hash object always holds 32 bytes; \<open>hash_is\<close> names them.\<close>

definition hash_is :: "hash \<Rightarrow> bytes \<Rightarrow> bool" where
  "hash_is h bs \<longleftrightarrow> h_state h = \<lparr>mb_buffer = Some bs, mb_size = 32\<rparr> \<and> length bs = 32"

lemma hash_is_ok: "hash_is h bs \<Longrightarrow> mb_ok (h_state h) \<and> mb_size (h_state h) = 32 \<and> mb_bytes (h_state h) = bs"
  by (simp add: hash_is_def mb_ok_def mb_bytes_def)

lemma Hash_Init_correct: "\<exists>h. Hash_Init gen = Inr h \<and> hash_is h (replicate 32 0)"
  by (simp add: Hash_Init_def default_hash_impl_def KeccakHashImpl_def MB_Resize_new)
    (simp add: mb_resized_def MB_new_def mb_bytes_def copy_at_def MB_Clear_def hash_is_def)

lemma Hash_Process_correct:
  assumes "hash_is h bs" "unat len = length d" "length d < 2 ^ 31"
  shows "\<exists>h'. Hash_Process h (Some d) len = Inr h' \<and> hash_is h' (digest d)"
  using assms hash_is_ok [OF assms(1)] Process_correct [of "KeccakHashImpl 32" "h_state h" len d]
  by (simp add: Hash_Process_def default_hash_impl_def KeccakHashImpl_def res_simps hash_is_def)

lemma Hash_Append_correct:
  assumes "hash_is h bs" "unat len = length d" "length d < 2 ^ 31"
  shows "\<exists>h'. Hash_Append garbage h (Some d) len = Inr h' \<and> hash_is h' (digest (digest d @ bs))"
  using assms hash_is_ok [OF assms(1)] Append_correct [of "KeccakHashImpl 32" "h_state h" len d garbage]
  by (simp add: Hash_Append_def default_hash_impl_def KeccakHashImpl_def res_simps hash_is_def)

lemma Hash_of_string_correct:
  assumes "length s < 2 ^ 31"
  shows "\<exists>h. Hash_of_string gen s = Inr h \<and> hash_is h (digest (string_bytes s))"
proof -
  obtain h where h: "Hash_Init gen = Inr h" "hash_is h (replicate 32 0)" using Hash_Init_correct by blast
  show ?thesis
    using Hash_Process_correct [OF h(2), of "word_of_nat (length s)" "string_bytes s"] assms h(1)
    by (simp add: Hash_of_string_def Hash_Process_string_def res_simps unat_simps)
qed

lemma Key_of_hash:
  assumes "hash_is h bs"
  shows "Key_of_buffer g (Hash_GetState h) = Inr \<lparr>k_data = Some \<lparr>mb_buffer = Some bs, mb_size = 32\<rparr>\<rparr>"
  using assms
  by (simp add: Key_of_buffer_def Hash_GetState_def hash_is_def MB_copy_def MB_Init_eq memcpy_whole res_simps)

lemma Key_FromString_correct:
  assumes "length s < 2 ^ 31"
  shows "Key_FromString g s =
           Inr \<lparr>k_data = Some \<lparr>mb_buffer = Some (digest (string_bytes s)), mb_size = 32\<rparr>\<rparr>"
  using Hash_of_string_correct [OF assms, of g] Key_of_hash
  by (auto simp: Key_FromString_def res_simps)

text \<open>Two passwords that hash alike cannot be told apart; the key forgets \<open>garbage\<close>.\<close>

lemma Key_FromString_garbage: "length s < 2 ^ 31 \<Longrightarrow> Key_FromString g s = Key_FromString g' s"
  by (simp add: Key_FromString_correct)

section \<open>What hashing and keys promise\<close>

text \<open>
  Building a key from a password always succeeds for a password below 2 GiB: the key holds the
  32 bytes of the Keccak digest, whatever the fresh memory of its buffers held, and \<open>Append\<close> on the
  hash of the same string chains the digests.
\<close>

theorem key_from_string_correct:
  assumes "length s < 2 ^ 31"
  shows "\<exists>k m. Key_FromString g s = Inr k \<and> Key_FromString g' s = Inr k \<and> Key_GetSize k = Inr 32 \<and>
              Key_GetData k = Inr m \<and> mb_bytes m = digest (string_bytes s) \<and> length (mb_bytes m) = 32"
  by (simp add: Key_FromString_correct [OF assms] Key_GetSize_def Key_GetData_def mb_bytes_def)

theorem key_from_string_correct_witness:
  "\<exists>k. Key_FromString (\<lambda>_. 1) ''heslo'' = Inr k \<and> Key_GetSize k = Inr 32"
  using key_from_string_correct [of "''heslo''" "\<lambda>_. 1" "\<lambda>_. 1"] by auto

text \<open>
  The hash object is a chain: \<open>Process\<close> sets the state to the digest of the data, and
  \<open>Append\<close> sets it to the digest of the new data's digest followed by the old state; no call fails
  for data below 2 GiB.
\<close>

theorem hash_chain_correct:
  assumes "hash_is h bs" and "unat len = length d" and "length d < 2 ^ 31"
  shows "(\<exists>h'. Hash_Process h (Some d) len = Inr h' \<and> hash_is h' (digest d)) \<and>
         (\<exists>h'. Hash_Append garbage h (Some d) len = Inr h' \<and> hash_is h' (digest (digest d @ bs)))"
  using Hash_Process_correct [OF assms] Hash_Append_correct [OF assms] by blast

theorem hash_chain_correct_witness:
  "\<exists>h h'. Hash_Init (\<lambda>_. 0) = Inr h \<and> Hash_Append (\<lambda>_. 0) h (Some [1, 2]) 2 = Inr h' \<and>
          hash_is h' (digest (digest [1, 2] @ replicate 32 0))"
proof -
  obtain h where h: "Hash_Init (\<lambda>_. 0) = Inr h" "hash_is h (replicate 32 0)" using Hash_Init_correct by blast
  show ?thesis using hash_chain_correct [OF h(2), of 2 "[1, 2]" "\<lambda>_. 0"] h(1) by auto
qed

section \<open>A hash of the start of an array\<close>

text \<open>\<open>keccak\<close> reads no byte beyond the length it is given.\<close>

lemma xor_block_take: "8 * n \<le> k \<Longrightarrow> xor_block st (take k inp) n = xor_block st inp n"
  unfolding xor_block_def by (intro fold_cong) (auto simp: min_def drop_take)

lemma keccak_absorb_take:
  assumes "0 < rsiz" "keccak_absorb st inp inlen rsiz = (st', inp', inlen')"
  shows "\<exists>inp2. keccak_absorb st (take inlen inp) inlen rsiz = (st', inp2, inlen') \<and> take inlen' inp2 = take inlen' inp'"
  using assms
proof (induction st inp inlen rsiz rule: keccak_absorb.induct)
  case (1 st inp inlen rsiz)
  show ?case
  proof (cases "inlen \<ge> rsiz")
    case True
    have "8 * (rsiz div 8) \<le> inlen" using True by simp
    then have x: "xor_block st (take inlen inp) (rsiz div 8) = xor_block st inp (rsiz div 8)" by (rule xor_block_take)
    have "keccak_absorb (keccakf (xor_block st inp (rsiz div 8)) KeccakRounds) (drop rsiz inp) (inlen - rsiz) rsiz = (st', inp', inlen')"
      using "1.prems" True by (simp add: keccak_absorb.simps [of st])
    then show ?thesis using "1.IH" True "1.prems"(1) x
      by (simp add: keccak_absorb.simps [of st "take inlen inp"] drop_take)
  next
    case False
    then have "keccak_absorb st x inlen rsiz = (st, x, inlen)" for x by (subst keccak_absorb.simps) simp
    with "1.prems" show ?thesis by auto
  qed
qed

lemma keccak_take:
  assumes "0 \<le> n" "nat n \<le> length inp"
  shows "keccak inp n 32 = keccak (take (nat n) inp) n 32"
proof -
  obtain st' inp' m' where a: "keccak_absorb (replicate 25 0) inp (nat n) 136 = (st', inp', m')" by (metis prod_cases3)
  obtain inp2 where b: "keccak_absorb (replicate 25 0) (take (nat n) inp) (nat n) 136 = (st', inp2, m')" "take m' inp2 = take m' inp'"
    using keccak_absorb_take [OF _ a] by auto
  show ?thesis using a b assms by (simp add: keccak_def Let_def)
qed

lemma Hash_of_bytes_correct:
  assumes "unat len \<le> length d" "unat len < 2 ^ 31"
  shows "\<exists>h. Hash_of_bytes gen (Some d) len = Inr h \<and> hash_is h (digest (take (unat len) d))"
proof -
  obtain h where h: "Hash_Init gen = Inr h" "hash_is h (replicate 32 0)" using Hash_Init_correct by blast
  have i: "to_int len = int (unat len)" using assms(2) by (rule to_int_eq)
  have "keccak d (to_int len) i = keccak (take (unat len) d) (to_int len) i" if "i = 32" for i
    using keccak_take [of "int (unat len)" d] assms(1) by (simp add: i that)
  moreover have "to_int 32 = 32" using to_int_eq [of 32] by simp
  ultimately have "Hash_Process h (Some d) len = Hash_Process h (Some (take (unat len) d)) len"
    using h(2) by (auto simp: Hash_Process_def KeccakHashImpl_Process_def default_hash_impl_def KeccakHashImpl_def hash_is_def)
  then show ?thesis using h Hash_Process_correct [OF h(2), of len "take (unat len) d"] assms
    by (auto simp: Hash_of_bytes_def)
qed

end
