(* ===== verification/Permutation_Base.thy ===== *)
theory Permutation_Base
  imports Hash_Key
begin

text \<open>
  \<^verbatim>\<open>src/permutations/permutation.h\<close>: the base class every permutation of blocks extends, and the
  contract its users rely on, the locale \<open>permutation_class\<close>.  The base class is a record that the
  subclasses extend, as in the code.  The identity permutation
  (\<^verbatim>\<open>identity_permutation.cc\<close>) is here as well.
\<close>

section \<open>The environment\<close>

text \<open>
  What the program takes from outside: the bytes a fresh array happens to hold, and the values of
  \<open>rand()\<close> after \<open>srand(2)\<close>.
\<close>

record env =
  e_garbage :: "nat \<Rightarrow> u8"
  e_rnd :: "nat \<Rightarrow> u64"

section \<open>The base class\<close>

type_synonym PermElem = u64

record perm_base =
  p_size :: u64
  p_initialized :: bool

definition Permutation_GetSize :: "'a perm_base_scheme \<Rightarrow> PermElem" where
  "Permutation_GetSize p = p_size p"

text \<open>
  \<open>CommonPermuteInputCheck\<close>.  For an object that is not initialised the code builds the
  \<open>InvalidState\<close> exception and drops it: the \<open>throw\<close> is missing, so the check passes.
\<close>

definition CommonPermuteInputCheck :: "'a perm_base_scheme \<Rightarrow> PermElem \<Rightarrow> unit res" where
  "CommonPermuteInputCheck p index =
     (if index \<ge> p_size p then Inl OutOfRange
      else let dropped = (if \<not> p_initialized p
                          then Some (InvalidState commonPermuteInputCheck permutationC notInitialized)
                          else None)
           in Inr ())"

lemma CommonPermuteInputCheck_eq [res_simps]:
  "CommonPermuteInputCheck p index = (if index < p_size p then Inr () else Inl OutOfRange)"
  by (auto simp: CommonPermuteInputCheck_def)

section \<open>The contract of a permutation\<close>

text \<open>
  \<open>ok p\<close> is the invariant of an object that \<open>Init\<close> has set up, \<open>supported n\<close> the requested sizes
  for which the arithmetic of the class does not overflow.  \<open>Permute\<close> maps indices below the size
  to indices below it, two different ones to two different ones, and refuses every other index.
\<close>

locale permutation_class =
  fixes ok :: "'p \<Rightarrow> bool"
    and size :: "'p \<Rightarrow> u64"
    and permute :: "'p \<Rightarrow> u64 \<Rightarrow> u64 res"
    and init :: "u64 \<Rightarrow> key \<Rightarrow> 'p \<Rightarrow> 'p \<times> unit res"
    and get_size :: "u64 \<Rightarrow> key \<Rightarrow> 'p \<Rightarrow> u64 res"
    and supported :: "u64 \<Rightarrow> bool"
  assumes init_ok: "supported n \<Longrightarrow> init n k p = (p', Inr ()) \<Longrightarrow> ok p'"
    and init_size: "supported n \<Longrightarrow> init n k p = (p', Inr ()) \<Longrightarrow> get_size n k p = Inr (size p')"
    and init_le: "supported n \<Longrightarrow> init n k p = (p', Inr ()) \<Longrightarrow> 0 < size p' \<and> size p' \<le> n"
    and permute_total: "ok p \<Longrightarrow> i < size p \<Longrightarrow> \<exists>j. permute p i = Inr j \<and> j < size p"
    and permute_inj: "ok p \<Longrightarrow> i < size p \<Longrightarrow> i' < size p \<Longrightarrow> permute p i = permute p i' \<Longrightarrow> i = i'"
    and permute_range: "size p \<le> i \<Longrightarrow> permute p i = Inl OutOfRange"
begin

text \<open>The permutation as a function on the positions below the size.\<close>

definition pos :: "'p \<Rightarrow> nat \<Rightarrow> nat" where
  "pos p i = (case permute p (word_of_nat i) of Inr j \<Rightarrow> unat j | Inl e \<Rightarrow> 0)"

lemma permute_pos: "ok p \<Longrightarrow> i < unat (size p) \<Longrightarrow> permute p (word_of_nat i) = Inr (word_of_nat (pos p i))"
  using permute_total [of p "word_of_nat i"]
  by (auto simp: pos_def word_less_nat_alt unat_simps)

lemma pos_less: "ok p \<Longrightarrow> i < unat (size p) \<Longrightarrow> pos p i < unat (size p)"
  using permute_total [of p "word_of_nat i"]
  by (auto simp: pos_def word_less_nat_alt unat_simps)

lemma inj_on_pos: "ok p \<Longrightarrow> inj_on (pos p) {..<unat (size p)}"
proof (rule inj_onI)
  fix i i' assume p: "ok p" "i \<in> {..<unat (size p)}" "i' \<in> {..<unat (size p)}" "pos p i = pos p i'"
  then have "permute p (word_of_nat i) = permute p (word_of_nat i')" by (simp add: permute_pos)
  then have "(word_of_nat i :: u64) = word_of_nat i'"
    using permute_inj [OF p(1)] p by (simp add: word_less_nat_alt unat_simps)
  then have "unat (word_of_nat i :: u64) = unat (word_of_nat i' :: u64)" by simp
  with p show "i = i'" by (simp add: unat_simps)
qed

lemma bij_pos: "ok p \<Longrightarrow> bij_betw (pos p) {..<unat (size p)} {..<unat (size p)}"
  by (rule endo_inj_surj [THEN bij_betw_imageI [rotated], OF finite_lessThan _ inj_on_pos inj_on_pos])
     (auto simp: pos_less)

lemma bij_permute:
  assumes "ok p"
  shows "bij_betw (\<lambda>i. projr (permute p i)) {..<size p} {..<size p}"
proof -
  let ?f = "\<lambda>i. projr (permute p i)"
  have fin: "finite {..<size p}" by (rule finite_subset [OF subset_UNIV finite])
  have "inj_on ?f {..<size p}"
  proof (rule inj_onI)
    fix i i' assume *: "i \<in> {..<size p}" "i' \<in> {..<size p}" "?f i = ?f i'"
    then have "permute p i = permute p i'" using permute_total [OF assms] by (metis lessThan_iff sum.sel(2))
    with * show "i = i'" using permute_inj [OF assms] by simp
  qed
  moreover have "?f ` {..<size p} \<subseteq> {..<size p}"
    using permute_total [OF assms] by fastforce
  ultimately show ?thesis using endo_inj_surj [OF fin] by (simp add: bij_betw_def)
qed

end

section \<open>The identity permutation\<close>

definition IdentityPermutation :: perm_base where
  "IdentityPermutation = \<lparr>p_size = 0, p_initialized = False\<rparr>"

definition Identity_Init :: "PermElem \<Rightarrow> key \<Rightarrow> (perm_base, unit) meth" where
  "Identity_Init requested_size key p =
     (if requested_size = 0 then (p, Inl (EmptyArgument ''requested_size''))
      else (p\<lparr>p_size := requested_size, p_initialized := True\<rparr>, Inr ()))"

definition Identity_Permute :: "perm_base \<Rightarrow> PermElem \<Rightarrow> PermElem res" where
  "Identity_Permute p index = bindR (CommonPermuteInputCheck p index) (\<lambda>_. Inr index)"

definition Identity_GetSizeUsingParams :: "PermElem \<Rightarrow> key \<Rightarrow> perm_base \<Rightarrow> PermElem res" where
  "Identity_GetSizeUsingParams requested_size key p = Inr requested_size"

definition Identity_Name :: string where
  "Identity_Name = ''Identity''"

interpretation identity: permutation_class "\<lambda>_. True" p_size Identity_Permute Identity_Init
    Identity_GetSizeUsingParams "\<lambda>_. True"
  by unfold_locales
     (auto simp: Identity_Permute_def Identity_Init_def Identity_GetSizeUsingParams_def res_simps
        word_gt_0 split: if_splits)

end
