(* ===== verification/Permutation_Affine.thy ===== *)
theory Permutation_Affine
  imports Permutation_Base
begin

text \<open>
  The affine permutations (\<^verbatim>\<open>affine_permutation.cc\<close>, \<^verbatim>\<open>affine64_permutation.cc\<close>): the size is cut
  down to a number \<open>ClosestSmallerPrime\<close> accepts, the key gives a factor and a shift, and an index
  goes to \<open>(index * a + b) mod size\<close>.  What makes this a permutation is the test on \<open>Gcd\<close>, so it
  is one even where the randomised primality test errs.
\<close>

section \<open>Definitions\<close>

record affine = perm_base +
  key_param_a :: u64
  key_param_b :: u64

definition AffinePermutation :: affine where
  "AffinePermutation = \<lparr>p_size = 0, p_initialized = False, key_param_a = 0, key_param_b = 0\<rparr>"

text \<open>\<open>for (i = lo; i < hi; i += 8) a ^= *(uint64*)(&key.GetData()[i]);\<close>\<close>

definition affine_key_xor :: "bytes \<Rightarrow> nat \<Rightarrow> nat \<Rightarrow> u64" where
  "affine_key_xor data lo hi =
     fold (\<lambda>k a. a XOR word_of_nat (le_bytes (take 8 (drop (lo + 8 * k) data))))
       [0..<(hi - lo + 7) div 8] 0"

text \<open>
  \<open>GetSizeUsingParams(requested_size, key, overwrite_members)\<close>: the \<open>while (true)\<close> loop, with
  the prime and the parameters it ends with.  Every pass starts \<open>rand()\<close> anew with
  \<open>srand(2)\<close>.  \<open>key_size\<close> and \<open>data\<close> are \<open>key.GetSize()\<close> and the bytes of \<open>key.GetData()\<close>.
\<close>

partial_function (option) affine_loop ::
    "(nat \<Rightarrow> u64) \<Rightarrow> u64 \<Rightarrow> bytes \<Rightarrow> u64 \<Rightarrow> (u64 \<times> u64 \<times> u64) res option" where
  "affine_loop rnd key_size data prime =
     (case ClosestSmallerPrime rnd prime of
        None \<Rightarrow> None
      | Some prime \<Rightarrow>
          if prime < 1 then Some (Inr (0, 0, 0))
          else if key_size < 8 then Some (Inl InvalidArgument)
          else if key_size mod 16 \<noteq> 0 then Some (Inl InvalidArgument)
          else
            let half = unat (key_size div 2);
                a = affine_key_xor data 0 half mod (prime div 2) + prime div 2;
                b = affine_key_xor data half (unat key_size) mod (prime div 2) + prime div 2
            in (case Gcd a prime of
                  Inl e \<Rightarrow> Some (Inl e)
                | Inr g \<Rightarrow> if g = 1 then Some (Inr (prime, a, b))
                           else affine_loop rnd key_size data prime))"

definition Affine_GetSize_loop :: "env \<Rightarrow> PermElem \<Rightarrow> key \<Rightarrow> (u64 \<times> u64 \<times> u64) res" where
  "Affine_GetSize_loop E requested_size key =
     bindR (Key_GetSize key) (\<lambda>key_size.
     if key_size = 0 then Inl (EmptyArgument ''key'')
     else bindR (Key_GetData key) (\<lambda>data.
     case affine_loop (e_rnd E) key_size (mb_bytes data) requested_size of
       None \<Rightarrow> Inl Diverges
     | Some r \<Rightarrow> r))"

text \<open>The protected overload with \<open>overwrite_members\<close>.\<close>

definition Affine_GetSize :: "env \<Rightarrow> PermElem \<Rightarrow> key \<Rightarrow> bool \<Rightarrow> (affine, PermElem) meth" where
  "Affine_GetSize E requested_size key overwrite_members p =
     (case Affine_GetSize_loop E requested_size key of
        Inl e \<Rightarrow> (p, Inl e)
      | Inr (prime, a, b) \<Rightarrow>
          if prime = 0 then (p, Inr 0)
          else if overwrite_members
          then (p\<lparr>p_size := prime, key_param_a := a, key_param_b := b\<rparr>, Inr prime)
          else (p, Inr prime))"

definition Affine_GetSizeUsingParams :: "env \<Rightarrow> PermElem \<Rightarrow> key \<Rightarrow> affine \<Rightarrow> PermElem res" where
  "Affine_GetSizeUsingParams E requested_size key p =
     (if requested_size > 0xFFFFFFFF then Inr 0
      else snd (Affine_GetSize E requested_size key False p))"

definition Affine_Init :: "env \<Rightarrow> PermElem \<Rightarrow> key \<Rightarrow> (affine, unit) meth" where
  "Affine_Init E requested_size key p =
     (if requested_size > 0xFFFFFFFF then (p, Inl InvalidArgument)
      else
        let p = p\<lparr>p_initialized := False\<rparr> in
        (case Affine_GetSize E requested_size key True p of
           (p, Inl e) \<Rightarrow> (p, Inl e)
         | (p, Inr n) \<Rightarrow>
             if n = 0 then (p, Inl RuntimeError) else (p\<lparr>p_initialized := True\<rparr>, Inr ())))"

definition Affine_Permute :: "affine \<Rightarrow> PermElem \<Rightarrow> PermElem res" where
  "Affine_Permute p index =
     bindR (CommonPermuteInputCheck p index) (\<lambda>_.
     Inr (((index * key_param_a p) mod p_size p + key_param_b p) mod p_size p))"

definition Affine_Name :: string where
  "Affine_Name = ''Affine''"

definition Affine64_Init :: "env \<Rightarrow> PermElem \<Rightarrow> key \<Rightarrow> (affine, unit) meth" where
  "Affine64_Init E requested_size key p =
     (let p = p\<lparr>p_initialized := False\<rparr> in
      (case Affine_GetSize E requested_size key True p of
         (p, Inl e) \<Rightarrow> (p, Inl e)
       | (p, Inr n) \<Rightarrow>
           if n = 0 then (p, Inl InvalidArgument) else (p\<lparr>p_initialized := True\<rparr>, Inr ())))"

definition Affine64_Permute :: "affine \<Rightarrow> PermElem \<Rightarrow> PermElem res" where
  "Affine64_Permute p index =
     bindR (CommonPermuteInputCheck p index) (\<lambda>_.
     bindR (Mulmod index (key_param_a p) (p_size p)) (\<lambda>m.
     Inr ((m + key_param_b p) mod p_size p)))"

definition Affine64_Name :: string where
  "Affine64_Name = ''Affine64''"

section \<open>The loop\<close>

text \<open>What an accepted prime comes with.\<close>

definition affine_params :: "u64 \<Rightarrow> u64 \<Rightarrow> u64 \<Rightarrow> u64 \<Rightarrow> bool" where
  "affine_params n prime a b \<longleftrightarrow>
     2 < unat prime \<and> prime \<le> n \<and> a < prime \<and> b < prime \<and> coprime (unat a) (unat prime)"

lemma affine_params_first:
  assumes "2 < unat prime" "prime \<le> n"
      and "a = x mod (prime div 2) + prime div 2" "b = y mod (prime div 2) + prime div 2"
  shows "Gcd a prime = Inr (word_of_nat (gcd (unat a) (unat prime)))"
    and "a < prime" and "b < prime"
    and "Gcd a prime = Inr 1 \<longleftrightarrow> coprime (unat a) (unat prime)"
proof -
  have p: "prime \<noteq> 0" using assms(1) by auto
  show g: "Gcd a prime = Inr (word_of_nat (gcd (unat a) (unat prime)))"
    using p by (rule Gcd_correct)
  have h: "unat (prime div 2) = unat prime div 2" "0 < unat prime div 2" "2 * (unat prime div 2) \<le> unat prime"
    using assms(1) by (simp_all add: unat_div)
  have *: "z mod (prime div 2) + prime div 2 < prime" for z
  proof -
    have m: "unat (z mod (prime div 2)) < unat prime div 2" using h by (simp add: unat_mod)
    moreover have "unat prime div 2 + unat prime div 2 \<le> unat prime" using h by simp
    moreover have "unat (z mod (prime div 2) + prime div 2) = unat (z mod (prime div 2)) + unat prime div 2"
      using h m unat_u64_less [of prime] by (subst unat_add_no_wrap) linarith+
    ultimately show ?thesis unfolding word_less_nat_alt by linarith
  qed
  show "a < prime" "b < prime" unfolding assms(3,4) by (rule *)+
  show "Gcd a prime = Inr 1 \<longleftrightarrow> coprime (unat a) (unat prime)"
  proof -
    have "word_of_nat (gcd (unat a) (unat prime)) = (1 :: u64) \<longleftrightarrow> gcd (unat a) (unat prime) = 1"
      using unat_gcd_fits [OF p, of a] by (metis of_nat_1 unat_1)
    then show ?thesis by (simp add: g coprime_iff_gcd_eq_1)
  qed
qed

lemma affine_loop_spec:
  assumes "affine_loop rnd ks data n = Some r"
  shows "\<forall>prime a b. r = Inr (prime, a, b) \<longrightarrow> prime = 0 \<or> affine_params n prime a b"
  using assms
proof (rule affine_loop.raw_induct [rotated])
  fix loop :: "(nat \<Rightarrow> u64) \<Rightarrow> u64 \<Rightarrow> bytes \<Rightarrow> u64 \<Rightarrow> (u64 \<times> u64 \<times> u64) res option"
  fix rnd ks data n r
  assume IH: "\<And>rnd ks data n r. loop rnd ks data n = Some r \<Longrightarrow>
      \<forall>prime a b. r = Inr (prime, a, b) \<longrightarrow> prime = 0 \<or> affine_params n prime a b"
  assume eq: "(case ClosestSmallerPrime rnd n of
        None \<Rightarrow> None
      | Some prime \<Rightarrow>
          if prime < 1 then Some (Inr (0, 0, 0))
          else if ks < 8 then Some (Inl InvalidArgument)
          else if ks mod 16 \<noteq> 0 then Some (Inl InvalidArgument)
          else
            let half = unat (ks div 2);
                a = affine_key_xor data 0 half mod (prime div 2) + prime div 2;
                b = affine_key_xor data half (unat ks) mod (prime div 2) + prime div 2
            in (case Gcd a prime of
                  Inl e \<Rightarrow> Some (Inl e)
                | Inr g \<Rightarrow> if g = 1 then Some (Inr (prime, a, b))
                           else loop rnd ks data prime)) = Some r"
  obtain p where p: "ClosestSmallerPrime rnd n = Some p" "p \<le> n" "p = 0 \<or> 2 < p"
    using ClosestSmallerPrime_spec by blast
  show "\<forall>prime a b. r = Inr (prime, a, b) \<longrightarrow> prime = 0 \<or> affine_params n prime a b"
  proof (cases "p = 0")
    case True
    with eq p(1) show ?thesis by auto
  next
    case False
    let ?h = "unat (ks div 2)"
    let ?a = "affine_key_xor data 0 ?h mod (p div 2) + p div 2"
    let ?b = "affine_key_xor data ?h (unat ks) mod (p div 2) + p div 2"
    have p2: "2 < unat p" using False p(3) by (simp add: word_less_nat_alt)
    note F = affine_params_first [of p n ?a "affine_key_xor data 0 ?h" ?b "affine_key_xor data ?h (unat ks)", OF p2 p(2) refl refl]
    have p1: "\<not> p < 1" using False by (simp add: word_less_nat_alt unat_eq_zero)
    show ?thesis
    proof (cases "ks < 8 \<or> ks mod 16 \<noteq> 0")
      case True
      with eq p(1) p1 have "r = Inl InvalidArgument" by (cases "ks < 8") auto
      then show ?thesis by simp
    next
      case ks: False
      show ?thesis
      proof (cases "coprime (unat ?a) (unat p)")
        case True
        then have "Gcd ?a p = Inr 1" using F(4) by blast
        with eq p(1) p1 ks have "r = Inr (p, ?a, ?b)" by (simp add: Let_def)
        with True p p2 F show ?thesis by (auto simp: affine_params_def)
      next
        case False
        then have "Gcd ?a p \<noteq> Inr 1" using F(4) by blast
        with F(1) have "loop rnd ks data p = Some r"
          using eq p(1) p1 ks by (simp add: Let_def)
        then show ?thesis using IH p(2) by (fastforce simp: affine_params_def)
      qed
    qed
  qed
qed

lemma affine_loop_step:
  assumes "ClosestSmallerPrime rnd n = Some p" "p \<noteq> 0" "8 \<le> ks" "ks mod 16 = 0"
      and "a = affine_key_xor data 0 (unat (ks div 2)) mod (p div 2) + p div 2"
      and "b = affine_key_xor data (unat (ks div 2)) (unat ks) mod (p div 2) + p div 2"
  shows "affine_loop rnd ks data n =
           (if coprime (unat a) (unat p) then Some (Inr (p, a, b)) else affine_loop rnd ks data p)"
proof -
  have p: "p \<le> n" "2 < unat p"
    using ClosestSmallerPrime_spec [of rnd n] assms(1,2) by (auto simp: word_less_nat_alt)
  note F = affine_params_first [OF p(2,1) assms(5,6)]
  have "\<not> p < 1" using assms(2) by (simp add: word_less_nat_alt unat_eq_zero)
  moreover have "\<not> ks < 8" using assms(3) by (simp add: not_less)
  moreover have "(word_of_nat (gcd (unat a) (unat p)) = (1::u64)) = coprime (unat a) (unat p)"
    using F(1,4) by auto
  ultimately show ?thesis
    using assms(1,4) F(1)
    by (subst affine_loop.simps) (simp add: Let_def assms(5,6))
qed

text \<open>A pass that ends with a common factor repeats for ever once the search returns its own start.\<close>

lemma affine_loop_diverges:
  assumes "ClosestSmallerPrime rnd p = Some p" "p \<noteq> 0" "8 \<le> ks" "ks mod 16 = 0"
      and "\<not> coprime (unat (affine_key_xor data 0 (unat (ks div 2)) mod (p div 2) + p div 2)) (unat p)"
  shows "affine_loop rnd ks data p = None"
proof -
  have "\<not> (rnd' = rnd \<and> ks' = ks \<and> data' = data \<and> p' = p)" if "affine_loop rnd' ks' data' p' = Some r" for rnd' ks' data' p' r
    using that
  proof (rule affine_loop.raw_induct [rotated])
    fix loop :: "(nat \<Rightarrow> u64) \<Rightarrow> u64 \<Rightarrow> bytes \<Rightarrow> u64 \<Rightarrow> (u64 \<times> u64 \<times> u64) res option"
    fix rnd' ks' data' n r
    assume IH: "\<And>rnd' ks' data' n r. loop rnd' ks' data' n = Some r \<Longrightarrow>
        \<not> (rnd' = rnd \<and> ks' = ks \<and> data' = data \<and> n = p)"
    assume eq: "(case ClosestSmallerPrime rnd' n of
        None \<Rightarrow> None
      | Some prime \<Rightarrow>
          if prime < 1 then Some (Inr (0, 0, 0))
          else if ks' < 8 then Some (Inl InvalidArgument)
          else if ks' mod 16 \<noteq> 0 then Some (Inl InvalidArgument)
          else
            let half = unat (ks' div 2);
                a = affine_key_xor data' 0 half mod (prime div 2) + prime div 2;
                b = affine_key_xor data' half (unat ks') mod (prime div 2) + prime div 2
            in (case Gcd a prime of
                  Inl e \<Rightarrow> Some (Inl e)
                | Inr g \<Rightarrow> if g = 1 then Some (Inr (prime, a, b))
                           else loop rnd' ks' data' prime)) = Some r"
    have p2: "2 < unat p"
      using ClosestSmallerPrime_spec [of rnd p] assms(1,2) by (auto simp: word_less_nat_alt)
    note F = affine_params_first [of p p _ "affine_key_xor data 0 (unat (ks div 2))" _
      "affine_key_xor data (unat (ks div 2)) (unat ks)", OF p2 order_refl refl refl]
    show "\<not> (rnd' = rnd \<and> ks' = ks \<and> data' = data \<and> n = p)"
    proof clarify
      assume *: "rnd' = rnd" "ks' = ks" "data' = data" "n = p"
      have "\<not> p < 1" using assms(2) by (simp add: word_less_nat_alt unat_eq_zero)
      moreover have "\<not> ks < 8" using assms(3) by (simp add: not_less)
      ultimately have "loop rnd ks data p = Some r"
        using eq * assms(1,4,5) F(1,4) by (simp add: Let_def split: if_splits)
      with IH show False by blast
    qed
  qed
  then show ?thesis by (cases "affine_loop rnd ks data p") (simp, blast)
qed

section \<open>The contract\<close>

definition affine_ok :: "nat \<Rightarrow> affine \<Rightarrow> bool" where
  "affine_ok bound p \<longleftrightarrow>
     0 < p_size p \<and> unat (p_size p) \<le> bound \<and> key_param_a p < p_size p \<and> key_param_b p < p_size p \<and>
     coprime (unat (key_param_a p)) (unat (p_size p))"

lemma Affine_GetSize_Inr:
  assumes "Affine_GetSize E n key overwrite p = (p', Inr m)" "m \<noteq> 0"
  shows "\<exists>a b. Affine_GetSize_loop E n key = Inr (m, a, b) \<and> affine_params n m a b \<and>
           p' = (if overwrite then p\<lparr>p_size := m, key_param_a := a, key_param_b := b\<rparr> else p)"
proof -
  obtain prime a b where l: "Affine_GetSize_loop E n key = Inr (prime, a, b)"
    using assms by (auto simp: Affine_GetSize_def split: sum.splits prod.splits)
  have "prime = m" "p' = (if overwrite then p\<lparr>p_size := m, key_param_a := a, key_param_b := b\<rparr> else p)"
    using assms l by (auto simp: Affine_GetSize_def split: if_splits)
  moreover have "affine_params n m a b"
    using l affine_loop_spec assms(2) \<open>prime = m\<close>
    by (fastforce simp: Affine_GetSize_loop_def res_simps split: if_splits option.splits)
  ultimately show ?thesis using l by simp
qed

text \<open>Multiplication by a number coprime to the modulus is injective modulo it.\<close>

lemma affine_inj:
  fixes a b n i j :: nat
  assumes "coprime a n" "i < n" "j < n" "(i * a mod n + b) mod n = (j * a mod n + b) mod n"
  shows "i = j"
proof -
  have le: "x = y" if "x \<le> y" "y < n" "(x * a mod n + b) mod n = (y * a mod n + b) mod n" for x y
  proof -
    have "(y * a + b) mod n = (x * a + b) mod n" using that(3) by (simp add: mod_simps)
    then have "n dvd (y * a + b) - (x * a + b)"
      using that(1) by (subst mod_eq_dvd_iff_nat [symmetric]) simp_all
    then have "n dvd (y - x) * a" by (simp add: diff_mult_distrib)
    then have "n dvd y - x" using assms(1) by (simp add: coprime_dvd_mult_left_iff coprime_commute)
    with that show ?thesis by (auto dest: dvd_imp_le)
  qed
  show ?thesis using le [of i j] le [of j i] assms(2-) by (cases "i \<le> j") auto
qed


lemma affine_ok_Init:
  assumes "affine_params n m a b" "p' = p\<lparr>p_initialized := i, p_size := m, key_param_a := a, key_param_b := b, p_initialized := True\<rparr>"
      and "unat n \<le> bound"
  shows "affine_ok bound p'" "0 < p_size p'" "p_size p' \<le> n"
  using assms by (auto simp: affine_params_def affine_ok_def word_less_nat_alt word_le_nat_alt)

lemma Affine_Init_Inr:
  assumes "Affine_Init E n key p = (p', Inr ())"
  shows "\<exists>m a b. n \<le> 0xFFFFFFFF \<and> m \<noteq> 0 \<and> Affine_GetSize_loop E n key = Inr (m, a, b) \<and> affine_params n m a b \<and>
           p' = p\<lparr>p_initialized := False, p_size := m, key_param_a := a, key_param_b := b, p_initialized := True\<rparr>"
proof -
  have n: "n \<le> 0xFFFFFFFF" using assms by (auto simp: Affine_Init_def not_less split: if_splits)
  obtain q m where q: "Affine_GetSize E n key True (p\<lparr>p_initialized := False\<rparr>) = (q, Inr m)" "m \<noteq> 0"
      "p' = q\<lparr>p_initialized := True\<rparr>"
    using assms n by (auto simp: Affine_Init_def Let_def split: prod.splits sum.splits if_splits)
  from Affine_GetSize_Inr [OF q(1,2)] q n show ?thesis by auto
qed

lemma Affine64_Init_Inr:
  assumes "Affine64_Init E n key p = (p', Inr ())"
  shows "\<exists>m a b. m \<noteq> 0 \<and> Affine_GetSize_loop E n key = Inr (m, a, b) \<and> affine_params n m a b \<and>
           p' = p\<lparr>p_initialized := False, p_size := m, key_param_a := a, key_param_b := b, p_initialized := True\<rparr>"
proof -
  obtain q m where q: "Affine_GetSize E n key True (p\<lparr>p_initialized := False\<rparr>) = (q, Inr m)" "m \<noteq> 0"
      "p' = q\<lparr>p_initialized := True\<rparr>"
    using assms by (auto simp: Affine64_Init_def Let_def split: prod.splits sum.splits if_splits)
  from Affine_GetSize_Inr [OF q(1,2)] q show ?thesis by auto
qed

lemma Affine_Permute_eq:
  assumes "affine_ok 0xFFFFFFFF p" "i < p_size p"
  shows "\<exists>j. Affine_Permute p i = Inr j \<and>
           unat j = (unat i * unat (key_param_a p) mod unat (p_size p) + unat (key_param_b p)) mod unat (p_size p)"
proof -
  let ?n = "unat (p_size p)"
  have r: "unat i < ?n" "unat (key_param_a p) < ?n" "unat (key_param_b p) < ?n" "?n \<le> 0xFFFFFFFF" "0 < ?n"
    using assms by (auto simp: affine_ok_def word_less_nat_alt)
  have "unat i * unat (key_param_a p) \<le> 0xFFFFFFFF * 0xFFFFFFFF"
    using r by (intro mult_le_mono) simp_all
  then have m: "unat (i * key_param_a p) = unat i * unat (key_param_a p)"
    by (intro unat_mult_no_wrap) simp
  have "unat i * unat (key_param_a p) mod ?n < ?n" using r by simp
  then have "unat i * unat (key_param_a p) mod ?n + unat (key_param_b p) < 18446744073709551616"
    using r by linarith
  then have "unat (i * key_param_a p mod p_size p + key_param_b p) =
      unat i * unat (key_param_a p) mod ?n + unat (key_param_b p)"
    using r m by (subst unat_add_no_wrap) (simp_all add: unat_mod)
  with assms show ?thesis by (simp add: Affine_Permute_def res_simps unat_mod)
qed

lemma Affine64_Permute_eq:
  assumes "affine_ok (2 ^ 63) p" "i < p_size p"
  shows "\<exists>j. Affine64_Permute p i = Inr j \<and>
           unat j = (unat i * unat (key_param_a p) mod unat (p_size p) + unat (key_param_b p)) mod unat (p_size p)"
proof -
  let ?n = "unat (p_size p)"
  have r: "unat i < ?n" "unat (key_param_a p) < ?n" "unat (key_param_b p) < ?n" "?n \<le> 2 ^ 63" "0 < ?n"
    using assms by (auto simp: affine_ok_def word_less_nat_alt)
  let ?m = "unat i * unat (key_param_a p) mod ?n"
  have m: "?m < ?n" using r by simp
  have M: "Mulmod i (key_param_a p) (p_size p) = Inr (word_of_nat ?m)"
    using r by (intro Mulmod_correct) auto
  have w: "unat (word_of_nat ?m :: u64) = ?m" using m by (rule unat_of_nat_below)
  have "?m + unat (key_param_b p) < 18446744073709551616"
    using m r(3,4) by (simp, linarith)
  then have "unat (word_of_nat ?m + key_param_b p) = ?m + unat (key_param_b p)"
    by (subst unat_add_no_wrap) (simp_all only: w)
  with assms M show ?thesis by (simp add: Affine64_Permute_def res_simps unat_mod)
qed

lemma affine_permutes:
  assumes ok: "affine_ok bound p"
      and eq: "\<And>i. i < p_size p \<Longrightarrow> \<exists>j. f i = Inr j \<and>
        unat j = (unat i * unat (key_param_a p) mod unat (p_size p) + unat (key_param_b p)) mod unat (p_size p)"
  shows "i < p_size p \<Longrightarrow> \<exists>j. f i = Inr j \<and> j < p_size p"
    and "i < p_size p \<Longrightarrow> i' < p_size p \<Longrightarrow> f i = f i' \<Longrightarrow> i = i'"
proof -
  let ?n = "unat (p_size p)"
  have n: "0 < ?n" "coprime (unat (key_param_a p)) ?n" using ok by (auto simp: affine_ok_def word_less_nat_alt)
  show "\<exists>j. f i = Inr j \<and> j < p_size p" if "i < p_size p"
    using eq [OF that] n(1) by (auto simp: word_less_nat_alt)
  show "i = i'" if "i < p_size p" "i' < p_size p" "f i = f i'"
    using eq [OF that(1)] eq [OF that(2)] that affine_inj [OF n(2), of "unat i" "unat i'" "unat (key_param_b p)"]
    by (auto simp: word_less_nat_alt word_unat_eq_iff)
qed

interpretation affine: permutation_class "affine_ok 0xFFFFFFFF" p_size Affine_Permute "Affine_Init E"
    "Affine_GetSizeUsingParams E" "\<lambda>_. True" for E
proof (unfold_locales, goal_cases)
  case (1 n k p p')
  from Affine_Init_Inr [OF 1(2)] show ?case
    using affine_ok_Init(1) by (fastforce simp: word_le_nat_alt)
next
  case (2 n k p p')
  from Affine_Init_Inr [OF 2(2)] obtain m a b where "n \<le> 0xFFFFFFFF" "m \<noteq> 0"
      "Affine_GetSize_loop E n k = Inr (m, a, b)" "p_size p' = m" by auto
  then show ?case by (auto simp: Affine_GetSizeUsingParams_def Affine_GetSize_def)
next
  case (3 n k p p')
  from Affine_Init_Inr [OF 3(2)] show ?case
    using affine_ok_Init(2,3) [OF _ _ order_refl] by fastforce
next
  case (4 p i)
  show ?case using affine_permutes(1) [OF 4(1) Affine_Permute_eq [OF 4(1)]] 4(2) by blast
next
  case (5 p i i')
  show ?case using affine_permutes(2) [OF 5(1) Affine_Permute_eq [OF 5(1)]] 5 by blast
next
  case (6 p i)
  then show ?case by (simp add: Affine_Permute_def res_simps not_less)
qed

text \<open>
  \<open>Affine64\<close> inherits \<open>GetSizeUsingParams\<close>, which answers 0 above \<open>2^32 - 1\<close>: there the size that
  \<open>Init\<close> would choose cannot be asked for, so the contract covers requests up to that bound.
\<close>

interpretation affine64: permutation_class "affine_ok (2 ^ 63)" p_size Affine64_Permute "Affine64_Init E"
    "Affine_GetSizeUsingParams E" "\<lambda>n. n \<le> 0xFFFFFFFF" for E
proof (unfold_locales, goal_cases)
  case (1 n k p p')
  from Affine64_Init_Inr [OF 1(2)] show ?case
    using affine_ok_Init(1) 1(1) by (fastforce simp: word_le_nat_alt)
next
  case (2 n k p p')
  from Affine64_Init_Inr [OF 2(2)] obtain m a b where "m \<noteq> 0"
      "Affine_GetSize_loop E n k = Inr (m, a, b)" "p_size p' = m" by auto
  with 2(1) show ?case by (auto simp: Affine_GetSizeUsingParams_def Affine_GetSize_def)
next
  case (3 n k p p')
  from Affine64_Init_Inr [OF 3(2)] show ?case
    using affine_ok_Init(2,3) [OF _ _ order_refl] by fastforce
next
  case (4 p i)
  show ?case using affine_permutes(1) [OF 4(1) Affine64_Permute_eq [OF 4(1)]] 4(2) by blast
next
  case (5 p i i')
  show ?case using affine_permutes(2) [OF 5(1) Affine64_Permute_eq [OF 5(1)]] 5 by blast
next
  case (6 p i)
  then show ?case by (simp add: Affine64_Permute_def res_simps not_less [symmetric])
qed

end
