(* ===== verification/Permutation_Feistel.thy ===== *)
theory Permutation_Feistel
  imports Permutation_Base
begin

text \<open>
  The Feistel permutations (\<^verbatim>\<open>feistel_num_permutation.cc\<close>, \<^verbatim>\<open>feistel_mix_permutation.cc\<close>): five
  rounds over tables of hash values that \<open>Init\<close> computes from the key.  The square root the numeric
  one takes is that of a \<open>double\<close>, written out with the rounding of IEEE 754.
\<close>

section \<open>The square root of a double\<close>

function isqrt :: "nat \<Rightarrow> nat" where
  "isqrt n = (if n = 0 then 0
              else let r = 2 * isqrt (n div 4) in if (r + 1) * (r + 1) \<le> n then r + 1 else r)"
  by pat_completeness auto
termination
  by (relation "measure id") auto

declare isqrt.simps [simp del]

fun bit_length :: "nat \<Rightarrow> nat" where
  "bit_length n = (if n = 0 then 0 else Suc (bit_length (n div 2)))"

declare bit_length.simps [simp del]

text \<open>\<open>static_cast<double>(n)\<close>: 53 significant bits, ties to the even neighbour.\<close>

definition to_double :: "nat \<Rightarrow> nat" where
  "to_double n =
     (let e = 2 ^ (bit_length n - 53); q = n div e; r = n mod e
      in (if 2 * r < e \<or> 2 * r = e \<and> even q then q else q + 1) * e)"

text \<open>
  \<open>static_cast<uint32>(sqrt(static_cast<double>(n)))\<close>: the root of \<open>x\<close> between \<open>2 ^ e\<close> and
  \<open>2 ^ (e + 1)\<close> is rounded to a multiple of \<open>1 / 2 ^ (52 - e)\<close> and then cut to an integer; a root
  that does not fit in 32 bits is an undefined cast.
\<close>

definition sqrt_floor :: "nat \<Rightarrow> nat" where
  "sqrt_floor n =
     (let x = to_double n; k = 52 - (bit_length x - 1) div 2; y = x * 4 ^ k; s = isqrt y;
          m = (if s * s + s < y then s + 1 else s)
      in m div 2 ^ k)"

definition sqrt_u32 :: "u64 \<Rightarrow> u32 res" where
  "sqrt_u32 n =
     (let r = sqrt_floor (unat n) in if 2 ^ 32 \<le> r then Inl Undefined else Inr (word_of_nat r))"

section \<open>The hash tables\<close>

text \<open>
  The hash value of \<open>(t, i)\<close> under the key: \<open>Process(key)\<close>, \<open>Append(i)\<close>, \<open>Append(t)\<close>, and the
  first four bytes of the state.  The hash object is used again for the next entry.
\<close>

definition feistel_hash_val :: "env \<Rightarrow> mbuf \<Rightarrow> hash \<Rightarrow> nat \<Rightarrow> nat \<Rightarrow> (hash \<times> u32) res" where
  "feistel_hash_val E key_data h t i =
     bindR (Hash_Process_buffer h key_data) (\<lambda>h.
     bindR (Hash_Append (e_garbage E) h (Some (u32_bytes (word_of_nat i))) 4) (\<lambda>h.
     bindR (Hash_Append (e_garbage E) h (Some (u32_bytes (word_of_nat t))) 4) (\<lambda>h.
     if Hash_GetStateSize h < 4 then Inl HashSizeTooSmall
     else Inr (h, word_of_nat (le_bytes (take 4 (mb_bytes (Hash_GetState h))))))))"

text \<open>The two nested loops; both classes have them, with their own bound and modulus.\<close>

definition feistel_tables :: "env \<Rightarrow> mbuf \<Rightarrow> nat \<Rightarrow> u32 \<Rightarrow> u32 \<Rightarrow> u32 list list res" where
  "feistel_tables E key_data rounds max_hash modulus =
     bindR (Hash_Init (e_garbage E)) (\<lambda>h.
     bindR (foldR (\<lambda>t st. foldR (\<lambda>i (h, tables).
               bindR (feistel_hash_val E key_data h t i) (\<lambda>(h, hash_val).
               if modulus = 0 then Inl Undefined
               else Inr (h, tables[t := (tables ! t)[i := hash_val mod modulus]])))
             [0..<unat max_hash] st)
           [0..<rounds] (h, replicate rounds (replicate (unat max_hash) 0)))
       (\<lambda>(h, tables). Inr tables))"

text \<open>\<open>hash_tables_[r][i]\<close>, without a bounds check.\<close>

definition table_at :: "u32 list list \<Rightarrow> nat \<Rightarrow> u64 \<Rightarrow> u32 res" where
  "table_at tables r i =
     (if r < length tables \<and> unat i < length (tables ! r) then Inr (tables ! r ! unat i) else Inl Undefined)"

section \<open>The numeric Feistel permutation\<close>

record fnum = perm_base +
  fn_hash_tables :: "u32 list list"
  fn_modulus :: u32

definition FeistelNumPermutation :: fnum where
  "FeistelNumPermutation = \<lparr>p_size = 0, p_initialized = False, fn_hash_tables = [], fn_modulus = 0\<rparr>"

definition MinReqSize :: u64 where "MinReqSize = 1024"
definition NumRounds :: nat where "NumRounds = 5"

definition FeistelNum_Init :: "env \<Rightarrow> PermElem \<Rightarrow> key \<Rightarrow> (fnum, unit) meth" where
  "FeistelNum_Init E requested_size key p =
     (case Key_GetSize key of
        Inl e \<Rightarrow> (p, Inl e)
      | Inr n \<Rightarrow>
          if n = 0 then (p, Inl (EmptyArgument ''key''))
          else if requested_size < MinReqSize then (p, Inl InvalidArgument)
          else
            let p = p\<lparr>p_initialized := False\<rparr> in
            (case sqrt_u32 requested_size of
               Inl e \<Rightarrow> (p, Inl e)
             | Inr m \<Rightarrow>
                 let p = p\<lparr>fn_modulus := m, p_size := ucast m * ucast m\<rparr> in
                 (case bindR (Key_GetData key) (\<lambda>d. feistel_tables E d NumRounds m m) of
                    Inl e \<Rightarrow> (p, Inl e)
                  | Inr tables \<Rightarrow> (p\<lparr>fn_hash_tables := tables, p_initialized := True\<rparr>, Inr ()))))"

definition fnum_round :: "fnum \<Rightarrow> nat \<Rightarrow> u64 \<times> u64 \<Rightarrow> (u64 \<times> u64) res" where
  "fnum_round p r lr =
     (case lr of (left, right) \<Rightarrow>
        if r mod 2 \<noteq> 0
        then bindR (table_at (fn_hash_tables p) r left)
               (\<lambda>h. Inr (left, (right + ucast h) mod ucast (fn_modulus p)))
        else bindR (table_at (fn_hash_tables p) r right)
               (\<lambda>h. Inr ((left + ucast h) mod ucast (fn_modulus p), right)))"

definition FeistelNum_Permute :: "fnum \<Rightarrow> PermElem \<Rightarrow> PermElem res" where
  "FeistelNum_Permute p index =
     bindR (CommonPermuteInputCheck p index) (\<lambda>_.
     if fn_modulus p = 0 then Inl Undefined
     else
       let right = index mod ucast (fn_modulus p); left = index div ucast (fn_modulus p) in
       bindR (foldR (fnum_round p) [0..<NumRounds] (left, right)) (\<lambda>(left, right).
       let permuted_index = left * ucast (fn_modulus p) + right in
       if permuted_index \<ge> p_size p then Inl PermutationFailed else Inr permuted_index))"

definition FeistelNum_GetSizeUsingParams :: "PermElem \<Rightarrow> key \<Rightarrow> fnum \<Rightarrow> PermElem res" where
  "FeistelNum_GetSizeUsingParams requested_size key p =
     (if requested_size < MinReqSize then Inr 0
      else bindR (sqrt_u32 requested_size) (\<lambda>m. Inr (ucast m * ucast m)))"

definition FeistelNum_Name :: string where
  "FeistelNum_Name = ''NumericFeistel''"

section \<open>The mixed Feistel permutation\<close>

record fmix = perm_base +
  fm_hash_tables :: "u32 list list"
  fm_left_bits :: u8
  fm_left_mod :: u64
  fm_right_mask :: u64
  fm_right_bits :: u8

definition FeistelMixPermutation :: fmix where
  "FeistelMixPermutation =
     \<lparr>p_size = 0, p_initialized = False, fm_hash_tables = [], fm_left_bits = 0, fm_left_mod = 0,
      fm_right_mask = 0, fm_right_bits = 0\<rparr>"

definition FMPMinReqSize :: u64 where "FMPMinReqSize = 1024"
definition FMPNumRounds :: nat where "FMPNumRounds = 5"

text \<open>
  The mask is computed in \<open>int\<close>: from 31 right bits on the shift or the subtraction overflows.
\<close>

definition FeistelMix_Init :: "env \<Rightarrow> PermElem \<Rightarrow> key \<Rightarrow> (fmix, unit) meth" where
  "FeistelMix_Init E requested_size key p =
     (case Key_GetSize key of
        Inl e \<Rightarrow> (p, Inl e)
      | Inr n \<Rightarrow>
          if n = 0 then (p, Inl (EmptyArgument ''key''))
          else if requested_size < FMPMinReqSize then (p, Inl InvalidArgument)
          else
            let bit_len = Log2 requested_size in
            if bit_len < 8 then (p, Inl InvalidArgument)
            else
              let left_bits = bit_len div 2; right_bits = bit_len - left_bits;
                  left_mod = drop_bit (unat right_bits) requested_size;
                  p = p\<lparr>p_initialized := False, fm_left_bits := left_bits,
                        fm_right_bits := right_bits, fm_left_mod := left_mod\<rparr>
              in if unat right_bits \<ge> 31 then (p, Inl Undefined)
                 else
                   let right_mask = push_bit (unat right_bits) 1 - 1;
                       p = p\<lparr>fm_right_mask := right_mask,
                             p_size := push_bit (unat right_bits) left_mod\<rparr>;
                       max_hash = ucast (right_mask + 1)
                   in (case bindR (Key_GetData key) (\<lambda>d. feistel_tables E d FMPNumRounds max_hash max_hash) of
                         Inl e \<Rightarrow> (p, Inl e)
                       | Inr tables \<Rightarrow> (p\<lparr>fm_hash_tables := tables, p_initialized := True\<rparr>, Inr ())))"

definition fmix_round :: "fmix \<Rightarrow> nat \<Rightarrow> u64 \<times> u64 \<Rightarrow> (u64 \<times> u64) res" where
  "fmix_round p r lr =
     (case lr of (left, right) \<Rightarrow>
        if r mod 2 \<noteq> 0
        then bindR (table_at (fm_hash_tables p) r left)
               (\<lambda>h. Inr (left, right XOR (ucast h AND fm_right_mask p)))
        else bindR (table_at (fm_hash_tables p) r right)
               (\<lambda>h. if fm_left_mod p = 0 then Inl Undefined
                    else Inr ((left + ucast (drop_bit (unat (fm_right_bits p)) h)) mod fm_left_mod p, right)))"

definition FeistelMix_Permute :: "fmix \<Rightarrow> PermElem \<Rightarrow> PermElem res" where
  "FeistelMix_Permute p index =
     bindR (CommonPermuteInputCheck p index) (\<lambda>_.
     let right = index AND fm_right_mask p; left = drop_bit (unat (fm_right_bits p)) index in
     bindR (foldR (fmix_round p) [0..<FMPNumRounds] (left, right)) (\<lambda>(left, right).
     let permuted_index = push_bit (unat (fm_right_bits p)) left + right in
     if permuted_index \<ge> p_size p then Inl PermutationFailed else Inr permuted_index))"

definition FeistelMix_GetSizeUsingParams :: "PermElem \<Rightarrow> key \<Rightarrow> fmix \<Rightarrow> PermElem res" where
  "FeistelMix_GetSizeUsingParams requested_size key p =
     (if requested_size < FMPMinReqSize then Inr 0
      else
        let bit_len = Log2 requested_size in
        if bit_len < 8 then Inr 0
        else
          let right_bits = bit_len - bit_len div 2 in
          Inr (push_bit (unat right_bits) (drop_bit (unat right_bits) requested_size)))"

definition FeistelMix_Name :: string where
  "FeistelMix_Name = ''MixedFeistel''"

section \<open>The root\<close>

lemma isqrt_spec: "isqrt n * isqrt n \<le> n \<and> n < (isqrt n + 1) * (isqrt n + 1)"
proof (induction n rule: isqrt.induct)
  case (1 n)
  show ?case
  proof (cases "n = 0")
    case False
    let ?s = "isqrt (n div 4)"
    have IH: "?s * ?s \<le> n div 4" "n div 4 < (?s + 1) * (?s + 1)" using 1 False by simp_all
    have lo: "(2 * ?s) * (2 * ?s) \<le> n" using IH(1) by simp
    have "n div 4 + 1 \<le> (?s + 1) * (?s + 1)" using IH(2) by simp
    then have "4 * (n div 4) + 4 \<le> 4 * ((?s + 1) * (?s + 1))" by simp
    moreover have "n < 4 * (n div 4) + 4" by presburger
    ultimately have "n < 4 * ((?s + 1) * (?s + 1))" by (rule order.strict_trans2 [rotated])
    then have hi: "n < (2 * ?s + 2) * (2 * ?s + 2)" by (simp add: algebra_simps)
    show ?thesis using False lo hi by (subst (1 2 3 4) isqrt.simps) (simp add: Let_def)
  qed (simp add: isqrt.simps)
qed

lemma square_less: "(a :: nat) * a \<le> n \<Longrightarrow> n < b * b \<Longrightarrow> a < b"
  by (metis le_less_trans linorder_not_less mult_le_mono)

lemma isqrt_unique: "r * r \<le> n \<Longrightarrow> n < (r + 1) * (r + 1) \<Longrightarrow> isqrt n = r"
  using isqrt_spec [of n] square_less [of r n "isqrt n + 1"] square_less [of "isqrt n" n "r + 1"] by simp

lemma bit_length_le: "0 < n \<Longrightarrow> 2 ^ (bit_length n - 1) \<le> n"
  and bit_length_less: "n < 2 ^ bit_length n"
  and bit_length_pos: "0 < n \<Longrightarrow> 0 < bit_length n"
proof -
  have "(0 < n \<longrightarrow> 2 ^ (bit_length n - 1) \<le> n \<and> 0 < bit_length n) \<and> n < 2 ^ bit_length n" for n
  proof (induction n rule: bit_length.induct)
    case (1 n)
    show ?case
    proof (cases "n < 2")
      case True
      then have "n = 0 \<or> n = 1" by auto
      then show ?thesis by (auto simp: bit_length.simps [of 0] bit_length.simps [of "Suc 0"])
    next
      case False
      then have "0 < n div 2" "n \<noteq> 0" by auto
      then have IH: "2 ^ (bit_length (n div 2) - 1) \<le> n div 2" "0 < bit_length (n div 2)"
          "n div 2 < 2 ^ bit_length (n div 2)" using 1 by simp_all
      have b: "bit_length n = Suc (bit_length (n div 2))" using False by (subst bit_length.simps) simp
      have "(2::nat) ^ bit_length (n div 2) = 2 * 2 ^ (bit_length (n div 2) - 1)"
        using IH(2) by (metis Suc_diff_1 power_Suc)
      also have "\<dots> \<le> n" using IH(1) by linarith
      finally have "2 ^ bit_length (n div 2) \<le> n" .
      moreover have "n < 2 * 2 ^ bit_length (n div 2)" using IH(3) by linarith
      ultimately show ?thesis by (simp add: b)
    qed
  qed
  then show "0 < n \<Longrightarrow> 2 ^ (bit_length n - 1) \<le> n" "n < 2 ^ bit_length n" "0 < n \<Longrightarrow> 0 < bit_length n"
    by blast+
qed

text \<open>Below \<open>2 ^ 52\<close> the rounding of the root never reaches the next integer.\<close>

lemma sqrt_floor_exact:
  assumes "0 < n" "n < 2 ^ 52"
  shows "sqrt_floor n = isqrt n"
proof -
  define e where "e = (bit_length n - 1) div 2"
  define k where "k = 52 - e"
  define r where "r = isqrt n"
  have r: "r * r \<le> n" "n < (r + 1) * (r + 1)" using isqrt_spec [of n] by (simp_all add: r_def)
  have bl: "bit_length n \<le> 52"
  proof (rule ccontr)
    assume "\<not> bit_length n \<le> 52"
    then have "(2::nat) ^ 52 \<le> 2 ^ (bit_length n - 1)" by (intro power_increasing) simp_all
    then show False using bit_length_le [OF assms(1)] assms(2) by simp
  qed
  then have e: "e \<le> 25" by (simp add: e_def)
  have d: "to_double n = n" using bl by (simp add: to_double_def Let_def)
  have n4: "n < 2 ^ (2 * (e + 1))"
  proof -
    have "bit_length n \<le> 2 * (e + 1)" by (simp add: e_def)
    then show ?thesis using bit_length_less [of n] by (meson le_less_trans not_less power_increasing one_le_numeral)
  qed
  define K :: nat where "K = 2 ^ k"
  have K0: "0 < K" by (simp add: K_def)
  have y: "n * 4 ^ k = n * (K * K)" by (simp add: K_def power_mult_distrib [symmetric])
  define s where "s = isqrt (n * (K * K))"
  have s: "s * s \<le> n * (K * K)" "n * (K * K) < (s + 1) * (s + 1)"
    using isqrt_spec [of "n * (K * K)"] by (simp_all add: s_def)
  define T where "T = (r + 1) * K"
  have rK: "r * K \<le> s"
  proof -
    have "(r * K) * (r * K) \<le> n * (K * K)" using r(1) by (simp add: mult.assoc mult.left_commute)
    with s(2) show ?thesis using square_less by (metis Suc_eq_plus1 less_Suc_eq_le)
  qed
  have TT: "n * (K * K) + K * K \<le> T * T"
  proof -
    have "n + 1 \<le> (r + 1) * (r + 1)" using r(2) by simp
    then have "(n + 1) * (K * K) \<le> (r + 1) * (r + 1) * (K * K)" by (rule mult_le_mono1)
    then show ?thesis by (simp add: T_def algebra_simps)
  qed
  have "n * (K * K) < T * T" using TT K0 by (metis add_lessD1 le_eq_less_or_eq less_add_same_cancel1 mult_pos_pos not_le)
  then have sT: "s < T" using s(1) square_less by blast
  have r2: "r < 2 ^ (e + 1)"
  proof -
    have "n < 2 ^ (e + 1) * 2 ^ (e + 1)" using n4 by (simp only: mult_2 power_add)
    with r(1) show ?thesis by (rule square_less)
  qed
  have TK: "T \<le> K * K"
  proof -
    have "r + 1 \<le> 2 ^ (e + 1)" using r2 by simp
    also have "(2::nat) ^ (e + 1) \<le> 2 ^ k" using e by (intro power_increasing) (simp_all add: k_def)
    finally show ?thesis unfolding T_def K_def by (rule mult_le_mono1)
  qed
  define m where "m = (if s * s + s < n * (K * K) then s + 1 else s)"
  have "m < T"
  proof (cases "s * s + s < n * (K * K)")
    case True
    have "s + 1 \<noteq> T"
    proof
      assume *: "s + 1 = T"
      then have "T * T = s * s + s + T" by (simp add: * [symmetric] algebra_simps)
      then show False using True TT TK by linarith
    qed
    then show ?thesis using sT True by (simp add: m_def)
  next
    case False
    then show ?thesis using sT by (simp add: m_def)
  qed
  moreover have "r * K \<le> m" using rK by (simp add: m_def)
  ultimately have "m div K = r" using K0
    by (intro div_nat_eqI) (simp_all add: T_def mult.commute)
  then show ?thesis
    unfolding sqrt_floor_def Let_def d e_def [symmetric] k_def [symmetric] y s_def [symmetric]
      m_def [symmetric] K_def [symmetric] r_def [symmetric] .
qed

lemma sqrt_u32_exact:
  assumes "0 < n" "unat n < 2 ^ 52"
  shows "\<exists>m. sqrt_u32 n = Inr m \<and> unat m = isqrt (unat n)"
proof -
  have "isqrt (unat n) * isqrt (unat n) \<le> unat n" using isqrt_spec by simp
  moreover have "unat n < 2 ^ 26 * 2 ^ 26" using assms(2) by (simp only: power_add [symmetric]) simp
  ultimately have i: "isqrt (unat n) < 2 ^ 26" by (rule square_less)
  have "0 < unat n" using assms(1) by (simp add: word_less_nat_alt)
  then have "sqrt_floor (unat n) = isqrt (unat n)" using assms(2) by (rule sqrt_floor_exact)
  moreover have "isqrt (unat n) < 4294967296" using i by simp
  ultimately show ?thesis by (simp add: sqrt_u32_def Let_def unat_of_nat_u32)
qed


section \<open>The hash tables\<close>

definition tables_ok :: "nat \<Rightarrow> nat \<Rightarrow> nat \<Rightarrow> u32 list list \<Rightarrow> bool" where
  "tables_ok rows cols bound tables \<longleftrightarrow>
     length tables = rows \<and> (\<forall>row \<in> set tables. length row = cols \<and> (\<forall>v \<in> set row. unat v < bound))"

lemma tables_ok_replicate: "0 < bound \<Longrightarrow> tables_ok rows cols bound (replicate rows (replicate cols 0))"
  by (auto simp: tables_ok_def)

lemma tables_ok_update:
  assumes "tables_ok rows cols bound tabs" "unat v < bound"
  shows "tables_ok rows cols bound (tabs[t := (tabs ! t)[i := v]])"
proof (cases "t < length tabs")
  case True
  then have "tabs ! t \<in> set tabs" by simp
  with assms show ?thesis
    by (fastforce simp: tables_ok_def dest!: set_update_subset_insert [THEN subsetD])
next
  case False
  then show ?thesis using assms(1) by (simp add: list_update_beyond)
qed

lemma tables_ok_nth:
  "tables_ok rows cols bound tabs \<Longrightarrow> r < rows \<Longrightarrow> unat i < cols \<Longrightarrow>
     \<exists>v. table_at tabs r i = Inr v \<and> unat v < bound"
  unfolding tables_ok_def table_at_def by (metis nth_mem)

text \<open>A key of 32 bytes, as every key derived by hashing is.\<close>

definition key_ok :: "key \<Rightarrow> bool" where
  "key_ok k \<longleftrightarrow> (\<exists>bs. k_data k = Some \<lparr>mb_buffer = Some bs, mb_size = 32\<rparr> \<and> length bs = 32)"

lemma key_okE:
  assumes "key_ok k"
  obtains d where "k_data k = Some d" "mb_ok d" "mb_size d = 32" "length (mb_bytes d) = 32"
      "mb_buffer d = Some (mb_bytes d)"
proof -
  obtain bs where bs: "k_data k = Some \<lparr>mb_buffer = Some bs, mb_size = 32\<rparr>" "length bs = 32"
    using assms unfolding key_ok_def by blast
  show ?thesis by (rule that [OF bs(1)]) (simp_all add: mb_ok_def mb_bytes_def bs(2))
qed

lemma Key_FromString_ok: "length s < 2 ^ 31 \<Longrightarrow> \<exists>k. Key_FromString g s = Inr k \<and> key_ok k"
  by (simp add: Key_FromString_correct key_ok_def)

lemma feistel_hash_val_returns:
  assumes "mb_ok d" "mb_size d = 32" "hash_is h bs"
  shows "\<exists>h' v bs'. feistel_hash_val E d h t i = Inr (h', v) \<and> hash_is h' bs'"
proof -
  have d: "mb_buffer d = Some (mb_bytes d)" "length (mb_bytes d) = 32"
    using assms mb_ok_size_pos [OF assms(1)] length_mb_bytes [OF assms(1)] by simp_all
  obtain h1 where h1: "Hash_Process h (Some (mb_bytes d)) 32 = Inr h1" "hash_is h1 (digest (mb_bytes d))"
    using Hash_Process_correct [OF assms(3), of 32 "mb_bytes d"] d by auto
  obtain h2 b2 where h2: "Hash_Append (e_garbage E) h1 (Some (u32_bytes (word_of_nat i))) 4 = Inr h2" "hash_is h2 b2"
    using Hash_Append_correct [OF h1(2), of 4 "u32_bytes (word_of_nat i)" "e_garbage E"] by auto
  obtain h3 b3 where h3: "Hash_Append (e_garbage E) h2 (Some (u32_bytes (word_of_nat t))) 4 = Inr h3" "hash_is h3 b3"
    using Hash_Append_correct [OF h2(2), of 4 "u32_bytes (word_of_nat t)" "e_garbage E"] by auto
  have "Hash_Process_buffer h d = Inr h1"
    using h1(1) d(1) assms(2) by (simp add: Hash_Process_buffer_def Hash_Process_def default_hash_impl_def)
  then show ?thesis using h2 h3 by (simp add: feistel_hash_val_def Hash_GetStateSize_def hash_is_def)
qed

lemma feistel_tables_ok:
  assumes "feistel_tables E d rows cols m = Inr tabs"
  shows "m \<noteq> 0 \<longrightarrow> tables_ok rows (unat cols) (unat m) tabs"
proof
  assume m: "m \<noteq> 0"
  then have m0: "0 < unat m" by (simp add: unat_gt_0)
  obtain h h' where f: "foldR (\<lambda>t st. foldR (\<lambda>i (h, tables).
               bindR (feistel_hash_val E d h t i) (\<lambda>(h, hash_val).
               if m = 0 then Inl Undefined
               else Inr (h, tables[t := (tables ! t)[i := hash_val mod m]])))
             [0..<unat cols] st) [0..<rows] (h, replicate rows (replicate (unat cols) 0)) = Inr (h', tabs)"
    using assms by (auto simp: feistel_tables_def res_simps)
  let ?P = "\<lambda>(h :: hash, tabs). tables_ok rows (unat cols) (unat m) tabs"
  have "?P (h', tabs)"
  proof (rule foldR_invariant [OF f, of ?P], goal_cases)
    case 1
    show ?case using tables_ok_replicate m0 by simp
  next
    case (2 t u v)
    show ?case
    proof (rule foldR_invariant [OF 2(3), of ?P], goal_cases)
      case 1
      show ?case using 2 by simp
    next
      case (2 i u v)
      then show ?case
        using m m0 by (auto simp: res_simps unat_mod intro!: tables_ok_update split: prod.splits)
    qed
  qed
  then show "tables_ok rows (unat cols) (unat m) tabs" by simp
qed

lemma feistel_tables_returns:
  assumes "mb_ok d" "mb_size d = 32" "m \<noteq> 0"
  shows "\<exists>tabs. feistel_tables E d rows cols m = Inr tabs"
proof -
  obtain h where h: "Hash_Init (e_garbage E) = Inr h" "hash_is h (replicate 32 0)"
    using Hash_Init_correct by blast
  let ?P = "\<lambda>(h, tabs :: u32 list list). \<exists>bs. hash_is h bs"
  have "\<exists>st. foldR (\<lambda>t st. foldR (\<lambda>i (h, tables).
               bindR (feistel_hash_val E d h t i) (\<lambda>(h, hash_val).
               if m = 0 then Inl Undefined
               else Inr (h, tables[t := (tables ! t)[i := hash_val mod m]])))
             [0..<unat cols] st) [0..<rows] (h, replicate rows (replicate (unat cols) 0)) = Inr st \<and> ?P st"
  proof (rule foldR_total, rule foldR_total, goal_cases)
    case (1 t s i u)
    then obtain h bs tabs where "u = (h, tabs)" "hash_is h bs" by auto
    then show ?case using feistel_hash_val_returns [OF assms(1,2), of h bs E t i] assms(3) by auto
  qed (use h(2) in auto)
  then show ?thesis using h(1) by (auto simp: feistel_tables_def res_simps)
qed

section \<open>The contract of the numeric permutation\<close>

definition fnum_ok :: "fnum \<Rightarrow> bool" where
  "fnum_ok p \<longleftrightarrow>
     0 < unat (fn_modulus p) \<and> unat (p_size p) = unat (fn_modulus p) * unat (fn_modulus p) \<and>
     (\<exists>bound. tables_ok NumRounds (unat (fn_modulus p)) bound (fn_hash_tables p))"

text \<open>Both halves stay below the modulus.\<close>

definition fnum_half :: "fnum \<Rightarrow> u64 \<times> u64 \<Rightarrow> bool" where
  "fnum_half p lr \<longleftrightarrow> unat (fst lr) < unat (fn_modulus p) \<and> unat (snd lr) < unat (fn_modulus p)"

lemma add_mod_word:
  assumes "unat x < n" "n < 4294967296" "unat (m :: u64) = n"
  shows "unat ((x + ucast (h :: u32)) mod m) = (unat x + unat h) mod n"
proof -
  have "unat x + unat h < 18446744073709551616" using assms unat_u32_less [of h] by linarith
  then have "unat (x + ucast h :: u64) = unat x + unat h"
    using unat_ucast_u32_u64 [of h] by (simp only: unat_add_no_wrap)
  then show ?thesis by (simp add: unat_mod assms(3))
qed

lemma add_mod_inj:
  fixes x y h n :: nat
  assumes "x < n" "y < n" "(x + h) mod n = (y + h) mod n"
  shows "x = y"
proof -
  have le: "u = v" if "u \<le> v" "v < n" "(u + h) mod n = (v + h) mod n" for u v
  proof -
    have "n dvd (v + h) - (u + h)" using that by (subst mod_eq_dvd_iff_nat [symmetric]) simp_all
    with that show ?thesis by (auto dest: dvd_imp_le)
  qed
  show ?thesis using le [of x y] le [of y x] assms by (cases "x \<le> y") auto
qed


lemma fnum_round_total:
  assumes "fnum_ok p" "r < NumRounds" "fnum_half p lr"
  shows "\<exists>lr'. fnum_round p r lr = Inr lr' \<and> fnum_half p lr'"
proof -
  obtain bound where t: "tables_ok NumRounds (unat (fn_modulus p)) bound (fn_hash_tables p)"
    using assms(1) by (auto simp: fnum_ok_def)
  obtain l q where lr: "lr = (l, q)" by (cases lr)
  have h: "unat l < unat (fn_modulus p)" "unat q < unat (fn_modulus p)" using assms(3) lr by (simp_all add: fnum_half_def)
  obtain v w where "table_at (fn_hash_tables p) r l = Inr v" "table_at (fn_hash_tables p) r q = Inr w"
    using tables_ok_nth [OF t assms(2)] h by meson
  with h show ?thesis by (simp add: fnum_round_def lr fnum_half_def unat_mod unat_simps res_simps)
qed

lemma fnum_round_inj:
  assumes "fnum_ok p" "r < NumRounds" "fnum_half p lr" "fnum_half p lr'"
      and "fnum_round p r lr = fnum_round p r lr'"
  shows "lr = lr'"
proof -
  obtain bound where t: "tables_ok NumRounds (unat (fn_modulus p)) bound (fn_hash_tables p)"
    using assms(1) by (auto simp: fnum_ok_def)
  obtain l q l' q' where lr: "lr = (l, q)" "lr' = (l', q')" by (cases lr, cases lr') blast
  let ?n = "unat (fn_modulus p)"
  have h: "unat l < ?n" "unat q < ?n" "unat l' < ?n" "unat q' < ?n" using assms(3,4) lr by (simp_all add: fnum_half_def)
  obtain v v' w w' where T: "table_at (fn_hash_tables p) r l = Inr v" "table_at (fn_hash_tables p) r l' = Inr v'"
      "table_at (fn_hash_tables p) r q = Inr w" "table_at (fn_hash_tables p) r q' = Inr w'"
    using tables_ok_nth [OF t assms(2)] h by meson
  note A = add_mod_word [of _ ?n "ucast (fn_modulus p)", OF _ unat_u32_less unat_ucast_u32_u64]
  show ?thesis
  proof (cases "r mod 2 \<noteq> 0")
    case True
    then have e: "l = l'" "(q + ucast v) mod ucast (fn_modulus p) = (q' + ucast v') mod ucast (fn_modulus p)"
      using assms(5) T by (simp_all add: fnum_round_def lr)
    then have "v = v'" using T by simp
    then have "(unat q + unat v) mod ?n = (unat q' + unat v) mod ?n" using e(2) A h by metis
    then show ?thesis using add_mod_inj h e(1) lr by (auto simp: word_unat_eq_iff)
  next
    case False
    then have e: "q = q'" "(l + ucast w) mod ucast (fn_modulus p) = (l' + ucast w') mod ucast (fn_modulus p)"
      using assms(5) T by (simp_all add: fnum_round_def lr)
    then have "w = w'" using T by simp
    then have "(unat l + unat w) mod ?n = (unat l' + unat w) mod ?n" using e(2) A h by metis
    then show ?thesis using add_mod_inj h e(1) lr by (auto simp: word_unat_eq_iff)
  qed
qed

text \<open>Splitting an index and putting it together again.\<close>

lemma split_index:
  assumes "i < m * m" "0 < (m :: nat)"
  shows "i div m < m" "i mod m < m" "i = i div m * m + i mod m"
  using assms by (simp_all add: less_mult_imp_div_less)

lemma join_less: "l < m \<Longrightarrow> r < m \<Longrightarrow> l * m + r < m * (m :: nat)"
proof -
  assume "l < m" "r < m"
  then have "l * m + r < (l + 1) * m" by simp
  also have "\<dots> \<le> m * m" using \<open>l < m\<close> by (intro mult_le_mono1) simp
  finally show ?thesis .
qed

lemma join_inj: "l * m + r = l' * m + r' \<Longrightarrow> r < m \<Longrightarrow> r' < m \<Longrightarrow> l = l' \<and> r = (r' :: nat)"
  by (metis add.commute add_cancel_right_left div_less div_mult_self3 less_zeroE mod_less mod_mult_self3)

lemma FeistelNum_Permute_eq:
  assumes ok: "fnum_ok p" and i: "i < p_size p"
  shows "\<exists>l r. foldR (fnum_round p) [0..<NumRounds] (i div ucast (fn_modulus p), i mod ucast (fn_modulus p)) = Inr (l, r)
            \<and> fnum_half p (i div ucast (fn_modulus p), i mod ucast (fn_modulus p)) \<and> fnum_half p (l, r)
            \<and> FeistelNum_Permute p i = Inr (l * ucast (fn_modulus p) + r)
            \<and> unat (l * ucast (fn_modulus p) + r) = unat l * unat (fn_modulus p) + unat r
            \<and> l * ucast (fn_modulus p) + r < p_size p"
proof -
  let ?m = "unat (fn_modulus p)" and ?M = "ucast (fn_modulus p) :: u64"
  have m: "0 < ?m" "unat (p_size p) = ?m * ?m" using ok by (auto simp: fnum_ok_def)
  have M: "unat ?M = ?m" by (rule unat_ucast_u32_u64)
  have "unat i < ?m * ?m" using i m by (simp add: word_less_nat_alt)
  then have half: "fnum_half p (i div ?M, i mod ?M)"
    using split_index [of "unat i" ?m] m by (simp add: fnum_half_def unat_div unat_mod M)
  obtain lr where lr: "foldR (fnum_round p) [0..<NumRounds] (i div ?M, i mod ?M) = Inr lr" "fnum_half p lr"
    using foldR_total [of "[0..<NumRounds]" "fnum_half p" "fnum_round p", OF fnum_round_total [OF ok] half] by auto
  obtain l r where [simp]: "lr = (l, r)" by (cases lr)
  have b: "unat l * ?m + unat r < ?m * ?m" using lr(2) by (intro join_less) (simp_all add: fnum_half_def)
  then have s: "unat l * ?m + unat r < 18446744073709551616" using m(2) unat_u64_less [of "p_size p"] by linarith
  then have lm: "unat (l * ?M) = unat l * ?m" using unat_mult_no_wrap [of l ?M] unfolding M by linarith
  then have u: "unat (l * ?M + r) = unat l * ?m + unat r" using s by (subst unat_add_no_wrap) linarith+
  then have lt: "l * ?M + r < p_size p" using b m(2) by (simp add: word_less_nat_alt)
  have "fn_modulus p \<noteq> 0" using m(1) by (auto simp: unat_eq_zero)
  then have "FeistelNum_Permute p i = Inr (l * ?M + r)"
    using lr(1) lt i by (simp add: FeistelNum_Permute_def res_simps Let_def not_le [symmetric] del: not_le)
  with lr u lt half show ?thesis by auto
qed

lemma FeistelNum_Init_Inr:
  assumes "FeistelNum_Init E n k p = (p', Inr ())"
  shows "\<exists>m d tabs. sqrt_u32 n = Inr m \<and> feistel_tables E d NumRounds m m = Inr tabs \<and> 1024 \<le> n \<and>
           p' = p\<lparr>p_initialized := False, fn_modulus := m, p_size := ucast m * ucast m, fn_hash_tables := tabs,
                 p_initialized := True\<rparr>"
  using assms
  by (auto simp: FeistelNum_Init_def Let_def MinReqSize_def res_simps not_less split: sum.splits if_splits)

lemma isqrt_pos: "0 < n \<Longrightarrow> 0 < isqrt n"
  using isqrt_spec [of n] by (cases "isqrt n") auto

interpretation feistel_num: permutation_class fnum_ok p_size FeistelNum_Permute "FeistelNum_Init E"
    FeistelNum_GetSizeUsingParams "\<lambda>n. unat n < 2 ^ 52" for E
proof (unfold_locales, goal_cases)
  case (1 n k p p')
  from FeistelNum_Init_Inr [OF 1(2)] obtain m d tabs where *: "sqrt_u32 n = Inr m"
    "feistel_tables E d NumRounds m m = Inr tabs" "1024 \<le> n" "fn_modulus p' = m" "p_size p' = ucast m * ucast m"
    "fn_hash_tables p' = tabs" by auto
  have n0: "0 < n" "0 < unat n" using *(3) by (auto simp: word_le_nat_alt word_less_nat_alt)
  have m: "unat m = isqrt (unat n)" using sqrt_u32_exact [OF n0(1) 1(1)] *(1) by auto
  then have m0: "0 < unat m" using isqrt_pos [OF n0(2)] by simp
  then have m1: "m \<noteq> 0" by auto
  have "unat (ucast m * ucast m :: u64) = unat m * unat m"
  proof (subst unat_mult_no_wrap)
    have "unat m * unat m \<le> 4294967295 * 4294967295"
      using unat_u32_less [of m] by (intro mult_le_mono) simp_all
    then show "unat (ucast m :: u64) * unat (ucast m :: u64) < 18446744073709551616"
      by (simp add: unat_ucast_u32_u64)
  qed (simp add: unat_ucast_u32_u64)
  then show ?case using feistel_tables_ok [OF *(2)] m0 m1 * by (auto simp: fnum_ok_def)
next
  case (2 n k p p')
  from FeistelNum_Init_Inr [OF 2(2)] show ?case
    by (auto simp: FeistelNum_GetSizeUsingParams_def MinReqSize_def not_less [symmetric])
next
  case (3 n k p p')
  from FeistelNum_Init_Inr [OF 3(2)] obtain m where *: "sqrt_u32 n = Inr m" "1024 \<le> n" "p_size p' = ucast m * ucast m" by auto
  have n0: "0 < n" "0 < unat n" using *(2) by (auto simp: word_le_nat_alt word_less_nat_alt)
  have m: "unat m = isqrt (unat n)" using sqrt_u32_exact [OF n0(1) 3(1)] *(1) by auto
  have mm: "unat m * unat m \<le> unat n" "0 < unat m * unat m" using isqrt_spec [of "unat n"] isqrt_pos [OF n0(2)] m by simp_all
  have "unat (ucast m * ucast m :: u64) = unat m * unat m"
    using mm(1) unat_u64_less [of n] by (subst unat_mult_no_wrap) (simp_all add: unat_ucast_u32_u64)
  then show ?case using mm * by (simp add: word_less_nat_alt word_le_nat_alt)
next
  case (4 p i)
  then show ?case using FeistelNum_Permute_eq by blast
next
  case (5 p i i')
  let ?M = "ucast (fn_modulus p) :: u64"
  have M: "unat ?M = unat (fn_modulus p)" by (rule unat_ucast_u32_u64)
  from FeistelNum_Permute_eq [OF 5(1,2)] obtain l r where a: "foldR (fnum_round p) [0..<NumRounds] (i div ?M, i mod ?M) = Inr (l, r)"
    "fnum_half p (i div ?M, i mod ?M)" "fnum_half p (l, r)" "FeistelNum_Permute p i = Inr (l * ?M + r)"
    "unat (l * ?M + r) = unat l * unat (fn_modulus p) + unat r" by blast
  from FeistelNum_Permute_eq [OF 5(1,3)] obtain l' r' where b: "foldR (fnum_round p) [0..<NumRounds] (i' div ?M, i' mod ?M) = Inr (l', r')"
    "fnum_half p (i' div ?M, i' mod ?M)" "fnum_half p (l', r')" "FeistelNum_Permute p i' = Inr (l' * ?M + r')"
    "unat (l' * ?M + r') = unat l' * unat (fn_modulus p) + unat r'" by blast
  have "unat l * unat (fn_modulus p) + unat r = unat l' * unat (fn_modulus p) + unat r'"
    using 5(4) a(4,5) b(4,5) by simp
  then have "l = l'" "r = r'" using join_inj a(3) b(3) unfolding fnum_half_def
    by (metis snd_conv word_unat_eq_iff)+
  then have "(i div ?M, i mod ?M) = (i' div ?M, i' mod ?M)"
    using foldR_inj [of "[0..<NumRounds]" "fnum_half p" "fnum_round p", OF fnum_round_total [OF 5(1)] fnum_round_inj [OF 5(1)] a(2) b(2)] a(1) b(1)
    by simp
  then have "unat i div unat ?M = unat i' div unat ?M" "unat i mod unat ?M = unat i' mod unat ?M"
    by (metis Pair_inject unat_div, metis Pair_inject unat_mod)
  then show ?case by (metis div_mult_mod_eq word_unat_eq_iff)
next
  case (6 p i)
  then show ?case by (auto simp: FeistelNum_Permute_def res_simps)
qed

text \<open>With a key of the right size \<open>Init\<close> succeeds for every request it does not refuse.\<close>

lemma FeistelNum_Init_returns:
  assumes "key_ok k" "1024 \<le> n" "unat n < 2 ^ 52"
  shows "\<exists>p'. FeistelNum_Init E n k p = (p', Inr ())"
proof -
  obtain d where d: "k_data k = Some d" "mb_ok d" "mb_size d = 32" using assms(1) by (rule key_okE)
  have n0: "0 < n" "0 < unat n" using assms(2) by (auto simp: word_le_nat_alt word_less_nat_alt)
  obtain m where m: "sqrt_u32 n = Inr m" "unat m = isqrt (unat n)" using sqrt_u32_exact [OF n0(1) assms(3)] by auto
  have "m \<noteq> 0" using m(2) isqrt_pos [OF n0(2)] by auto
  then obtain tabs where "feistel_tables E d NumRounds m m = Inr tabs"
    using feistel_tables_returns [OF d(2,3)] by blast
  then show ?thesis using d m assms(2)
    by (simp add: FeistelNum_Init_def Key_GetSize_def Key_GetData_def res_simps MinReqSize_def Let_def not_less [symmetric])
qed

section \<open>The contract of the mixed permutation\<close>

definition fmix_ok :: "fmix \<Rightarrow> bool" where
  "fmix_ok p \<longleftrightarrow>
     (let R = unat (fm_right_bits p) in
      R \<le> 30 \<and> fm_right_mask p = mask R \<and>
      0 < unat (fm_left_mod p) \<and> unat (fm_left_mod p) \<le> 2 ^ R \<and>
      unat (p_size p) = unat (fm_left_mod p) * 2 ^ R \<and>
      tables_ok FMPNumRounds (2 ^ R) (2 ^ R) (fm_hash_tables p))"

text \<open>The value an odd round xors into the right half.\<close>

definition fmix_mask :: "fmix \<Rightarrow> u64 \<Rightarrow> u64" where
  "fmix_mask p left =
     ucast (fm_hash_tables p ! 1 ! unat left) XOR ucast (fm_hash_tables p ! 3 ! unat left)"

lemma fmix_left_step:
  assumes "unat left < unat (m :: u64)" "unat (h :: u32) < 2 ^ R"
  shows "(left + ucast (drop_bit R h)) mod m = left"
proof -
  have "unat (drop_bit R h) = 0" using assms(2) by (simp add: unat_drop_div)
  then have "drop_bit R h = 0" by (rule unat_eq_zero [THEN iffD1])
  then have "(left + ucast (drop_bit R h)) mod m = left mod m" by simp
  then show ?thesis using assms(1) by (simp add: word_unat_eq_iff unat_mod)
qed

lemma ucast_small_and_mask:
  assumes "unat (h :: u32) < 2 ^ R" "R \<le> 30"
  shows "(ucast h :: u64) AND mask R = ucast h"
  using assms
  by (simp add: word_unat_eq_iff flip: take_bit_eq_mask)
     (simp add: unsigned_take_bit_eq unat_ucast_u32_u64 take_bit_nat_eq_self)

lemma xor_less_pow:
  assumes "unat (a :: u64) < 2 ^ R" "unat (b :: u64) < 2 ^ R"
  shows "unat (a XOR b) < 2 ^ R"
  using assms by (simp add: unsigned_xor_eq) (metis take_bit_nat_eq_self_iff take_bit_xor)

text \<open>
  Table entries are below \<open>2 ^ right_bits\<close>, so the part an even round adds to the left half is
  zero: the left half never changes.
\<close>

lemma FeistelMix_rounds:
  assumes ok: "fmix_ok p" and h: "unat left < unat (fm_left_mod p)" "unat right < 2 ^ unat (fm_right_bits p)"
  shows "foldR (fmix_round p) [0..<FMPNumRounds] (left, right) = Inr (left, right XOR fmix_mask p left)"
    and "unat (right XOR fmix_mask p left) < 2 ^ unat (fm_right_bits p)"
proof -
  let ?R = "unat (fm_right_bits p)" and ?T = "fm_hash_tables p"
  have o: "?R \<le> 30" "fm_right_mask p = mask ?R" "0 < unat (fm_left_mod p)" "unat (fm_left_mod p) \<le> 2 ^ ?R"
      "tables_ok 5 (2 ^ ?R) (2 ^ ?R) ?T"
    using ok by (simp_all add: fmix_ok_def Let_def FMPNumRounds_def)
  have m0: "fm_left_mod p \<noteq> 0" using o(3) by auto
  have T: "table_at ?T r i = Inr (?T ! r ! unat i) \<and> unat (?T ! r ! unat i) < 2 ^ ?R"
    if "r < 5" "unat i < 2 ^ ?R" for r i
    using tables_ok_nth [OF o(5) that] by (auto simp: table_at_def split: if_splits)
  have l: "unat left < 2 ^ ?R" using h(1) o(4) by linarith
  have even: "fmix_round p r (left, x) = Inr (left, x)" if "r < 5" "even r" "unat x < 2 ^ ?R" for r x
    using T [OF that(1,3)] that(2) m0 fmix_left_step [OF h(1)]
    by (simp add: fmix_round_def even_iff_mod_2_eq_zero)
  have odd: "fmix_round p r (left, x) = Inr (left, x XOR ucast (?T ! r ! unat left))"
    if "r < 5" "odd r" for r x
    using T [OF that(1) l] that(2) ucast_small_and_mask o(1,2)
    by (simp add: fmix_round_def odd_iff_mod_2_eq_one)
  have c: "unat (ucast (?T ! r ! unat left) :: u64) < 2 ^ ?R" if "r < 5" for r
    using T [OF that l] by (simp add: unat_ucast_u32_u64)
  have x1: "unat (right XOR ucast (?T ! 1 ! unat left)) < 2 ^ ?R"
    using xor_less_pow [OF h(2) c [of 1]] by simp
  have x3: "unat (right XOR ucast (?T ! 1 ! unat left) XOR ucast (?T ! 3 ! unat left)) < 2 ^ ?R"
    using xor_less_pow [OF x1 c [of 3]] by (simp add: xor.assoc)
  show "unat (right XOR fmix_mask p left) < 2 ^ ?R" using x3 by (simp add: fmix_mask_def xor.assoc)
  have seq: "[0..<FMPNumRounds] = [0, 1, 2, 3, 4]" by (simp add: FMPNumRounds_def upt_rec)
  show "foldR (fmix_round p) [0..<FMPNumRounds] (left, right) = Inr (left, right XOR fmix_mask p left)"
    unfolding seq
    using even [of 0 right] odd [of 1 right] even [of 2 "right XOR ucast (?T ! 1 ! unat left)"]
      odd [of 3 "right XOR ucast (?T ! 1 ! unat left)"]
      even [of 4 "right XOR ucast (?T ! 1 ! unat left) XOR ucast (?T ! 3 ! unat left)"] h(2) x1 x3
    by (simp add: fmix_mask_def xor.assoc)
qed

lemma FeistelMix_Permute_eq:
  assumes ok: "fmix_ok p" and i: "i < p_size p"
  defines "R \<equiv> unat (fm_right_bits p)"
  defines "left \<equiv> drop_bit R i" and "right \<equiv> take_bit R i"
  shows "FeistelMix_Permute p i = Inr (push_bit R left + (right XOR fmix_mask p left))"
    and "unat (push_bit R left + (right XOR fmix_mask p left)) = unat i div 2 ^ R * 2 ^ R + unat (right XOR fmix_mask p left)"
    and "unat (right XOR fmix_mask p left) < 2 ^ R"
    and "push_bit R left + (right XOR fmix_mask p left) < p_size p"
proof -
  have o: "R \<le> 30" "fm_right_mask p = mask R" "0 < unat (fm_left_mod p)"
      "unat (p_size p) = unat (fm_left_mod p) * 2 ^ R"
    using ok by (simp_all add: fmix_ok_def Let_def R_def)
  have ui: "unat i < unat (fm_left_mod p) * 2 ^ R" using i o(4) by (simp add: word_less_nat_alt)
  have ul: "unat left = unat i div 2 ^ R" by (simp add: left_def unat_drop_div)
  have l: "unat left < unat (fm_left_mod p)" using ui by (simp add: ul less_mult_imp_div_less)
  have r: "unat right < 2 ^ R" by (simp add: right_def unsigned_take_bit_eq)
  note F = FeistelMix_rounds [OF ok l r [unfolded R_def], folded R_def]
  show b: "unat (right XOR fmix_mask p left) < 2 ^ R" by (rule F(2))
  let ?j = "push_bit R left + (right XOR fmix_mask p left)"
  have join: "unat i div 2 ^ R * 2 ^ R + unat (right XOR fmix_mask p left) < unat (p_size p)"
  proof -
    have "unat left * 2 ^ R + 2 ^ R \<le> unat (fm_left_mod p) * 2 ^ R"
      using l by (metis Suc_leI add.commute mult_Suc mult_le_mono1)
    with b show ?thesis unfolding o(4) ul by linarith
  qed
  have p: "unat (push_bit R left) = unat i div 2 ^ R * 2 ^ R"
  proof -
    have "unat i div 2 ^ R * 2 ^ R < 18446744073709551616" using join unat_u64_less [of "p_size p"] by linarith
    then show ?thesis using unat_push_mult [of left R] by (simp only: ul)
  qed
  show u: "unat ?j = unat i div 2 ^ R * 2 ^ R + unat (right XOR fmix_mask p left)"
    using join unat_u64_less [of "p_size p"] by (subst unat_add_no_wrap) (simp_all add: p)
  then show lt: "?j < p_size p" using join by (simp add: word_less_nat_alt)
  have "i AND fm_right_mask p = right" by (simp add: o(2) right_def take_bit_eq_mask)
  then show "FeistelMix_Permute p i = Inr ?j"
    using F(1) lt i
    by (simp add: FeistelMix_Permute_def res_simps Let_def left_def [symmetric] R_def [symmetric] not_le [symmetric] del: not_le)
qed

text \<open>The left half of the result is that of the argument.\<close>

lemma FeistelMix_Permute_halves:
  assumes ok: "fmix_ok p" and i: "i < p_size p" and j: "FeistelMix_Permute p i = Inr j"
  shows "drop_bit (unat (fm_right_bits p)) j = drop_bit (unat (fm_right_bits p)) i"
    and "take_bit (unat (fm_right_bits p)) j =
           take_bit (unat (fm_right_bits p)) i XOR fmix_mask p (drop_bit (unat (fm_right_bits p)) i)"
proof -
  let ?R = "unat (fm_right_bits p)"
  note E = FeistelMix_Permute_eq [OF ok i]
  have u: "unat j = unat i div 2 ^ ?R * 2 ^ ?R + unat (take_bit ?R i XOR fmix_mask p (drop_bit ?R i))"
    using E(1,2) j by simp
  show "drop_bit ?R j = drop_bit ?R i"
    using E(3) by (simp add: word_unat_eq_iff unat_drop_div u)
  show "take_bit ?R j = take_bit ?R i XOR fmix_mask p (drop_bit ?R i)"
    using E(3) by (simp add: word_unat_eq_iff unat_take_mod u)
qed

lemma FeistelMix_involution_lemma:
  assumes ok: "fmix_ok p" and i: "i < p_size p" and j: "FeistelMix_Permute p i = Inr j"
  shows "FeistelMix_Permute p j = Inr i"
proof -
  let ?R = "unat (fm_right_bits p)"
  have jl: "j < p_size p" using FeistelMix_Permute_eq(1,4) [OF ok i] j by simp
  note H = FeistelMix_Permute_halves [OF ok i j]
  obtain k where k: "FeistelMix_Permute p j = Inr k" using FeistelMix_Permute_eq(1) [OF ok jl] by blast
  note K = FeistelMix_Permute_halves [OF ok jl k]
  have d: "drop_bit ?R k = drop_bit ?R i" using K(1) H(1) by simp
  have t: "take_bit ?R k = take_bit ?R i" using K(2) H by (simp add: xor.assoc)
  have "unat k div 2 ^ ?R = unat i div 2 ^ ?R" "unat k mod 2 ^ ?R = unat i mod 2 ^ ?R"
    using d t by (metis unat_drop_div, metis unat_take_mod)
  then have "k = i" by (metis div_mult_mod_eq word_unat_eq_iff)
  with k show ?thesis by simp
qed


lemma FeistelMix_Init_Inr:
  assumes "FeistelMix_Init E n k p = (p', Inr ())"
  defines "L \<equiv> unat (Log2 n)"
  shows "\<exists>d tabs. 1024 \<le> n \<and> unat (fm_right_bits p') = L - L div 2 \<and> L - L div 2 \<le> 30 \<and>
           fm_right_mask p' = 2 ^ (L - L div 2) - 1 \<and> fm_left_mod p' = drop_bit (L - L div 2) n \<and>
           p_size p' = push_bit (L - L div 2) (drop_bit (L - L div 2) n) \<and>
           feistel_tables E d FMPNumRounds (ucast (2 ^ (L - L div 2) :: u64)) (ucast (2 ^ (L - L div 2) :: u64)) = Inr tabs \<and>
           fm_hash_tables p' = tabs"
proof -
  let ?b = "Log2 n"
  have h: "unat (?b - ?b div 2) = L - L div 2"
    by (simp add: L_def unat_sub word_le_nat_alt unat_div)
  show ?thesis
    using assms(1)
    by (auto simp: FeistelMix_Init_def Let_def FMPMinReqSize_def res_simps not_less not_le h
        split: sum.splits if_splits)
qed

text \<open>The bit length splits so that the left half fits into the table.\<close>

lemma split_bits:
  assumes "1024 \<le> n"
  defines "L \<equiv> unat (Log2 n)"
  shows "10 < L" "L \<le> 64" "unat n < 2 ^ L" "2 ^ (L - 1) \<le> unat n" "L div 2 \<le> L - L div 2" "L - L div 2 + L div 2 = L"
    "L - L div 2 \<le> L - 1"
proof -
  have n0: "n \<noteq> 0" using assms(1) by auto
  note B = Log2_bounds [OF n0, folded L_def]
  show "unat n < 2 ^ L" "2 ^ (L - 1) \<le> unat n" "L \<le> 64" using B by auto
  show L: "10 < L"
  proof (rule ccontr)
    assume "\<not> 10 < L"
    then have "(2::nat) ^ L \<le> 2 ^ 10" by (intro power_increasing) simp_all
    then show False using B assms(1) by (auto simp: word_le_nat_alt)
  qed
  show "L div 2 \<le> L - L div 2" "L - L div 2 + L div 2 = L" by simp_all
  have "2 \<le> L" using L by simp
  then show "L - L div 2 \<le> L - 1" by (cases "L div 2") auto
qed

lemma mix_size:
  assumes "1024 \<le> n" "R = unat (Log2 n) - unat (Log2 n) div 2"
  shows "0 < unat (drop_bit R n)" "unat (drop_bit R n) \<le> 2 ^ R"
    and "unat (push_bit R (drop_bit R n)) = unat (drop_bit R n) * 2 ^ R"
    and "unat (drop_bit R n) * 2 ^ R \<le> unat n"
proof -
  let ?L = "unat (Log2 n)"
  note S = split_bits [OF assms(1)]
  have d: "unat (drop_bit R n) = unat n div 2 ^ R" by (rule unat_drop_div)
  have "(2::nat) ^ R \<le> 2 ^ (?L - 1)" using S(7) assms(2) by (intro power_increasing) simp_all
  then have "2 ^ R \<le> unat n" using S(4) by linarith
  then show "0 < unat (drop_bit R n)" unfolding d by (simp add: div_greater_zero_iff)
  have "unat n < 2 ^ (?L div 2) * 2 ^ R" using S(3,6) assms(2) by (simp add: power_add [symmetric] add.commute)
  then have "unat n div 2 ^ R < 2 ^ (?L div 2)" by (rule less_mult_imp_div_less)
  also have "(2::nat) ^ (?L div 2) \<le> 2 ^ R" using S(5) assms(2) by (intro power_increasing) simp_all
  finally show "unat (drop_bit R n) \<le> 2 ^ R" unfolding d by simp
  show le: "unat (drop_bit R n) * 2 ^ R \<le> unat n" unfolding d by (rule div_times_less_eq_dividend)
  then have "unat n div 2 ^ R * 2 ^ R < 18446744073709551616" using unat_u64_less [of n] unfolding d by linarith
  then show "unat (push_bit R (drop_bit R n)) = unat (drop_bit R n) * 2 ^ R"
    using unat_push_mult [of "drop_bit R n" R] by (simp only: d)
qed

lemma max_hash_unat: "R \<le> 30 \<Longrightarrow> unat (ucast (2 ^ R :: u64) :: u32) = 2 ^ R"
proof -
  assume R: "R \<le> 30"
  have "(2::nat) ^ R \<le> 2 ^ 30" using R by (intro power_increasing) simp_all
  then have "(2::nat) ^ R < 2 ^ 32" by simp
  moreover have "unat (2 ^ R :: u64) = 2 ^ R" using R by (intro unat_power_u64) simp
  ultimately show ?thesis using R by (simp add: unsigned_ucast_eq take_bit_nat_eq_self)
qed

lemma FeistelMix_Init_ok:
  assumes "FeistelMix_Init E n k p = (p', Inr ())"
  shows "fmix_ok p'" and "0 < p_size p'" and "p_size p' \<le> n"
proof -
  define R where "R = unat (Log2 n) - unat (Log2 n) div 2"
  obtain d tabs where *: "1024 \<le> n" "unat (fm_right_bits p') = R" "R \<le> 30" "fm_right_mask p' = 2 ^ R - 1"
      "fm_left_mod p' = drop_bit R n" "p_size p' = push_bit R (drop_bit R n)"
      "feistel_tables E d FMPNumRounds (ucast (2 ^ R :: u64)) (ucast (2 ^ R :: u64)) = Inr tabs"
      "fm_hash_tables p' = tabs"
    using FeistelMix_Init_Inr [OF assms] unfolding R_def [symmetric] by blast
  note M = mix_size [OF *(1) R_def]
  have mh: "unat (ucast (2 ^ R :: u64) :: u32) = 2 ^ R" by (rule max_hash_unat [OF *(3)])
  then have "(ucast (2 ^ R :: u64) :: u32) \<noteq> 0" by (metis unat_0 power_not_zero zero_neq_numeral)
  then have "tables_ok FMPNumRounds (2 ^ R) (2 ^ R) tabs"
    using feistel_tables_ok [OF *(7)] unfolding mh by blast
  then show "fmix_ok p'" using * M by (simp add: fmix_ok_def Let_def mask_eq_exp_minus_1)
  show "0 < p_size p'" "p_size p' \<le> n" using * M by (simp_all add: word_less_nat_alt word_le_nat_alt)
qed

lemma FeistelMix_Init_size:
  assumes "FeistelMix_Init E n k p = (p', Inr ())"
  shows "FeistelMix_GetSizeUsingParams n k q = Inr (p_size p')"
proof -
  from FeistelMix_Init_Inr [OF assms] have 1: "1024 \<le> n"
      "p_size p' = push_bit (unat (Log2 n) - unat (Log2 n) div 2) (drop_bit (unat (Log2 n) - unat (Log2 n) div 2) n)"
    by auto
  have h: "unat (Log2 n - Log2 n div 2) = unat (Log2 n) - unat (Log2 n) div 2"
    by (simp add: unat_sub word_le_nat_alt unat_div)
  show ?thesis using 1 split_bits(1) [OF 1(1)]
    by (simp add: FeistelMix_GetSizeUsingParams_def FMPMinReqSize_def Let_def h word_less_nat_alt not_less [symmetric])
qed

lemma bij_of_involution:
  assumes "\<And>i. i < (n :: u64) \<Longrightarrow> \<exists>j. f i = Inr j \<and> j < n" "\<And>i j. i < n \<Longrightarrow> f i = (Inr j :: u64 res) \<Longrightarrow> f j = Inr i"
      and "i < n" "i' < n" "f i = f i'"
  shows "i = i'"
  using assms by (metis Inr_inject)

interpretation feistel_mix: permutation_class fmix_ok p_size FeistelMix_Permute "FeistelMix_Init E"
    FeistelMix_GetSizeUsingParams "\<lambda>_. True" for E
proof (unfold_locales, goal_cases)
  case (1 n k p p')
  show ?case by (rule FeistelMix_Init_ok(1) [OF 1(2)])
next
  case (2 n k p p')
  show ?case by (rule FeistelMix_Init_size [OF 2(2)])
next
  case (3 n k p p')
  show ?case using FeistelMix_Init_ok(2,3) [OF 3(2)] by blast
next
  case (4 p i)
  then show ?case using FeistelMix_Permute_eq(1,4) by blast
next
  case (5 p i i')
  show ?case
  proof (rule bij_of_involution [of "p_size p" "FeistelMix_Permute p" i i'])
    show "\<exists>j. FeistelMix_Permute p i = Inr j \<and> j < p_size p" if "i < p_size p" for i
      using FeistelMix_Permute_eq(1,4) [OF 5(1) that] by blast
    show "FeistelMix_Permute p j = Inr i" if "i < p_size p" "FeistelMix_Permute p i = Inr j" for i j
      by (rule FeistelMix_involution_lemma [OF 5(1) that])
  qed (use 5 in auto)
next
  case (6 p i)
  then show ?case by (auto simp: FeistelMix_Permute_def res_simps)
qed

lemma FeistelMix_Init_returns:
  assumes "key_ok k" "1024 \<le> n" "unat n < 2 ^ 60"
  shows "\<exists>p'. FeistelMix_Init E n k p = (p', Inr ())"
proof -
  let ?L = "unat (Log2 n)" let ?R = "?L - ?L div 2"
  obtain d where d: "k_data k = Some d" "mb_ok d" "mb_size d = 32" using assms(1) by (rule key_okE)
  note S = split_bits [OF assms(2)]
  have "?L \<le> 60"
  proof (rule ccontr)
    assume "\<not> ?L \<le> 60"
    then have "(2::nat) ^ 60 \<le> 2 ^ (?L - 1)" by (intro power_increasing) simp_all
    then show False using S(4) assms(3) by linarith
  qed
  then have R: "?R \<le> 30" by linarith
  have h: "unat (Log2 n - Log2 n div 2) = ?R" by (simp add: unat_sub word_le_nat_alt unat_div)
  have "(ucast (2 ^ ?R :: u64) :: u32) \<noteq> 0"
    using max_hash_unat [OF R] by (metis unat_0 power_not_zero zero_neq_numeral)
  then obtain tabs where "feistel_tables E d FMPNumRounds (ucast (2 ^ ?R :: u64)) (ucast (2 ^ ?R :: u64)) = Inr tabs"
    using feistel_tables_returns [OF d(2,3)] by blast
  moreover have "\<not> n < 1024" "\<not> Log2 n < 8" "\<not> 31 \<le> ?R"
    using assms(2) S(1) R by (simp_all add: not_less word_le_nat_alt)
  ultimately show ?thesis using d
    by (simp add: FeistelMix_Init_def Key_GetSize_def Key_GetData_def res_simps FMPMinReqSize_def Let_def h)
qed

end
