(* ===== verification/Permutation_Factory.thy ===== *)
theory Permutation_Factory
  imports Permutation_Affine Permutation_Feistel
begin

text \<open>
  \<^verbatim>\<open>src/permutations/permutation_factory.cc\<close>, and the virtual calls of the class \<open>Permutation\<close>:
  a \<open>shared_ptr<Permutation>\<close> is a value of the datatype \<open>permutation\<close>.
\<close>

section \<open>Dynamic dispatch\<close>

datatype permutation =
    IdentityPerm perm_base
  | AffinePerm affine
  | Affine64Perm affine
  | FeistelNumPerm fnum
  | FeistelMixPerm fmix

fun Perm_Init :: "env \<Rightarrow> PermElem \<Rightarrow> key \<Rightarrow> (permutation, unit) meth" where
  "Perm_Init E n k (IdentityPerm p) = (case Identity_Init n k p of (p', r) \<Rightarrow> (IdentityPerm p', r))"
| "Perm_Init E n k (AffinePerm p) = (case Affine_Init E n k p of (p', r) \<Rightarrow> (AffinePerm p', r))"
| "Perm_Init E n k (Affine64Perm p) = (case Affine64_Init E n k p of (p', r) \<Rightarrow> (Affine64Perm p', r))"
| "Perm_Init E n k (FeistelNumPerm p) = (case FeistelNum_Init E n k p of (p', r) \<Rightarrow> (FeistelNumPerm p', r))"
| "Perm_Init E n k (FeistelMixPerm p) = (case FeistelMix_Init E n k p of (p', r) \<Rightarrow> (FeistelMixPerm p', r))"

fun Perm_Permute :: "permutation \<Rightarrow> PermElem \<Rightarrow> PermElem res" where
  "Perm_Permute (IdentityPerm p) = Identity_Permute p"
| "Perm_Permute (AffinePerm p) = Affine_Permute p"
| "Perm_Permute (Affine64Perm p) = Affine64_Permute p"
| "Perm_Permute (FeistelNumPerm p) = FeistelNum_Permute p"
| "Perm_Permute (FeistelMixPerm p) = FeistelMix_Permute p"

fun Perm_GetSizeUsingParams :: "env \<Rightarrow> PermElem \<Rightarrow> key \<Rightarrow> permutation \<Rightarrow> PermElem res" where
  "Perm_GetSizeUsingParams E n k (IdentityPerm p) = Identity_GetSizeUsingParams n k p"
| "Perm_GetSizeUsingParams E n k (AffinePerm p) = Affine_GetSizeUsingParams E n k p"
| "Perm_GetSizeUsingParams E n k (Affine64Perm p) = Affine_GetSizeUsingParams E n k p"
| "Perm_GetSizeUsingParams E n k (FeistelNumPerm p) = FeistelNum_GetSizeUsingParams n k p"
| "Perm_GetSizeUsingParams E n k (FeistelMixPerm p) = FeistelMix_GetSizeUsingParams n k p"

fun Perm_GetSize :: "permutation \<Rightarrow> PermElem" where
  "Perm_GetSize (IdentityPerm p) = Permutation_GetSize p"
| "Perm_GetSize (AffinePerm p) = Permutation_GetSize p"
| "Perm_GetSize (Affine64Perm p) = Permutation_GetSize p"
| "Perm_GetSize (FeistelNumPerm p) = Permutation_GetSize p"
| "Perm_GetSize (FeistelMixPerm p) = Permutation_GetSize p"

fun Perm_GetNameInstance :: "permutation \<Rightarrow> string" where
  "Perm_GetNameInstance (IdentityPerm p) = Identity_Name"
| "Perm_GetNameInstance (AffinePerm p) = Affine_Name"
| "Perm_GetNameInstance (Affine64Perm p) = Affine64_Name"
| "Perm_GetNameInstance (FeistelNumPerm p) = FeistelNum_Name"
| "Perm_GetNameInstance (FeistelMixPerm p) = FeistelMix_Name"

section \<open>The factory\<close>

datatype PermutationType = IDENTITY | AFFINE | AFFINE64 | FEISTEL_NUM | FEISTEL_MIX

definition kDefaultPermutation :: PermutationType where
  "kDefaultPermutation = FEISTEL_MIX"

definition GetPermutations :: "permutation list" where
  "GetPermutations =
     [IdentityPerm IdentityPermutation, AffinePerm AffinePermutation, Affine64Perm AffinePermutation,
      FeistelNumPerm FeistelNumPermutation, FeistelMixPerm FeistelMixPermutation]"

definition GetPermutation_name :: "string \<Rightarrow> permutation res" where
  "GetPermutation_name permutation_name =
     (if permutation_name = [] then Inl (EmptyArgument ''permutationName'')
      else case filter (\<lambda>p. lower (Perm_GetNameInstance p) = lower permutation_name) GetPermutations of
          [] \<Rightarrow> Inl InvalidArgument
        | p # ps \<Rightarrow> Inr p)"

fun GetPermutation :: "PermutationType \<Rightarrow> permutation" where
  "GetPermutation IDENTITY = IdentityPerm IdentityPermutation"
| "GetPermutation AFFINE = AffinePerm AffinePermutation"
| "GetPermutation AFFINE64 = Affine64Perm AffinePermutation"
| "GetPermutation FEISTEL_NUM = FeistelNumPerm FeistelNumPermutation"
| "GetPermutation FEISTEL_MIX = FeistelMixPerm FeistelMixPermutation"

definition GetDefaultPermutation :: permutation where
  "GetDefaultPermutation = GetPermutation kDefaultPermutation"

definition GetDefaultPermutationType :: PermutationType where
  "GetDefaultPermutationType = kDefaultPermutation"

definition GetPermutationType :: "string \<Rightarrow> PermutationType" where
  "GetPermutationType permutation =
     (let l_perm = lower permutation in
      if l_perm = ''identity'' then IDENTITY
      else if l_perm = ''affine'' then AFFINE
      else if l_perm = ''affine64'' then AFFINE64
      else if l_perm = ''num_feistel'' then FEISTEL_NUM
      else if l_perm = ''mix_feistel'' then FEISTEL_MIX
      else GetDefaultPermutationType)"

definition GetPermutationName :: "PermutationType \<Rightarrow> string" where
  "GetPermutationName permutation =
     (if permutation = IDENTITY then ''identity''
      else if permutation = AFFINE then ''affine''
      else if permutation = AFFINE64 then ''affine64''
      else if permutation = FEISTEL_NUM then ''num_feistel''
      else ''mix_feistel'')"

section \<open>The contract of the dispatched methods\<close>

fun perm_ok :: "permutation \<Rightarrow> bool" where
  "perm_ok (IdentityPerm p) = True"
| "perm_ok (AffinePerm p) = affine_ok 0xFFFFFFFF p"
| "perm_ok (Affine64Perm p) = affine_ok (2 ^ 63) p"
| "perm_ok (FeistelNumPerm p) = fnum_ok p"
| "perm_ok (FeistelMixPerm p) = fmix_ok p"

text \<open>The request sizes every class handles; a storage of \<open>2 ^ 32\<close> blocks is above any carrier set.\<close>

definition perm_supported :: "u64 \<Rightarrow> bool" where
  "perm_supported n \<longleftrightarrow> n \<le> 0xFFFFFFFF"

lemma perm_supported_small: "perm_supported n \<Longrightarrow> unat n < 2 ^ 52"
  by (simp add: perm_supported_def word_le_nat_alt)

interpretation perm: permutation_class perm_ok Perm_GetSize Perm_Permute "Perm_Init E"
    "Perm_GetSizeUsingParams E" perm_supported for E
proof (unfold_locales, goal_cases)
  case (1 n k p p')
  then show ?case
    using affine.init_ok [OF TrueI] affine64.init_ok [of n] feistel_num.init_ok [OF perm_supported_small [OF 1(1)]]
      feistel_mix.init_ok [OF TrueI]
    by (cases p) (auto simp: perm_supported_def split: prod.splits)
next
  case (2 n k p p')
  then show ?case
    using identity.init_size [OF TrueI] affine.init_size [OF TrueI] affine64.init_size [of n]
      feistel_num.init_size [OF perm_supported_small [OF 2(1)]] feistel_mix.init_size [OF TrueI]
    by (cases p) (auto simp: perm_supported_def Permutation_GetSize_def split: prod.splits)
next
  case (3 n k p p')
  then show ?case
    using identity.init_le [OF TrueI] affine.init_le [OF TrueI] affine64.init_le [of n]
      feistel_num.init_le [OF perm_supported_small [OF 3(1)]] feistel_mix.init_le [OF TrueI]
    by (cases p) (auto simp: perm_supported_def Permutation_GetSize_def split: prod.splits)
next
  case (4 p i)
  then show ?case
    using identity.permute_total affine.permute_total affine64.permute_total feistel_num.permute_total feistel_mix.permute_total
    by (cases p) (auto simp: Permutation_GetSize_def)
next
  case (5 p i i')
  then show ?case
    using identity.permute_inj affine.permute_inj affine64.permute_inj feistel_num.permute_inj feistel_mix.permute_inj
    by (cases p) (auto simp: Permutation_GetSize_def)
next
  case (6 p i)
  then show ?case
    using identity.permute_range affine.permute_range affine64.permute_range feistel_num.permute_range feistel_mix.permute_range
    by (cases p) (auto simp: Permutation_GetSize_def)
qed

section \<open>Concrete inputs for the witnesses\<close>

definition env0 :: env where
  "env0 = \<lparr>e_garbage = (\<lambda>_. 0), e_rnd = (\<lambda>_. 1)\<rparr>"

definition key0 :: key where
  "key0 = \<lparr>k_data = Some \<lparr>mb_buffer = Some (replicate 32 7), mb_size = 32\<rparr>\<rparr>"

lemma key0_ok: "key_ok key0"
  by (simp add: key_ok_def key0_def)

section \<open>Permutations\<close>

text \<open>
  C3. After a successful \<open>Init\<close> with a request of at most \<open>2 ^ 32 - 1\<close> blocks, \<open>Permute\<close> of every
  one of the five classes is a permutation of the positions below its size: it never throws there,
  stays in range and is one-to-one and onto.
\<close>

theorem permutation_bijective:
  assumes "Perm_Init E n k p = (p', Inr ())" and "n \<le> 0xFFFFFFFF"
  shows "(\<forall>i < Perm_GetSize p'. \<exists>j < Perm_GetSize p'. Perm_Permute p' i = Inr j) \<and>
         bij_betw (\<lambda>i. projr (Perm_Permute p' i)) {..<Perm_GetSize p'} {..<Perm_GetSize p'}"
proof -
  have "perm_ok p'" using assms by (intro perm.init_ok [of n]) (simp_all add: perm_supported_def)
  then show ?thesis using perm.permute_total perm.bij_permute by blast
qed

theorem permutation_bijective_witness:
  "\<exists>p'. Perm_Init env0 4096 key0 (FeistelMixPerm FeistelMixPermutation) = (p', Inr ()) \<and>
        bij_betw (\<lambda>i. projr (Perm_Permute p' i)) {..<Perm_GetSize p'} {..<Perm_GetSize p'}"
proof -
  obtain q where "FeistelMix_Init env0 4096 key0 FeistelMixPermutation = (q, Inr ())"
    using FeistelMix_Init_returns [OF key0_ok, of 4096] by auto
  then have i: "Perm_Init env0 4096 key0 (FeistelMixPerm FeistelMixPermutation) = (FeistelMixPerm q, Inr ())" by simp
  then show ?thesis using permutation_bijective [OF i] by auto
qed

text \<open>
  C22. The size after a successful \<open>Init\<close> is positive, at most the requested size, and the one
  \<open>GetSizeUsingParams\<close> announced for the same request: the storage can be laid out before the
  permutation is built.
\<close>

theorem permutation_size:
  assumes "Perm_Init E n k p = (p', Inr ())" and "n \<le> 0xFFFFFFFF"
  shows "0 < Perm_GetSize p' \<and> Perm_GetSize p' \<le> n \<and> Perm_GetSizeUsingParams E n k p = Inr (Perm_GetSize p')"
  using assms perm.init_le perm.init_size by (auto simp: perm_supported_def)

theorem permutation_size_witness:
  "\<exists>p'. Perm_Init env0 5000 key0 (FeistelNumPerm FeistelNumPermutation) = (p', Inr ()) \<and>
        0 < Perm_GetSize p' \<and> Perm_GetSize p' \<le> 5000"
proof -
  obtain q where "FeistelNum_Init env0 5000 key0 FeistelNumPermutation = (q, Inr ())"
    using FeistelNum_Init_returns [OF key0_ok, of 5000] by auto
  then have i: "Perm_Init env0 5000 key0 (FeistelNumPerm FeistelNumPermutation) = (FeistelNumPerm q, Inr ())" by simp
  then show ?thesis using permutation_size [OF i] by auto
qed

text \<open>
  C24. The mixed Feistel permutation undoes itself, and it never moves a block to another row: the
  left half of the result is the left half of the index.
\<close>

theorem feistel_mix_involution:
  assumes "FeistelMix_Init E n k p = (p', Inr ())" and "i < p_size p'"
  shows "\<exists>j < p_size p'. FeistelMix_Permute p' i = Inr j \<and> FeistelMix_Permute p' j = Inr i \<and>
           drop_bit (unat (fm_right_bits p')) j = drop_bit (unat (fm_right_bits p')) i"
proof -
  have ok: "fmix_ok p'" using assms(1) by (rule FeistelMix_Init_ok)
  obtain j where "FeistelMix_Permute p' i = Inr j" "j < p_size p'"
    using feistel_mix.permute_total [OF ok assms(2)] by auto
  then show ?thesis
    using FeistelMix_involution_lemma [OF ok assms(2)] FeistelMix_Permute_halves(1) [OF ok assms(2)] by blast
qed

theorem feistel_mix_involution_witness:
  "\<exists>p'. FeistelMix_Init env0 4096 key0 FeistelMixPermutation = (p', Inr ()) \<and>
        (\<exists>j < p_size p'. FeistelMix_Permute p' 0 = Inr j \<and> FeistelMix_Permute p' j = Inr 0)"
proof -
  obtain q where q: "FeistelMix_Init env0 4096 key0 FeistelMixPermutation = (q, Inr ())"
    using FeistelMix_Init_returns [OF key0_ok, of 4096] by auto
  then have "0 < p_size q" by (rule FeistelMix_Init_ok)
  then show ?thesis using feistel_mix_involution [OF q] q by blast
qed

text \<open>
  C27. With a key of 32 bytes, as \<open>Key::FromString\<close> makes them, \<open>Init\<close> of both Feistel permutations
  returns normally for every request from 1024 up to \<open>2 ^ 52\<close> blocks: no hash call fails, no table
  access leaves its bounds.
\<close>

theorem feistel_init_succeeds:
  assumes "Key_FromString g s = Inr k" and "length s < 2 ^ 31" and "1024 \<le> n" and "unat n < 2 ^ 52"
  shows "(\<exists>p'. FeistelMix_Init E n k p = (p', Inr ())) \<and> (\<exists>q'. FeistelNum_Init E n k q = (q', Inr ()))"
proof -
  have k: "key_ok k" using Key_FromString_ok [OF assms(2), of g] assms(1) by auto
  have "unat n < 2 ^ 60" using assms(4) by simp
  then show ?thesis
    using FeistelMix_Init_returns [OF k assms(3)] FeistelNum_Init_returns [OF k assms(3,4)] by blast
qed

theorem feistel_init_succeeds_witness:
  "\<exists>k. Key_FromString (\<lambda>_. 0) ''heslo'' = Inr k \<and>
       (\<exists>p'. FeistelMix_Init env0 1024 k FeistelMixPermutation = (p', Inr ()))"
proof -
  obtain k where k: "Key_FromString (\<lambda>_. 0) ''heslo'' = Inr k" using Key_FromString_ok [of "''heslo''"] by auto
  show ?thesis using feistel_init_succeeds [OF k, of 1024] k by auto
qed

text \<open>
  C28. The search loop of the affine permutation ends in its first pass when the number the prime
  search returns has no common factor with the factor taken from the key, in particular when that
  number is a prime; then it is the size and the factor is invertible modulo it.
\<close>

theorem affine_search_returns:
  assumes "ClosestSmallerPrime rnd n = Some q" and "is_prime (unat q)" and "8 \<le> ks" and "ks mod 16 = 0"
  shows "\<exists>a b. affine_loop rnd ks data n = Some (Inr (q, a, b)) \<and> coprime (unat a) (unat q) \<and> a < q \<and> b < q"
proof -
  let ?h = "unat (ks div 2)"
  let ?a = "affine_key_xor data 0 ?h mod (q div 2) + q div 2"
  let ?b = "affine_key_xor data ?h (unat ks) mod (q div 2) + q div 2"
  have q0: "q \<noteq> 0" using assms(2) by (auto simp: is_prime_def)
  have q2: "2 < unat q" "q \<le> n"
    using ClosestSmallerPrime_spec [of rnd n] assms(1) q0 by (auto simp: word_less_nat_alt)
  note F = affine_params_first [of q n ?a "affine_key_xor data 0 ?h" ?b "affine_key_xor data ?h (unat ks)", OF q2 refl refl]
  have "0 < unat ?a"
  proof (rule ccontr)
    assume "\<not> 0 < unat ?a"
    then have "?a = 0" by (simp add: unat_eq_zero)
    moreover have "Gcd 0 q = Inr q" using q0 by (simp add: Gcd.simps [of 0 q])
    ultimately have g: "Inr q = Inr (word_of_nat (gcd (unat ?a) (unat q)) :: u64)" using F(1) by simp
    have "unat (q div 2) \<le> unat ?a"
    proof -
      have "unat (affine_key_xor data 0 ?h mod (q div 2)) + unat (q div 2) < 18446744073709551616"
      proof -
        have "0 < unat q div 2" using q2(1) by simp
        then have "unat (affine_key_xor data 0 ?h mod (q div 2)) < unat q div 2" by (simp add: unat_mod unat_div)
        then show ?thesis using unat_u64_less [of q] by (simp add: unat_div)
      qed
      then show ?thesis by (simp add: unat_add_no_wrap)
    qed
    then show False using \<open>?a = 0\<close> q2(1) by (simp add: unat_div)
  qed
  moreover have "unat ?a < unat q" using F(2) by (simp add: word_less_nat_alt)
  ultimately have "\<not> unat q dvd unat ?a" by (auto dest: dvd_imp_le)
  then have c: "coprime (unat ?a) (unat q)" using prime_coprime [OF assms(2)] by (metis coprime_commute)
  then have "affine_loop rnd ks data n = Some (Inr (q, ?a, ?b))"
    using affine_loop_step [OF assms(1) q0 assms(3,4) refl refl, of data] by simp
  with c F(2,3) show ?thesis by blast
qed



lemma ClosestSmallerPrime_prime:
  assumes "is_prime (unat q)" "odd (unat q)" "unat q \<le> 2 ^ 63"
  shows "ClosestSmallerPrime rnd q = Some q"
proof -
  obtain k' where mr: "MillerRabin rnd q 0 = Some (True, k')" using MillerRabin_accepts_prime [OF assms(1,3)] by blast
  have "2 \<le> unat q" using assms(1) by (simp add: is_prime_def)
  then have q2: "\<not> q < 2" "q \<noteq> 0" "1 < q" by (auto simp: word_less_nat_alt)
  have "q mod 2 = 1" using assms(2) by (simp add: u64_mod_2_eq)
  moreover have "prime_loop rnd q 0 = Some q" by (subst prime_loop.simps) (simp add: mr)
  ultimately show ?thesis using q2 by (simp add: ClosestSmallerPrime_def)
qed

lemma prime_7: "is_prime 7"
proof -
  have "d = 1 \<or> d = 7" if "d dvd 7" for d :: nat
  proof -
    have "d \<le> 7" using that by (simp add: dvd_imp_le)
    then have "d \<in> {0,1,2,3,4,5,6,7}" by auto
    then show ?thesis using that by auto
  qed
  then show ?thesis by (auto simp: is_prime_def)
qed

theorem affine_search_returns_witness:
  "\<exists>a b. affine_loop (\<lambda>_. 1) 16 (replicate 16 3) 8 = Some (Inr (7, a, b)) \<and> coprime (unat a) 7"
proof -
  have "ClosestSmallerPrime (\<lambda>_. 1) 8 = ClosestSmallerPrime (\<lambda>_. 1) 7" by (simp add: ClosestSmallerPrime_def)
  also have "\<dots> = Some 7" by (rule ClosestSmallerPrime_prime) (simp_all add: prime_7)
  finally show ?thesis
    using affine_search_returns [of "\<lambda>_. 1" 8 7 16 "replicate 16 3"] prime_7 by auto
qed

lemma ClosestSmallerPrime_pseudoprime_9: "ClosestSmallerPrime (\<lambda>_. 0) 9 = Some 9"
proof -
  have m: "Modulo 1 1 9 = Inr 1" using Modulo_correct [of 9 1 1] by simp
  have o: "odd_part 8 = 1" by (simp add: odd_part.simps)
  have r: "mr_round 9 1 0 = Some True"
    by (simp add: mr_round_def m square_loop.simps)
  have rs: "mr_rounds (\<lambda>_. 0) 9 1 n k = Some (True, k + n)" for n k
    by (induction n arbitrary: k) (simp_all add: r)
  then have "MillerRabin (\<lambda>_. 0) 9 0 = Some (True, 26)"
    by (simp add: MillerRabin_def o)
  then show ?thesis by (simp add: ClosestSmallerPrime_def prime_loop.simps)
qed


end
