(* ===== verification/Virtual_Storage.thy ===== *)
theory Virtual_Storage
  imports Permutation_Factory
begin

text \<open>
  \<^verbatim>\<open>src/virtual_storage/virtual_storage.cc\<close>: the byte array the whole storage lives in.  The disk
  layer reads and writes runs of it directly (\<open>Read\<close>, \<open>Write\<close>); the carrier files read and write
  single bytes through the global permutation (\<open>ReadByte\<close>, \<open>WriteByte\<close>).  The last 32 bytes hold
  the checksum.  \<open>data_\<close> is a \<open>unique_ptr\<close>, null until a permutation has been applied.
\<close>

section \<open>Definitions\<close>

definition StorageHashLenght :: u64 where
  "StorageHashLenght = 32"

record vstore =
  vs_permutation :: "permutation option"
  vs_is_set :: bool
  vs_raw_capacity :: u64
  vs_usable_capacity :: u64
  vs_data :: "mbuf option"

definition VS_Init :: "vstore \<Rightarrow> vstore" where
  "VS_Init vs = vs\<lparr>vs_permutation := None\<rparr>"

definition VirtualStorage :: vstore where
  "VirtualStorage = VS_Init \<lparr>vs_permutation = None, vs_is_set = False, vs_raw_capacity = 0,
                             vs_usable_capacity = 0, vs_data = None\<rparr>"

definition VS_UnSetPermutation :: "vstore \<Rightarrow> vstore" where
  "VS_UnSetPermutation vs = VS_Init vs"

definition VS_SetPermutation :: "permutation option \<Rightarrow> vstore \<Rightarrow> vstore res" where
  "VS_SetPermutation permutation vs =
     (if permutation = None then Inl (NullptrArgument ''permutation'')
      else let vs = (if vs_permutation vs \<noteq> None then VS_UnSetPermutation vs else vs)
           in Inr (vs\<lparr>vs_permutation := permutation\<rparr>))"

definition VS_GetNewInstance :: "vstore res" where
  "VS_GetNewInstance = VS_SetPermutation (Some GetDefaultPermutation) VirtualStorage"

definition VS_GetNewInstance_name :: "string \<Rightarrow> vstore res" where
  "VS_GetNewInstance_name permutation =
     bindR (GetPermutation_name permutation) (\<lambda>p. VS_SetPermutation (Some p) VirtualStorage)"

definition VS_GetUsableCapacity :: "vstore \<Rightarrow> u64 res" where
  "VS_GetUsableCapacity vs =
     (if vs_permutation vs = None then Inl (InvalidState getCapacity permutationC notSetted)
      else if \<not> vs_is_set vs then Inl (InvalidState getCapacity permutationC notApplied)
      else Inr (vs_usable_capacity vs))"

definition VS_GetRawCapacity :: "vstore \<Rightarrow> u64 res" where
  "VS_GetRawCapacity vs =
     (if vs_permutation vs = None then Inl (InvalidState getCapacity permutationC notSetted)
      else if \<not> vs_is_set vs then Inl (InvalidState getCapacity permutationC notApplied)
      else Inr (vs_raw_capacity vs))"

text \<open>\<open>Init\<close> of the permutation may have changed the object when the call throws.\<close>

definition VS_ApplyPermutation :: "env \<Rightarrow> u64 \<Rightarrow> key \<Rightarrow> (vstore, unit) meth" where
  "VS_ApplyPermutation E requested_size key vs =
     (case vs_permutation vs of
        None \<Rightarrow> (vs, Inl (InvalidState getCapacity permutationC notSetted))
      | Some p \<Rightarrow>
          (case Perm_Init E requested_size key p of
             (p, Inl e) \<Rightarrow> (vs\<lparr>vs_permutation := Some p\<rparr>, Inl e)
           | (p, Inr u) \<Rightarrow>
               let vs = vs\<lparr>vs_permutation := Some p\<rparr>; raw_capacity = Perm_GetSize p in
               if raw_capacity = 0 then (vs, Inl RangeError)
               else if raw_capacity \<le> StorageHashLenght then (vs, Inl OutOfRange)
               else (vs\<lparr>vs_data := Some (MB_new_sized (e_garbage E) raw_capacity),
                        vs_raw_capacity := raw_capacity,
                        vs_usable_capacity := raw_capacity - StorageHashLenght,
                        vs_is_set := True\<rparr>, Inr ())))"

text \<open>A dereference of \<open>data_\<close>.\<close>

definition vs_buffer :: "vstore \<Rightarrow> mbuf res" where
  "vs_buffer vs = (case vs_data vs of None \<Rightarrow> Inl Undefined | Some b \<Rightarrow> Inr b)"

definition VS_ReadByte :: "vstore \<Rightarrow> u64 \<Rightarrow> u8 res" where
  "VS_ReadByte vs position =
     (if position \<ge> vs_raw_capacity vs then Inl OutOfRange
      else case vs_permutation vs of
          None \<Rightarrow> Inl (InvalidState ioVirtualStorage storage notInitialized)
        | Some p \<Rightarrow> bindR (Perm_Permute p position) (\<lambda>i. bindR (vs_buffer vs) (\<lambda>b. MB_index b i)))"

definition VS_WriteByte :: "vstore \<Rightarrow> u64 \<Rightarrow> u8 \<Rightarrow> vstore res" where
  "VS_WriteByte vs position v =
     (if position \<ge> vs_raw_capacity vs then Inl OutOfRange
      else case vs_permutation vs of
          None \<Rightarrow> Inl (InvalidState ioVirtualStorage storage notInitialized)
        | Some p \<Rightarrow> bindR (Perm_Permute p position) (\<lambda>i. bindR (vs_buffer vs) (\<lambda>b.
                    bindR (MB_set b i v) (\<lambda>b. Inr (vs\<lparr>vs_data := Some b\<rparr>)))))"

text \<open>
  \<open>Read\<close> returns the bytes it copies to the caller's buffer, which has room for them.  The bound
  is checked on the 64-bit sum, as in \<open>Write\<close>.
\<close>

definition VS_Read :: "vstore \<Rightarrow> u64 \<Rightarrow> u64 \<Rightarrow> bytes res" where
  "VS_Read vs offset len =
     (if offset + len > vs_usable_capacity vs then Inl OutOfRange
      else if len = 0 then Inr []
      else bindR (vs_buffer vs) (\<lambda>b.
        case mb_buffer b of
          None \<Rightarrow> Inl (InvalidState ioVirtualStorage storage notInitialized)
        | Some bs \<Rightarrow> if unat offset + unat len \<le> length bs
                     then Inr (take (unat len) (drop (unat offset) bs)) else Inl Undefined))"

definition VS_Write :: "vstore \<Rightarrow> u64 \<Rightarrow> u64 \<Rightarrow> bytes option \<Rightarrow> vstore res" where
  "VS_Write vs offset len buffer =
     (if offset + len > vs_usable_capacity vs then Inl OutOfRange
      else if len = 0 then Inr vs
      else bindR (vs_buffer vs) (\<lambda>b.
        case mb_buffer b of
          None \<Rightarrow> Inl (InvalidState ioVirtualStorage storage notInitialized)
        | Some bs \<Rightarrow> bindR (memcpy (Some bs) (unat offset) buffer (unat len)) (\<lambda>d.
                     Inr (vs\<lparr>vs_data := Some (b\<lparr>mb_buffer := d\<rparr>)\<rparr>))))"

definition VS_RandomizeBuffer :: "(nat \<Rightarrow> u8) \<Rightarrow> vstore \<Rightarrow> vstore res" where
  "VS_RandomizeBuffer gen vs = bindR (vs_buffer vs) (\<lambda>b. bindR (MB_Randomize gen b) (\<lambda>b. Inr (vs\<lparr>vs_data := Some b\<rparr>)))"

definition VS_ClearBuffer :: "vstore \<Rightarrow> vstore res" where
  "VS_ClearBuffer vs = bindR (vs_buffer vs) (\<lambda>b. Inr (vs\<lparr>vs_data := Some (MB_Clear b)\<rparr>))"

definition VS_FillBuffer :: "u8 \<Rightarrow> vstore \<Rightarrow> vstore res" where
  "VS_FillBuffer v vs = bindR (vs_buffer vs) (\<lambda>b. Inr (vs\<lparr>vs_data := Some (MB_Fill v b)\<rparr>))"

definition VS_IsValidChecksum :: "env \<Rightarrow> vstore \<Rightarrow> bool res" where
  "VS_IsValidChecksum E vs =
     bindR (vs_buffer vs) (\<lambda>b.
     if mb_size b = 0 then Inl (EmptyMember ''data'')
     else if vs_usable_capacity vs = 0 then Inl (EmptyMember ''usable_capacity'')
     else bindR (Hash_of_bytes (e_garbage E) (mb_buffer b) (vs_usable_capacity vs)) (\<lambda>checksum.
          bindR (MB_new_data (e_garbage E) (map_option (drop (unat (vs_usable_capacity vs))) (mb_buffer b)) StorageHashLenght)
            (\<lambda>stored_checksum. Inr (MB_eq stored_checksum (Hash_GetState checksum)))))"

definition VS_WriteChecksum :: "env \<Rightarrow> vstore \<Rightarrow> vstore res" where
  "VS_WriteChecksum E vs =
     bindR (vs_buffer vs) (\<lambda>b.
     if mb_size b = 0 \<or> vs_usable_capacity vs = 0
     then Inl (InvalidState ioVirtualStorage storage notInitialized)
     else bindR (Hash_of_bytes (e_garbage E) (mb_buffer b) (vs_usable_capacity vs)) (\<lambda>checksum.
          bindR (MB_Write b (vs_usable_capacity vs) (mb_buffer (Hash_GetState checksum)) (Hash_GetStateSize checksum))
            (\<lambda>b. Inr (vs\<lparr>vs_data := Some b\<rparr>))))"

section \<open>The contract the carriers rely on\<close>

text \<open>
  A store of bytes addressed by position: inside its capacity every byte can be read and written,
  a write changes the byte it names and no other, outside nothing happens but \<open>out_of_range\<close>.
\<close>

locale byte_store =
  fixes ok :: "'s \<Rightarrow> bool"
    and capacity :: "'s \<Rightarrow> nat"
    and get :: "'s \<Rightarrow> u64 \<Rightarrow> u8 res"
    and put :: "'s \<Rightarrow> u64 \<Rightarrow> u8 \<Rightarrow> 's res"
  assumes get_total: "ok s \<Longrightarrow> unat p < capacity s \<Longrightarrow> \<exists>v. get s p = Inr v"
    and put_total: "ok s \<Longrightarrow> unat p < capacity s \<Longrightarrow> \<exists>s'. put s p v = Inr s' \<and> ok s' \<and> capacity s' = capacity s"
    and get_put: "ok s \<Longrightarrow> unat p < capacity s \<Longrightarrow> put s p v = Inr s' \<Longrightarrow> get s' q = (if q = p then Inr v else get s q)"
    and get_range: "ok s \<Longrightarrow> capacity s \<le> unat p \<Longrightarrow> get s p = Inl OutOfRange"
    and put_range: "ok s \<Longrightarrow> capacity s \<le> unat p \<Longrightarrow> put s p v = Inl OutOfRange"
begin

text \<open>The carriers ignore \<open>out_of_range\<close>: a write outside is dropped, a read outside gives 0.\<close>

definition put_caught :: "'s \<Rightarrow> u64 \<Rightarrow> u8 \<Rightarrow> 's res" where
  "put_caught s p v = (case put s p v of Inl OutOfRange \<Rightarrow> Inr s | r \<Rightarrow> r)"

definition get_caught :: "'s \<Rightarrow> u64 \<Rightarrow> u8 res" where
  "get_caught s p = (case get s p of Inl OutOfRange \<Rightarrow> Inr 0 | r \<Rightarrow> r)"

definition byte_at :: "'s \<Rightarrow> u64 \<Rightarrow> u8" where
  "byte_at s p = (case get_caught s p of Inr v \<Rightarrow> v | Inl e \<Rightarrow> 0)"

lemma get_caught_eq: "ok s \<Longrightarrow> get_caught s p = Inr (byte_at s p)"
  using get_total [of s p] get_range [of s p]
  by (cases "unat p < capacity s") (auto simp: get_caught_def byte_at_def not_less)

lemma put_caught_ok:
  assumes "ok s"
  shows "\<exists>s'. put_caught s p v = Inr s' \<and> ok s' \<and> capacity s' = capacity s \<and>
              (\<forall>q. byte_at s' q = (if q = p \<and> unat p < capacity s then v else byte_at s q))"
proof (cases "unat p < capacity s")
  case True
  obtain s' where s': "put s p v = Inr s'" "ok s'" "capacity s' = capacity s" using put_total [OF assms True] by blast
  have "byte_at s' q = (if q = p then v else byte_at s q)" for q
    using get_put [OF assms True s'(1), of q] by (simp add: byte_at_def get_caught_def)
  with s' True show ?thesis by (simp add: put_caught_def)
next
  case False
  then show ?thesis using put_range [of s p v] assms by (simp add: put_caught_def not_less)
qed

text \<open>A run of writes: each position holds the last value written to it.\<close>

lemma put_run:
  assumes "ok s"
  shows "\<exists>s'. foldR (\<lambda>(p, v) s. put_caught s p v) ws s = Inr s' \<and> ok s' \<and> capacity s' = capacity s \<and>
              (\<forall>q. byte_at s' q = (if unat q < capacity s then (case map_of (rev ws) q of Some v \<Rightarrow> v | None \<Rightarrow> byte_at s q) else byte_at s q))"
  using assms
proof (induction ws arbitrary: s)
  case (Cons w ws)
  obtain p v where w: "w = (p, v)" by (cases w)
  obtain s1 where s1: "put_caught s p v = Inr s1" "ok s1" "capacity s1 = capacity s"
      "\<And>q. byte_at s1 q = (if q = p \<and> unat p < capacity s then v else byte_at s q)"
    using put_caught_ok [OF Cons.prems] by blast
  obtain s' where s': "foldR (\<lambda>(p, v) s. put_caught s p v) ws s1 = Inr s'" "ok s'" "capacity s' = capacity s1"
      "\<And>q. byte_at s' q = (if unat q < capacity s1 then (case map_of (rev ws) q of Some v \<Rightarrow> v | None \<Rightarrow> byte_at s1 q) else byte_at s1 q)"
    using Cons.IH [OF s1(2)] by blast
  have "byte_at s' q = (if unat q < capacity s then (case map_of (rev (w # ws)) q of Some v \<Rightarrow> v | None \<Rightarrow> byte_at s q) else byte_at s q)" for q
    using s'(4) [of q] s1(3,4) by (auto simp: w map_add_def split: option.splits)
  with s1 s' show ?case by (simp add: w)
qed simp

end

section \<open>A storage in use\<close>

definition vs_ok :: "vstore \<Rightarrow> bool" where
  "vs_ok vs \<longleftrightarrow>
     (\<exists>p b. vs_permutation vs = Some p \<and> vs_data vs = Some b \<and> perm_ok p \<and> mb_ok b \<and>
        mb_size b = Perm_GetSize p \<and> vs_raw_capacity vs = Perm_GetSize p \<and> 32 < Perm_GetSize p \<and>
        vs_usable_capacity vs = Perm_GetSize p - 32 \<and> vs_is_set vs)"

text \<open>The abstract storage: the bytes of the array, and those the disk layer sees.\<close>

definition vs_bytes :: "vstore \<Rightarrow> bytes" where
  "vs_bytes vs = (case vs_data vs of None \<Rightarrow> [] | Some b \<Rightarrow> mb_bytes b)"

definition vs_abs :: "vstore \<Rightarrow> bytes" where
  "vs_abs vs = take (unat (vs_usable_capacity vs)) (vs_bytes vs)"

lemma vs_okE:
  assumes "vs_ok vs"
  obtains p b where "vs_permutation vs = Some p" "vs_data vs = Some b" "perm_ok p" "mb_ok b"
    "mb_size b = Perm_GetSize p" "vs_raw_capacity vs = Perm_GetSize p" "32 < unat (Perm_GetSize p)"
    "unat (vs_usable_capacity vs) = unat (Perm_GetSize p) - 32" "vs_is_set vs"
    "mb_buffer b = Some (vs_bytes vs)" "length (vs_bytes vs) = unat (vs_raw_capacity vs)"
proof -
  from assms obtain p b where v: "vs_permutation vs = Some p" "vs_data vs = Some b" "perm_ok p" "mb_ok b"
    "mb_size b = Perm_GetSize p" "vs_raw_capacity vs = Perm_GetSize p" "32 < Perm_GetSize p"
    "vs_usable_capacity vs = Perm_GetSize p - 32" "vs_is_set vs"
    by (auto simp: vs_ok_def)
  have "32 < unat (Perm_GetSize p)" using v(7) by (simp add: word_less_nat_alt)
  moreover have "unat (vs_usable_capacity vs) = unat (Perm_GetSize p) - 32"
    using calculation v(8) by (simp add: unat_simps)
  moreover have "mb_size b \<noteq> 0" using v(5,7) by auto
  then have "mb_buffer b = Some (mb_bytes b)" using mb_ok_size_pos [OF v(4)] by simp
  ultimately show ?thesis using that v length_mb_bytes [OF v(4)] by (simp add: vs_bytes_def)
qed

text \<open>Replacing the contents keeps the invariant.\<close>

lemma vs_ok_update:
  assumes "vs_ok vs" "mb_ok b" "mb_size b = vs_raw_capacity vs"
  shows "vs_ok (vs\<lparr>vs_data := Some b\<rparr>)"
  using assms by (auto simp: vs_ok_def)

lemma VS_Apply_ok:
  assumes "VS_ApplyPermutation E n k vs = (vs', Inr ())" "n \<le> 0xFFFFFFFF"
  shows "vs_ok vs' \<and> vs_raw_capacity vs' \<le> n"
proof -
  obtain p where vp: "vs_permutation vs = Some p"
    using assms(1) by (cases "vs_permutation vs") (simp_all add: VS_ApplyPermutation_def)
  obtain p' r where i: "Perm_Init E n k p = (p', r)" by (cases "Perm_Init E n k p")
  have r: "r = Inr ()" using assms(1) vp i by (cases r) (simp_all add: VS_ApplyPermutation_def)
  have n0: "Perm_GetSize p' \<noteq> 0" 
    using assms(1) vp i r by (cases "Perm_GetSize p' = 0") (simp_all add: VS_ApplyPermutation_def StorageHashLenght_def Let_def)
  moreover have "\<not> Perm_GetSize p' \<le> 32"
    using assms(1) vp i r n0 by (cases "Perm_GetSize p' \<le> 32") (simp_all add: VS_ApplyPermutation_def StorageHashLenght_def Let_def)
  ultimately have n0: "Perm_GetSize p' \<noteq> 0" "\<not> Perm_GetSize p' \<le> 32" by blast+
  then have v: "vs' = vs\<lparr>vs_permutation := Some p', vs_data := Some (MB_new_sized (e_garbage E) (Perm_GetSize p')),
          vs_raw_capacity := Perm_GetSize p', vs_usable_capacity := Perm_GetSize p' - 32, vs_is_set := True\<rparr>"
    using assms(1) vp i r by (simp add: VS_ApplyPermutation_def StorageHashLenght_def Let_def)
  have "perm_supported n" using assms(2) by (simp add: perm_supported_def)
  then have "perm_ok p'" "Perm_GetSize p' \<le> n" using perm.init_ok perm.init_le i r by blast+
  with n0 v show ?thesis by (simp add: vs_ok_def not_le)
qed

interpretation vs: byte_store vs_ok "\<lambda>vs. unat (vs_raw_capacity vs)" VS_ReadByte VS_WriteByte
proof (unfold_locales, goal_cases)
  case (1 s p)
  then obtain q b where v: "vs_permutation s = Some q" "vs_data s = Some b" "perm_ok q" "mb_ok b" "mb_size b = Perm_GetSize q"
      "vs_raw_capacity s = Perm_GetSize q" by (elim vs_okE)
  then obtain j where "Perm_Permute q p = Inr j" "j < Perm_GetSize q"
    using perm.permute_total [OF v(3)] 1(2) by (auto simp: word_less_nat_alt)
  with v 1(2) show ?case by (auto simp: VS_ReadByte_def vs_buffer_def MB_index_correct word_less_nat_alt word_le_nat_alt)
next
  case (2 s p x)
  then obtain q b where v: "vs_permutation s = Some q" "vs_data s = Some b" "perm_ok q" "mb_ok b" "mb_size b = Perm_GetSize q"
      "vs_raw_capacity s = Perm_GetSize q" by (elim vs_okE)
  then obtain j where j: "Perm_Permute q p = Inr j" "j < Perm_GetSize q"
    using perm.permute_total [OF v(3)] 2(2) by (auto simp: word_less_nat_alt)
  then obtain b' where b': "MB_set b j x = Inr b'" using v(4,5) by (auto simp: MB_set_correct word_less_nat_alt)
  have "vs_ok (s\<lparr>vs_data := Some b'\<rparr>)" using MB_set_ok [OF v(4) b'] v(5,6) by (intro vs_ok_update [OF 2(1)]) auto
  with v j b' 2(2) show ?case by (auto simp: VS_WriteByte_def vs_buffer_def word_less_nat_alt word_le_nat_alt)
next
  case (3 s p x s' q)
  then obtain f b where v: "vs_permutation s = Some f" "vs_data s = Some b" "perm_ok f" "mb_ok b" "mb_size b = Perm_GetSize f"
      "vs_raw_capacity s = Perm_GetSize f" by (elim vs_okE)
  have p: "p < Perm_GetSize f" using 3(2) v(6) by (simp add: word_less_nat_alt)
  obtain j where j: "Perm_Permute f p = Inr j" "j < Perm_GetSize f" using perm.permute_total [OF v(3) p] by auto
  obtain b' where b': "MB_set b j x = Inr b'" "s' = s\<lparr>vs_data := Some b'\<rparr>"
    using 3(3) v(1,2) j(1) p by (auto simp: VS_WriteByte_def vs_buffer_def res_simps v(6) split: if_splits)
  note s = MB_set_ok [OF v(4) b'(1)]
  show ?case
  proof (cases "q < Perm_GetSize f")
    case True
    then obtain i where i: "Perm_Permute f q = Inr i" "i < Perm_GetSize f" using perm.permute_total [OF v(3)] by blast
    have "i = j \<longleftrightarrow> q = p" using perm.permute_inj [OF v(3) True p] i(1) j(1) by auto
    moreover have "unat i = unat j \<longleftrightarrow> i = j" by (simp add: word_unat_eq_iff)
    moreover have "\<not> Perm_GetSize f \<le> q" "\<not> Perm_GetSize f \<le> p" using True p by auto
    ultimately show ?thesis using i j b'(2) v s
      by (auto simp: VS_ReadByte_def vs_buffer_def MB_index_correct word_less_nat_alt length_mb_bytes nth_list_update)
  next
    case False
    then show ?thesis using b'(2) v(6) p by (auto simp: VS_ReadByte_def not_less)
  qed
next
  case (4 s p)
  then show ?case by (simp add: VS_ReadByte_def word_le_nat_alt)
next
  case (5 s p x)
  then show ?case by (simp add: VS_WriteByte_def word_le_nat_alt)
qed

section \<open>Runs of bytes\<close>

lemma vs_bytes_update:
  assumes "vs_ok vs" "length bs = unat (vs_raw_capacity vs)" "vs_data vs = Some b"
  shows "vs_ok (vs\<lparr>vs_data := Some (b\<lparr>mb_buffer := Some bs\<rparr>)\<rparr>) \<and>
         vs_bytes (vs\<lparr>vs_data := Some (b\<lparr>mb_buffer := Some bs\<rparr>)\<rparr>) = bs"
proof -
  obtain p c where "vs_data vs = Some c" "mb_size c = Perm_GetSize p" "vs_raw_capacity vs = Perm_GetSize p"
    using assms(1) by (elim vs_okE) blast
  then have s: "mb_size b = vs_raw_capacity vs" using assms(3) by simp
  have "vs_ok (vs\<lparr>vs_data := Some (b\<lparr>mb_buffer := Some bs\<rparr>)\<rparr>)"
    by (rule vs_ok_update [OF assms(1)]) (simp_all add: mb_ok_def s assms(2))
  then show ?thesis by (simp add: vs_bytes_def mb_bytes_def)
qed

lemma vs_capacity:
  assumes "vs_ok vs"
  shows "unat (vs_usable_capacity vs) + 32 = unat (vs_raw_capacity vs)" "0 < unat (vs_usable_capacity vs)"
    "length (vs_bytes vs) = unat (vs_raw_capacity vs)" "length (vs_abs vs) = unat (vs_usable_capacity vs)"
  using assms by (elim vs_okE; simp add: vs_abs_def)+

lemma VS_Read_correct:
  assumes "vs_ok vs" "unat off + unat len \<le> unat (vs_usable_capacity vs)"
  shows "VS_Read vs off len = Inr (take (unat len) (drop (unat off) (vs_abs vs)))"
proof -
  obtain b where b: "vs_data vs = Some b" "mb_buffer b = Some (vs_bytes vs)" using assms(1) by (elim vs_okE)
  have c: "unat off + unat len \<le> length (vs_bytes vs)" using assms vs_capacity [OF assms(1)] by simp
  have "\<not> vs_usable_capacity vs < off + len"
    using assms(2) unat_u64_less [of "vs_usable_capacity vs"] by (simp add: word_less_nat_alt unat_simps not_less)
  then show ?thesis using b c assms(2) by (auto simp: VS_Read_def vs_buffer_def vs_abs_def drop_take min_def unat_eq_0)
qed

lemma VS_Write_correct:
  assumes "vs_ok vs" "unat off + unat len \<le> unat (vs_usable_capacity vs)" "length buf = unat len"
  shows "\<exists>vs'. VS_Write vs off len (Some buf) = Inr vs' \<and> vs_ok vs' \<and>
               vs_raw_capacity vs' = vs_raw_capacity vs \<and> vs_usable_capacity vs' = vs_usable_capacity vs \<and>
               vs_permutation vs' = vs_permutation vs \<and> vs_bytes vs' = copy_at (unat off) buf (vs_bytes vs)"
proof -
  obtain b where b: "vs_data vs = Some b" "mb_buffer b = Some (vs_bytes vs)" using assms(1) by (elim vs_okE)
  have c: "unat off + length buf \<le> length (vs_bytes vs)" using assms vs_capacity [OF assms(1)] by simp
  have o: "\<not> vs_usable_capacity vs < off + len"
    using assms(2) unat_u64_less [of "vs_usable_capacity vs"] by (simp add: word_less_nat_alt unat_simps not_less)
  show ?thesis
  proof (cases "len = 0")
    case True
    then show ?thesis using assms o by (simp add: VS_Write_def copy_at_def)
  next
    case False
    have l: "length (copy_at (unat off) buf (vs_bytes vs)) = unat (vs_raw_capacity vs)"
      using c vs_capacity [OF assms(1)] by simp
    have "memcpy (Some (vs_bytes vs)) (unat off) (Some buf) (unat len) = Inr (Some (copy_at (unat off) buf (vs_bytes vs)))"
      using memcpy_ok [of "unat len" "unat off" "vs_bytes vs" "Some buf" buf] c assms(3) by simp
    then show ?thesis using False o b vs_bytes_update [OF assms(1) l b(1)]
      by (simp add: VS_Write_def vs_buffer_def)
  qed
qed

lemma take_copy_at: "off + length src \<le> n \<Longrightarrow> n \<le> length dst \<Longrightarrow> take n (copy_at off src dst) = copy_at off src (take n dst)"
  by (rule nth_equalityI) (auto simp: nth_copy_at)

text \<open>A request beyond the capacity, with a sum that fits in 64 bits, is refused.\<close>

lemma VS_range:
  assumes "unat (vs_usable_capacity vs) < unat off + unat len" "unat off + unat len < 2 ^ 64"
  shows "VS_Read vs off len = Inl OutOfRange" "VS_Write vs off len buf = Inl OutOfRange"
proof -
  have "vs_usable_capacity vs < off + len" using assms by (simp add: word_less_nat_alt unat_simps)
  then show "VS_Read vs off len = Inl OutOfRange" "VS_Write vs off len buf = Inl OutOfRange"
    by (simp_all add: VS_Read_def VS_Write_def)
qed

text \<open>A sum that wraps around to a number above the capacity is still refused.\<close>

lemma unat_sum_wrap: "2 ^ 64 \<le> unat off + unat len \<Longrightarrow> unat (off + len) = unat off + unat len - 2 ^ 64" for off len :: u64
  using unat_u64_less [of off] unat_u64_less [of len] by (simp add: unat_word_ariths mod_if)

lemma VS_wrap_range:
  assumes "2 ^ 64 + unat (vs_usable_capacity vs) < unat off + unat len"
  shows "VS_Read vs off len = Inl OutOfRange" "VS_Write vs off len buf = Inl OutOfRange"
proof -
  have "vs_usable_capacity vs < off + len" using assms unat_sum_wrap [of off len] by (simp add: word_less_nat_alt)
  then show "VS_Read vs off len = Inl OutOfRange" "VS_Write vs off len buf = Inl OutOfRange"
    by (simp_all add: VS_Read_def VS_Write_def)
qed

text \<open>With a sum that wraps around to a small number the check passes.\<close>

lemma VS_wrap:
  assumes "vs_ok vs" "2 ^ 64 \<le> unat off + unat len"
      and "unat off + unat len - 2 ^ 64 \<le> unat (vs_usable_capacity vs)"
  shows "VS_Read vs off len = Inl Undefined" "VS_Write vs off len (Some buf) = Inl Undefined"
proof -
  obtain b where b: "vs_data vs = Some b" "mb_buffer b = Some (vs_bytes vs)" using assms(1) by (elim vs_okE)
  have l: "length (vs_bytes vs) < 2 ^ 64"
    using vs_capacity(3) [OF assms(1)] unat_u64_less [of "vs_raw_capacity vs"] by simp
  have len0: "len \<noteq> 0" using assms(2) unat_u64_less [of off] by auto
  have "unat (off + len) = unat off + unat len - 2 ^ 64" using unat_sum_wrap [OF assms(2)] .
  then have w: "\<not> vs_usable_capacity vs < off + len" using assms(3) by (simp add: word_less_nat_alt)
  show "VS_Read vs off len = Inl Undefined" using b l len0 w assms(2) by (simp add: VS_Read_def vs_buffer_def)
  have "unat len \<noteq> 0" using len0 by (simp add: unat_eq_0)
  then show "VS_Write vs off len (Some buf) = Inl Undefined" using b l len0 w assms(2)
    by (simp add: VS_Write_def vs_buffer_def memcpy_def)
qed

section \<open>The checksum\<close>

definition vs_checksum_ok :: "vstore \<Rightarrow> bool" where
  "vs_checksum_ok vs \<longleftrightarrow> drop (unat (vs_usable_capacity vs)) (vs_bytes vs) = digest (vs_abs vs)"

lemma VS_IsValidChecksum_correct:
  assumes "vs_ok vs" "unat (vs_usable_capacity vs) < 2 ^ 31"
  shows "VS_IsValidChecksum E vs = Inr (vs_checksum_ok vs)"
proof -
  let ?u = "unat (vs_usable_capacity vs)"
  obtain p b where b: "vs_data vs = Some b" "mb_buffer b = Some (vs_bytes vs)" "mb_size b = Perm_GetSize p" "32 < unat (Perm_GetSize p)"
    using assms(1) by (elim vs_okE) blast
  note c = vs_capacity [OF assms(1)]
  obtain h where h: "Hash_of_bytes (e_garbage E) (Some (vs_bytes vs)) (vs_usable_capacity vs) = Inr h"
      "hash_is h (digest (vs_abs vs))"
    using Hash_of_bytes_correct [of "vs_usable_capacity vs" "vs_bytes vs" "e_garbage E"] c assms(2) by (auto simp: vs_abs_def)
  have "unat (32 :: u64) \<le> length (drop ?u (vs_bytes vs))" using c by simp
  then obtain m where m: "MB_new_data (e_garbage E) (Some (drop ?u (vs_bytes vs))) 32 = Inr m" "mb_ok m" "mb_size m = 32"
      "mb_bytes m = drop ?u (vs_bytes vs)"
    using MB_new_data_correct [of 32 "drop ?u (vs_bytes vs)" "e_garbage E"] c by auto
  have mb: "mb_buffer m = Some (drop ?u (vs_bytes vs))" using m mb_ok_size_pos by fastforce
  have "MB_eq m (h_state h) = vs_checksum_ok vs"
    using h(2) m(3) mb c by (simp add: MB_eq_def hash_is_def vs_checksum_ok_def)
  moreover have "mb_size b \<noteq> 0" "vs_usable_capacity vs \<noteq> 0" using b(3,4) c(2) by auto
  ultimately show ?thesis using b(1,2) h(1) m(1)
    by (simp add: VS_IsValidChecksum_def vs_buffer_def StorageHashLenght_def Hash_GetState_def)
qed

lemma VS_WriteChecksum_correct:
  assumes "vs_ok vs" "unat (vs_usable_capacity vs) < 2 ^ 31"
  shows "\<exists>vs'. VS_WriteChecksum E vs = Inr vs' \<and> vs_ok vs' \<and> vs_abs vs' = vs_abs vs \<and> vs_checksum_ok vs' \<and>
               vs_raw_capacity vs' = vs_raw_capacity vs \<and> vs_usable_capacity vs' = vs_usable_capacity vs \<and>
               vs_permutation vs' = vs_permutation vs"
proof -
  let ?u = "unat (vs_usable_capacity vs)"
  obtain p b where b: "vs_data vs = Some b" "mb_buffer b = Some (vs_bytes vs)" "mb_size b = Perm_GetSize p" "32 < unat (Perm_GetSize p)" "mb_ok b" "vs_raw_capacity vs = Perm_GetSize p"
    using assms(1) by (elim vs_okE) blast
  note c = vs_capacity [OF assms(1)]
  obtain h where h: "Hash_of_bytes (e_garbage E) (Some (vs_bytes vs)) (vs_usable_capacity vs) = Inr h"
      "hash_is h (digest (vs_abs vs))"
    using Hash_of_bytes_correct [of "vs_usable_capacity vs" "vs_bytes vs" "e_garbage E"] c assms(2) by (auto simp: vs_abs_def)
  have "mb_bytes b = vs_bytes vs" using b(2) by (simp add: mb_bytes_def)
  then obtain b' where b': "MB_Write b (vs_usable_capacity vs) (Some (digest (vs_abs vs))) 32 = Inr b'" "mb_ok b'"
      "mb_size b' = mb_size b" "mb_bytes b' = copy_at ?u (digest (vs_abs vs)) (vs_bytes vs)"
    using MB_Write_correct [OF b(5), of "vs_usable_capacity vs" 32 "digest (vs_abs vs)"] c b(3,6) by auto
  let ?vs = "vs\<lparr>vs_data := Some b'\<rparr>"
  have "vs_ok ?vs" using b' b(3,6) by (intro vs_ok_update [OF assms(1)]) auto
  moreover have "vs_bytes ?vs = take ?u (vs_bytes vs) @ digest (vs_abs vs)"
    using b'(4) c by (simp add: vs_bytes_def copy_at_def)
  then have "vs_abs ?vs = vs_abs vs" "drop ?u (vs_bytes ?vs) = digest (vs_abs vs)" using c by (simp_all add: vs_abs_def)
  moreover have "VS_WriteChecksum E vs = Inr ?vs"
  proof -
    have "mb_size b \<noteq> 0" "vs_usable_capacity vs \<noteq> 0" using b(3,4) c(2) by auto
    then show ?thesis using b(1,2) h b'(1)
      by (simp add: VS_WriteChecksum_def vs_buffer_def Hash_GetState_def Hash_GetStateSize_def hash_is_def)
  qed
  ultimately show ?thesis by (simp add: vs_checksum_ok_def)
qed

section \<open>What the virtual storage promises\<close>

text \<open>A storage of 100 bytes, as the identity permutation sets it up.\<close>

definition vs0 :: vstore where
  "vs0 = \<lparr>vs_permutation = Some (IdentityPerm \<lparr>p_size = 100, p_initialized = True\<rparr>), vs_is_set = True,
          vs_raw_capacity = 100, vs_usable_capacity = 68,
          vs_data = Some \<lparr>mb_buffer = Some (replicate 100 0), mb_size = 100\<rparr>\<rparr>"

lemma vs0_ok: "vs_ok vs0" and vs0_simps: "vs_usable_capacity vs0 = 68" "vs_raw_capacity vs0 = 100" "vs_abs vs0 = replicate 68 0"
  by (simp_all add: vs0_def vs_ok_def mb_ok_def Permutation_GetSize_def vs_abs_def vs_bytes_def mb_bytes_def)

text \<open>
  C8. Seen from the disk layer the storage is a plain array of bytes: \<open>Write\<close> inside the capacity
  replaces exactly the addressed run of the abstract array, \<open>Read\<close> returns the addressed run of it,
  so a read after a write gives back what was written; capacity and invariant stay.
\<close>

theorem storage_refines_byte_array:
  assumes "vs_ok vs" and "unat off + unat len \<le> unat (vs_usable_capacity vs)" and "length buf = unat len"
  shows "\<exists>vs'. VS_Write vs off len (Some buf) = Inr vs' \<and> vs_ok vs' \<and>
               vs_usable_capacity vs' = vs_usable_capacity vs \<and>
               vs_abs vs' = copy_at (unat off) buf (vs_abs vs) \<and>
               VS_Read vs' off len = Inr buf \<and>
               (\<forall>o2 n. unat o2 + unat n \<le> unat (vs_usable_capacity vs) \<longrightarrow>
                  VS_Read vs' o2 n = Inr (take (unat n) (drop (unat o2) (copy_at (unat off) buf (vs_abs vs)))))"
proof -
  obtain vs' where v: "VS_Write vs off len (Some buf) = Inr vs'" "vs_ok vs'"
      "vs_usable_capacity vs' = vs_usable_capacity vs" "vs_bytes vs' = copy_at (unat off) buf (vs_bytes vs)"
    using VS_Write_correct [OF assms] by blast
  have a: "vs_abs vs' = copy_at (unat off) buf (vs_abs vs)"
    unfolding vs_abs_def v(3,4) using assms(2,3) vs_capacity [OF assms(1)] by (intro take_copy_at) simp_all
  have "take (unat len) (drop (unat off) (copy_at (unat off) buf (vs_abs vs))) = buf"
    using take_drop_copy_at [of "unat off" buf "vs_abs vs"] assms(2,3) vs_capacity(4) [OF assms(1)] by simp
  with v a VS_Read_correct [OF v(2)] assms(2) show ?thesis by simp
qed

theorem storage_refines_byte_array_witness:
  "\<exists>vs'. VS_Write vs0 3 2 (Some [7, 8]) = Inr vs' \<and> VS_Read vs' 3 2 = Inr [7, 8]"
  using storage_refines_byte_array [OF vs0_ok, of 3 2 "[7, 8]"] by (auto simp: vs0_simps)

text \<open>
  C21. The bounds check of \<open>Read\<close> and \<open>Write\<close> is as good as its 64-bit sum.  A request beyond the capacity whose
  end fits in 64 bits is refused with \<open>out_of_range\<close>, and so is one whose end wraps around to a number above the
  capacity; one whose end wraps around to a number within the capacity passes the check, and the copy leaves the array.
\<close>

theorem storage_bounds_check:
  assumes "vs_ok vs" and "unat (vs_usable_capacity vs) < unat off + unat len"
  shows "VS_Read vs off len =
           Inl (if unat off + unat len < 2 ^ 64 \<or> 2 ^ 64 + unat (vs_usable_capacity vs) < unat off + unat len
                then OutOfRange else Undefined) \<and>
         VS_Write vs off len (Some buf) =
           Inl (if unat off + unat len < 2 ^ 64 \<or> 2 ^ 64 + unat (vs_usable_capacity vs) < unat off + unat len
                then OutOfRange else Undefined)"
  using VS_range [OF assms(2)] VS_wrap_range [of vs off len] VS_wrap [OF assms(1), of off len] by auto

theorem storage_bounds_check_witness:
  "VS_Read vs0 60 10 = Inl OutOfRange \<and> VS_Write vs0 0xFFFFFFFFFFFFFFFF 2 (Some [1, 2]) = Inl Undefined \<and>
   VS_Read vs0 0xFFFFFFFFFFFFFFFF 100 = Inl OutOfRange"
  using storage_bounds_check [OF vs0_ok, of 60 10 "[]"] storage_bounds_check [OF vs0_ok, of "0xFFFFFFFFFFFFFFFF" 2 "[1, 2]"]
    storage_bounds_check [OF vs0_ok, of "0xFFFFFFFFFFFFFFFF" 100 "[]"]
  by (simp add: vs0_simps)

text \<open>
  C37. The checksum does its work, for a usable capacity below \<open>2 ^ 31\<close> (the digest takes its length as an \<open>int\<close>):
  \<open>WriteChecksum\<close> changes nothing the disk layer sees and makes
  \<open>IsValidChecksum\<close> true, and after that a \<open>Write\<close> leaves the checksum valid only when the digest
  of the new contents is the digest of the old ones.
\<close>

theorem checksum_correct:
  assumes "vs_ok vs" and "unat (vs_usable_capacity vs) < 2 ^ 31"
  shows "\<exists>vs'. VS_WriteChecksum E vs = Inr vs' \<and> vs_ok vs' \<and> vs_abs vs' = vs_abs vs \<and>
               VS_IsValidChecksum E vs' = Inr True \<and>
               (\<forall>off len buf vs2. unat off + unat len \<le> unat (vs_usable_capacity vs) \<and> length buf = unat len \<and>
                  VS_Write vs' off len (Some buf) = Inr vs2 \<longrightarrow>
                  VS_IsValidChecksum E vs2 = Inr (digest (vs_abs vs2) = digest (vs_abs vs)))"
proof -
  obtain vs' where v: "VS_WriteChecksum E vs = Inr vs'" "vs_ok vs'" "vs_abs vs' = vs_abs vs" "vs_checksum_ok vs'"
      "vs_usable_capacity vs' = vs_usable_capacity vs"
    using VS_WriteChecksum_correct [OF assms] by blast
  have s: "unat (vs_usable_capacity vs') < 2 ^ 31" using v(5) assms(2) by simp
  have "VS_IsValidChecksum E vs2 = Inr (digest (vs_abs vs2) = digest (vs_abs vs))"
    if w: "unat off + unat len \<le> unat (vs_usable_capacity vs)" "length buf = unat len" "VS_Write vs' off len (Some buf) = Inr vs2" for off len buf vs2
  proof -
    have w2: "vs_ok vs2" "vs_usable_capacity vs2 = vs_usable_capacity vs'" "vs_bytes vs2 = copy_at (unat off) buf (vs_bytes vs')"
      using VS_Write_correct [OF v(2), of off len buf] w v(5) by auto
    have "drop (unat (vs_usable_capacity vs')) (vs_bytes vs2) = drop (unat (vs_usable_capacity vs')) (vs_bytes vs')"
      using w(1,2) v(5) vs_capacity(1,3) [OF v(2)] unfolding w2(3)
      by (intro nth_equalityI) (auto simp: nth_copy_at)
    then have "vs_checksum_ok vs2 \<longleftrightarrow> digest (vs_abs vs2) = digest (vs_abs vs)"
      using v(3,4) w2(2) unfolding vs_checksum_ok_def by auto
    then show ?thesis using VS_IsValidChecksum_correct [OF w2(1)] w2(2) s by simp
  qed
  moreover have "VS_IsValidChecksum E vs' = Inr True" using VS_IsValidChecksum_correct [OF v(2) s] v(4) by simp
  ultimately show ?thesis using v by (intro exI [of _ vs']) blast
qed

theorem checksum_correct_witness:
  "\<exists>vs'. VS_WriteChecksum env0 vs0 = Inr vs' \<and> VS_IsValidChecksum env0 vs' = Inr True"
  using checksum_correct [OF vs0_ok, of env0] by (auto simp: vs0_simps)

text \<open>
  C38. Through \<open>ReadByte\<close> and \<open>WriteByte\<close> the carriers reach every byte of the array, the checksum
  included, at exactly one position: reading position \<open>p\<close> gives the byte at \<open>f p\<close> for a bijection
  \<open>f\<close> that no write changes, and \<open>WriteByte\<close> at \<open>p\<close> updates that byte and no other.
\<close>

theorem permuted_bytes_bijective:
  assumes "vs_ok vs"
  shows "\<exists>f. bij_betw f {..<unat (vs_raw_capacity vs)} {..<unat (vs_raw_capacity vs)} \<and>
           (\<forall>p v. unat p < unat (vs_raw_capacity vs) \<longrightarrow>
              VS_ReadByte vs p = Inr (vs_bytes vs ! f (unat p)) \<and>
              (\<exists>vs'. VS_WriteByte vs p v = Inr vs' \<and> vs_ok vs' \<and> vs_bytes vs' = (vs_bytes vs)[f (unat p) := v] \<and>
                     vs_permutation vs' = vs_permutation vs))"
proof -
  obtain q b where v: "vs_permutation vs = Some q" "vs_data vs = Some b" "perm_ok q" "mb_ok b" "mb_size b = Perm_GetSize q"
      "vs_raw_capacity vs = Perm_GetSize q" using assms by (elim vs_okE)
  have vb: "vs_bytes vs = mb_bytes b" using v(2) by (simp add: vs_bytes_def)
  define f where "f = perm.pos q"
  have "VS_ReadByte vs p = Inr (vs_bytes vs ! f (unat p)) \<and>
        (\<exists>vs'. VS_WriteByte vs p x = Inr vs' \<and> vs_ok vs' \<and> vs_bytes vs' = (vs_bytes vs)[f (unat p) := x] \<and>
               vs_permutation vs' = vs_permutation vs)"
    if p: "unat p < unat (vs_raw_capacity vs)" for p x
  proof -
    have pp: "Perm_Permute q p = Inr (word_of_nat (f (unat p)))" "f (unat p) < unat (Perm_GetSize q)"
      using perm.permute_pos [OF v(3), of "unat p"] perm.pos_less [OF v(3), of "unat p"] p v(6) by (simp_all add: f_def)
    have u: "unat (word_of_nat (f (unat p)) :: u64) = f (unat p)" using pp(2) by (simp add: unat_simps)
    obtain b' where b': "MB_set b (word_of_nat (f (unat p))) x = Inr b'" using v(4,5) u pp(2) by (simp add: MB_set_correct)
    note s = MB_set_ok [OF v(4) b']
    have "vs_ok (vs\<lparr>vs_data := Some b'\<rparr>)" using s v(5,6) by (intro vs_ok_update [OF assms]) auto
    then show ?thesis using v pp u p b' s
      by (auto simp: VS_ReadByte_def VS_WriteByte_def vs_buffer_def MB_index_correct word_le_nat_alt vb vs_bytes_def)
  qed
  then show ?thesis using perm.bij_pos [OF v(3)] v(6) f_def by auto
qed

theorem permuted_bytes_bijective_witness:
  "\<exists>v vs'. VS_ReadByte vs0 99 = Inr v \<and> VS_WriteByte vs0 99 5 = Inr vs'"
  using permuted_bytes_bijective [OF vs0_ok] by (force simp: vs0_simps)

end
