(* ===== verification/Stego_State.thy ===== *)
theory Stego_State
  imports Stego_Exceptions
begin

text \<open>
  Methods that change a state and may throw, put together.  A method keeps the changes it made
  before it throws, as an object does; the combinators are the sequence, the throw, the loop over
  a list and the \<open>catch (std::out_of_range&)\<close> the carriers use.
\<close>

definition returnM :: "'a \<Rightarrow> ('s, 'a) meth" where
  "returnM x s = (s, Inr x)"

definition throwM :: "exn \<Rightarrow> ('s, 'a) meth" where
  "throwM e s = (s, Inl e)"

definition bindM :: "('s, 'a) meth \<Rightarrow> ('a \<Rightarrow> ('s, 'b) meth) \<Rightarrow> ('s, 'b) meth" where
  "bindM m f s = (case m s of (s', r) \<Rightarrow> (case r of Inl e \<Rightarrow> (s', Inl e) | Inr x \<Rightarrow> f x s'))"

definition seqM :: "('s, 'a) meth \<Rightarrow> ('s, 'b) meth \<Rightarrow> ('s, 'b) meth" where
  "seqM m n = bindM m (\<lambda>_. n)"

definition getM :: "('s \<Rightarrow> 'a) \<Rightarrow> ('s, 'a) meth" where
  "getM f s = (s, Inr (f s))"

definition modifyM :: "('s \<Rightarrow> 's) \<Rightarrow> ('s, unit) meth" where
  "modifyM f s = (f s, Inr ())"

text \<open>A computation on the state that may throw and changes nothing, and one that replaces it.\<close>

definition askM :: "('s \<Rightarrow> 'a res) \<Rightarrow> ('s, 'a) meth" where
  "askM f s = (s, f s)"

definition updateM :: "('s \<Rightarrow> 's res) \<Rightarrow> ('s, unit) meth" where
  "updateM f s = (case f s of Inl e \<Rightarrow> (s, Inl e) | Inr s' \<Rightarrow> (s', Inr ()))"

definition whenM :: "bool \<Rightarrow> ('s, unit) meth \<Rightarrow> ('s, unit) meth" where
  "whenM c m = (if c then m else returnM ())"

fun forM :: "('i \<Rightarrow> ('s, unit) meth) \<Rightarrow> 'i list \<Rightarrow> ('s, unit) meth" where
  "forM f [] = returnM ()"
| "forM f (i # is) = seqM (f i) (forM f is)"

text \<open>\<open>try { ... } catch (std::out_of_range&) { handler }\<close>\<close>

definition catch_range :: "('s, 'a) meth \<Rightarrow> ('s, 'a) meth \<Rightarrow> ('s, 'a) meth" where
  "catch_range m h s = (case m s of (s', Inl OutOfRange) \<Rightarrow> h s' | (s', r) \<Rightarrow> (s', r))"

named_theorems run_simps "rules that run a method"

lemma run_simps_basic [run_simps]:
  "returnM x s = (s, Inr x)" "throwM e s = (s, Inl e)" "getM f s = (s, Inr (f s))" "modifyM f s' = (f s', Inr ())"
  "askM g s = (s, g s)"
  by (simp_all add: returnM_def throwM_def getM_def modifyM_def askM_def)

lemma bindM_run [run_simps]:
  "m s = (s', Inr x) \<Longrightarrow> bindM m f s = f x s'"
  "m s = (s', Inl e) \<Longrightarrow> bindM m f s = (s', Inl e)"
  by (simp_all add: bindM_def)

lemma seqM_run [run_simps]:
  "m s = (s', Inr x) \<Longrightarrow> seqM m n s = n s'"
  "m s = (s', Inl e) \<Longrightarrow> seqM m n s = (s', Inl e)"
  by (simp_all add: seqM_def bindM_def)

lemma updateM_run [run_simps]:
  "f s = Inr s' \<Longrightarrow> updateM f s = (s', Inr ())"
  "f s = Inl e \<Longrightarrow> updateM f s = (s, Inl e)"
  by (simp_all add: updateM_def)

lemma whenM_run [run_simps]:
  "whenM True m = m" "whenM False m s = (s, Inr ())"
  by (simp_all add: whenM_def returnM_def)

lemma catch_range_run [run_simps]:
  "m s = (s', Inr x) \<Longrightarrow> catch_range m h s = (s', Inr x)"
  "m s = (s', Inl OutOfRange) \<Longrightarrow> catch_range m h s = h s'"
  by (simp_all add: catch_range_def)

lemma bindM_direct [run_simps]:
  "bindM (getM g) f s = f (g s) s"
  "bindM (returnM x) f s = f x s"
  "bindM (askM a) f s = (case a s of Inl e \<Rightarrow> (s, Inl e) | Inr y \<Rightarrow> f y s)"
  "seqM (modifyM u) n s = n (u s)"
  "seqM (returnM x) n s = n s"
  by (simp_all add: bindM_def seqM_def getM_def returnM_def askM_def modifyM_def split: sum.splits)

lemma bindM_eq:
  "bindM m f s = (s', Inr y) \<longleftrightarrow> (\<exists>s1 x. m s = (s1, Inr x) \<and> f x s1 = (s', Inr y))"
  by (auto simp: bindM_def split: prod.splits sum.splits)

lemma seqM_eq:
  "seqM m n s = (s', Inr y) \<longleftrightarrow> (\<exists>s1 x. m s = (s1, Inr x) \<and> n s1 = (s', Inr y))"
  by (simp add: seqM_def bindM_eq)

lemma forM_cong: "(\<And>i. i \<in> set is \<Longrightarrow> f i = g i) \<Longrightarrow> forM f is = forM g is"
  by (induction "is") simp_all

text \<open>A loop whose body always succeeds from a state of the invariant.\<close>

lemma forM_invariant:
  assumes "I 0 s" "k = length is"
      and "\<And>j t. j < length is \<Longrightarrow> I j t \<Longrightarrow> \<exists>u. f (is ! j) t = (u, Inr ()) \<and> I (Suc j) u"
  shows "\<exists>t. forM f is s = (t, Inr ()) \<and> I k t"
proof -
  have "\<exists>t. forM f (drop j is) u = (t, Inr ()) \<and> I (length is) t" if "j \<le> length is" "I j u" for j u
    using that
  proof (induction "length is - j" arbitrary: j u)
    case 0
    then show ?case by (auto simp: run_simps)
  next
    case (Suc n)
    then have j: "j < length is" by simp
    obtain v where v: "f (is ! j) u = (v, Inr ())" "I (Suc j) v" using assms(3) [OF j Suc.prems(2)] by blast
    obtain t where "forM f (drop (Suc j) is) v = (t, Inr ())" "I (length is) t"
      using Suc.hyps(1) [of "Suc j" v] Suc.hyps(2) j v(2) by force
    with v(1) j show ?case by (auto simp: Cons_nth_drop_Suc [symmetric] run_simps)
  qed
  from this [of 0 s] show ?thesis using assms(1,2) by simp
qed

end
