(* ===== verification/File_System.thy ===== *)
theory File_System
  imports Virtual_Storage Stego_State
begin

text \<open>
  \<^verbatim>\<open>src/utils/file.cc\<close> and \<^verbatim>\<open>src/utils/file_impl.cc\<close> in the build with the C++17 filesystem
  library on a POSIX system, and the part of the world the carriers change: the contents of files
  and the virtual storages on the heap, to which the manager, the carriers and the storage object
  hold pointers.  Opening a path without a file fails; an open file is read and written whole.
\<close>

section \<open>Paths\<close>

text \<open>\<open>fs::path\<close>: \<open>filename()\<close> is what follows the last separator.\<close>

definition path_filename :: "string \<Rightarrow> string" where
  "path_filename p = rev (takeWhile (\<lambda>c. c \<noteq> CHR ''/'') (rev p))"

text \<open>\<open>parent_path()\<close>: what precedes it, without trailing separators unless that is the root.\<close>

definition path_parent :: "string \<Rightarrow> string" where
  "path_parent p =
     (let d = rev (dropWhile (\<lambda>c. c \<noteq> CHR ''/'') (rev p));
          s = rev (dropWhile (\<lambda>c. c = CHR ''/'') (rev d))
      in if s = [] then d else s)"

text \<open>\<open>extension()\<close> of a file name: from the last dot on, unless that is the first character.\<close>

definition path_extension :: "string \<Rightarrow> string" where
  "path_extension p =
     (let f = path_filename p; e = takeWhile (\<lambda>c. c \<noteq> CHR ''.'') (rev f)
      in if f = ''.'' \<or> f = ''..'' \<or> length f \<le> length e + 1 then []
         else CHR ''.'' # rev e)"

section \<open>The class File\<close>

record file_obj =
  f_path :: string

definition File :: "string \<Rightarrow> file_obj" where
  "File path = \<lparr>f_path = path\<rparr>"

definition GetAbsolutePath :: "file_obj \<Rightarrow> string" where
  "GetAbsolutePath f = f_path f"

definition GetRelativePath :: "file_obj \<Rightarrow> string" where
  "GetRelativePath f = path_filename (f_path f)"

definition GetBasePath :: "file_obj \<Rightarrow> string" where
  "GetBasePath f = path_parent (f_path f)"

text \<open>On POSIX the separator that is replaced is already \<open>/\<close>.\<close>

definition NormalizePath :: "string \<Rightarrow> string" where
  "NormalizePath platform_specific_path =
     map (\<lambda>c. if c = CHR ''/'' then CHR ''/'' else c) (lower platform_specific_path)"

definition GetNormalizedPath :: "file_obj \<Rightarrow> string" where
  "GetNormalizedPath f = NormalizePath (GetRelativePath f)"

definition GetExtension :: "file_obj \<Rightarrow> bool \<Rightarrow> string" where
  "GetExtension f convert_to_lowercase =
     (if path_extension (f_path f) = [] then []
      else let ext = filter (\<lambda>c. c \<noteq> CHR ''.'') (path_extension (f_path f))
           in if convert_to_lowercase then lower ext else ext)"

definition GetFileName :: "file_obj \<Rightarrow> string" where
  "GetFileName f = path_filename (f_path f)"

section \<open>The world\<close>

type_synonym files = "string \<Rightarrow> bytes option"

record world =
  w_files :: files
  w_storages :: "vstore list"

text \<open>\<open>File::Open\<close> with mode \<open>"r+b"\<close>; the contents the handle gives access to.\<close>

definition Open :: "files \<Rightarrow> file_obj \<Rightarrow> bytes res" where
  "Open fs f = (case fs (GetAbsolutePath f) of
                  None \<Rightarrow> Inl (ErrorOpenFile (GetAbsolutePath f)) | Some c \<Rightarrow> Inr c)"

text \<open>\<open>fs::file_size\<close> throws a \<open>filesystem_error\<close> (a \<open>runtime_error\<close>) for a missing file.\<close>

definition GetSize :: "files \<Rightarrow> file_obj \<Rightarrow> u64 res" where
  "GetSize fs f = (case fs (f_path f) of
                     None \<Rightarrow> Inl RuntimeError | Some c \<Rightarrow> Inr (word_of_nat (length c)))"

text \<open>\<open>fseek(file, offset, SEEK_SET); fread(\<dots>, 1, n, file)\<close>: the bytes that are there.\<close>

definition fread :: "bytes \<Rightarrow> nat \<Rightarrow> nat \<Rightarrow> bytes" where
  "fread content offset n = take n (drop offset content)"

text \<open>\<open>fseek(file, offset, SEEK_SET); fwrite(data, 1, n, file)\<close>: the file grows where needed.\<close>

definition fwrite :: "bytes \<Rightarrow> nat \<Rightarrow> bytes \<Rightarrow> bytes" where
  "fwrite content offset data =
     (if data = [] then content
      else copy_at offset data (content @ replicate (offset + length data - length content) 0))"

definition set_content :: "file_obj \<Rightarrow> bytes \<Rightarrow> files \<Rightarrow> files" where
  "set_content f c fs = fs(GetAbsolutePath f \<mapsto> c)"

section \<open>Listing a directory\<close>

text \<open>
  What the program takes from outside when it handles files: the entries of a directory tree in
  the order \<open>recursive_directory_iterator\<close> gives them, with whether each is a regular file;
  the test \<open>std::regex_match\<close> makes with an expression, where that is a valid one; and the image libraries
  \<^verbatim>\<open>lodepng\<close> and \<^verbatim>\<open>libjpeg\<close>: the size and the RGB pixels of a PNG file, a PNG file with the settings
  of another and given pixels, the blocks of 64 coefficients of the first component of a JPEG file and the JPEG file
  with those coefficients replaced.
\<close>

type_synonym coefs = "16 word list"

record cenv = env +
  c_entries :: "string \<Rightarrow> (string \<times> bool) list option"
  c_regex :: "string \<Rightarrow> (string \<Rightarrow> bool) option"
  c_png_inspect :: "bytes \<Rightarrow> (u32 \<times> u32) option"
  c_png_raw_size :: "u32 \<Rightarrow> u32 \<Rightarrow> u64"
  c_png_decode :: "bytes \<Rightarrow> bytes option"
  c_png_encode :: "bytes \<Rightarrow> bytes \<Rightarrow> u32 \<Rightarrow> u32 \<Rightarrow> bytes option"
  c_jpeg_read :: "bytes \<Rightarrow> coefs list option"
  c_jpeg_write :: "bytes \<Rightarrow> coefs list \<Rightarrow> bytes"

abbreviation env_of :: "'a cenv_scheme \<Rightarrow> env" where
  "env_of C \<equiv> \<lparr>e_garbage = e_garbage C, e_rnd = e_rnd C\<rparr>"

text \<open>
  A directory that cannot be opened is a \<open>filesystem_error\<close>, an expression that is not valid a
  \<open>regex_error\<close>; the expression is built anew for every regular file.
\<close>

definition filter_regex :: "string \<Rightarrow> string" where
  "filter_regex filter_text = ''.*'' @ [CHR 0x5C] @ ''.('' @ filter_text @ '')$''"

definition GetFilesInDir :: "'a cenv_scheme \<Rightarrow> string \<Rightarrow> string \<Rightarrow> file_obj list res" where
  "GetFilesInDir C directory filter_text =
     (case c_entries C directory of
        None \<Rightarrow> Inl RuntimeError
      | Some es \<Rightarrow>
          foldR (\<lambda>(path, regular) ret.
            if \<not> regular then Inr ret
            else case c_regex C (filter_regex filter_text) of
                None \<Rightarrow> Inl RuntimeError
              | Some matches \<Rightarrow>
                  if filter_text = [] \<or> matches (path_filename path) then Inr (ret @ [File path]) else Inr ret) es [])"

end
