(* ===== verification/Encoder_Base.thy ===== *)
theory Encoder_Base
  imports Stego_Math
begin

text \<open>
  \<^verbatim>\<open>src/encoders/encoder.h\<close>: the base class of the encoders, the contract the carrier files rely on
  (the locale \<open>encoder_class\<close>), and the encoder that copies its data, \<^verbatim>\<open>lsb_encoder.cc\<close>.  A
  pointer argument is the run of bytes it points to, \<open>None\<close> when it is null.
\<close>

section \<open>The base class\<close>

record enc_base =
  codeword_block_size :: u32
  data_block_size :: u32

definition Encoder_GetCodewordBlockSize :: "'a enc_base_scheme \<Rightarrow> u32" where
  "Encoder_GetCodewordBlockSize e = codeword_block_size e"

definition Encoder_GetDataBlockSize :: "'a enc_base_scheme \<Rightarrow> u32" where
  "Encoder_GetDataBlockSize e = data_block_size e"

text \<open>\<open>atoi\<close>: blanks, a sign, digits; a number that does not fit an \<open>int\<close> is undefined.\<close>

definition is_digit :: "char \<Rightarrow> bool" where
  "is_digit c \<longleftrightarrow> 48 \<le> (of_char c :: nat) \<and> (of_char c :: nat) \<le> 57"

definition is_blank :: "char \<Rightarrow> bool" where
  "is_blank c \<longleftrightarrow> (of_char c :: nat) = 32 \<or> 9 \<le> (of_char c :: nat) \<and> (of_char c :: nat) \<le> 13"

definition digits_value :: "string \<Rightarrow> int" where
  "digits_value s = fold (\<lambda>c n. 10 * n + (of_char c - 48)) (takeWhile is_digit s) 0"

definition atoi :: "string \<Rightarrow> int res" where
  "atoi s =
     (let s = dropWhile is_blank s;
          n = (case s of
                 [] \<Rightarrow> 0
               | c # cs \<Rightarrow> if c = CHR ''-'' then - digits_value cs
                           else if c = CHR ''+'' then digits_value cs else digits_value s)
      in if n < - (2 ^ 31) \<or> 2 ^ 31 \<le> n then Inl Undefined else Inr n)"

section \<open>The contract of an encoder\<close>

text \<open>
  \<open>embed\<close> turns a codeword block into one of the same length from which \<open>retrieve\<close> reads the data
  block; \<open>retrieve\<close> reads a data block from every codeword block.
\<close>

locale encoder_class =
  fixes ok :: "'e \<Rightarrow> bool"
    and data_size :: "'e \<Rightarrow> nat"
    and code_size :: "'e \<Rightarrow> nat"
    and embed :: "'e \<Rightarrow> bytes option \<Rightarrow> bytes option \<Rightarrow> bytes res"
    and retrieve :: "'e \<Rightarrow> bytes option \<Rightarrow> bytes option \<Rightarrow> bytes res"
  assumes sizes_pos: "ok e \<Longrightarrow> 0 < data_size e \<and> 0 < code_size e"
    and embed_total: "ok e \<Longrightarrow> length cw = code_size e \<Longrightarrow> length d = data_size e \<Longrightarrow>
          \<exists>cw'. embed e (Some cw) (Some d) = Inr cw' \<and> length cw' = code_size e"
    and retrieve_total: "ok e \<Longrightarrow> length cw = code_size e \<Longrightarrow> length d = data_size e \<Longrightarrow>
          \<exists>d'. retrieve e (Some cw) (Some d) = Inr d' \<and> length d' = data_size e"
    and retrieve_embed: "ok e \<Longrightarrow> length cw = code_size e \<Longrightarrow> length d = data_size e \<Longrightarrow>
          length d0 = data_size e \<Longrightarrow> embed e (Some cw) (Some d) = Inr cw' \<Longrightarrow>
          retrieve e (Some cw') (Some d0) = Inr d"
begin

text \<open>A run of blocks, embedded one after the other and extracted one after the other.\<close>

definition embed_blocks :: "'e \<Rightarrow> (bytes \<times> bytes) list \<Rightarrow> bytes list" where
  "embed_blocks e = map (\<lambda>(cw, d). projr (embed e (Some cw) (Some d)))"

lemma embed_blocks_roundtrip:
  assumes "ok e" "\<forall>(cw, d) \<in> set bs. length cw = code_size e \<and> length d = data_size e"
      and "length d0 = data_size e"
  shows "map (\<lambda>cw. projr (retrieve e (Some cw) (Some d0))) (embed_blocks e bs) = map snd bs"
  using assms(2)
proof (induction bs)
  case (Cons b bs)
  obtain cw d where b: "b = (cw, d)" by (cases b)
  with Cons.prems have l: "length cw = code_size e" "length d = data_size e" by auto
  obtain cw' where "embed e (Some cw) (Some d) = Inr cw'" using embed_total [OF assms(1) l] by blast
  then show ?case using Cons retrieve_embed [OF assms(1) l assms(3)] by (simp add: embed_blocks_def b)
qed (simp add: embed_blocks_def)

text \<open>Two data blocks never share a stego block.\<close>

lemma embed_inj:
  assumes "ok e" "length cw = code_size e" "length d = data_size e"
      and "length cw2 = code_size e" "length d2 = data_size e"
      and "embed e (Some cw) (Some d) = embed e (Some cw2) (Some d2)"
  shows "d = d2"
proof -
  obtain cw' where "embed e (Some cw) (Some d) = Inr cw'" using embed_total assms by blast
  then show ?thesis using retrieve_embed [OF assms(1-3)] retrieve_embed [OF assms(1,4,5)] assms(3,6) by (metis Inr_inject)
qed

end

section \<open>The LSB encoder\<close>

definition kEncoderLsbBlockSizeMin :: u32 where "kEncoderLsbBlockSizeMin = 1"
definition kEncoderLsbBlockSizeMax :: u32 where "kEncoderLsbBlockSizeMax = 1024"
definition kEncoderLsbDefaultBlockSize :: u32 where "kEncoderLsbDefaultBlockSize = 1"

definition Lsb_Init :: "u32 \<Rightarrow> (enc_base, unit) meth" where
  "Lsb_Init block_size e =
     (if Popcount (ucast block_size) \<noteq> 1 then (e, Inl InvalidArgument)
      else if block_size < kEncoderLsbBlockSizeMin \<or> block_size > kEncoderLsbBlockSizeMax
      then (e, Inl InvalidArgument)
      else (e\<lparr>data_block_size := block_size, codeword_block_size := block_size\<rparr>, Inr ()))"

definition enc_base_init :: enc_base where
  "enc_base_init = \<lparr>codeword_block_size = 0, data_block_size = 0\<rparr>"

definition LsbEncoder :: "u32 \<Rightarrow> enc_base res" where
  "LsbEncoder block_size =
     (case Lsb_Init block_size enc_base_init of (e, r) \<Rightarrow> bindR r (\<lambda>_. Inr e))"

definition LsbEncoder_default :: "enc_base res" where
  "LsbEncoder_default = LsbEncoder kEncoderLsbDefaultBlockSize"

definition Lsb_GetName :: string where
  "Lsb_GetName = ''Lsb''"

text \<open>\<open>memcpy(codeword, data, data_block_size_)\<close>\<close>

definition Lsb_Embed :: "enc_base \<Rightarrow> bytes option \<Rightarrow> bytes option \<Rightarrow> bytes res" where
  "Lsb_Embed e codeword data =
     (case codeword of
        None \<Rightarrow> Inl (NullptrArgument ''codeword'')
      | Some cw \<Rightarrow> (case data of
            None \<Rightarrow> Inl (NullptrArgument ''data'')
          | Some d \<Rightarrow>
              let n = unat (data_block_size e) in
              if n \<le> length cw \<and> n \<le> length d then Inr (copy_at 0 (take n d) cw) else Inl Undefined))"

definition Lsb_Extract :: "enc_base \<Rightarrow> bytes option \<Rightarrow> bytes option \<Rightarrow> bytes res" where
  "Lsb_Extract e codeword data =
     (case codeword of
        None \<Rightarrow> Inl (NullptrArgument ''codeword'')
      | Some cw \<Rightarrow> (case data of
            None \<Rightarrow> Inl (NullptrArgument ''data'')
          | Some d \<Rightarrow>
              let n = unat (codeword_block_size e) in
              if n \<le> length cw \<and> n \<le> length d then Inr (copy_at 0 (take n cw) d) else Inl Undefined))"

text \<open>The two \<open>EmptyArgument\<close> exceptions are built and not thrown.\<close>

definition Lsb_SetArgByName :: "string \<Rightarrow> string \<Rightarrow> (enc_base, unit) meth" where
  "Lsb_SetArgByName arg val e =
     (if lower arg = ''blocksize''
      then (case atoi val of
              Inl err \<Rightarrow> (e, Inl err)
            | Inr block_size \<Rightarrow>
                if block_size < 0 then (e, Inl InvalidArgument)
                else Lsb_Init (word_of_int block_size) e)
      else (e, Inl InvalidArgument))"

section \<open>What the LSB encoder guarantees\<close>

definition lsb_ok :: "enc_base \<Rightarrow> bool" where
  "lsb_ok e \<longleftrightarrow> codeword_block_size e = data_block_size e \<and> 0 < unat (data_block_size e)
                \<and> unat (data_block_size e) \<le> 1024"

lemma Lsb_Init_correct:
  "Lsb_Init n e =
     (if unat n \<in> {1, 2, 4, 8, 16, 32, 64, 128, 256, 512, 1024}
      then (e\<lparr>data_block_size := n, codeword_block_size := n\<rparr>, Inr ()) else (e, Inl InvalidArgument))"
proof -
  have u: "unat (ucast n :: u64) = unat n"
    using unat_u32_less [of n] by (simp add: unsigned_ucast_eq take_bit_nat_eq_self)
  have P: "Popcount (ucast n) = 1 \<longleftrightarrow> (\<exists>k. unat n = 2 ^ k)" by (simp add: Popcount_power u)
  have B: "\<not> (n < kEncoderLsbBlockSizeMin \<or> n > kEncoderLsbBlockSizeMax) \<longleftrightarrow> 1 \<le> unat n \<and> unat n \<le> 1024"
    by (simp add: kEncoderLsbBlockSizeMin_def kEncoderLsbBlockSizeMax_def word_less_nat_alt not_less Suc_le_eq)
  have "(\<exists>k. unat n = 2 ^ k) \<and> 1 \<le> unat n \<and> unat n \<le> 1024 \<longleftrightarrow>
        unat n \<in> {1, 2, 4, 8, 16, 32, 64, 128, 256, 512, 1024}" (is "?L \<longleftrightarrow> ?R")
  proof
    assume ?L
    then obtain k where k: "unat n = 2 ^ k" "2 ^ k \<le> (2::nat) ^ 10" by auto
    then have "k \<le> 10" using power_increasing_iff [of "2 :: nat" k 10] by simp
    then have "k = 0 \<or> k = 1 \<or> k = 2 \<or> k = 3 \<or> k = 4 \<or> k = 5 \<or> k = 6 \<or> k = 7 \<or> k = 8 \<or> k = 9 \<or> k = 10"
      by presburger
    then show ?R using k(1) by auto
  next
    assume r: ?R
    have ex: "\<exists>k. m = 2 ^ k" if "m \<in> {1, 2, 4, 8, 16, 32, 64, 128, 256, 512, 1024}" for m :: nat
    proof -
      have "(1::nat) = 2 ^ 0" "(2::nat) = 2 ^ 1" "(4::nat) = 2 ^ 2" "(8::nat) = 2 ^ 3" "(16::nat) = 2 ^ 4"
          "(32::nat) = 2 ^ 5" "(64::nat) = 2 ^ 6" "(128::nat) = 2 ^ 7" "(256::nat) = 2 ^ 8"
          "(512::nat) = 2 ^ 9" "(1024::nat) = 2 ^ 10" by simp_all
      with that show ?thesis by (elim insertE emptyE) blast+
    qed
    moreover have "1 \<le> unat n \<and> unat n \<le> 1024" using r by (elim insertE emptyE) simp_all
    ultimately show ?L using r by blast
  qed
  then have "unat n \<in> {1, 2, 4, 8, 16, 32, 64, 128, 256, 512, 1024} \<longleftrightarrow>
      Popcount (ucast n) = 1 \<and> \<not> (n < kEncoderLsbBlockSizeMin \<or> n > kEncoderLsbBlockSizeMax)"
    by (simp only: P B)
  then show ?thesis unfolding Lsb_Init_def by presburger
qed

lemma Lsb_Init_ok: "Lsb_Init n e = (e', Inr ()) \<Longrightarrow> lsb_ok e'"
  by (auto simp: Lsb_Init_correct lsb_ok_def split: if_splits)

lemma LsbEncoder_default_ok: "\<exists>e. LsbEncoder_default = Inr e \<and> lsb_ok e \<and> data_block_size e = 1"
  by (simp add: LsbEncoder_default_def LsbEncoder_def kEncoderLsbDefaultBlockSize_def Lsb_Init_correct
      lsb_ok_def res_simps enc_base_init_def)

interpretation lsb: encoder_class lsb_ok "\<lambda>e. unat (data_block_size e)" "\<lambda>e. unat (codeword_block_size e)"
    Lsb_Embed Lsb_Extract
  by unfold_locales (auto simp: lsb_ok_def Lsb_Embed_def Lsb_Extract_def copy_at_def)

end
