(* ===== verification/Hamming_Encoder.thy ===== *)
theory Hamming_Encoder
  imports Encoder_Base
begin

text \<open>
  The matrix encoder of \<^verbatim>\<open>src/encoders/hamming_encoder.cc\<close>: \<open>k\<close> data bits are the syndrome of
  \<open>2 ^ k - 1\<close> carrier bits, so that to write them at most one carrier bit changes.  Bits are counted
  from the most significant bit of the first byte.
\<close>

section \<open>Definitions\<close>

record hamming = enc_base +
  parity_bits :: u32
  total_bits :: u32
  codewords_in_block :: u32
  codeword_buffer_size :: u32

definition kEncoderHammingParityBitsMin :: u32 where "kEncoderHammingParityBitsMin = 3"
definition kEncoderHammingParityBitsMax :: u32 where "kEncoderHammingParityBitsMax = 8"
definition kEncoderHammingDefaultParityBits :: u32 where "kEncoderHammingDefaultParityBits = 5"

definition Hamming_Init :: "u32 \<Rightarrow> (hamming, unit) meth" where
  "Hamming_Init parity e =
     (if parity < kEncoderHammingParityBitsMin \<or> parity > kEncoderHammingParityBitsMax
      then (e, Inl OutOfRange)
      else
        let e = e\<lparr>parity_bits := parity,
                  total_bits := ucast (push_bit (unat parity) (1 :: u64) - 1)\<rparr>
        in (case Lcm (ucast parity) 8 of
              Inl err \<Rightarrow> (e, Inl err)
            | Inr l \<Rightarrow>
                let data_size = (ucast l :: u32) div 8;
                    codewords = (data_size * 8) div parity;
                    buffer_size = (total_bits e - 1) div 8 + 1
                in (e\<lparr>data_block_size := data_size, codewords_in_block := codewords,
                      codeword_buffer_size := buffer_size,
                      codeword_block_size := buffer_size * codewords\<rparr>, Inr ())))"

definition hamming_init :: hamming where
  "hamming_init =
     \<lparr>codeword_block_size = 0, data_block_size = 0, parity_bits = 0, total_bits = 0,
      codewords_in_block = 0, codeword_buffer_size = 0\<rparr>"

definition HammingEncoder :: "u32 \<Rightarrow> hamming res" where
  "HammingEncoder parity = (case Hamming_Init parity hamming_init of (e, r) \<Rightarrow> bindR r (\<lambda>_. Inr e))"

definition HammingEncoder_default :: "hamming res" where
  "HammingEncoder_default = HammingEncoder kEncoderHammingDefaultParityBits"

definition Hamming_GetName :: string where
  "Hamming_GetName = ''Hamming''"

definition Hamming_SetArgByName :: "string \<Rightarrow> string \<Rightarrow> (hamming, unit) meth" where
  "Hamming_SetArgByName arg val e =
     (if arg = [] then (e, Inl (EmptyArgument ''param''))
      else if val = [] then (e, Inl (EmptyArgument ''val''))
      else if lower arg = ''paritybits''
      then (case atoi val of
              Inl err \<Rightarrow> (e, Inl err)
            | Inr parity \<Rightarrow>
                if parity < 0 then (e, Inl InvalidArgument)
                else Hamming_Init (word_of_int parity) e)
      else (e, Inl InvalidArgument))"

text \<open>\<open>ComputeH\<close>: \<open>buffer\<close> is what the pointer points to.\<close>

definition ComputeH :: "hamming \<Rightarrow> bytes \<Rightarrow> u64" where
  "ComputeH e buffer =
     snd (fold (\<lambda>i st. fold (\<lambda>j (tmp_hline, result).
               if tmp_hline \<le> ucast (total_bits e)
               then (tmp_hline + 1,
                     if drop_bit j (buffer ! i) AND 1 \<noteq> 0 then result XOR tmp_hline else result)
               else (tmp_hline, result))
             [7, 6, 5, 4, 3, 2, 1, 0] st)
           [0..<unat (codeword_buffer_size e)] (1 :: u64, 0 :: u64))"

definition SwapBitInCodeword :: "bytes \<Rightarrow> nat \<Rightarrow> bytes" where
  "SwapBitInCodeword buffer bit_in =
     (if bit_in = 0 then buffer
      else let i = (bit_in - 1) div 8
           in buffer[i := buffer ! i XOR push_bit (7 - (bit_in - 1) mod 8) 1])"

text \<open>The loop of \<open>ReadBitsFromBuffer\<close>.\<close>

function read_bits_loop :: "bytes \<Rightarrow> nat \<Rightarrow> nat \<Rightarrow> nat \<Rightarrow> u64 \<Rightarrow> u64" where
  "read_bits_loop buffer offset len written_bts result =
     (if written_bts < len
      then
        let byte_offset = offset div 8; bit_offset = offset mod 8;
            tmp_value = push_bit bit_offset (buffer ! byte_offset);
            tmp_written_bits = 8 - bit_offset;
            (tmp_value, tmp_written_bits) =
              (if len - written_bts < tmp_written_bits
               then (drop_bit (tmp_written_bits - (len - written_bts)) tmp_value,
                     tmp_written_bits - (tmp_written_bits - (len - written_bts)))
               else (tmp_value, tmp_written_bits));
            tmp_value = drop_bit bit_offset tmp_value;
            result = result XOR push_bit (len - written_bts - tmp_written_bits) (ucast tmp_value)
        in read_bits_loop buffer (offset + tmp_written_bits) len (written_bts + tmp_written_bits) result
      else result)"
  by pat_completeness auto
termination
  by (relation "measure (\<lambda>(buffer, offset, len, written_bts, result). len - written_bts)")
     (auto split: if_splits)

declare read_bits_loop.simps [simp del]

definition ReadBitsFromBuffer :: "bytes \<Rightarrow> nat \<Rightarrow> nat \<Rightarrow> u64" where
  "ReadBitsFromBuffer buffer offset len = read_bits_loop buffer offset len 0 0"

text \<open>The loop of \<open>WriteBitsToBuffer\<close>; \<open>shr_value\<close> may be negative.\<close>

function write_bits_loop :: "nat \<Rightarrow> u64 \<Rightarrow> nat \<Rightarrow> nat \<Rightarrow> bytes \<Rightarrow> bytes" where
  "write_bits_loop parity value offset written_bts buffer =
     (if written_bts < parity
      then
        let byte_offset = offset div 8; bit_offset = offset mod 8;
            shr_value = int parity - 8 + int bit_offset - int written_bts;
            tmp_value = (if shr_value < 0
                         then ucast (push_bit (nat (- shr_value)) value
                                     AND (push_bit (nat (- shr_value)) 0xFF AND 0xFF))
                         else ucast (drop_bit (nat shr_value) value AND 0xFF));
            buffer = buffer[byte_offset := buffer ! byte_offset XOR tmp_value]
        in if shr_value \<le> 0
           then write_bits_loop parity value (offset + parity) (written_bts + (parity - written_bts)) buffer
           else write_bits_loop parity value (offset + (parity - nat shr_value))
                  (written_bts + ((parity - written_bts) - nat shr_value)) buffer
      else buffer)"
  by pat_completeness auto
termination
  by (relation "measure (\<lambda>(parity, value, offset, written_bts, buffer). parity - written_bts)") auto

declare write_bits_loop.simps [simp del]

definition WriteBitsToBuffer :: "hamming \<Rightarrow> u64 \<Rightarrow> nat \<Rightarrow> bytes \<Rightarrow> bytes" where
  "WriteBitsToBuffer e value offset buffer = write_bits_loop (unat (parity_bits e)) value offset 0 buffer"

text \<open>The bodies of the loops over the codewords of a block.\<close>

definition embed_step :: "hamming \<Rightarrow> bytes \<Rightarrow> nat \<Rightarrow> bytes \<times> nat \<Rightarrow> bytes \<times> nat" where
  "embed_step e data i st = (case st of (codeword, bit_offset) \<Rightarrow>
     let at_cw = i * unat (codeword_buffer_size e);
         h = ComputeH e (drop at_cw codeword);
         h = h XOR ReadBitsFromBuffer data bit_offset (unat (parity_bits e));
         codeword = (if h \<noteq> 0
                     then take at_cw codeword @ SwapBitInCodeword (drop at_cw codeword) (unat h)
                     else codeword)
     in (codeword, bit_offset + unat (parity_bits e)))"

definition extract_step :: "hamming \<Rightarrow> bytes \<Rightarrow> nat \<Rightarrow> bytes \<times> nat \<Rightarrow> bytes \<times> nat" where
  "extract_step e codeword i st = (case st of (data, bit_offset) \<Rightarrow>
     let h = ComputeH e (drop (i * unat (codeword_buffer_size e)) codeword)
     in (WriteBitsToBuffer e h bit_offset data, bit_offset + unat (parity_bits e)))"

text \<open>
  \<open>Embed\<close> and \<open>Extract\<close>; they touch every byte of the two blocks, so a shorter array is accessed
  out of its bounds.
\<close>

definition Hamming_Embed :: "hamming \<Rightarrow> bytes option \<Rightarrow> bytes option \<Rightarrow> bytes res" where
  "Hamming_Embed e codeword data =
     (case codeword of
        None \<Rightarrow> Inl (NullptrArgument ''codeword'')
      | Some cw \<Rightarrow> (case data of
            None \<Rightarrow> Inl (NullptrArgument ''data'')
          | Some d \<Rightarrow>
              if length cw < unat (codeword_block_size e) \<or> length d < unat (data_block_size e)
              then Inl Undefined
              else Inr (fst (fold (embed_step e d) [0..<unat (codewords_in_block e)] (cw, 0)))))"

definition Hamming_Extract :: "hamming \<Rightarrow> bytes option \<Rightarrow> bytes option \<Rightarrow> bytes res" where
  "Hamming_Extract e codeword data =
     (case codeword of
        None \<Rightarrow> Inl (NullptrArgument ''codeword'')
      | Some cw \<Rightarrow> (case data of
            None \<Rightarrow> Inl (NullptrArgument ''data'')
          | Some d \<Rightarrow>
              if length cw < unat (codeword_block_size e) \<or> length d < unat (data_block_size e)
              then Inl Undefined
              else
                let d = copy_at 0 (replicate (unat (data_block_size e)) 0) d
                in Inr (fst (fold (extract_step e cw) [0..<unat (codewords_in_block e)] (d, 0)))))"

section \<open>Bits of a buffer\<close>

text \<open>Bit \<open>n\<close>, counted from the most significant bit of the first byte.\<close>

definition buf_bit :: "bytes \<Rightarrow> nat \<Rightarrow> bool" where
  "buf_bit buf n = bit (buf ! (n div 8)) (7 - n mod 8)"

lemma byte_eqI:
  assumes "\<And>n. n < 8 \<Longrightarrow> bit (a :: u8) (7 - n) = bit b (7 - n)"
  shows "a = b"
proof (rule bit_word_eqI)
  fix n assume "n < LENGTH(8)"
  then show "bit a n = bit b n" using assms [of "7 - n"] by simp
qed

lemma buf_eqI:
  assumes "length a = length b" "\<And>n. n < 8 * length a \<Longrightarrow> buf_bit a n = buf_bit b n"
  shows "a = b"
proof (rule nth_equalityI [OF assms(1)])
  fix i assume i: "i < length a"
  show "a ! i = b ! i"
  proof (rule byte_eqI)
    fix n :: nat assume n: "n < 8"
    have d: "(8 * i + n) div 8 = i" "(8 * i + n) mod 8 = n" using n by simp_all
    show "bit (a ! i) (7 - n) = bit (b ! i) (7 - n)"
      using assms(2) [of "8 * i + n"] i n unfolding buf_bit_def d by simp
  qed
qed

lemma buf_bit_update:
  assumes "n div 8 < length buf"
  shows "buf_bit (buf[i := v]) n = (if n div 8 = i then bit v (7 - n mod 8) else buf_bit buf n)"
  using assms by (simp add: buf_bit_def)

lemma buf_bit_drop: "8 * i + n < 8 * length buf \<Longrightarrow> buf_bit (drop i buf) n = buf_bit buf (8 * i + n)"
  by (simp add: buf_bit_def)

section \<open>Reading and writing runs of bits\<close>

lemma bit_push_u64: "bit (push_bit m (w :: u64)) n \<longleftrightarrow> m \<le> n \<and> n < 64 \<and> bit w (n - m)"
  by (auto simp: bit_push_bit_iff)

lemma bit_ucast_u64: "bit (ucast (b :: u8) :: u64) n \<longleftrightarrow> bit b n"
  by (auto simp: bit_unsigned_iff dest: bit_imp_le_length)

lemma bit_ucast_u8: "bit (ucast (w :: u64) :: u8) n \<longleftrightarrow> n < 8 \<and> bit w n"
  by (auto simp: bit_unsigned_iff)

lemma bit_read_byte:
  assumes "w \<le> 8 - bo" "bo < 8" "t < 8"
  shows "bit (drop_bit bo (drop_bit (8 - bo - w) (push_bit bo (x :: u8)))) t \<longleftrightarrow> t < w \<and> bit x (t + 8 - bo - w)"
  using assms by (auto simp: bit_drop_bit_eq bit_push_bit_iff comp_def add.commute)

lemma read_bits_loop_spec:
  assumes "written \<le> len" "len \<le> 64"
      and "\<forall>t. bit result t \<longleftrightarrow> len - written \<le> t \<and> t < len \<and> buf_bit buf (off0 + len - 1 - t)"
  shows "bit (read_bits_loop buf (off0 + written) len written result) t \<longleftrightarrow>
           t < len \<and> buf_bit buf (off0 + len - 1 - t)"
  using assms
proof (induction "len - written" arbitrary: written result rule: less_induct)
  case less
  show ?case
  proof (cases "written < len")
    case False
    with less.prems have "written = len" by simp
    with less.prems(3) show ?thesis by (simp add: read_bits_loop.simps [of _ _ len])
  next
    case True
    define off where "off = off0 + written"
    define bo where "bo = off mod 8"
    define rem where "rem = len - written"
    define w where "w = min rem (8 - bo)"
    define tmp where "tmp = drop_bit bo (drop_bit (8 - bo - w) (push_bit bo (buf ! (off div 8))))"
    define result' where "result' = result XOR push_bit (rem - w) (ucast tmp)"
    have bo: "bo < 8" by (simp add: bo_def)
    have w: "0 < w" "w \<le> rem" "w \<le> 8 - bo" using True bo by (auto simp: w_def rem_def)
    have step: "read_bits_loop buf off len written result = read_bits_loop buf (off + w) len (written + w) result'"
    proof (cases "rem < 8 - bo")
      case True
      then have "w = rem" "8 - bo - (8 - bo - rem) = rem" by (simp_all add: w_def)
      then show ?thesis using True \<open>written < len\<close>
        by (subst read_bits_loop.simps) (simp add: Let_def bo_def [symmetric] rem_def [symmetric] result'_def tmp_def)
    next
      case False
      then have "w = 8 - bo" by (simp add: w_def)
      then show ?thesis using False \<open>written < len\<close>
        by (subst read_bits_loop.simps) (simp add: Let_def bo_def [symmetric] rem_def [symmetric] result'_def tmp_def)
    qed
    have tb: "bit tmp s \<longleftrightarrow> s < w \<and> bit (buf ! (off div 8)) (s + 8 - bo - w)" for s
    proof (cases "s < 8")
      case True
      then show ?thesis unfolding tmp_def using w(3) bo by (intro bit_read_byte)
    next
      case False
      then show ?thesis using w(3) by (auto dest: bit_imp_le_length)
    qed
    have "bit result' t \<longleftrightarrow> len - (written + w) \<le> t \<and> t < len \<and> buf_bit buf (off0 + len - 1 - t)" for t
    proof -
      have p: "bit (push_bit (rem - w) (ucast tmp :: u64)) t \<longleftrightarrow>
          rem - w \<le> t \<and> t < rem \<and> buf_bit buf (off0 + len - 1 - t)"
      proof (cases "rem - w \<le> t \<and> t < rem")
        case True
        define s where "s = t - (rem - w)"
        have s: "s < w" "t = rem - w + s" using True w by (auto simp: s_def)
        have "off0 + len - 1 - t = off + (w - 1 - s)"
          using s w True \<open>written < len\<close> by (simp add: off_def rem_def)
        moreover have "off + (w - 1 - s) = 8 * (off div 8) + (bo + (w - 1 - s))"
          using mult_div_mod_eq [of 8 off] by (simp add: bo_def)
        moreover have "bo + (w - 1 - s) < 8" using w(3) s(1) bo by linarith
        ultimately have "(off0 + len - 1 - t) div 8 = off div 8" "(off0 + len - 1 - t) mod 8 = bo + (w - 1 - s)"
          by (simp_all only: div_mult_self4 mod_mult_self4) simp_all
        moreover have "7 - (bo + (w - 1 - s)) = s + 8 - bo - w" using s w bo by simp
        ultimately have "buf_bit buf (off0 + len - 1 - t) = bit (buf ! (off div 8)) (s + 8 - bo - w)"
          by (simp only: buf_bit_def)
        moreover have "t < 64" using True less.prems(2) unfolding rem_def by linarith
        moreover have "bit (push_bit (rem - w) (ucast tmp :: u64)) t \<longleftrightarrow> bit tmp s"
          using True \<open>t < 64\<close> unfolding s_def bit_push_u64 bit_ucast_u64 by simp
        ultimately show ?thesis using True tb [of s] s(1) by simp
      next
        case False
        have "\<not> bit tmp (t - (rem - w))" if "rem \<le> t"
        proof -
          have "\<not> t - (rem - w) < w" using w that by linarith
          then show ?thesis by (simp only: tb) simp
        qed
        with False show ?thesis unfolding bit_push_u64 bit_ucast_u64 by auto
      qed
      have "bit result' t \<longleftrightarrow> bit result t \<noteq> bit (push_bit (rem - w) (ucast tmp :: u64)) t"
        by (simp add: result'_def bit_xor_iff)
      moreover have "bit result t \<longleftrightarrow> rem \<le> t \<and> t < len \<and> buf_bit buf (off0 + len - 1 - t)"
        using less.prems(3) by (simp add: rem_def)
      moreover have o: "len - (written + w) = rem - w" "rem \<le> len" "rem - w \<le> rem" by (simp_all add: rem_def)
      moreover have "(rem \<le> t \<and> t < len) \<noteq> (rem - w \<le> t \<and> t < rem) \<longleftrightarrow> rem - w \<le> t \<and> t < len"
      proof -
        consider "t < rem - w" | "rem - w \<le> t" "t < rem" | "rem \<le> t" "t < len" | "len \<le> t" by linarith
        then show ?thesis using o(2,3) by cases linarith+
      qed
      ultimately show ?thesis unfolding p o(1) by blast
    qed
    then have "bit (read_bits_loop buf (off0 + (written + w)) len (written + w) result') t \<longleftrightarrow>
        t < len \<and> buf_bit buf (off0 + len - 1 - t)"
      using w True less.prems(2) by (intro less.hyps) (auto simp: rem_def)
    then show ?thesis using step by (simp add: off_def add.assoc)
  qed
qed

lemma ReadBits_spec:
  "len \<le> 64 \<Longrightarrow> bit (ReadBitsFromBuffer buf off len) t \<longleftrightarrow> t < len \<and> buf_bit buf (off + len - 1 - t)"
  using read_bits_loop_spec [of 0 len 0 buf off t] by (simp add: ReadBitsFromBuffer_def)


text \<open>The byte that a pass of \<open>WriteBitsToBuffer\<close> xors in.\<close>

definition write_byte :: "u64 \<Rightarrow> int \<Rightarrow> u8" where
  "write_byte v shr = (if shr < 0
     then ucast (push_bit (nat (- shr)) v AND (push_bit (nat (- shr)) 0xFF AND 0xFF))
     else ucast (drop_bit (nat shr) v AND 0xFF))"

lemma bit_0xFF: "bit (0xFF :: u64) t \<longleftrightarrow> t < 8"
proof -
  have "(0xFF :: u64) = mask 8" by (simp add: mask_eq_exp_minus_1)
  then have "bit (0xFF :: u64) t \<longleftrightarrow> possible_bit TYPE(u64) t \<and> t < 8" by (simp only: bit_mask_iff)
  then show ?thesis by auto
qed

lemma bit_write_byte:
  assumes "t < 8"
  shows "bit (write_byte v shr) t \<longleftrightarrow> 0 \<le> int t + shr \<and> bit v (nat (int t + shr))"
proof (cases "shr < 0")
  case True
  have a: "nat (- shr) \<le> t \<longleftrightarrow> 0 \<le> int t + shr" using True by linarith
  have b: "t - nat (- shr) = nat (int t + shr)" using True by linarith
  have "write_byte v shr = ucast (push_bit (nat (- shr)) v AND (push_bit (nat (- shr)) 0xFF AND 0xFF))"
    using True by (simp only: write_byte_def if_True)
  moreover have "nat (int t + shr) < 8" using True assms by linarith
  ultimately show ?thesis using assms by (simp only: bit_ucast_u8 bit_and_iff bit_push_u64 bit_0xFF a b) auto
next
  case False
  have "nat shr + t = nat (int t + shr)" using False by linarith
  moreover have "write_byte v shr = ucast (drop_bit (nat shr) v AND 0xFF)"
    using False by (simp only: write_byte_def if_False)
  ultimately show ?thesis using assms False
    by (simp only: bit_ucast_u8 bit_and_iff bit_drop_bit_eq bit_0xFF comp_def) auto
qed

lemma write_bits_loop_step:
  assumes "written < k" "k \<le> 8" "off mod 8 = bo"
  defines "shr \<equiv> int k - 8 + int bo - int written"
  shows "write_bits_loop k v off written buf =
           (let buf' = buf[off div 8 := buf ! (off div 8) XOR write_byte v shr]
            in if k - written \<le> 8 - bo then buf'
               else write_bits_loop k v (off + (k - nat shr)) (written + (8 - bo)) buf')"
proof -
  let ?B = "buf[off div 8 := buf ! (off div 8) XOR write_byte v shr]"
  have u: "write_bits_loop k v off written buf =
      (if shr \<le> 0 then write_bits_loop k v (off + k) (written + (k - written)) ?B
       else write_bits_loop k v (off + (k - nat shr)) (written + ((k - written) - nat shr)) ?B)"
    unfolding write_bits_loop.simps [of k v off written buf] Let_def write_byte_def shr_def assms(3)
    using assms(1) by (simp only: if_True)
  show ?thesis
  proof (cases "shr \<le> 0")
    case True
    then have "k - written \<le> 8 - bo" using assms(1) unfolding shr_def by linarith
    moreover have "write_bits_loop k v (off + k) (written + (k - written)) ?B = ?B"
      using assms(1) by (subst write_bits_loop.simps) simp
    ultimately show ?thesis using True by (simp only: u if_True Let_def)
  next
    case False
    then have "\<not> k - written \<le> 8 - bo" "k - written - nat shr = 8 - bo"
      using assms(1,3) mod_less_divisor [of 8 off] unfolding shr_def by linarith+
    then show ?thesis using False by (simp only: u if_False Let_def)
  qed
qed

text \<open>
  One pass xors bit \<open>t\<close> of the value into position \<open>off + written ... \<close> of the byte it works on.
\<close>

lemma write_pass:
  assumes "off div 8 < length buf" "off mod 8 = bo" "off0 + written = off" "written \<le> k"
      and "n < 8 * length buf" "n div 8 = off div 8 \<or> True"
  defines "shr \<equiv> int k - 8 + int bo - int written"
  shows "buf_bit (buf[off div 8 := buf ! (off div 8) XOR write_byte v shr]) n \<longleftrightarrow>
           (buf_bit buf n \<noteq> (n div 8 = off div 8 \<and> n < off0 + k \<and> bit v (off0 + k - 1 - n)))"
proof (cases "n div 8 = off div 8")
  case False
  then show ?thesis using assms(5) by (subst buf_bit_update) auto
next
  case True
  have n: "n = 8 * (off div 8) + n mod 8" using True mult_div_mod_eq [of 8 n] by simp
  have off: "off = 8 * (off div 8) + bo" using assms(2) mult_div_mod_eq [of 8 off] by simp
  have e: "int (7 - n mod 8) + shr = int (off0 + k) - 1 - int n"
  proof -
    have "n mod 8 < 8" by simp
    then have "int (7 - n mod 8) = 7 - int (n mod 8)" by linarith
    moreover have "int n = 8 * int (off div 8) + int (n mod 8)" using n by linarith
    moreover have "int off = 8 * int (off div 8) + int bo" using off by linarith
    ultimately show ?thesis using assms(3) unfolding shr_def by linarith
  qed
  have "bit (write_byte v shr) (7 - n mod 8) \<longleftrightarrow> n < off0 + k \<and> bit v (off0 + k - 1 - n)"
  proof -
    have "0 \<le> int (7 - n mod 8) + shr \<longleftrightarrow> n < off0 + k" unfolding e by linarith
    moreover have "n < off0 + k \<Longrightarrow> nat (int (7 - n mod 8) + shr) = off0 + k - 1 - n" unfolding e by linarith
    ultimately show ?thesis using bit_write_byte [of "7 - n mod 8" v shr] by auto
  qed
  moreover have "n div 8 < length buf" using True assms(1) by simp
  ultimately show ?thesis using True by (simp only: buf_bit_update if_True bit_xor_iff) (simp add: buf_bit_def)
qed


lemma write_bits_loop_spec:
  assumes "written < k" "k \<le> 8" "off0 + k \<le> 8 * length buf" "written = 0 \<or> (off0 + written) mod 8 = 0"
      and "\<forall>t \<ge> k. \<not> bit v t"
  shows "length (write_bits_loop k v (off0 + written) written buf) = length buf
       \<and> (\<forall>n < 8 * length buf.
            buf_bit (write_bits_loop k v (off0 + written) written buf) n \<longleftrightarrow>
             (buf_bit buf n \<noteq> (off0 + written \<le> n \<and> n < off0 + k \<and> bit v (off0 + k - 1 - n))))"
  using assms(1,3,4)
proof (induction "k - written" arbitrary: written buf rule: less_induct)
  case less
  define off where "off = off0 + written"
  define bo where "bo = off mod 8"
  define shr where "shr = int k - 8 + int bo - int written"
  define B where "B = buf[off div 8 := buf ! (off div 8) XOR write_byte v shr]"
  have bo: "bo < 8" "off = 8 * (off div 8) + bo" by (simp_all add: bo_def)
  have l: "off div 8 < length buf" using less.prems(1,2) by (simp add: off_def div_less_iff_less_mult)
  have S: "write_bits_loop k v off written buf =
      (if k - written \<le> 8 - bo then B else write_bits_loop k v (off + (k - nat shr)) (written + (8 - bo)) B)"
    using write_bits_loop_step [OF less.prems(1) assms(2) bo_def [symmetric], of v buf]
    by (simp only: B_def shr_def Let_def)
  have P: "buf_bit B n \<longleftrightarrow> (buf_bit buf n \<noteq> (n div 8 = off div 8 \<and> n < off0 + k \<and> bit v (off0 + k - 1 - n)))"
    if "n < 8 * length buf" for n
    unfolding B_def shr_def using l bo_def [symmetric] off_def [symmetric] less.prems(1) that by (intro write_pass) auto
  have low: "\<not> bit v (off0 + k - 1 - n)" if "n div 8 = off div 8" "n < off" for n
  proof -
    have "n mod 8 < bo" using that bo(2) mult_div_mod_eq [of 8 n] by linarith
    then have "bo \<noteq> 0" by simp
    then have "written = 0" using less.prems(3) by (auto simp: bo_def off_def)
    then have "k \<le> off0 + k - 1 - n" using that(2) by (simp add: off_def)
    then show ?thesis using assms(5) by blast
  qed
  have hi: "n < 8 * (off div 8) + 8" if "n div 8 = off div 8" for n
    using that mult_div_mod_eq [of 8 n] mod_less_divisor [of 8 n] by linarith
  have same: "n div 8 = off div 8" if "off \<le> n" "n < 8 * (off div 8) + 8" for n
    using that bo(2) div_nat_eqI [of 8 "off div 8" n] by (simp add: mult.commute)
  show ?case
  proof (cases "k - written \<le> 8 - bo")
    case True
    then have e: "off0 + k \<le> 8 * (off div 8) + 8" using bo less.prems(1) by (simp add: off_def)
    have "buf_bit B n \<longleftrightarrow> (buf_bit buf n \<noteq> (off0 + written \<le> n \<and> n < off0 + k \<and> bit v (off0 + k - 1 - n)))"
      if "n < 8 * length buf" for n
    proof -
      have "n div 8 = off div 8 \<and> n < off0 + k \<and> bit v (off0 + k - 1 - n) \<longleftrightarrow>
          off \<le> n \<and> n < off0 + k \<and> bit v (off0 + k - 1 - n)"
        using low [of n] same [of n] e by (metis less_le_trans not_le)
      then show ?thesis using P [OF that] unfolding off_def by blast
    qed
    moreover have "length B = length buf" by (simp add: B_def)
    ultimately show ?thesis using True S unfolding off_def by auto
  next
    case False
    then have w: "written + (8 - bo) < k" "0 < 8 - bo" using bo(1) by linarith+
    have w0: "written = 0"
    proof (rule ccontr)
      assume "written \<noteq> 0"
      then have "bo = 0" using less.prems(3) by (simp add: bo_def off_def)
      then show False using w assms(2) \<open>written \<noteq> 0\<close> by simp
    qed
    have "off + (k - nat shr) = off0 + (written + (8 - bo))"
      using w w0 bo(1) unfolding shr_def off_def by linarith
    then have S': "write_bits_loop k v off written buf = write_bits_loop k v (off0 + (written + (8 - bo))) (written + (8 - bo)) B"
      using S False by simp
    have "off0 + (written + (8 - bo)) = 8 * (off div 8 + 1)" using bo w0 by (simp add: off_def)
    then have m: "(off0 + (written + (8 - bo))) mod 8 = 0" "off0 + (written + (8 - bo)) = 8 * (off div 8) + 8" by simp_all
    have lB: "length B = length buf" by (simp add: B_def)
    have IH: "length (write_bits_loop k v (off0 + (written + (8 - bo))) (written + (8 - bo)) B) = length B
       \<and> (\<forall>n < 8 * length B.
            buf_bit (write_bits_loop k v (off0 + (written + (8 - bo))) (written + (8 - bo)) B) n \<longleftrightarrow>
             (buf_bit B n \<noteq> (off0 + (written + (8 - bo)) \<le> n \<and> n < off0 + k \<and> bit v (off0 + k - 1 - n))))"
      by (rule less.hyps) (use w m less.prems lB in \<open>simp_all\<close>)
    have X: "(n div 8 = off div 8 \<and> n < off0 + k \<and> bit v (off0 + k - 1 - n)) \<noteq>
        (8 * (off div 8) + 8 \<le> n \<and> n < off0 + k \<and> bit v (off0 + k - 1 - n)) \<longleftrightarrow>
        off \<le> n \<and> n < off0 + k \<and> bit v (off0 + k - 1 - n)" for n
    proof -
      have "off \<le> 8 * (off div 8) + 8" using bo by linarith
      consider "n < off" | "off \<le> n" "n < 8 * (off div 8) + 8" | "8 * (off div 8) + 8 \<le> n" by linarith
      then show ?thesis
      proof cases
        case 1
        moreover have "\<not> 8 * (off div 8) + 8 \<le> n" using 1 \<open>off \<le> 8 * (off div 8) + 8\<close> by linarith
        ultimately show ?thesis using low [of n] by auto
      next
        case 2
        then show ?thesis using same [of n] by simp
      next
        case 3
        moreover have "n div 8 \<noteq> off div 8" using 3 hi [of n] by linarith
        moreover have "off \<le> n" using 3 \<open>off \<le> 8 * (off div 8) + 8\<close> by linarith
        ultimately show ?thesis by simp
      qed
    qed
    let ?r = "write_bits_loop k v off written buf"
    have "length ?r = length buf" using IH S' lB by simp
    moreover have "buf_bit ?r n \<longleftrightarrow> (buf_bit buf n \<noteq> (off \<le> n \<and> n < off0 + k \<and> bit v (off0 + k - 1 - n)))"
      if n: "n < 8 * length buf" for n
    proof -
      have "buf_bit ?r n \<longleftrightarrow> (buf_bit B n \<noteq>
          (8 * (off div 8) + 8 \<le> n \<and> n < off0 + k \<and> bit v (off0 + k - 1 - n)))"
        using IH n lB m(2) S' by (simp only: conj_assoc)
      then show ?thesis using P [OF n] X [of n] by blast
    qed
    ultimately show ?thesis unfolding off_def by blast
  qed
qed

lemma WriteBits_spec:
  assumes "0 < unat (parity_bits e)" "unat (parity_bits e) \<le> 8" "off + unat (parity_bits e) \<le> 8 * length buf"
      and "\<forall>t \<ge> unat (parity_bits e). \<not> bit v t"
  shows "length (WriteBitsToBuffer e v off buf) = length buf"
    and "n < 8 * length buf \<Longrightarrow> buf_bit (WriteBitsToBuffer e v off buf) n \<longleftrightarrow>
           (buf_bit buf n \<noteq> (off \<le> n \<and> n < off + unat (parity_bits e) \<and> bit v (off + unat (parity_bits e) - 1 - n)))"
  using write_bits_loop_spec [of 0 "unat (parity_bits e)" off buf v] assms by (simp_all add: WriteBitsToBuffer_def)


section \<open>The syndrome\<close>

text \<open>\<open>ComputeH\<close> is the sum (xor) of the positions, from 1, of the bits that are set.\<close>

fun syndrome :: "bytes \<Rightarrow> nat \<Rightarrow> u64" where
  "syndrome buf 0 = 0"
| "syndrome buf (Suc n) = (if buf_bit buf n then syndrome buf n XOR word_of_nat (Suc n) else syndrome buf n)"

lemma bit0_iff: "drop_bit j (b :: u8) AND 1 \<noteq> 0 \<longleftrightarrow> bit b j"
  by (simp add: and_one_eq even_drop_bit_iff_not_bit flip: even_iff_mod_2_eq_zero)

definition H_step :: "nat \<Rightarrow> bytes \<Rightarrow> nat \<Rightarrow> u64 \<times> u64 \<Rightarrow> u64 \<times> u64" where
  "H_step tot buf n st = (case st of (hline, result) \<Rightarrow>
     if unat hline \<le> tot then (hline + 1, if buf_bit buf n then result XOR hline else result)
     else (hline, result))"

lemma H_step_syndrome:
  assumes "tot < 1000"
  shows "H_step tot buf n (word_of_nat (min n tot + 1), syndrome buf (min n tot)) =
           (word_of_nat (min (Suc n) tot + 1), syndrome buf (min (Suc n) tot))"
proof (cases "n < tot")
  case True
  then have "unat (word_of_nat (n + 1) :: u64) = n + 1" using assms by (intro unat_of_nat_u64) simp
  moreover have "min n tot = n" "min (Suc n) tot = Suc n" using True by simp_all
  moreover have "Suc n \<le> tot" using True by simp
  ultimately show ?thesis
    by (simp add: H_step_def add.commute)
next
  case False
  then have "unat (word_of_nat (tot + 1) :: u64) = tot + 1" using assms by (intro unat_of_nat_u64) simp
  moreover have "min n tot = tot" "min (Suc n) tot = tot" using False by simp_all
  ultimately show ?thesis by (simp only: H_step_def prod.case) simp
qed

lemma H_rows:
  assumes "unat (total_bits e) < 1000"
  shows "fold (\<lambda>i st. fold (\<lambda>j (tmp_hline, result).
               if tmp_hline \<le> ucast (total_bits e)
               then (tmp_hline + 1, if drop_bit j (buffer ! i) AND 1 \<noteq> 0 then result XOR tmp_hline else result)
               else (tmp_hline, result)) [7, 6, 5, 4, 3, 2, 1, 0] st) [0..<m] (1 :: u64, 0 :: u64) =
           (word_of_nat (min (8 * m) (unat (total_bits e)) + 1), syndrome buffer (min (8 * m) (unat (total_bits e))))"
proof (induction m)
  case (Suc m)
  let ?T = "unat (total_bits e)"
  let ?f = "\<lambda>i j (tmp_hline :: u64, result :: u64).
               if tmp_hline \<le> ucast (total_bits e)
               then (tmp_hline + 1, if drop_bit j (buffer ! i) AND 1 \<noteq> 0 then result XOR tmp_hline else result)
               else (tmp_hline, result)"
  let ?st = "\<lambda>n. (word_of_nat (min n ?T + 1) :: u64, syndrome buffer (min n ?T))"
  have U: "unat (ucast (total_bits e) :: u64) = ?T"
    using unat_u32_less [of "total_bits e"] by (simp add: unsigned_ucast_eq take_bit_nat_eq_self)
  have one: "?f m (7 - d) st = H_step ?T buffer (8 * m + d) st" if "d < 8" for d st
  proof -
    have "(8 * m + d) div 8 = m" "(8 * m + d) mod 8 = d" using that by simp_all
    then have "drop_bit (7 - d) (buffer ! m) AND 1 \<noteq> 0 \<longleftrightarrow> buf_bit buffer (8 * m + d)"
      unfolding bit0_iff buf_bit_def by simp
    then show ?thesis by (simp only: H_step_def word_le_nat_alt U split_def)
  qed
  note S = H_step_syndrome [OF assms, of buffer]
  have F: "fold (\<lambda>d. ?f m (7 - d)) [0..<d] (?st (8 * m)) = ?st (8 * m + d)" if "d \<le> 8" for d
    using that
  proof (induction d)
    case (Suc d)
    have "fold (\<lambda>d. ?f m (7 - d)) [0..<Suc d] (?st (8 * m)) =
        ?f m (7 - d) (fold (\<lambda>d. ?f m (7 - d)) [0..<d] (?st (8 * m)))" by simp
    also have "\<dots> = ?f m (7 - d) (?st (8 * m + d))" using Suc by (simp only: Suc_leD)
    also have "\<dots> = ?st (8 * m + Suc d)" using one [of d "?st (8 * m + d)"] S Suc.prems by simp
    finally show ?case .
  qed simp
  have "fold (?f m) [7, 6, 5, 4, 3, 2, 1, 0] (?st (8 * m)) = ?st (8 * m + 8)"
  proof -
    have "[7, 6, 5, 4, 3, 2, 1, 0] = map (\<lambda>d. 7 - d) [0..<8 :: nat]" by (simp add: upt_rec)
    then show ?thesis using F [of 8] by (simp only: fold_map comp_def)
  qed
  then show ?case using Suc by (simp add: add.commute)
qed simp

lemma ComputeH_syndrome:
  assumes "unat (total_bits e) < 1000" "unat (total_bits e) \<le> 8 * unat (codeword_buffer_size e)"
  shows "ComputeH e buffer = syndrome buffer (unat (total_bits e))"
  unfolding ComputeH_def H_rows [OF assms(1)] using assms(2) by (simp add: min_def)

text \<open>Flipping the bit at position \<open>q\<close> adds \<open>q + 1\<close> to the syndrome.\<close>

lemma syndrome_flip:
  assumes "\<And>n. n < m \<Longrightarrow> buf_bit buf' n = (if n = q then \<not> buf_bit buf n else buf_bit buf n)"
  shows "syndrome buf' m = (if q < m then syndrome buf m XOR word_of_nat (Suc q) else syndrome buf m)"
  using assms
proof (induction m)
  case (Suc m)
  then have IH: "syndrome buf' m = (if q < m then syndrome buf m XOR word_of_nat (Suc q) else syndrome buf m)"
    by simp
  have xx: "(a XOR b) XOR b = a" "(a XOR b) XOR c = (a XOR c) XOR b" for a b c :: u64
    by (simp_all add: xor.assoc) (simp add: xor.commute)
  consider "q < m" | "q = m" | "m < q" by linarith
  then show ?case
  proof cases
    case 1
    then show ?thesis using Suc.prems [of m] IH xx(2) [of "syndrome buf m" "word_of_nat (Suc q)" "word_of_nat (Suc m)"] by auto
  next
    case 2
    then show ?thesis using Suc.prems [of m] IH by (auto simp: xx(1))
  next
    case 3
    then show ?thesis using Suc.prems [of m] IH by auto
  qed
qed simp

lemma syndrome_less:
  assumes "m < 2 ^ k" "k \<le> 16"
  shows "unat (syndrome buf m) < 2 ^ k"
  using assms(1)
proof (induction m)
  case (Suc m)
  have "(2::nat) ^ k \<le> 2 ^ 16" using assms(2) by (intro power_increasing) simp_all
  then have "unat (word_of_nat (Suc m) :: u64) = Suc m" using Suc.prems by (intro unat_of_nat_u64) simp
  then have "unat (word_of_nat (Suc m) :: u64) < 2 ^ k" using Suc.prems by simp
  moreover have "unat (a XOR b) < 2 ^ k" if "unat (a :: u64) < 2 ^ k" "unat b < 2 ^ k" for a b
    using that by (simp add: unsigned_xor_eq) (metis take_bit_nat_eq_self_iff take_bit_xor)
  ultimately show ?case using Suc by auto
qed simp

lemma SwapBit_bits:
  assumes "0 < h" "(h - 1) div 8 < length buf" "n < 8 * length buf"
  shows "buf_bit (SwapBitInCodeword buf h) n = (if n = h - 1 then \<not> buf_bit buf n else buf_bit buf n)"
proof -
  let ?q = "h - 1"
  have "n div 8 < length buf" using assms(3) by (simp add: div_less_iff_less_mult mult.commute)
  then have u: "buf_bit (SwapBitInCodeword buf h) n =
      (if n div 8 = ?q div 8 then bit (buf ! (?q div 8) XOR push_bit (7 - ?q mod 8) 1) (7 - n mod 8) else buf_bit buf n)"
    using assms(1) by (simp add: SwapBitInCodeword_def Let_def buf_bit_update)
  have b: "bit (push_bit (7 - ?q mod 8) (1 :: u8)) (7 - n mod 8) \<longleftrightarrow> n mod 8 = ?q mod 8"
  proof -
    have "?q mod 8 < 8" "n mod 8 < 8" by simp_all
    moreover have "bit (push_bit a (1 :: u8)) b \<longleftrightarrow> a = b" if "b < 8" for a b
      using that by (auto simp: bit_push_bit_iff bit_1_iff simp del: push_bit_of_1)
    ultimately show ?thesis by auto
  qed
  have "n = ?q \<longleftrightarrow> n div 8 = ?q div 8 \<and> n mod 8 = ?q mod 8" by (metis div_mult_mod_eq)
  then show ?thesis unfolding u bit_xor_iff b by (auto simp: buf_bit_def)
qed

lemma length_SwapBit [simp]: "length (SwapBitInCodeword buf h) = length buf"
  by (simp add: SwapBitInCodeword_def Let_def)

section \<open>The invariant\<close>

definition hamming_ok :: "hamming \<Rightarrow> bool" where
  "hamming_ok e \<longleftrightarrow>
     (let k = unat (parity_bits e) in
      3 \<le> k \<and> k \<le> 8 \<and> unat (total_bits e) = 2 ^ k - 1 \<and>
      unat (codeword_buffer_size e) = (2 ^ k - 2) div 8 + 1 \<and>
      unat (codewords_in_block e) * k = 8 * unat (data_block_size e) \<and>
      unat (codeword_block_size e) = unat (codeword_buffer_size e) * unat (codewords_in_block e) \<and>
      0 < unat (data_block_size e) \<and> 0 < unat (codewords_in_block e))"

lemma Lcm_values:
  "Lcm 3 8 = Inr 24" "Lcm 4 8 = Inr 8" "Lcm 5 8 = Inr 40" "Lcm 6 8 = Inr 24" "Lcm 7 8 = Inr 56" "Lcm 8 8 = Inr 8"
  by code_simp+

lemma word_3_8:
  assumes "\<not> (p < (3 :: u32) \<or> p > 8)"
  shows "p \<in> {3, 4, 5, 6, 7, 8}"
proof -
  have "3 \<le> unat p" "unat p \<le> 8" using assms by (auto simp: word_less_nat_alt not_less)
  then have "unat p = 3 \<or> unat p = 4 \<or> unat p = 5 \<or> unat p = 6 \<or> unat p = 7 \<or> unat p = 8" by linarith
  then show ?thesis by (auto simp: word_unat_eq_iff)
qed

lemma Hamming_Init_ok:
  assumes "Hamming_Init p e = (e', Inr ())"
  shows "hamming_ok e' \<and> parity_bits e' = p"
proof -
  have "\<not> (p < (3 :: u32) \<or> p > 8)" using assms
    by (auto simp: Hamming_Init_def kEncoderHammingParityBitsMin_def kEncoderHammingParityBitsMax_def)
  then have "p \<in> {3, 4, 5, 6, 7, 8}" by (rule word_3_8)
  then show ?thesis using assms
    by (elim insertE emptyE)
       (simp_all add: Hamming_Init_def kEncoderHammingParityBitsMin_def kEncoderHammingParityBitsMax_def
          Let_def Lcm_values hamming_ok_def, auto)
qed

lemma Hamming_Init_accepts:
  "(\<exists>e'. Hamming_Init p e = (e', Inr ())) \<longleftrightarrow> 3 \<le> unat p \<and> unat p \<le> 8"
proof
  assume "\<exists>e'. Hamming_Init p e = (e', Inr ())"
  then show "3 \<le> unat p \<and> unat p \<le> 8" using Hamming_Init_ok by (fastforce simp: hamming_ok_def Let_def)
next
  assume "3 \<le> unat p \<and> unat p \<le> 8"
  then have "p \<in> {3, 4, 5, 6, 7, 8}" by (intro word_3_8) (simp add: word_less_nat_alt)
  then show "\<exists>e'. Hamming_Init p e = (e', Inr ())"
    by (elim insertE emptyE)
       (simp_all add: Hamming_Init_def kEncoderHammingParityBitsMin_def kEncoderHammingParityBitsMax_def
          Let_def Lcm_values)
qed

lemma HammingEncoder_default_ok: "\<exists>e. HammingEncoder_default = Inr e \<and> hamming_ok e \<and> parity_bits e = 5"
proof -
  obtain e' where "Hamming_Init 5 hamming_init = (e', Inr ())" using Hamming_Init_accepts [of 5] by auto
  then show ?thesis using Hamming_Init_ok
    by (auto simp: HammingEncoder_default_def HammingEncoder_def kEncoderHammingDefaultParityBits_def res_simps)
qed

section \<open>Embedding\<close>

text \<open>One codeword: after the pass its syndrome is the data.\<close>

lemma syndrome_cong: "(\<And>n. n < m \<Longrightarrow> buf_bit a n = buf_bit b n) \<Longrightarrow> syndrome a m = syndrome b m"
  by (induction m) auto

lemma xor_cancel: "(a :: u64) XOR (a XOR b) = b"
  by (simp add: xor.assoc [symmetric])

lemma embed_codeword:
  fixes buf :: bytes and h m :: u64
  assumes k: "k \<le> 8" "T = 2 ^ k - 1" "T \<le> 8 * length buf" and m: "unat m < 2 ^ k"
  defines "h \<equiv> syndrome buf T XOR m"
  defines "buf' \<equiv> (if h \<noteq> 0 then SwapBitInCodeword buf (unat h) else buf)"
  shows "syndrome buf' T = m" and "length buf' = length buf"
    and "\<And>n. n < 8 * length buf \<Longrightarrow> buf_bit buf' n = (if h \<noteq> 0 \<and> n = unat h - 1 then \<not> buf_bit buf n else buf_bit buf n)"
proof -
  have T1: "T < 2 ^ k" using k(2) by simp
  have "unat (syndrome buf T) < 2 ^ k" using syndrome_less [OF T1] k(1) by simp
  then have h: "unat h < 2 ^ k" using m unfolding h_def
    by (simp add: unsigned_xor_eq) (metis take_bit_nat_eq_self_iff take_bit_xor)
  show "length buf' = length buf" by (simp add: buf'_def)
  show b: "buf_bit buf' n = (if h \<noteq> 0 \<and> n = unat h - 1 then \<not> buf_bit buf n else buf_bit buf n)"
    if "n < 8 * length buf" for n
  proof (cases "h = 0")
    case False
    then have "0 < unat h" by (simp add: unat_gt_0)
    moreover have "(unat h - 1) div 8 < length buf"
      using h k(2,3) \<open>0 < unat h\<close> by (simp add: div_less_iff_less_mult)
    ultimately show ?thesis using False that SwapBit_bits [of "unat h" buf n] by (simp add: buf'_def)
  qed (simp add: buf'_def)
  show "syndrome buf' T = m"
  proof (cases "h = 0")
    case True
    then have "syndrome buf T = m" unfolding h_def by (metis xor_cancel xor.right_neutral)
    then show ?thesis using True by (simp add: buf'_def)
  next
    case False
    then have h0: "0 < unat h" by (simp add: unat_gt_0)
    then have q: "unat h - 1 < T" using h k(2) by simp
    have "syndrome buf' T = (if unat h - 1 < T then syndrome buf T XOR word_of_nat (Suc (unat h - 1)) else syndrome buf T)"
      using b k(3) False by (intro syndrome_flip) auto
    also have "\<dots> = syndrome buf T XOR h" using q h0 by simp
    finally show ?thesis by (simp add: h_def xor_cancel)
  qed
qed

text \<open>Codeword \<open>i\<close> of a block.\<close>

definition cw_at :: "nat \<Rightarrow> nat \<Rightarrow> bytes \<Rightarrow> bytes" where
  "cw_at sz i cw = take sz (drop (i * sz) cw)"

lemma cw_fits: "i < c \<Longrightarrow> i * sz + sz \<le> sz * (c :: nat)"
  by (metis Suc_leI mult.commute mult_Suc add.commute mult_le_mono2)

lemma buf_bit_take: "n < 8 * m \<Longrightarrow> m \<le> length buf \<Longrightarrow> buf_bit (take m buf) n = buf_bit buf n"
proof -
  assume "n < 8 * m" "m \<le> length buf"
  then have "n div 8 < m" by (simp add: div_less_iff_less_mult mult.commute)
  then show ?thesis by (simp add: buf_bit_def)
qed

lemma Hamming_Embed_fold:
  assumes "length cw = unat (codeword_block_size e)" "length d = unat (data_block_size e)"
  shows "Hamming_Embed e (Some cw) (Some d) =
           Inr (fst (fold (embed_step e d) [0..<unat (codewords_in_block e)] (cw, 0)))"
  using assms by (simp add: Hamming_Embed_def)


lemma update_tail: "n \<le> length xs \<Longrightarrow> take n xs @ (drop n xs)[a := v] = xs[n + a := v]"
proof -
  assume "n \<le> length xs"
  then have "(take n xs @ drop n xs)[n + a := v] = take n xs @ (drop n xs)[a := v]"
    by (simp add: list_update_append min_def del: append_take_drop_id)
  then show ?thesis by simp
qed

lemma splice_swap:
  assumes "i * sz + sz \<le> length cw" "0 < h" "(h - 1) div 8 < sz"
  defines "cw' \<equiv> take (i * sz) cw @ SwapBitInCodeword (drop (i * sz) cw) h"
  shows "length cw' = length cw"
    and "cw_at sz i cw' = SwapBitInCodeword (cw_at sz i cw) h"
    and "j \<noteq> i \<Longrightarrow> j * sz + sz \<le> length cw \<Longrightarrow> cw_at sz j cw' = cw_at sz j cw"
proof -
  let ?a = "(h - 1) div 8"
  have e: "cw' = cw[i * sz + ?a := drop (i * sz) cw ! ?a XOR push_bit (7 - (h - 1) mod 8) 1]"
    using assms(1,2) by (simp add: cw'_def SwapBitInCodeword_def Let_def update_tail)
  show "length cw' = length cw" by (simp add: e)
  show "cw_at sz i cw' = SwapBitInCodeword (cw_at sz i cw) h"
    using assms(1-3)
    by (simp add: cw_at_def cw'_def SwapBitInCodeword_def Let_def take_update_swap min_def)
  show "cw_at sz j cw' = cw_at sz j cw" if "j \<noteq> i" "j * sz + sz \<le> length cw"
  proof -
    have "j * sz + sz \<le> i * sz \<or> i * sz + sz \<le> j * sz"
      using that(1) by (metis Suc_leI linorder_neqE_nat mult_Suc add.commute mult_le_mono1)
    then show ?thesis unfolding e cw_at_def using that(2) assms(3)
      by (simp add: list_eq_iff_nth nth_list_update) auto
  qed
qed

definition embed_inv :: "hamming \<Rightarrow> bytes \<Rightarrow> bytes \<Rightarrow> nat \<Rightarrow> bytes \<Rightarrow> bool" where
  "embed_inv e d cw0 i cw \<longleftrightarrow>
     (let sz = unat (codeword_buffer_size e); k = unat (parity_bits e) in
      length cw = length cw0 \<and>
      (\<forall>j < unat (codewords_in_block e).
         if j < i
         then syndrome (cw_at sz j cw) (unat (total_bits e)) = ReadBitsFromBuffer d (j * k) k \<and>
              (\<exists>q. \<forall>n < 8 * sz. n \<noteq> q \<longrightarrow> buf_bit (cw_at sz j cw) n = buf_bit (cw_at sz j cw0) n)
         else cw_at sz j cw = cw_at sz j cw0))"

lemma hamming_okD:
  assumes "hamming_ok e"
  defines "k \<equiv> unat (parity_bits e)" and "sz \<equiv> unat (codeword_buffer_size e)" and "T \<equiv> unat (total_bits e)"
  shows "3 \<le> k" "k \<le> 8" "T = 2 ^ k - 1" "T \<le> 8 * sz" "T < 1000"
    "unat (codewords_in_block e) * k = 8 * unat (data_block_size e)"
    "unat (codeword_block_size e) = sz * unat (codewords_in_block e)"
proof -
  show k: "3 \<le> k" "k \<le> 8" "T = 2 ^ k - 1"
    "unat (codewords_in_block e) * k = 8 * unat (data_block_size e)"
    "unat (codeword_block_size e) = sz * unat (codewords_in_block e)"
    using assms by (simp_all add: hamming_ok_def Let_def)
  have "sz = (2 ^ k - 2) div 8 + 1" using assms by (simp add: hamming_ok_def Let_def)
  then show "T \<le> 8 * sz" using k(3) by simp
  have "(2::nat) ^ k \<le> 2 ^ 8" using k(2) by (intro power_increasing) simp_all
  then show "T < 1000" using k(3) by simp
qed

lemma ComputeH_cw_at:
  assumes "hamming_ok e" "i * unat (codeword_buffer_size e) + unat (codeword_buffer_size e) \<le> length cw"
  shows "ComputeH e (drop (i * unat (codeword_buffer_size e)) cw) =
           syndrome (cw_at (unat (codeword_buffer_size e)) i cw) (unat (total_bits e))"
proof -
  note o = hamming_okD [OF assms(1)]
  show ?thesis unfolding ComputeH_syndrome [OF o(5,4)] cw_at_def
    by (rule syndrome_cong) (use o(4) assms(2) in \<open>auto simp: buf_bit_take\<close>)
qed

lemma ReadBits_less: "k \<le> 8 \<Longrightarrow> unat (ReadBitsFromBuffer d off k) < 2 ^ k"
proof -
  assume k: "k \<le> 8"
  have "take_bit k (ReadBitsFromBuffer d off k) = ReadBitsFromBuffer d off k"
    using k by (intro bit_eqI) (auto simp: bit_take_bit_iff ReadBits_spec)
  then have "unat (ReadBitsFromBuffer d off k) = unat (ReadBitsFromBuffer d off k) mod 2 ^ k"
    by (metis unat_take_mod)
  also have "\<dots> < 2 ^ k" by simp
  finally show ?thesis .
qed

lemma embed_step_inv:
  assumes ok: "hamming_ok e" and i: "i < unat (codewords_in_block e)" and l: "length cw0 = unat (codeword_block_size e)"
      and inv: "embed_inv e d cw0 i cw"
  shows "\<exists>cw'. embed_step e d i (cw, i * unat (parity_bits e)) = (cw', Suc i * unat (parity_bits e)) \<and> embed_inv e d cw0 (Suc i) cw'"
proof -
  let ?sz = "unat (codeword_buffer_size e)" and ?k = "unat (parity_bits e)" and ?T = "unat (total_bits e)"
  let ?c = "unat (codewords_in_block e)"
  note o = hamming_okD [OF ok]
  have lc: "length cw = ?sz * ?c" using inv l o(7) by (simp add: embed_inv_def Let_def)
  have fit: "j * ?sz + ?sz \<le> length cw" if "j < ?c" for j using cw_fits [OF that] by (simp add: lc)
  let ?m = "ReadBitsFromBuffer d (i * ?k) ?k"
  define h where "h = syndrome (cw_at ?sz i cw) ?T XOR ?m"
  define cw' where "cw' = (if h \<noteq> 0 then take (i * ?sz) cw @ SwapBitInCodeword (drop (i * ?sz) cw) (unat h) else cw)"
  have st: "embed_step e d i (cw, i * ?k) = (cw', Suc i * ?k)"
    by (simp add: embed_step_def Let_def ComputeH_cw_at [OF ok fit [OF i]] h_def cw'_def)
  have li: "length (cw_at ?sz i cw) = ?sz" using fit [OF i] by (simp add: cw_at_def)
  note E = embed_codeword [OF o(2,3), of "cw_at ?sz i cw" ?m, unfolded li, OF o(4) ReadBits_less [OF o(2)], folded h_def]
  have "unat h < 2 ^ ?k"
  proof -
    have "unat (syndrome (cw_at ?sz i cw) ?T) < 2 ^ ?k" using o(2,3) by (intro syndrome_less) simp_all
    then show ?thesis using ReadBits_less [OF o(2), of d "i * ?k"] unfolding h_def
      by (simp add: unsigned_xor_eq) (metis take_bit_nat_eq_self_iff take_bit_xor)
  qed
  then have hq: "h \<noteq> 0 \<Longrightarrow> 0 < unat h \<and> (unat h - 1) div 8 < ?sz"
  proof -
    assume "h \<noteq> 0"
    then have "0 < unat h" by (simp add: unat_gt_0)
    moreover have "unat h \<le> 8 * ?sz" using \<open>unat h < 2 ^ ?k\<close> o(3,4) by linarith
    ultimately show ?thesis by (simp add: div_less_iff_less_mult)
  qed
  have own: "cw_at ?sz i cw' = (if h \<noteq> 0 then SwapBitInCodeword (cw_at ?sz i cw) (unat h) else cw_at ?sz i cw)"
    using splice_swap(2) [OF fit [OF i]] hq by (auto simp: cw'_def)
  have other: "cw_at ?sz j cw' = cw_at ?sz j cw" if "j \<noteq> i" "j < ?c" for j
    using splice_swap(3) [OF fit [OF i] _ _ that(1) fit [OF that(2)]] hq by (auto simp: cw'_def)
  have len: "length cw' = length cw"
    using splice_swap(1) [OF fit [OF i]] hq by (auto simp: cw'_def)
  have same: "cw_at ?sz i cw = cw_at ?sz i cw0" using inv i by (simp add: embed_inv_def Let_def)
  have "syndrome (cw_at ?sz i cw') ?T = ?m" unfolding own by (rule E(1))
  moreover have "\<exists>q. \<forall>n < 8 * ?sz. n \<noteq> q \<longrightarrow> buf_bit (cw_at ?sz i cw') n = buf_bit (cw_at ?sz i cw0) n"
    unfolding own same [symmetric] using E(3) by (intro exI [of _ "unat h - 1"]) auto
  ultimately have "embed_inv e d cw0 (Suc i) cw'"
    using inv len other i by (auto simp: embed_inv_def Let_def less_Suc_eq)
  with st show ?thesis by blast
qed

lemma embed_fold_inv:
  assumes "hamming_ok e" "length cw0 = unat (codeword_block_size e)" "i \<le> unat (codewords_in_block e)"
  shows "\<exists>cw. fold (embed_step e d) [0..<i] (cw0, 0) = (cw, i * unat (parity_bits e)) \<and> embed_inv e d cw0 i cw"
  using assms(3)
proof (induction i)
  case 0
  then show ?case by (simp add: embed_inv_def)
next
  case (Suc i)
  then obtain cw where "fold (embed_step e d) [0..<i] (cw0, 0) = (cw, i * unat (parity_bits e))" "embed_inv e d cw0 i cw"
    by auto
  then show ?case using embed_step_inv [OF assms(1) _ assms(2), of i d cw] Suc.prems by auto
qed

lemma Hamming_Embed_spec:
  assumes "hamming_ok e" "length cw = unat (codeword_block_size e)" "length d = unat (data_block_size e)"
  shows "\<exists>cw'. Hamming_Embed e (Some cw) (Some d) = Inr cw' \<and> embed_inv e d cw (unat (codewords_in_block e)) cw'"
  using embed_fold_inv [OF assms(1,2) order_refl, of d] Hamming_Embed_fold [OF assms(2,3)] by auto

section \<open>Extracting\<close>

lemma Hamming_Extract_fold:
  assumes "length cw = unat (codeword_block_size e)" "length d = unat (data_block_size e)"
  shows "Hamming_Extract e (Some cw) (Some d) =
           Inr (fst (fold (extract_step e cw) [0..<unat (codewords_in_block e)] (replicate (unat (data_block_size e)) 0, 0)))"
  using assms by (simp add: Hamming_Extract_def copy_at_def)

lemma extract_fold:
  assumes ok: "hamming_ok e" and l: "length cw = unat (codeword_block_size e)" and i: "i \<le> unat (codewords_in_block e)"
  defines "k \<equiv> unat (parity_bits e)" and "sz \<equiv> unat (codeword_buffer_size e)" and "T \<equiv> unat (total_bits e)"
  shows "\<exists>d. fold (extract_step e cw) [0..<i] (replicate (unat (data_block_size e)) 0, 0) = (d, i * k)
           \<and> length d = unat (data_block_size e)
           \<and> (\<forall>n < 8 * length d. buf_bit d n \<longleftrightarrow>
                n < i * k \<and> bit (syndrome (cw_at sz (n div k) cw) T) (k - 1 - n mod k))"
  using i
proof (induction i)
  case 0
  have "\<not> buf_bit (replicate m 0) n" if "n < 8 * m" for m n
    using that by (simp add: buf_bit_def div_less_iff_less_mult mult.commute)
  then show ?case by simp
next
  case (Suc i)
  note o = hamming_okD [OF ok, folded k_def sz_def T_def]
  obtain d where d: "fold (extract_step e cw) [0..<i] (replicate (unat (data_block_size e)) 0, 0) = (d, i * k)"
      "length d = unat (data_block_size e)"
      "\<And>n. n < 8 * length d \<Longrightarrow> buf_bit d n \<longleftrightarrow> n < i * k \<and> bit (syndrome (cw_at sz (n div k) cw) T) (k - 1 - n mod k)"
    using Suc by auto
  define h where "h = syndrome (cw_at sz i cw) T"
  have fit: "i * sz + sz \<le> length cw" using cw_fits [of i "unat (codewords_in_block e)" sz] Suc.prems l o(7) by simp
  have H: "ComputeH e (drop (i * sz) cw) = h"
    using ComputeH_cw_at [OF ok] fit by (simp add: h_def sz_def T_def)
  have hk: "unat h < 2 ^ k" unfolding h_def using o(2,3) by (intro syndrome_less) simp_all
  have hb: "\<forall>t \<ge> k. \<not> bit h t"
  proof clarify
    fix t assume "k \<le> t" "bit h t"
    then have "bit (unat h) t" by (simp add: bit_unsigned_iff)
    moreover have "unat h = take_bit k (unat h)" using hk by (simp add: take_bit_nat_eq_self)
    ultimately show False using \<open>k \<le> t\<close> by (metis bit_take_bit_iff not_le)
  qed
  have room: "i * k + k \<le> 8 * length d"
  proof -
    have "Suc i * k \<le> unat (codewords_in_block e) * k" using Suc.prems by (intro mult_le_mono1) simp
    then show ?thesis using o(6) d(2) by (simp add: add.commute)
  qed
  have k0: "0 < unat (parity_bits e)" "unat (parity_bits e) \<le> 8" using o(1,2) by (simp_all add: k_def)
  note W = WriteBits_spec [OF k0, of "i * k" d h, folded k_def, OF room hb]
  let ?d' = "WriteBitsToBuffer e h (i * k) d"
  have "fold (extract_step e cw) [0..<Suc i] (replicate (unat (data_block_size e)) 0, 0) = (?d', Suc i * k)"
    using d(1) by (simp add: extract_step_def H [unfolded sz_def] k_def [symmetric])
  moreover have "buf_bit ?d' n \<longleftrightarrow> n < Suc i * k \<and> bit (syndrome (cw_at sz (n div k) cw) T) (k - 1 - n mod k)"
    if "n < 8 * length d" for n
  proof -
    have kp: "0 < k" using o(1) by simp
    consider "n < i * k" | "i * k \<le> n" "n < i * k + k" | "i * k + k \<le> n" by linarith
    then show ?thesis
    proof cases
      case 2
      then have "n div k = i" "n mod k = n - i * k"
      proof -
        show "n div k = i" using 2 by (intro div_nat_eqI) (simp_all add: mult.commute)
        then show "n mod k = n - i * k" by (metis minus_div_mult_eq_mod)
      qed
      moreover have "i * k + k - 1 - n = k - 1 - (n - i * k)" using 2 by linarith
      ultimately show ?thesis using W(2) [OF that] d(3) [OF that] 2 by (simp add: h_def add.commute)
    qed (use W(2) [OF that] d(3) [OF that] in \<open>auto simp: add.commute\<close>)
  qed
  ultimately show ?case using W(1) d(2) by auto
qed


lemma Hamming_Extract_spec:
  assumes ok: "hamming_ok e" and l: "length cw = unat (codeword_block_size e)" "length d0 = unat (data_block_size e)"
  defines "k \<equiv> unat (parity_bits e)" and "sz \<equiv> unat (codeword_buffer_size e)" and "T \<equiv> unat (total_bits e)"
  shows "\<exists>d. Hamming_Extract e (Some cw) (Some d0) = Inr d \<and> length d = unat (data_block_size e)
           \<and> (\<forall>n < 8 * length d. buf_bit d n \<longleftrightarrow> bit (syndrome (cw_at sz (n div k) cw) T) (k - 1 - n mod k))"
proof -
  have "unat (codewords_in_block e) * k = 8 * unat (data_block_size e)"
    using hamming_okD(6) [OF ok] by (simp add: k_def)
  then show ?thesis
    using extract_fold [OF ok l(1) order_refl] Hamming_Extract_fold [OF l]
    by (auto simp: k_def sz_def T_def)
qed

text \<open>Extraction returns what was embedded.\<close>

lemma Hamming_extract_embed:
  assumes ok: "hamming_ok e" and l: "length cw = unat (codeword_block_size e)" "length d = unat (data_block_size e)"
      and d0: "length d0 = unat (data_block_size e)" and E: "Hamming_Embed e (Some cw) (Some d) = Inr cw'"
  shows "Hamming_Extract e (Some cw') (Some d0) = Inr d"
proof -
  let ?k = "unat (parity_bits e)" and ?sz = "unat (codeword_buffer_size e)" and ?T = "unat (total_bits e)"
  note o = hamming_okD [OF ok]
  have inv: "embed_inv e d cw (unat (codewords_in_block e)) cw'" using Hamming_Embed_spec [OF ok l] E by auto
  then have l': "length cw' = unat (codeword_block_size e)" using l by (simp add: embed_inv_def Let_def)
  obtain r where r: "Hamming_Extract e (Some cw') (Some d0) = Inr r" "length r = unat (data_block_size e)"
      "\<And>n. n < 8 * length r \<Longrightarrow> buf_bit r n \<longleftrightarrow> bit (syndrome (cw_at ?sz (n div ?k) cw') ?T) (?k - 1 - n mod ?k)"
    using Hamming_Extract_spec [OF ok l' d0] by auto
  have "r = d"
  proof (rule buf_eqI)
    show "length r = length d" using r(2) l(2) by simp
    fix n assume n: "n < 8 * length r"
    have k0: "0 < ?k" using o(1) by simp
    have j: "n div ?k < unat (codewords_in_block e)"
      using n r(2) o(6) k0 by (simp add: div_less_iff_less_mult)
    have "syndrome (cw_at ?sz (n div ?k) cw') ?T = ReadBitsFromBuffer d (n div ?k * ?k) ?k"
      using inv j by (simp add: embed_inv_def Let_def)
    then have "buf_bit r n \<longleftrightarrow> bit (ReadBitsFromBuffer d (n div ?k * ?k) ?k) (?k - 1 - n mod ?k)" using r(3) [OF n] by simp
    also have "\<dots> \<longleftrightarrow> buf_bit d (n div ?k * ?k + ?k - 1 - (?k - 1 - n mod ?k))"
      using o(2) k0 by (subst ReadBits_spec) auto
    also have "n div ?k * ?k + ?k - 1 - (?k - 1 - n mod ?k) = n"
    proof -
      have "n mod ?k < ?k" using k0 by simp
      then have "n div ?k * ?k + ?k - 1 - (?k - 1 - n mod ?k) = n div ?k * ?k + n mod ?k" by linarith
      then show ?thesis by simp
    qed
    finally show "buf_bit r n = buf_bit d n" .
  qed
  with r(1) show ?thesis by simp
qed

interpretation hamming: encoder_class hamming_ok "\<lambda>e. unat (data_block_size e)" "\<lambda>e. unat (codeword_block_size e)"
    Hamming_Embed Hamming_Extract
proof (unfold_locales, goal_cases)
  case (1 e)
  then show ?case by (simp add: hamming_ok_def Let_def)
next
  case (2 e cw d)
  then show ?case using Hamming_Embed_spec [OF 2] by (auto simp: embed_inv_def Let_def)
next
  case (3 e cw d)
  then show ?case using Hamming_Extract_spec [OF 3] by auto
next
  case (4 e cw d d0 cw')
  then show ?case by (rule Hamming_extract_embed)
qed

end
