(* ===== verification/Encoder_Factory.thy ===== *)
theory Encoder_Factory
  imports Hamming_Encoder
begin

text \<open>
  \<^verbatim>\<open>src/encoders/encoder_factory.cc\<close>, and the virtual calls of the class \<open>Encoder\<close>: a
  \<open>shared_ptr<Encoder>\<close> is a value of the datatype \<open>encoder\<close>, its virtual methods are dispatched
  on the constructor.
\<close>

section \<open>Dynamic dispatch\<close>

datatype encoder = LsbEnc enc_base | HammingEnc hamming

fun Encoder_Embed :: "encoder \<Rightarrow> bytes option \<Rightarrow> bytes option \<Rightarrow> bytes res" where
  "Encoder_Embed (LsbEnc e) = Lsb_Embed e"
| "Encoder_Embed (HammingEnc e) = Hamming_Embed e"

fun Encoder_Extract :: "encoder \<Rightarrow> bytes option \<Rightarrow> bytes option \<Rightarrow> bytes res" where
  "Encoder_Extract (LsbEnc e) = Lsb_Extract e"
| "Encoder_Extract (HammingEnc e) = Hamming_Extract e"

fun GetDataBlockSize :: "encoder \<Rightarrow> u32" where
  "GetDataBlockSize (LsbEnc e) = Encoder_GetDataBlockSize e"
| "GetDataBlockSize (HammingEnc e) = Encoder_GetDataBlockSize e"

fun GetCodewordBlockSize :: "encoder \<Rightarrow> u32" where
  "GetCodewordBlockSize (LsbEnc e) = Encoder_GetCodewordBlockSize e"
| "GetCodewordBlockSize (HammingEnc e) = Encoder_GetCodewordBlockSize e"

fun SetArgByName :: "string \<Rightarrow> string \<Rightarrow> (encoder, unit) meth" where
  "SetArgByName arg val (LsbEnc e) = (case Lsb_SetArgByName arg val e of (e', r) \<Rightarrow> (LsbEnc e', r))"
| "SetArgByName arg val (HammingEnc e) = (case Hamming_SetArgByName arg val e of (e', r) \<Rightarrow> (HammingEnc e', r))"

fun Encoder_GetNameInstance :: "encoder \<Rightarrow> string" where
  "Encoder_GetNameInstance (LsbEnc e) = Lsb_GetName"
| "Encoder_GetNameInstance (HammingEnc e) = Hamming_GetName"

definition mapR :: "('a \<Rightarrow> 'b) \<Rightarrow> 'a res \<Rightarrow> 'b res" where
  "mapR f r = bindR r (\<lambda>x. Inr (f x))"

fun Encoder_GetNewInstance :: "encoder \<Rightarrow> encoder res" where
  "Encoder_GetNewInstance (LsbEnc e) = mapR LsbEnc LsbEncoder_default"
| "Encoder_GetNewInstance (HammingEnc e) = mapR HammingEnc HammingEncoder_default"

section \<open>The factory\<close>

datatype EncoderType = LSB | HAMMING

definition kDefaultEncoder :: EncoderType where
  "kDefaultEncoder = HAMMING"

definition GetDefaultEncoderType :: EncoderType where
  "GetDefaultEncoderType = kDefaultEncoder"

fun GetEncoder :: "EncoderType \<Rightarrow> encoder res" where
  "GetEncoder LSB = mapR LsbEnc LsbEncoder_default"
| "GetEncoder HAMMING = mapR HammingEnc HammingEncoder_default"

definition GetDefaultEncoder :: "encoder res" where
  "GetDefaultEncoder = GetEncoder kDefaultEncoder"

definition GetEncoders :: "encoder list res" where
  "GetEncoders =
     bindR (mapR LsbEnc LsbEncoder_default) (\<lambda>l.
     bindR (mapR HammingEnc HammingEncoder_default) (\<lambda>h. Inr [l, h]))"

text \<open>The parameters of the two loops of \<open>GetAllEncoders\<close>: 3 to 8, and \<open>1, 2, 4, \<dots>, 1024\<close>.\<close>

function lsb_sizes :: "nat \<Rightarrow> nat list" where
  "lsb_sizes i = (if 0 < i \<and> i \<le> unat kEncoderLsbBlockSizeMax then i # lsb_sizes (2 * i) else [])"
  by pat_completeness auto
termination
  by (relation "measure (\<lambda>i. Suc (unat kEncoderLsbBlockSizeMax) - i)") auto

declare lsb_sizes.simps [simp del]

definition GetAllEncoders :: "encoder list res" where
  "GetAllEncoders =
     bindR (foldR (\<lambda>i list. bindR (HammingEncoder (word_of_nat i)) (\<lambda>h. Inr (list @ [HammingEnc h])))
              [unat kEncoderHammingParityBitsMin..<Suc (unat kEncoderHammingParityBitsMax)] []) (\<lambda>list.
     foldR (\<lambda>i list. bindR (LsbEncoder (word_of_nat i)) (\<lambda>l. Inr (list @ [LsbEnc l])))
       (lsb_sizes (unat kEncoderLsbBlockSizeMin)) list)"

definition GetEncoderNames :: "string list" where
  "GetEncoderNames = [Hamming_GetName, Lsb_GetName]"

definition SetEncoderArg :: "string \<Rightarrow> string \<Rightarrow> (encoder option, unit) meth" where
  "SetEncoderArg param val e =
     (case e of
        None \<Rightarrow> (e, Inl (NullptrArgument ''encoder''))
      | Some enc \<Rightarrow>
          if param = [] then (e, Inl (EmptyArgument ''param''))
          else if val = [] then (e, Inl (EmptyArgument ''val''))
          else (case SetArgByName param val enc of (enc', r) \<Rightarrow> (Some enc', r)))"

definition GetEncoderName :: "EncoderType \<Rightarrow> string" where
  "GetEncoderName encoder = (if encoder = LSB then ''lsb'' else ''hamming'')"

definition GetEncoderType :: "string \<Rightarrow> EncoderType" where
  "GetEncoderType encoder =
     (let l_encoder = lower encoder in
      if l_encoder = ''lsb'' then LSB
      else if l_encoder = ''hamming'' then HAMMING
      else GetDefaultEncoderType)"

section \<open>What the factory makes\<close>

fun encoder_ok :: "encoder \<Rightarrow> bool" where
  "encoder_ok (LsbEnc e) = lsb_ok e"
| "encoder_ok (HammingEnc e) = hamming_ok e"

text \<open>The dispatched methods satisfy the contract because each class does.\<close>

interpretation encoder: encoder_class encoder_ok "\<lambda>e. unat (GetDataBlockSize e)" "\<lambda>e. unat (GetCodewordBlockSize e)"
    Encoder_Embed Encoder_Extract
proof (unfold_locales, goal_cases)
  case (1 e)
  then show ?case using lsb.sizes_pos hamming.sizes_pos
    by (cases e) (simp_all add: Encoder_GetDataBlockSize_def Encoder_GetCodewordBlockSize_def)
next
  case (2 e cw d)
  then show ?case using lsb.embed_total hamming.embed_total
    by (cases e) (simp_all add: Encoder_GetDataBlockSize_def Encoder_GetCodewordBlockSize_def)
next
  case (3 e cw d)
  then show ?case using lsb.retrieve_total hamming.retrieve_total
    by (cases e) (simp_all add: Encoder_GetDataBlockSize_def Encoder_GetCodewordBlockSize_def)
next
  case (4 e cw d d0 cw')
  then show ?case using lsb.retrieve_embed hamming.retrieve_embed
    by (cases e) (simp_all add: Encoder_GetDataBlockSize_def Encoder_GetCodewordBlockSize_def)
qed

lemma GetEncoder_ok: "\<exists>e. GetEncoder t = Inr e \<and> encoder_ok e"
  using LsbEncoder_default_ok HammingEncoder_default_ok
  by (cases t) (auto simp: mapR_def res_simps)

lemma Lsb_SetArg_ok: "lsb_ok e \<Longrightarrow> lsb_ok (fst (Lsb_SetArgByName a v e))"
  by (auto simp: Lsb_SetArgByName_def Lsb_Init_correct lsb_ok_def split: sum.splits if_splits)

lemma Hamming_Init_fst: "hamming_ok e \<Longrightarrow> hamming_ok (fst (Hamming_Init p e))"
proof -
  assume e: "hamming_ok e"
  obtain e' r where r: "Hamming_Init p e = (e', r)" by fastforce
  show "hamming_ok (fst (Hamming_Init p e))"
  proof (cases r)
    case (Inr u)
    then show ?thesis using r Hamming_Init_ok by fastforce
  next
    case (Inl err)
    have "\<not> (3 \<le> unat p \<and> unat p \<le> 8)" using r Inl Hamming_Init_accepts [of p e] by auto
    then have "p < 3 \<or> 8 < p" by (auto simp: word_less_nat_alt not_less)
    then show ?thesis using e
      by (auto simp: Hamming_Init_def kEncoderHammingParityBitsMin_def kEncoderHammingParityBitsMax_def)
  qed
qed

lemma Hamming_SetArg_ok: "hamming_ok e \<Longrightarrow> hamming_ok (fst (Hamming_SetArgByName a v e))"
  by (auto simp: Hamming_SetArgByName_def Hamming_Init_fst split: sum.splits if_splits)

lemma SetArgByName_ok: "encoder_ok e \<Longrightarrow> encoder_ok (fst (SetArgByName a v e))"
  using Lsb_SetArg_ok Hamming_SetArg_ok by (cases e) (simp_all add: split_def)

section \<open>What the encoders promise\<close>

text \<open>
  C4. Every encoder that passes its own parameter check gives back what it embedded: \<open>Embed\<close> of a
  data block into a codeword block of the right lengths returns, keeps the length of the codeword
  block, and \<open>Extract\<close> of the result into any output block returns exactly the data.
\<close>

theorem encoder_roundtrip:
  assumes "encoder_ok e" and "length cw = unat (GetCodewordBlockSize e)"
      and "length d = unat (GetDataBlockSize e)" and "length d0 = length d"
  shows "\<exists>cw'. Encoder_Embed e (Some cw) (Some d) = Inr cw' \<and> length cw' = length cw \<and>
               Encoder_Extract e (Some cw') (Some d0) = Inr d"
proof -
  obtain cw' where c: "Encoder_Embed e (Some cw) (Some d) = Inr cw'" "length cw' = length cw"
    using encoder.embed_total [OF assms(1-3)] assms(2) by auto
  then show ?thesis using encoder.retrieve_embed [OF assms(1-3) _ c(1)] assms(3,4) by auto
qed

theorem encoder_roundtrip_witness:
  "\<exists>e cw'. GetEncoder LSB = Inr e \<and> Encoder_Embed e (Some [1]) (Some [2]) = Inr cw' \<and>
           Encoder_Extract e (Some cw') (Some [0]) = Inr [2]"
proof -
  obtain e where e: "GetEncoder LSB = Inr e" "encoder_ok e" using GetEncoder_ok by blast
  obtain l where l: "LsbEncoder_default = Inr l" "lsb_ok l" "data_block_size l = 1" using LsbEncoder_default_ok by blast
  have "e = LsbEnc l" using e(1) by (simp add: mapR_def l(1) res_simps)
  with l(2,3) have "GetDataBlockSize e = 1" "GetCodewordBlockSize e = 1"
    by (auto simp: lsb_ok_def Encoder_GetDataBlockSize_def Encoder_GetCodewordBlockSize_def)
  with e show ?thesis using encoder_roundtrip [OF e(2), of "[1]" "[2]" "[0]"] by auto
qed

text \<open>
  C23. The Hamming code changes at most one bit of each codeword: whatever the data, \<open>Embed\<close> leaves
  every codeword of the block within Hamming distance one of what it was.
\<close>

theorem hamming_one_bit_per_codeword:
  assumes "Hamming_Init p e0 = (e, Inr ())" and "length cw = unat (codeword_block_size e)"
      and "length d = unat (data_block_size e)" and "j < unat (codewords_in_block e)"
  shows "\<exists>cw' q. Hamming_Embed e (Some cw) (Some d) = Inr cw' \<and> length cw' = length cw \<and>
           (\<forall>n < 8 * unat (codeword_buffer_size e). n \<noteq> q \<longrightarrow>
              buf_bit (cw_at (unat (codeword_buffer_size e)) j cw') n =
              buf_bit (cw_at (unat (codeword_buffer_size e)) j cw) n)"
proof -
  have ok: "hamming_ok e" using Hamming_Init_ok [OF assms(1)] by simp
  show ?thesis using Hamming_Embed_spec [OF ok assms(2,3)] assms(4) by (fastforce simp: embed_inv_def Let_def)
qed

theorem hamming_one_bit_per_codeword_witness:
  "\<exists>e cw'. HammingEncoder_default = Inr e \<and>
       Hamming_Embed e (Some (replicate (unat (codeword_block_size e)) 0)) (Some (replicate (unat (data_block_size e)) 7)) = Inr cw'"
proof -
  obtain e where e: "Hamming_Init 5 hamming_init = (e, Inr ())" using Hamming_Init_accepts [of 5] by auto
  have "hamming_ok e" using Hamming_Init_ok [OF e] by simp
  then have "0 < unat (codewords_in_block e)" by (simp add: hamming_ok_def Let_def)
  then show ?thesis
    using hamming_one_bit_per_codeword [OF e, of "replicate (unat (codeword_block_size e)) 0" "replicate (unat (data_block_size e)) 7" 0] e
    by (auto simp: HammingEncoder_default_def HammingEncoder_def kEncoderHammingDefaultParityBits_def res_simps)
qed

text \<open>
  The LSB encoder accepts exactly the powers of two from 1 to 1024 as its block size, and an
  \<open>Init\<close> that throws leaves the encoder as it was.
\<close>

theorem lsb_init_accepts:
  "Lsb_Init n e =
     (if \<exists>k \<le> 10. unat n = 2 ^ k
      then (e\<lparr>data_block_size := n, codeword_block_size := n\<rparr>, Inr ()) else (e, Inl InvalidArgument))"
proof -
  have "(\<exists>k \<le> 10. unat n = 2 ^ k) \<longleftrightarrow> unat n \<in> (\<lambda>k. 2 ^ k) ` {..10 :: nat}" by auto
  also have "{..10 :: nat} = {0, 1, 2, 3, 4, 5, 6, 7, 8, 9, 10}" unfolding atMost_def by (simp add: set_eq_iff) presburger
  finally show ?thesis unfolding Lsb_Init_correct by (simp cong: if_cong)
qed

text \<open>
  C33. No argument setting breaks an encoder: whatever list of names and values is set on an encoder
  the factory made, and whether each \<open>SetArgByName\<close> throws or not, the encoder afterwards still
  meets the invariant under which it embeds and extracts.
\<close>

theorem set_arg_keeps_encoder:
  "\<exists>e. GetEncoder t = Inr e \<and> encoder_ok (fold (\<lambda>(a, v) e. fst (SetArgByName a v e)) args e)"
proof -
  have "encoder_ok (fold (\<lambda>(a, v) e. fst (SetArgByName a v e)) args e)" if "encoder_ok e" for e
    using that by (induction args arbitrary: e) (auto simp: SetArgByName_ok)
  then show ?thesis using GetEncoder_ok by blast
qed

end
