(* ===== verification/Carrier_File.thy ===== *)
theory Carrier_File
  imports File_System Encoder_Factory
begin

text \<open>
  \<^verbatim>\<open>src/carrier_files/carrier_file.cc\<close>, the base class of the carriers: the capacity of a file
  under an encoder, the part of the virtual storage it holds, the single bits of its buffer through
  the local permutation, and the two loops that move the bytes of the storage through the encoder.
  The pointer to the virtual storage is an index into the storages of the world.  The encoder is
  shared by all carriers and the manager and never changes while the carriers use it.
  No carrier is ever built with a \<open>Fitness\<close>, so the branches for one are left out.
\<close>

section \<open>The state of a carrier\<close>

text \<open>
  The members of \<open>CarrierFile\<close>; \<open>cf_class\<close> says which subclass an object is of, with the members
  the subclass adds.
\<close>

datatype carrier_class = BMP u32 u64 | JPEG | PNG

record carrier =
  cf_class :: carrier_class
  cf_buffer :: mbuf
  cf_width :: u32
  cf_height :: u32
  cf_is_grayscale :: bool
  cf_codeword_block_size :: u32
  cf_data_block_size :: u32
  cf_block_count :: u32
  cf_capacity :: u64
  cf_raw_capacity :: u64
  cf_blocks_used :: u32
  cf_offset :: u64
  cf_file_loaded :: bool
  cf_subkey :: "key option"
  cf_file :: file_obj
  cf_encoder :: "encoder option"
  cf_permutation :: "permutation option"
  cf_storage :: "nat option"

definition CarrierFile :: "carrier_class \<Rightarrow> file_obj \<Rightarrow> encoder option \<Rightarrow> permutation option \<Rightarrow> carrier" where
  "CarrierFile cls file' encoder permutation =
     \<lparr>cf_class = cls, cf_buffer = MB_new, cf_width = 0, cf_height = 0, cf_is_grayscale = False,
      cf_codeword_block_size = (case encoder of None \<Rightarrow> 0 | Some e \<Rightarrow> GetCodewordBlockSize e),
      cf_data_block_size = (case encoder of None \<Rightarrow> 0 | Some e \<Rightarrow> GetDataBlockSize e),
      cf_block_count = 0, cf_capacity = 0, cf_raw_capacity = 0, cf_blocks_used = 0, cf_offset = 0,
      cf_file_loaded = False, cf_subkey = None, cf_file = file', cf_encoder = encoder,
      cf_permutation = permutation, cf_storage = None\<rparr>"

text \<open>Dereferences of the pointers \<open>permutation_\<close> and \<open>subkey_\<close>.\<close>

definition cf_perm :: "carrier \<Rightarrow> permutation res" where
  "cf_perm c = (case cf_permutation c of None \<Rightarrow> Inl Undefined | Some p \<Rightarrow> Inr p)"

definition cf_key :: "carrier \<Rightarrow> key res" where
  "cf_key c = (case cf_subkey c of None \<Rightarrow> Inl Undefined | Some k \<Rightarrow> Inr k)"

section \<open>Capacity\<close>

definition CF_UnSetEncoder :: "carrier \<Rightarrow> carrier" where
  "CF_UnSetEncoder c = c\<lparr>cf_data_block_size := 1, cf_codeword_block_size := 1, cf_block_count := 0,
                          cf_capacity := 0, cf_encoder := None\<rparr>"

text \<open>
  \<open>SetEncoder\<close> sets the encoder and the block sizes before the permutation may throw.  The
  number of blocks is cast to 32 bits, and the capacity is a product of two 32-bit numbers.
\<close>

definition CF_SetEncoder :: "env \<Rightarrow> encoder option \<Rightarrow> (carrier, unit) meth" where
  "CF_SetEncoder E encoder c =
     (case encoder of
        None \<Rightarrow> (CF_UnSetEncoder c, Inr ())
      | Some e \<Rightarrow>
          let c = c\<lparr>cf_encoder := Some e, cf_data_block_size := GetDataBlockSize e,
                    cf_codeword_block_size := GetCodewordBlockSize e\<rparr> in
          (case bindR (cf_perm c) (\<lambda>p. bindR (cf_key c) (\<lambda>k.
                Perm_GetSizeUsingParams E (cf_raw_capacity c * 8) k p)) of
             Inl x \<Rightarrow> (c, Inl x)
           | Inr n \<Rightarrow>
               if GetCodewordBlockSize e = 0 then (c, Inl Undefined)
               else
                 let count = ucast (n div 8 div ucast (GetCodewordBlockSize e)) :: u32 in
                 (c\<lparr>cf_block_count := count,
                    cf_capacity := ucast (count * GetDataBlockSize e)\<rparr>, Inr ())))"

text \<open>The test returns 0 exactly when both pointers are set; otherwise one of them is dereferenced.\<close>

definition CF_GetCapacityUsingEncoder :: "env \<Rightarrow> encoder option \<Rightarrow> carrier \<Rightarrow> u64 res" where
  "CF_GetCapacityUsingEncoder E encoder c =
     (if encoder \<noteq> None \<and> cf_permutation c \<noteq> None then Inr 0
      else bindR (cf_perm c) (\<lambda>p. bindR (cf_key c) (\<lambda>k.
           bindR (Perm_GetSizeUsingParams E (cf_raw_capacity c * 8) k p) (\<lambda>n.
           case encoder of
             None \<Rightarrow> Inl Undefined
           | Some e \<Rightarrow> if GetCodewordBlockSize e = 0 then Inl Undefined
                       else Inr ((n div 8 div ucast (GetCodewordBlockSize e)) * ucast (GetDataBlockSize e))))))"

definition CF_GetPermKey :: "(nat \<Rightarrow> u8) \<Rightarrow> carrier \<Rightarrow> key res" where
  "CF_GetPermKey garbage c = Key_FromString garbage (GetNormalizedPath (cf_file c))"

definition CF_SetSubkey :: "(nat \<Rightarrow> u8) \<Rightarrow> key \<Rightarrow> carrier \<Rightarrow> carrier res" where
  "CF_SetSubkey garbage subkey c =
     bindR (Key_GetData subkey) (\<lambda>b. bindR (Key_of_buffer garbage b) (\<lambda>k.
     Inr (c\<lparr>cf_subkey := Some k\<rparr>)))"

definition CF_AddToVirtualStorage :: "nat option \<Rightarrow> u64 \<Rightarrow> u64 \<Rightarrow> carrier \<Rightarrow> carrier res" where
  "CF_AddToVirtualStorage vstorage offset bytes_used c =
     (let c = c\<lparr>cf_storage := vstorage, cf_offset := offset\<rparr> in
      if bytes_used \<noteq> 0
      then if cf_data_block_size c = 0 then Inl Undefined
           else Inr (c\<lparr>cf_blocks_used := ucast ((bytes_used - 1) div ucast (cf_data_block_size c) + 1)\<rparr>)
      else Inr (c\<lparr>cf_blocks_used := 0\<rparr>))"

definition CF_less :: "carrier \<Rightarrow> carrier \<Rightarrow> bool" where
  "CF_less a b = string_less (lower (GetRelativePath (cf_file a))) (lower (GetRelativePath (cf_file b)))"

definition CF_CompareBySharedPointers :: "carrier \<Rightarrow> carrier \<Rightarrow> bool" where
  "CF_CompareBySharedPointers a b = CF_less a b"

section \<open>Single bits\<close>

definition CF_SetBitInBufferPermuted :: "u64 \<Rightarrow> carrier \<Rightarrow> carrier res" where
  "CF_SetBitInBufferPermuted index c =
     bindR (cf_perm c) (\<lambda>p.
     if index \<ge> Perm_GetSize p then Inl OutOfRange
     else bindR (Perm_Permute p index) (\<lambda>permuted_index.
       if permuted_index \<ge> Perm_GetSize p then Inl OutOfRange
       else bindR (MB_index (cf_buffer c) (permuted_index div 8)) (\<lambda>v.
            bindR (MB_set (cf_buffer c) (permuted_index div 8) (v OR push_bit (unat permuted_index mod 8) 1)) (\<lambda>b.
            Inr (c\<lparr>cf_buffer := b\<rparr>)))))"

definition CF_GetBitInBufferPermuted :: "u64 \<Rightarrow> carrier \<Rightarrow> bool res" where
  "CF_GetBitInBufferPermuted index c =
     bindR (cf_perm c) (\<lambda>p.
     if index \<ge> Perm_GetSize p then Inl OutOfRange
     else bindR (Perm_Permute p index) (\<lambda>permuted_index.
          bindR (MB_index (cf_buffer c) (permuted_index div 8)) (\<lambda>v.
          Inr (v AND push_bit (unat permuted_index mod 8) 1 \<noteq> 0))))"

section \<open>Blocks\<close>

type_synonym 'a cio = "(carrier \<times> world, 'a) meth"

text \<open>The virtual storage behind the pointer.\<close>

definition cf_vs :: "carrier \<times> world \<Rightarrow> vstore res" where
  "cf_vs s = (case cf_storage (fst s) of
                None \<Rightarrow> Inl Undefined
              | Some a \<Rightarrow> if a < length (w_storages (snd s)) then Inr (w_storages (snd s) ! a) else Inl Undefined)"

definition cf_set_vs :: "vstore \<Rightarrow> carrier \<times> world \<Rightarrow> carrier \<times> world" where
  "cf_set_vs vs s = (case cf_storage (fst s) of
                       None \<Rightarrow> s
                     | Some a \<Rightarrow> (fst s, (snd s)\<lparr>w_storages := (w_storages (snd s))[a := vs]\<rparr>))"

text \<open>The position of byte \<open>i\<close> of block \<open>b\<close>, in 64-bit arithmetic.\<close>

definition cf_position :: "carrier \<Rightarrow> nat \<Rightarrow> nat \<Rightarrow> u64" where
  "cf_position c b i = cf_offset c + word_of_nat b * ucast (cf_data_block_size c) + word_of_nat i"

text \<open>The codeword block \<open>&(*buffer_)[b * codeword_block_size_]\<close>; the index is checked.\<close>

definition cf_codeword :: "carrier \<Rightarrow> nat \<Rightarrow> bytes res" where
  "cf_codeword c b =
     (let at_cw = word_of_nat b * ucast (cf_codeword_block_size c) in
      bindR (MB_index (cf_buffer c) at_cw) (\<lambda>_.
      Inr (take (unat (cf_codeword_block_size c)) (drop (unat at_cw) (mb_bytes (cf_buffer c))))))"

definition cf_set_codeword :: "nat \<Rightarrow> bytes \<Rightarrow> carrier \<Rightarrow> carrier" where
  "cf_set_codeword b cw c =
     c\<lparr>cf_buffer := (cf_buffer c)\<lparr>mb_buffer :=
         Some (copy_at (b * unat (cf_codeword_block_size c)) cw (mb_bytes (cf_buffer c)))\<rparr>\<rparr>"

text \<open>The body of the inner loop of \<open>ExtractBufferUsingEncoder\<close>, without its handler.\<close>

definition cf_write_byte :: "nat \<Rightarrow> mbuf \<Rightarrow> nat \<Rightarrow> unit cio" where
  "cf_write_byte b data i =
     bindM (askM (\<lambda>s. MB_index data (word_of_nat i))) (\<lambda>v.
     bindM (askM cf_vs) (\<lambda>vs.
     bindM (askM (\<lambda>s. VS_WriteByte vs (cf_position (fst s) b i) v)) (\<lambda>vs.
     modifyM (cf_set_vs vs))))"

text \<open>The loop over the blocks; one \<open>data_buffer\<close> serves them all.\<close>

fun cf_extract_blocks :: "encoder \<Rightarrow> nat list \<Rightarrow> mbuf \<Rightarrow> unit cio" where
  "cf_extract_blocks e [] data = returnM ()"
| "cf_extract_blocks e (b # bs) data =
     bindM (askM (\<lambda>s. cf_codeword (fst s) b)) (\<lambda>cw.
     bindM (askM (\<lambda>s. Encoder_Extract e (Some cw) (mb_buffer data))) (\<lambda>d.
     let data = data\<lparr>mb_buffer := Some d\<rparr> in
     bindM (getM (\<lambda>s. unat (cf_data_block_size (fst s)))) (\<lambda>n.
     seqM (forM (\<lambda>i. catch_range (cf_write_byte b data i) (returnM ())) [0..<n])
       (cf_extract_blocks e bs data))))"

definition CF_ExtractBufferUsingEncoder :: "cenv \<Rightarrow> int cio" where
  "CF_ExtractBufferUsingEncoder C =
     bindM (getM fst) (\<lambda>c.
     if mb_size (cf_buffer c) = 0 then returnM (-1)
     else case cf_encoder c of
         None \<Rightarrow> returnM (-2)
       | Some e \<Rightarrow>
           if cf_codeword_block_size c = 0 then returnM (-3)
           else if cf_blocks_used c = 0 then returnM (-4)
           else seqM (cf_extract_blocks e [0..<unat (cf_blocks_used c)]
                       (MB_new_sized (e_garbage C) (ucast (cf_data_block_size c))))
                  (returnM 0))"

text \<open>The body of the inner loop of \<open>EmbedBufferUsingEncoder\<close>; beyond the storage it stores 0.\<close>

definition cf_read_byte :: "nat \<Rightarrow> mbuf \<Rightarrow> nat \<Rightarrow> mbuf cio" where
  "cf_read_byte b data i =
     bindM (askM cf_vs) (\<lambda>vs.
     bindM (askM (\<lambda>s. VS_ReadByte vs (cf_position (fst s) b i))) (\<lambda>v.
     askM (\<lambda>s. MB_set data (word_of_nat i) v)))"

fun cf_read_bytes :: "nat \<Rightarrow> nat list \<Rightarrow> mbuf \<Rightarrow> mbuf cio" where
  "cf_read_bytes b [] data = returnM data"
| "cf_read_bytes b (i # is) data =
     bindM (catch_range (cf_read_byte b data i) (askM (\<lambda>s. MB_set data (word_of_nat i) 0)))
       (cf_read_bytes b is)"

fun cf_embed_blocks :: "encoder \<Rightarrow> nat list \<Rightarrow> mbuf \<Rightarrow> unit cio" where
  "cf_embed_blocks e [] data = returnM ()"
| "cf_embed_blocks e (b # bs) data =
     bindM (getM (\<lambda>s. unat (cf_data_block_size (fst s)))) (\<lambda>n.
     bindM (cf_read_bytes b [0..<n] data) (\<lambda>data.
     bindM (askM (\<lambda>s. cf_codeword (fst s) b)) (\<lambda>cw.
     bindM (askM (\<lambda>s. Encoder_Embed e (Some cw) (mb_buffer data))) (\<lambda>cw.
     seqM (modifyM (\<lambda>s. (cf_set_codeword b cw (fst s), snd s)))
       (cf_embed_blocks e bs data)))))"

definition CF_EmbedBufferUsingEncoder :: "cenv \<Rightarrow> int cio" where
  "CF_EmbedBufferUsingEncoder C =
     bindM (getM fst) (\<lambda>c.
     if mb_size (cf_buffer c) = 0 then throwM LengthError
     else case cf_encoder c of
         None \<Rightarrow> throwM (InvalidState embedBufferUsingEncoder encoderC notSetted)
       | Some e \<Rightarrow>
           if cf_codeword_block_size c = 0 then throwM (EmptyMember ''codeword_block_size_'')
           else if cf_blocks_used c = 0 then throwM (EmptyMember ''codeword_block_size_'')
           else seqM (cf_embed_blocks e [0..<unat (cf_blocks_used c)]
                       (MB_new_sized (e_garbage C) (ucast (cf_data_block_size c))))
                  (returnM 0))"

section \<open>The storage behind a carrier\<close>

text \<open>Storage \<open>a\<close> of the world is in use; its bytes as the carriers see them.\<close>

definition st_ok :: "nat \<Rightarrow> world \<Rightarrow> bool" where
  "st_ok a w \<longleftrightarrow> a < length (w_storages w) \<and> vs_ok (w_storages w ! a)"

definition st_byte :: "nat \<Rightarrow> world \<Rightarrow> u64 \<Rightarrow> u8" where
  "st_byte a w = vs.byte_at (w_storages w ! a)"

definition st_capacity :: "nat \<Rightarrow> world \<Rightarrow> nat" where
  "st_capacity a w = unat (vs_raw_capacity (w_storages w ! a))"

text \<open>Two worlds that differ at most in the contents of storage \<open>a\<close>.\<close>

definition st_same :: "nat \<Rightarrow> world \<Rightarrow> world \<Rightarrow> bool" where
  "st_same a w w' \<longleftrightarrow>
     w_files w' = w_files w \<and> length (w_storages w') = length (w_storages w) \<and>
     (\<forall>i. i \<noteq> a \<longrightarrow> w_storages w' ! i = w_storages w ! i) \<and>
     vs_raw_capacity (w_storages w' ! a) = vs_raw_capacity (w_storages w ! a) \<and>
     vs_permutation (w_storages w' ! a) = vs_permutation (w_storages w ! a)"

lemma st_same_refl [simp]: "st_same a w w"
  by (simp add: st_same_def)

lemma st_same_trans: "st_same a w w1 \<Longrightarrow> st_same a w1 w2 \<Longrightarrow> st_same a w w2"
  by (simp add: st_same_def)

lemma st_same_capacity: "st_same a w w' \<Longrightarrow> st_capacity a w' = st_capacity a w"
  by (simp add: st_same_def st_capacity_def)

lemma VS_WriteByte_keeps:
  "VS_WriteByte vs p v = Inr vs' \<Longrightarrow> vs_permutation vs' = vs_permutation vs \<and> vs_raw_capacity vs' = vs_raw_capacity vs"
  by (auto simp: VS_WriteByte_def res_simps split: if_splits option.splits)

text \<open>One caught write through the pointer, and one caught read.\<close>

lemma cf_write_byte_caught:
  assumes "cf_storage c = Some a" "st_ok a w" "mb_ok data" "i < unat (mb_size data)"
  shows "\<exists>w'. catch_range (cf_write_byte b data i) (returnM ()) (c, w) = ((c, w'), Inr ()) \<and> st_ok a w' \<and> st_same a w w' \<and>
              (\<forall>q. st_byte a w' q = (if q = cf_position c b i \<and> unat q < st_capacity a w then mb_bytes data ! i else st_byte a w q))"
proof -
  let ?vs = "w_storages w ! a" and ?p = "cf_position c b i" and ?v = "mb_bytes data ! i"
  have a: "a < length (w_storages w)" "vs_ok ?vs" using assms(2) by (simp_all add: st_ok_def)
  have iu: "unat (word_of_nat i :: u64) = i" using assms(4) by (simp add: unat_simps)
  have v: "MB_index data (word_of_nat i) = Inr ?v" using assms(3,4) iu by (simp add: MB_index_correct)
  have cv: "cf_vs (c, w) = Inr ?vs" using assms(1) a by (simp add: cf_vs_def)
  show ?thesis
  proof (cases "unat ?p < unat (vs_raw_capacity ?vs)")
    case True
    obtain vs' where vs': "VS_WriteByte ?vs ?p ?v = Inr vs'" "vs_ok vs'"
        "unat (vs_raw_capacity vs') = unat (vs_raw_capacity ?vs)"
      using vs.put_total [OF a(2) True] by blast
    have g: "VS_ReadByte vs' q = (if q = ?p then Inr ?v else VS_ReadByte ?vs q)" for q
      using vs.get_put [OF a(2) True vs'(1)] by blast
    let ?w = "w\<lparr>w_storages := (w_storages w)[a := vs']\<rparr>"
    have "catch_range (cf_write_byte b data i) (returnM ()) (c, w) = ((c, ?w), Inr ())"
      by (simp add: cf_write_byte_def run_simps v cv vs'(1) cf_set_vs_def assms(1))
    moreover have "st_ok a ?w" "st_same a w ?w"
      using a vs' VS_WriteByte_keeps [OF vs'(1)] by (simp_all add: st_ok_def st_same_def)
    moreover have "st_byte a ?w q = (if q = ?p \<and> unat q < st_capacity a w then ?v else st_byte a w q)" for q
      using a(1) g [of q] True by (auto simp: st_byte_def st_capacity_def vs.byte_at_def vs.get_caught_def)
    ultimately show ?thesis by blast
  next
    case False
    then have "VS_WriteByte ?vs ?p ?v = Inl OutOfRange" using vs.put_range [OF a(2)] by simp
    then have "catch_range (cf_write_byte b data i) (returnM ()) (c, w) = ((c, w), Inr ())"
      by (simp add: cf_write_byte_def run_simps v cv)
    then show ?thesis using False assms(2) by (auto simp: st_capacity_def)
  qed
qed

lemma cf_read_byte_caught:
  assumes "cf_storage c = Some a" "st_ok a w" "mb_ok data" "i < unat (mb_size data)"
  shows "\<exists>data'. catch_range (cf_read_byte b data i) (askM (\<lambda>s. MB_set data (word_of_nat i) 0)) (c, w) = ((c, w), Inr data') \<and>
                 mb_ok data' \<and> mb_size data' = mb_size data \<and> mb_bytes data' = (mb_bytes data)[i := st_byte a w (cf_position c b i)]"
proof -
  let ?vs = "w_storages w ! a" and ?p = "cf_position c b i"
  have a: "a < length (w_storages w)" "vs_ok ?vs" using assms(2) by (simp_all add: st_ok_def)
  have iu: "unat (word_of_nat i :: u64) = i" using assms(4) by (simp add: unat_simps)
  have cv: "cf_vs (c, w) = Inr ?vs" using assms(1) a by (simp add: cf_vs_def)
  have set: "\<exists>data'. MB_set data (word_of_nat i) x = Inr data' \<and> mb_ok data' \<and> mb_size data' = mb_size data \<and>
          mb_bytes data' = (mb_bytes data)[i := x]" for x
  proof -
    obtain d' where "MB_set data (word_of_nat i) x = Inr d'" using assms(3,4) iu by (simp add: MB_set_correct)
    then show ?thesis using MB_set_ok [OF assms(3)] iu by metis
  qed
  show ?thesis
  proof (cases "unat ?p < unat (vs_raw_capacity ?vs)")
    case True
    obtain x where x: "VS_ReadByte ?vs ?p = Inr x" using vs.get_total [OF a(2) True] by blast
    then have "st_byte a w ?p = x" by (simp add: st_byte_def vs.byte_at_def vs.get_caught_def)
    then show ?thesis using set [of x] by (auto simp: cf_read_byte_def run_simps cv x)
  next
    case False
    then have x: "VS_ReadByte ?vs ?p = Inl OutOfRange" using vs.get_range [OF a(2)] by simp
    then have "st_byte a w ?p = 0" by (simp add: st_byte_def vs.byte_at_def vs.get_caught_def)
    then show ?thesis using set [of 0] by (auto simp: cf_read_byte_def run_simps cv x)
  qed
qed

section \<open>The two loops over the blocks\<close>

text \<open>The part of the storage a carrier holds does not reach the end of the 64-bit addresses.\<close>

definition cf_fits :: "carrier \<Rightarrow> bool" where
  "cf_fits c \<longleftrightarrow> unat (cf_offset c) + unat (cf_blocks_used c) * unat (cf_data_block_size c) < 2 ^ 64"

lemma unat_cf_position:
  assumes "cf_fits c" "b < unat (cf_blocks_used c)" "i < unat (cf_data_block_size c)"
  shows "unat (cf_position c b i) = unat (cf_offset c) + b * unat (cf_data_block_size c) + i"
proof -
  let ?n = "unat (cf_data_block_size c)"
  have "b * ?n + ?n \<le> unat (cf_blocks_used c) * ?n" using assms(2) by (metis Suc_leI add.commute mult_Suc mult_le_mono1)
  then have l: "unat (cf_offset c) + (b * ?n + i) < 18446744073709551616" using assms(1,3) by (simp add: cf_fits_def)
  have b: "b < 4294967296" using assms(2) unat_u32_less [of "cf_blocks_used c"] by simp
  have i: "i < 4294967296" using assms(3) unat_u32_less [of "cf_data_block_size c"] by simp
  have "unat (word_of_nat b :: u64) = b" "unat (word_of_nat i :: u64) = i" "unat (ucast (cf_data_block_size c) :: u64) = ?n"
    using b i by (simp_all add: unat_simps unat_ucast_u32_u64)
  with l show ?thesis by (simp add: cf_position_def unat_simps)
qed

lemma word_eq_unat: "(x :: u64) = y \<longleftrightarrow> unat x = unat y"
  by (simp add: word_unat_eq_iff)

lemma cf_write_bytes:
  assumes "cf_storage c = Some a" "st_ok a w" "mb_ok data" "mb_size data = ucast (cf_data_block_size c)"
      and "cf_fits c" "b < unat (cf_blocks_used c)"
  defines "n \<equiv> unat (cf_data_block_size c)" and "o1 \<equiv> unat (cf_offset c) + b * unat (cf_data_block_size c)"
  shows "\<exists>w'. forM (\<lambda>i. catch_range (cf_write_byte b data i) (returnM ())) [0..<n] (c, w) = ((c, w'), Inr ()) \<and>
              st_ok a w' \<and> st_same a w w' \<and>
              (\<forall>q. st_byte a w' q = (if o1 \<le> unat q \<and> unat q < o1 + n \<and> unat q < st_capacity a w
                                      then mb_bytes data ! (unat q - o1) else st_byte a w q))"
proof -
  let ?I = "\<lambda>j s. \<exists>w'. s = (c, w') \<and> st_ok a w' \<and> st_same a w w' \<and>
              (\<forall>q. st_byte a w' q = (if o1 \<le> unat q \<and> unat q < o1 + j \<and> unat q < st_capacity a w
                                      then mb_bytes data ! (unat q - o1) else st_byte a w q))"
  have "\<exists>t. forM (\<lambda>i. catch_range (cf_write_byte b data i) (returnM ())) [0..<n] (c, w) = (t, Inr ()) \<and> ?I n t"
  proof (rule forM_invariant [where I = ?I])
    show "?I 0 (c, w)" using assms(2) by auto
  next
    fix j t
    assume j: "j < length [0..<n]" and "?I j t"
    then obtain w1 where w1: "t = (c, w1)" "st_ok a w1" "st_same a w w1"
        "\<And>q. st_byte a w1 q = (if o1 \<le> unat q \<and> unat q < o1 + j \<and> unat q < st_capacity a w
                                then mb_bytes data ! (unat q - o1) else st_byte a w q)" by blast
    have jn: "j < n" "j < unat (mb_size data)" using j assms(4) by (simp_all add: n_def unat_ucast_u32_u64)
    have p: "unat (cf_position c b j) = o1 + j"
      using unat_cf_position [OF assms(5,6)] jn(1) by (simp add: n_def o1_def)
    obtain w2 where w2: "catch_range (cf_write_byte b data j) (returnM ()) (c, w1) = ((c, w2), Inr ())" "st_ok a w2" "st_same a w1 w2"
        "\<And>q. st_byte a w2 q = (if q = cf_position c b j \<and> unat q < st_capacity a w1 then mb_bytes data ! j else st_byte a w1 q)"
      using cf_write_byte_caught [OF assms(1) w1(2) assms(3) jn(2)] by blast
    have "st_byte a w2 q = (if o1 \<le> unat q \<and> unat q < o1 + Suc j \<and> unat q < st_capacity a w
                              then mb_bytes data ! (unat q - o1) else st_byte a w q)" for q
      unfolding w2(4) w1(4) word_eq_unat p st_same_capacity [OF w1(3)] by auto
    then have "?I (Suc j) (c, w2)" using w2(2) st_same_trans [OF w1(3) w2(3)] by blast
    then show "\<exists>u. catch_range (cf_write_byte b data ([0..<n] ! j)) (returnM ()) t = (u, Inr ()) \<and> ?I (Suc j) u"
      using w2(1) w1(1) jn(1) by auto
  qed simp
  then show ?thesis by blast
qed

text \<open>What the codeword blocks of the buffer decode to.\<close>

definition cf_decodes :: "encoder \<Rightarrow> carrier \<Rightarrow> (nat \<Rightarrow> bytes) \<Rightarrow> bool" where
  "cf_decodes e c D \<longleftrightarrow>
     (\<forall>b < unat (cf_blocks_used c). length (D b) = unat (cf_data_block_size c) \<and>
        (\<exists>cw. cf_codeword c b = Inr cw \<and>
           (\<forall>d0. length d0 = unat (cf_data_block_size c) \<longrightarrow> Encoder_Extract e (Some cw) (Some d0) = Inr (D b))))"

lemma cf_extract_blocks_correct:
  assumes "cf_storage c = Some a" "cf_fits c" "cf_decodes e c D" "0 < unat (cf_data_block_size c)"
      and "st_ok a w" "mb_ok data" "mb_size data = ucast (cf_data_block_size c)" "k \<le> unat (cf_blocks_used c)"
  defines "n \<equiv> unat (cf_data_block_size c)" and "o0 \<equiv> unat (cf_offset c)"
  shows "\<exists>w'. cf_extract_blocks e [k..<unat (cf_blocks_used c)] data (c, w) = ((c, w'), Inr ()) \<and>
              st_ok a w' \<and> st_same a w w' \<and>
              (\<forall>q. st_byte a w' q = (if o0 + k * n \<le> unat q \<and> unat q < o0 + unat (cf_blocks_used c) * n \<and> unat q < st_capacity a w
                                      then D ((unat q - o0) div n) ! ((unat q - o0) mod n) else st_byte a w q))"
  using assms(5-8)
proof (induction "unat (cf_blocks_used c) - k" arbitrary: k w data)
  case 0
  then show ?case by (intro exI [of _ w]) (auto simp: run_simps)
next
  case (Suc m)
  let ?B = "unat (cf_blocks_used c)"
  have k: "k < ?B" using Suc.hyps(2) by simp
  have n: "0 < n" using assms(4) by (simp add: n_def)
  obtain cw where cw: "cf_codeword c k = Inr cw" "length (D k) = n"
      "\<And>d0. length d0 = n \<Longrightarrow> Encoder_Extract e (Some cw) (Some d0) = Inr (D k)"
    using assms(3) k unfolding cf_decodes_def n_def by blast
  have ms: "unat (mb_size data) = n" using Suc.prems(3) by (simp add: n_def unat_ucast_u32_u64)
  then have "mb_size data \<noteq> 0" using n by auto
  then have d0: "mb_buffer data = Some (mb_bytes data)" "length (mb_bytes data) = n"
    using mb_ok_size_pos [OF Suc.prems(2)] length_mb_bytes [OF Suc.prems(2)] ms by auto
  let ?data = "data\<lparr>mb_buffer := Some (D k)\<rparr>"
  have dk: "mb_ok ?data" "mb_size ?data = ucast (cf_data_block_size c)" "mb_bytes ?data = D k"
    using cw(2) ms Suc.prems(3) by (simp_all add: mb_ok_def mb_bytes_def)
  obtain w1 where w1: "forM (\<lambda>i. catch_range (cf_write_byte k ?data i) (returnM ())) [0..<n] (c, w) = ((c, w1), Inr ())"
      "st_ok a w1" "st_same a w w1"
      "\<And>q. st_byte a w1 q = (if o0 + k * n \<le> unat q \<and> unat q < o0 + k * n + n \<and> unat q < st_capacity a w
                                      then D k ! (unat q - (o0 + k * n)) else st_byte a w q)"
    using cf_write_bytes [OF assms(1) Suc.prems(1) dk(1,2) assms(2) k] unfolding n_def o0_def dk(3) by blast
  have "m = ?B - Suc k" using Suc.hyps(2) by simp
  from Suc.hyps(1) [OF this w1(2) dk(1,2)] k obtain w2 where w2:
      "cf_extract_blocks e [Suc k..<?B] ?data (c, w1) = ((c, w2), Inr ())" "st_ok a w2" "st_same a w1 w2"
      "\<And>q. st_byte a w2 q = (if o0 + Suc k * n \<le> unat q \<and> unat q < o0 + ?B * n \<and> unat q < st_capacity a w1
                                      then D ((unat q - o0) div n) ! ((unat q - o0) mod n) else st_byte a w1 q)"
    by auto
  have kn: "o0 + k * n + n \<le> o0 + ?B * n" using k by (metis Suc_leI add.assoc add.commute mult_Suc mult_le_mono1 nat_add_left_cancel_le)
  have mid: "(unat q - o0) div n = k \<and> (unat q - o0) mod n = unat q - (o0 + k * n)"
    if q: "o0 + k * n \<le> unat q" "unat q < o0 + k * n + n" for q :: u64
  proof -
    obtain r where r: "unat q = o0 + k * n + r" "r < n" using q le_Suc_ex by fastforce
    then show ?thesis by simp
  qed
  have "st_byte a w2 q = (if o0 + k * n \<le> unat q \<and> unat q < o0 + ?B * n \<and> unat q < st_capacity a w
                                      then D ((unat q - o0) div n) ! ((unat q - o0) mod n) else st_byte a w q)" for q
    unfolding w2(4) w1(4) st_same_capacity [OF w1(3)] using mid [of q] kn n by auto
  moreover have "cf_extract_blocks e [k..<?B] data (c, w) = ((c, w2), Inr ())"
    using k w1(1) w2(1) cw d0 by (simp add: upt_conv_Cons run_simps n_def Let_def)
  ultimately show ?case using w2(2) st_same_trans [OF w1(3) w2(3)] by blast
qed

text \<open>The block of data a carrier takes from the storage; beyond the end it is 0.\<close>

definition cf_data :: "nat \<Rightarrow> world \<Rightarrow> carrier \<Rightarrow> nat \<Rightarrow> bytes" where
  "cf_data a w c b = map (\<lambda>i. st_byte a w (cf_position c b i)) [0..<unat (cf_data_block_size c)]"

lemma length_cf_data [simp]: "length (cf_data a w c b) = unat (cf_data_block_size c)"
  by (simp add: cf_data_def)

lemma cf_read_bytes_correct:
  assumes "cf_storage c = Some a" "st_ok a w" "mb_ok data" "k \<le> unat (mb_size data)"
  shows "\<exists>data'. cf_read_bytes b [k..<unat (mb_size data)] data (c, w) = ((c, w), Inr data') \<and> mb_ok data' \<and>
                 mb_size data' = mb_size data \<and>
                 mb_bytes data' = take k (mb_bytes data) @ map (\<lambda>i. st_byte a w (cf_position c b i)) [k..<unat (mb_size data)]"
  using assms(3,4)
proof (induction "unat (mb_size data) - k" arbitrary: k data)
  case 0
  then show ?case by (simp add: run_simps length_mb_bytes)
next
  case (Suc m)
  then have k: "k < unat (mb_size data)" by simp
  obtain d1 where d1: "catch_range (cf_read_byte b data k) (askM (\<lambda>s. MB_set data (word_of_nat k) 0)) (c, w) = ((c, w), Inr d1)"
      "mb_ok d1" "mb_size d1 = mb_size data" "mb_bytes d1 = (mb_bytes data)[k := st_byte a w (cf_position c b k)]"
    using cf_read_byte_caught [OF assms(1,2) Suc.prems(1) k] by blast
  have "m = unat (mb_size d1) - Suc k" "Suc k \<le> unat (mb_size d1)" using Suc.hyps(2) k d1(3) by simp_all
  from Suc.hyps(1) [OF this(1) d1(2) this(2)] obtain d2 where d2:
      "cf_read_bytes b [Suc k..<unat (mb_size d1)] d1 (c, w) = ((c, w), Inr d2)" "mb_ok d2" "mb_size d2 = mb_size d1"
      "mb_bytes d2 = take (Suc k) (mb_bytes d1) @ map (\<lambda>i. st_byte a w (cf_position c b i)) [Suc k..<unat (mb_size d1)]"
    by blast
  have "k < length (mb_bytes data)" using k length_mb_bytes [OF Suc.prems(1)] by simp
  then have "take (Suc k) (mb_bytes d1) = take k (mb_bytes data) @ [st_byte a w (cf_position c b k)]"
    by (simp add: d1(4) take_Suc_conv_app_nth)
  with d1 d2 k show ?case by (simp add: upt_conv_Cons run_simps)
qed

text \<open>The buffer has room for the codeword blocks in use.\<close>

definition cf_room :: "carrier \<Rightarrow> bool" where
  "cf_room c \<longleftrightarrow> mb_ok (cf_buffer c) \<and> 0 < unat (cf_codeword_block_size c) \<and>
                 unat (cf_blocks_used c) * unat (cf_codeword_block_size c) \<le> unat (mb_size (cf_buffer c))"

definition cf_slice :: "carrier \<Rightarrow> nat \<Rightarrow> bytes" where
  "cf_slice c b = take (unat (cf_codeword_block_size c)) (drop (b * unat (cf_codeword_block_size c)) (mb_bytes (cf_buffer c)))"

lemma block_fits: "b < n \<Longrightarrow> b * m + m \<le> n * (m :: nat)"
  by (metis Suc_leI add.commute mult_Suc mult_le_mono1)

lemma cf_codeword_room:
  assumes "cf_room c" "b < unat (cf_blocks_used c)"
  shows "cf_codeword c b = Inr (cf_slice c b)" "length (cf_slice c b) = unat (cf_codeword_block_size c)"
proof -
  let ?m = "unat (cf_codeword_block_size c)"
  have f: "b * ?m + ?m \<le> unat (mb_size (cf_buffer c))"
    using block_fits [OF assms(2), of ?m] assms(1) by (auto simp: cf_room_def intro: le_trans)
  have ok: "mb_ok (cf_buffer c)" "0 < ?m" using assms(1) by (simp_all add: cf_room_def)
  have b: "unat (word_of_nat b :: u64) = b" using assms(2) unat_u32_less [of "cf_blocks_used c"] by (simp add: unat_simps)
  have "b * ?m < 18446744073709551616" using f unat_u64_less [of "mb_size (cf_buffer c)"] by linarith
  then have at_b: "unat (word_of_nat b * ucast (cf_codeword_block_size c) :: u64) = b * ?m"
    using b by (simp add: unat_simps unat_ucast_u32_u64)
  show "length (cf_slice c b) = ?m" using f length_mb_bytes [OF ok(1)] by (simp add: cf_slice_def)
  show "cf_codeword c b = Inr (cf_slice c b)"
    using f ok by (simp add: cf_codeword_def at_b MB_index_correct cf_slice_def Let_def)
qed

lemma cf_set_codeword_correct:
  assumes "cf_room c" "b < unat (cf_blocks_used c)" "length cw = unat (cf_codeword_block_size c)"
  shows "cf_room (cf_set_codeword b cw c)" "mb_size (cf_buffer (cf_set_codeword b cw c)) = mb_size (cf_buffer c)"
    "b' < unat (cf_blocks_used c) \<Longrightarrow> cf_slice (cf_set_codeword b cw c) b' = (if b' = b then cw else cf_slice c b')"
    "drop (unat (cf_blocks_used c) * unat (cf_codeword_block_size c)) (mb_bytes (cf_buffer (cf_set_codeword b cw c))) =
     drop (unat (cf_blocks_used c) * unat (cf_codeword_block_size c)) (mb_bytes (cf_buffer c))"
proof -
  let ?m = "unat (cf_codeword_block_size c)" and ?B = "unat (cf_blocks_used c)" and ?bs = "mb_bytes (cf_buffer c)"
  have ok: "mb_ok (cf_buffer c)" "0 < ?m" "?B * ?m \<le> length ?bs" using assms(1) length_mb_bytes by (auto simp: cf_room_def)
  have f: "b * ?m + length cw \<le> length ?bs" using block_fits [OF assms(2), of ?m] ok(3) assms(3) by simp
  have bs: "mb_bytes (cf_buffer (cf_set_codeword b cw c)) = copy_at (b * ?m) cw ?bs"
    by (simp add: cf_set_codeword_def mb_bytes_def)
  show "cf_room (cf_set_codeword b cw c)" using assms(1) f length_mb_bytes [OF ok(1)]
    by (simp add: cf_room_def cf_set_codeword_def mb_ok_def mb_bytes_def)
  show "mb_size (cf_buffer (cf_set_codeword b cw c)) = mb_size (cf_buffer c)" by (simp add: cf_set_codeword_def)
  have m: "cf_codeword_block_size (cf_set_codeword b cw c) = cf_codeword_block_size c" by (simp add: cf_set_codeword_def)
  show "cf_slice (cf_set_codeword b cw c) b' = (if b' = b then cw else cf_slice c b')" if "b' < ?B"
  proof (cases "b' = b")
    case True
    then show ?thesis using take_drop_copy_at [OF f] assms(3) by (simp add: cf_slice_def m bs)
  next
    case False
    then have "b' * ?m + ?m \<le> b * ?m \<or> b * ?m + ?m \<le> b' * ?m"
      using block_fits [of b' b ?m] block_fits [of b b' ?m] by linarith
    moreover have "b' * ?m + ?m \<le> length ?bs" using block_fits [OF that, of ?m] ok(3) by simp
    ultimately show ?thesis using False copy_at_disjoint [OF f, of "b' * ?m" ?m] assms(3) by (simp add: cf_slice_def m bs)
  qed
  have "drop (?B * ?m) (copy_at (b * ?m) cw ?bs) = drop (?B * ?m) ?bs"
    using f block_fits [OF assms(2), of ?m] assms(3) by (intro nth_equalityI) (auto simp: nth_copy_at)
  then show "drop (?B * ?m) (mb_bytes (cf_buffer (cf_set_codeword b cw c))) = drop (?B * ?m) ?bs" by (simp add: bs)
qed

text \<open>Only the contents of the buffer change.\<close>

definition cf_same :: "carrier \<Rightarrow> carrier \<Rightarrow> bool" where
  "cf_same c c' \<longleftrightarrow> c' = c\<lparr>cf_buffer := (cf_buffer c)\<lparr>mb_buffer := mb_buffer (cf_buffer c')\<rparr>\<rparr>"

lemma cf_same_refl [simp]: "cf_same c c"
  by (simp add: cf_same_def)

lemma cf_same_set_codeword [simp]: "cf_same c (cf_set_codeword b cw c)"
  by (simp add: cf_same_def cf_set_codeword_def)

lemma cf_same_fields:
  assumes "cf_same c c'"
  shows "cf_storage c' = cf_storage c" "cf_offset c' = cf_offset c" "cf_blocks_used c' = cf_blocks_used c"
    "cf_data_block_size c' = cf_data_block_size c" "cf_codeword_block_size c' = cf_codeword_block_size c"
    "cf_permutation c' = cf_permutation c" "cf_encoder c' = cf_encoder c" "cf_file c' = cf_file c"
    "cf_class c' = cf_class c" "cf_raw_capacity c' = cf_raw_capacity c" "mb_size (cf_buffer c') = mb_size (cf_buffer c)"
    "cf_file_loaded c' = cf_file_loaded c" "cf_width c' = cf_width c" "cf_height c' = cf_height c" "cf_subkey c' = cf_subkey c"
  by (insert assms [unfolded cf_same_def], (erule ssubst, simp)+)

lemma cf_data_same: "cf_same c c' \<Longrightarrow> cf_data a w c' b = cf_data a w c b"
  by (simp add: cf_data_def cf_position_def cf_same_fields)

lemma cf_same_trans: "cf_same c c1 \<Longrightarrow> cf_same c1 c2 \<Longrightarrow> cf_same c c2"
  unfolding cf_same_def by (erule ssubst, erule ssubst) simp

text \<open>The sizes the carrier has taken from its encoder.\<close>

definition cf_encodes :: "encoder \<Rightarrow> carrier \<Rightarrow> bool" where
  "cf_encodes e c \<longleftrightarrow> cf_encoder c = Some e \<and> encoder_ok e \<and> cf_codeword_block_size c = GetCodewordBlockSize e \<and>
                      cf_data_block_size c = GetDataBlockSize e"

lemma cf_encodes_pos: "cf_encodes e c \<Longrightarrow> 0 < unat (cf_data_block_size c) \<and> 0 < unat (cf_codeword_block_size c)"
  using encoder.sizes_pos by (auto simp: cf_encodes_def)

lemma cf_embed_blocks_correct:
  assumes "cf_storage c = Some a" "st_ok a w" "cf_encodes e c" "cf_room c"
      and "mb_ok data" "mb_size data = ucast (cf_data_block_size c)" "k \<le> unat (cf_blocks_used c)"
  defines "B \<equiv> unat (cf_blocks_used c)" and "m \<equiv> unat (cf_codeword_block_size c)"
  shows "\<exists>c'. cf_embed_blocks e [k..<B] data (c, w) = ((c', w), Inr ()) \<and> cf_same c c' \<and> cf_room c' \<and>
              (\<forall>b < B. if b < k then cf_slice c' b = cf_slice c b
                       else Encoder_Embed e (Some (cf_slice c b)) (Some (cf_data a w c b)) = Inr (cf_slice c' b)) \<and>
              drop (B * m) (mb_bytes (cf_buffer c')) = drop (B * m) (mb_bytes (cf_buffer c))"
  using assms(1,3-7) unfolding B_def m_def
proof (induction "unat (cf_blocks_used c) - k" arbitrary: k c data)
  case 0
  then show ?case by (intro exI [of _ c]) (auto simp: run_simps)
next
  case (Suc n)
  let ?B = "unat (cf_blocks_used c)" and ?n = "unat (cf_data_block_size c)"
  have k: "k < ?B" using Suc.hyps(2) by simp
  have ms: "unat (mb_size data) = ?n" using Suc.prems(5) by (simp add: unat_ucast_u32_u64)
  obtain d where d: "cf_read_bytes k [0..<?n] data (c, w) = ((c, w), Inr d)" "mb_ok d" "mb_size d = mb_size data"
      "mb_bytes d = cf_data a w c k"
    using cf_read_bytes_correct [OF Suc.prems(1) assms(2) Suc.prems(4), of 0 k] ms by (auto simp: cf_data_def)
  have "mb_size d \<noteq> 0" using cf_encodes_pos [OF Suc.prems(2)] ms d(3) by auto
  then have db: "mb_buffer d = Some (cf_data a w c k)" using mb_ok_size_pos [OF d(2)] d(4) by simp
  note cw = cf_codeword_room [OF Suc.prems(3) k]
  have enc: "encoder_ok e" "length (cf_slice c k) = unat (GetCodewordBlockSize e)" "length (cf_data a w c k) = unat (GetDataBlockSize e)"
    using Suc.prems(2) cw(2) by (simp_all add: cf_encodes_def)
  obtain cw' where cw': "Encoder_Embed e (Some (cf_slice c k)) (Some (cf_data a w c k)) = Inr cw'"
      "length cw' = unat (cf_codeword_block_size c)"
    using encoder.embed_total [OF enc] Suc.prems(2) by (auto simp: cf_encodes_def)
  let ?c = "cf_set_codeword k cw' c"
  note s = cf_set_codeword_correct [OF Suc.prems(3) k cw'(2)]
  have sm: "cf_same c ?c" by simp
  note f = cf_same_fields [OF sm]
  have hyp: "n = unat (cf_blocks_used ?c) - Suc k" "cf_storage ?c = Some a" "cf_encodes e ?c" "cf_room ?c"
      "mb_size d = ucast (cf_data_block_size ?c)" "Suc k \<le> unat (cf_blocks_used ?c)"
    using Suc.hyps(2) Suc.prems k s(1) d(3) f by (simp_all add: cf_encodes_def)
  from Suc.hyps(1) [OF hyp(1-4) d(2) hyp(5,6)] obtain c2 where c2:
      "cf_embed_blocks e [Suc k..<?B] d (?c, w) = ((c2, w), Inr ())" "cf_same ?c c2" "cf_room c2"
      "\<And>b. b < ?B \<Longrightarrow> if b < Suc k then cf_slice c2 b = cf_slice ?c b
           else Encoder_Embed e (Some (cf_slice ?c b)) (Some (cf_data a w ?c b)) = Inr (cf_slice c2 b)"
      "drop (?B * unat (cf_codeword_block_size c)) (mb_bytes (cf_buffer c2)) = drop (?B * unat (cf_codeword_block_size c)) (mb_bytes (cf_buffer ?c))"
    unfolding f by blast
  have "cf_embed_blocks e [k..<?B] data (c, w) = ((c2, w), Inr ())"
    using k c2(1) d(1) cw(1) cw'(1) db by (simp add: upt_conv_Cons run_simps)
  moreover have "if b < k then cf_slice c2 b = cf_slice c b
       else Encoder_Embed e (Some (cf_slice c b)) (Some (cf_data a w c b)) = Inr (cf_slice c2 b)" if "b < ?B" for b
    using c2(4) [OF that] s(3) [OF that] cw'(1) cf_data_same [OF sm] by (auto split: if_splits simp: less_Suc_eq)
  ultimately show ?case using cf_same_trans [OF sm c2(2)] c2(3,5) s(4) by metis
qed

text \<open>What was embedded is what the blocks decode to.\<close>

lemma cf_embed_decodes:
  assumes "cf_encodes e c" "cf_room c" "cf_same c c'" "cf_room c'"
      and "\<forall>b < unat (cf_blocks_used c). Encoder_Embed e (Some (cf_slice c b)) (Some (D b)) = Inr (cf_slice c' b)"
      and "\<forall>b < unat (cf_blocks_used c). length (D b) = unat (cf_data_block_size c)"
  shows "cf_decodes e c' D"
  unfolding cf_decodes_def
proof (intro allI impI)
  fix b assume "b < unat (cf_blocks_used c')"
  then have b: "b < unat (cf_blocks_used c)" "b < unat (cf_blocks_used c')" using cf_same_fields [OF assms(3)] by simp_all
  have enc: "encoder_ok e" "length (cf_slice c b) = unat (GetCodewordBlockSize e)" "length (D b) = unat (GetDataBlockSize e)"
    using assms(1,6) cf_codeword_room(2) [OF assms(2) b(1)] b(1) by (simp_all add: cf_encodes_def)
  have e: "Encoder_Embed e (Some (cf_slice c b)) (Some (D b)) = Inr (cf_slice c' b)" using assms(5) b(1) by blast
  show "length (D b) = unat (cf_data_block_size c') \<and>
        (\<exists>cw. cf_codeword c' b = Inr cw \<and>
           (\<forall>d0. length d0 = unat (cf_data_block_size c') \<longrightarrow> Encoder_Extract e (Some cw) (Some d0) = Inr (D b)))"
    using cf_codeword_room(1) [OF assms(4) b(2)] encoder.retrieve_embed [OF enc _ e] assms(1) cf_same_fields(4) [OF assms(3)] enc(3)
    by (auto simp: cf_encodes_def)
qed

lemma cf_buffer_MB_pos: "cf_room c \<Longrightarrow> 0 < unat (cf_blocks_used c) \<Longrightarrow> mb_size (cf_buffer c) \<noteq> 0"
  by (auto simp: cf_room_def)

lemma MB_new_sized_ok: "mb_ok (MB_new_sized g n) \<and> mb_size (MB_new_sized g n) = n"
  by simp

lemma CF_Embed_correct:
  assumes "cf_storage c = Some a" "st_ok a w" "cf_encodes e c" "cf_room c" "0 < unat (cf_blocks_used c)"
  shows "\<exists>c'. CF_EmbedBufferUsingEncoder C (c, w) = ((c', w), Inr 0) \<and> cf_same c c' \<and> cf_room c' \<and>
              cf_decodes e c' (cf_data a w c) \<and>
              drop (unat (cf_blocks_used c) * unat (cf_codeword_block_size c)) (mb_bytes (cf_buffer c')) =
              drop (unat (cf_blocks_used c) * unat (cf_codeword_block_size c)) (mb_bytes (cf_buffer c))"
proof -
  let ?d = "MB_new_sized (e_garbage C) (ucast (cf_data_block_size c))"
  have d: "mb_ok ?d" "mb_size ?d = ucast (cf_data_block_size c)" by simp_all
  obtain c' where c': "cf_embed_blocks e [0..<unat (cf_blocks_used c)] ?d (c, w) = ((c', w), Inr ())" "cf_same c c'" "cf_room c'"
      "\<forall>b < unat (cf_blocks_used c). Encoder_Embed e (Some (cf_slice c b)) (Some (cf_data a w c b)) = Inr (cf_slice c' b)"
      "drop (unat (cf_blocks_used c) * unat (cf_codeword_block_size c)) (mb_bytes (cf_buffer c')) =
       drop (unat (cf_blocks_used c) * unat (cf_codeword_block_size c)) (mb_bytes (cf_buffer c))"
    using cf_embed_blocks_correct [OF assms(1-4) d, of 0] by auto
  have "mb_size (cf_buffer c) \<noteq> 0" "cf_codeword_block_size c \<noteq> 0" "cf_blocks_used c \<noteq> 0" "cf_encoder c = Some e"
    using cf_buffer_MB_pos [OF assms(4,5)] cf_encodes_pos [OF assms(3)] assms(3,5) by (auto simp: cf_encodes_def)
  then have "CF_EmbedBufferUsingEncoder C (c, w) = ((c', w), Inr 0)"
    using c'(1) by (simp add: CF_EmbedBufferUsingEncoder_def run_simps)
  then show ?thesis using c' cf_embed_decodes [OF assms(3,4) c'(2,3,4)] by auto
qed

lemma CF_Extract_correct:
  assumes "cf_storage c = Some a" "st_ok a w" "cf_encodes e c" "cf_room c" "0 < unat (cf_blocks_used c)"
      and "cf_fits c" "cf_decodes e c D"
  defines "n \<equiv> unat (cf_data_block_size c)" and "o0 \<equiv> unat (cf_offset c)"
  shows "\<exists>w'. CF_ExtractBufferUsingEncoder C (c, w) = ((c, w'), Inr 0) \<and> st_ok a w' \<and> st_same a w w' \<and>
              (\<forall>q. st_byte a w' q = (if o0 \<le> unat q \<and> unat q < o0 + unat (cf_blocks_used c) * n \<and> unat q < st_capacity a w
                                      then D ((unat q - o0) div n) ! ((unat q - o0) mod n) else st_byte a w q))"
proof -
  let ?d = "MB_new_sized (e_garbage C) (ucast (cf_data_block_size c))"
  have d: "mb_ok ?d" "mb_size ?d = ucast (cf_data_block_size c)" by simp_all
  have n: "0 < unat (cf_data_block_size c)" using cf_encodes_pos [OF assms(3)] by simp
  obtain w' where w': "cf_extract_blocks e [0..<unat (cf_blocks_used c)] ?d (c, w) = ((c, w'), Inr ())" "st_ok a w'" "st_same a w w'"
      "\<forall>q. st_byte a w' q = (if o0 \<le> unat q \<and> unat q < o0 + unat (cf_blocks_used c) * n \<and> unat q < st_capacity a w
                                      then D ((unat q - o0) div n) ! ((unat q - o0) mod n) else st_byte a w q)"
    using cf_extract_blocks_correct [OF assms(1,6,7) n assms(2) d, of 0] by (auto simp: n_def o0_def)
  have "mb_size (cf_buffer c) \<noteq> 0" "cf_codeword_block_size c \<noteq> 0" "cf_blocks_used c \<noteq> 0" "cf_encoder c = Some e"
    using cf_buffer_MB_pos [OF assms(4,5)] cf_encodes_pos [OF assms(3)] assms(3,5) by (auto simp: cf_encodes_def)
  then have "CF_ExtractBufferUsingEncoder C (c, w) = ((c, w'), Inr 0)"
    using w'(1) by (simp add: CF_ExtractBufferUsingEncoder_def run_simps)
  with w' show ?thesis by blast
qed

text \<open>The data a carrier holds, read back through its positions.\<close>

lemma cf_data_nth:
  assumes "cf_fits c" "o0 = unat (cf_offset c)" "n = unat (cf_data_block_size c)"
      and "o0 \<le> unat q" "unat q < o0 + unat (cf_blocks_used c) * n"
  shows "cf_data a w c ((unat q - o0) div n) ! ((unat q - o0) mod n) = st_byte a w q"
proof -
  let ?b = "(unat q - o0) div n" and ?i = "(unat q - o0) mod n"
  have n: "0 < n" using assms(4,5) by (cases "n = 0") auto
  have b: "?b < unat (cf_blocks_used c)" using assms(4,5) n by (simp add: div_less_iff_less_mult)
  have i: "?i < unat (cf_data_block_size c)" using n assms(3) by simp
  have "unat (cf_position c ?b ?i) = unat q"
    using unat_cf_position [OF assms(1) b i] assms(2-4) by simp
  then have "cf_position c ?b ?i = q" by (simp add: word_eq_unat)
  then show ?thesis using i by (simp add: cf_data_def)
qed

end
