(* ===== verification/Carrier_Images.thy ===== *)
theory Carrier_Images
  imports Carrier_File
begin

text \<open>
  The picture carriers: \<^verbatim>\<open>carrier_file_bmp.cc\<close>, \<^verbatim>\<open>carrier_file_png.cc\<close> and \<^verbatim>\<open>carrier_file_jpeg.cc\<close>.
  Each keeps the hidden bytes in the lowest bits of its cover: the bytes of the bitmap, the decoded
  pixels, or the coefficients of the luminance other than 0 and 1.  Loading collects the bits
  through the local permutation and lets the encoder extract them, saving collects them, lets the
  encoder change them and puts them back.
\<close>

section \<open>Steps the three classes share\<close>

definition on_carrier :: "(carrier \<Rightarrow> carrier res) \<Rightarrow> unit cio" where
  "on_carrier f = updateM (\<lambda>s. bindR (f (fst s)) (\<lambda>c. Inr (c, snd s)))"

definition cf_open :: "bytes cio" where
  "cf_open = askM (\<lambda>s. Open (w_files (snd s)) (cf_file (fst s)))"

definition cf_put_file :: "bytes \<Rightarrow> unit cio" where
  "cf_put_file content =
     modifyM (\<lambda>s. (fst s, (snd s)\<lparr>w_files := set_content (cf_file (fst s)) content (w_files (snd s))\<rparr>))"

text \<open>\<open>buffer_->Resize(n); buffer_->Clear();\<close>\<close>

definition cf_reset_buffer :: "cenv \<Rightarrow> u64 \<Rightarrow> unit cio" where
  "cf_reset_buffer C n =
     updateM (\<lambda>s. bindR (MB_Resize (e_garbage C) n (cf_buffer (fst s))) (\<lambda>(b, freed).
                    Inr ((fst s)\<lparr>cf_buffer := MB_Clear b\<rparr>, snd s)))"

text \<open>\<open>if (permutation_->GetSize() == 0) permutation_->Init(n, *subkey_);\<close>\<close>

definition cf_init_permutation :: "cenv \<Rightarrow> u64 \<Rightarrow> unit cio" where
  "cf_init_permutation C n s =
     (case cf_perm (fst s) of
        Inl e \<Rightarrow> (s, Inl e)
      | Inr p \<Rightarrow>
          if Perm_GetSize p \<noteq> 0 then (s, Inr ())
          else case cf_key (fst s) of
              Inl e \<Rightarrow> (s, Inl e)
            | Inr k \<Rightarrow> (case Perm_Init (env_of C) n k p of
                          (p', r) \<Rightarrow> (((fst s)\<lparr>cf_permutation := Some p'\<rparr>, snd s), r)))"

text \<open>\<open>permutation_->GetSize()\<close>\<close>

definition cf_bits_to_modify :: "u64 cio" where
  "cf_bits_to_modify = askM (\<lambda>s. bindR (cf_perm (fst s)) (\<lambda>p. Inr (Perm_GetSize p)))"

text \<open>\<open>for (i = 0; i < bits; ++i) if (cover[i] & 0x01) SetBitInBufferPermuted(i);\<close>\<close>

definition cf_gather :: "(nat \<Rightarrow> u8 res) \<Rightarrow> nat \<Rightarrow> unit cio" where
  "cf_gather cover bits =
     forM (\<lambda>i. bindM (askM (\<lambda>s. cover i)) (\<lambda>v.
               whenM (v AND 1 \<noteq> 0) (on_carrier (CF_SetBitInBufferPermuted (word_of_nat i))))) [0..<bits]"

definition bit_byte :: "bool \<Rightarrow> u8" where
  "bit_byte b = (if b then 1 else 0)"

section \<open>BMP\<close>

definition le16 :: "bytes \<Rightarrow> nat \<Rightarrow> u16" where
  "le16 bs i = word_of_nat (le_bytes (take 2 (drop i bs)))"

definition le32 :: "bytes \<Rightarrow> nat \<Rightarrow> u32" where
  "le32 bs i = word_of_nat (le_bytes (take 4 (drop i bs)))"

text \<open>\<open>abs\<close> of an \<open>int32_t\<close>; of the least one it is undefined.\<close>

definition abs32 :: "u32 \<Rightarrow> u32 res" where
  "abs32 w = (if w = 0x80000000 then Inl Undefined else Inr (if sint w < 0 then - w else w))"

definition BMP_new :: "files \<Rightarrow> file_obj \<Rightarrow> encoder option \<Rightarrow> permutation option \<Rightarrow> carrier res" where
  "BMP_new fs file' encoder permutation =
     bindR (Open fs file') (\<lambda>content.
     let c = CarrierFile (BMP 0 0) file' encoder permutation;
         bmp_header = fread content 0 14; bmp_info = fread content 14 40 in
     if length bmp_header + length bmp_info < 54
     then Inl (ParseError (GetFileName file') ''Wrong header size'')
     else bindR (GetSize fs file') (\<lambda>file_size.
       let bmp_file_size = le32 bmp_header 2 in
       if ucast bmp_file_size \<noteq> file_size then Inl (ParseError (GetFileName file') ''Wrong size of file'')
       else
         let bmp_offset = le32 bmp_header 10; bmp_bits_per_pixel = le16 bmp_info 14;
             bmp_compression = le32 bmp_info 16 in
         if bmp_compression \<noteq> 0
         then Inl (ParseError (GetFileName file') ''BMP file uses unsupported file compression'')
         else bindR (abs32 (le32 bmp_info 4)) (\<lambda>width. bindR (abs32 (le32 bmp_info 8)) (\<lambda>height.
           let bmp_size = ucast (((ucast bmp_bits_per_pixel * width + 31) div 32) * 4 * height :: u32) :: u64 in
           if bmp_size + 54 > ucast bmp_file_size then Inl (IoError (GetFileName file'))
           else Inr (c\<lparr>cf_class := BMP bmp_offset bmp_size, cf_is_grayscale := bmp_bits_per_pixel = 8,
                       cf_width := width, cf_height := height, cf_raw_capacity := bmp_size div 8\<rparr>)))))"

definition bmp_offset :: "carrier \<Rightarrow> u32" where
  "bmp_offset c = (case cf_class c of BMP off sz \<Rightarrow> off | _ \<Rightarrow> 0)"

text \<open>The bitmap read into a new buffer; the count of \<open>fread\<close> is cast to 32 bits.\<close>

definition bmp_read :: "cenv \<Rightarrow> carrier \<Rightarrow> bytes \<Rightarrow> mbuf res" where
  "bmp_read C c content =
     (let n = cf_raw_capacity c * 8;
          got = fread content (unat (bmp_offset c)) (unat n);
          b = MB_new_sized (e_garbage C) n in
      if ucast (word_of_nat (length got) :: u32) \<noteq> n then Inl (IoError (GetFileName (cf_file c)))
      else Inr (b\<lparr>mb_buffer := map_option (copy_at 0 got) (mb_buffer b)\<rparr>))"

definition BMP_LoadFile :: "cenv \<Rightarrow> unit cio" where
  "BMP_LoadFile C =
     bindM (getM fst) (\<lambda>c.
     if cf_file_loaded c then returnM ()
     else bindM cf_open (\<lambda>content.
          bindM (askM (\<lambda>s. bmp_read C c content)) (\<lambda>bitmap_buffer.
          seqM (cf_reset_buffer C (cf_raw_capacity c))
         (seqM (cf_init_permutation C (cf_raw_capacity c * 8))
         (bindM cf_bits_to_modify (\<lambda>bits_to_modify.
          seqM (cf_gather (\<lambda>i. MB_index bitmap_buffer (word_of_nat i)) (unat bits_to_modify))
         (seqM (CF_ExtractBufferUsingEncoder C)
         (modifyM (\<lambda>s. ((fst s)\<lparr>cf_file_loaded := True\<rparr>, snd s))))))))))"

text \<open>\<open>cover[i] = (cover[i] & 0xFE) | GetBitInBufferPermuted(i)\<close> for the modified positions.\<close>

definition mb_scatter :: "carrier \<Rightarrow> nat \<Rightarrow> mbuf \<Rightarrow> mbuf res" where
  "mb_scatter c bits b =
     foldR (\<lambda>i b. bindR (MB_index b (word_of_nat i)) (\<lambda>v.
                  bindR (CF_GetBitInBufferPermuted (word_of_nat i) c) (\<lambda>x.
                  MB_set b (word_of_nat i) ((v AND 0xFE) OR bit_byte x)))) [0..<bits] b"

definition BMP_SaveFile :: "cenv \<Rightarrow> unit cio" where
  "BMP_SaveFile C =
     bindM cf_open (\<lambda>content.
     bindM (getM fst) (\<lambda>c.
     if \<not> cf_file_loaded c then throwM (InvalidState saveOp fileC notLoaded)
     else bindM (askM (\<lambda>s. bmp_read C c content)) (\<lambda>bitmap_buffer.
          seqM (cf_reset_buffer C (cf_raw_capacity c))
         (seqM (cf_init_permutation C (cf_raw_capacity c * 8))
         (bindM cf_bits_to_modify (\<lambda>bits_to_modify.
          seqM (cf_gather (\<lambda>i. MB_index bitmap_buffer (word_of_nat i)) (unat bits_to_modify))
         (seqM (CF_EmbedBufferUsingEncoder C)
         (bindM (askM (\<lambda>s. mb_scatter (fst s) (unat bits_to_modify) bitmap_buffer)) (\<lambda>output_buffer.
          let n = cf_raw_capacity c * 8 in
          seqM (cf_put_file (fwrite content (unat (bmp_offset c)) (mb_bytes output_buffer)))
               (whenM (ucast (ucast n :: u32) \<noteq> n) (throwM (IoError (GetFileName (cf_file c))))))))))))))"

section \<open>PNG\<close>

definition PNG_new :: "cenv \<Rightarrow> files \<Rightarrow> file_obj \<Rightarrow> encoder option \<Rightarrow> permutation option \<Rightarrow> carrier res" where
  "PNG_new C fs file' encoder permutation =
     bindR (Open fs file') (\<lambda>content.
     let c = CarrierFile PNG file' encoder permutation; png_header = fread content 0 64 in
     if length png_header < 64 then Inl (ParseError (GetFileName file') ''Wrong header size'')
     else case c_png_inspect C png_header of
         None \<Rightarrow> Inl (ParseError (GetFileName file') ''Unable to read file state'')
       | Some (width, height) \<Rightarrow>
           Inr (c\<lparr>cf_width := width, cf_height := height,
                  cf_raw_capacity := c_png_raw_size C width height div 8\<rparr>))"

text \<open>The whole file read into a buffer and decoded; the count of \<open>fread\<close> is cast to 32 bits.\<close>

definition png_read :: "cenv \<Rightarrow> carrier \<Rightarrow> bytes \<Rightarrow> bytes res" where
  "png_read C c content =
     (if ucast (word_of_nat (length content) :: u32) < (word_of_nat (length content) :: u64)
      then Inl (IoError (GetFileName (cf_file c)))
      else case c_png_decode C content of
          None \<Rightarrow> Inl (ParseError (GetFileName (cf_file c)) ''Unable to decode file'')
        | Some img \<Rightarrow> Inr img)"

text \<open>\<open>image\<close> is a raw pointer: an access beyond it is undefined.\<close>

definition image_at :: "bytes \<Rightarrow> nat \<Rightarrow> u8 res" where
  "image_at img i = (if i < length img then Inr (img ! i) else Inl Undefined)"

definition PNG_LoadFile :: "cenv \<Rightarrow> unit cio" where
  "PNG_LoadFile C =
     bindM (getM fst) (\<lambda>c.
     if cf_file_loaded c then returnM ()
     else bindM cf_open (\<lambda>content.
          seqM (cf_init_permutation C (cf_raw_capacity c * 8))
         (seqM (cf_reset_buffer C (cf_raw_capacity c))
         (bindM cf_bits_to_modify (\<lambda>bits_to_modify.
          bindM (askM (\<lambda>s. png_read C c content)) (\<lambda>img.
          seqM (cf_gather (image_at img) (unat bits_to_modify))
         (seqM (CF_ExtractBufferUsingEncoder C)
         (modifyM (\<lambda>s. ((fst s)\<lparr>cf_file_loaded := True\<rparr>, snd s))))))))))"

definition image_scatter :: "carrier \<Rightarrow> nat \<Rightarrow> bytes \<Rightarrow> bytes res" where
  "image_scatter c bits img =
     foldR (\<lambda>i img. bindR (image_at img i) (\<lambda>v.
                      bindR (CF_GetBitInBufferPermuted (word_of_nat i) c) (\<lambda>x.
                      Inr (img[i := (v AND 0xFE) OR bit_byte x])))) [0..<bits] img"

definition PNG_SaveFile :: "cenv \<Rightarrow> unit cio" where
  "PNG_SaveFile C =
     bindM cf_open (\<lambda>content.
     bindM (getM fst) (\<lambda>c.
     if \<not> cf_file_loaded c then throwM (InvalidState saveOp fileC notLoaded)
     else seqM (cf_init_permutation C (cf_raw_capacity c * 8))
         (seqM (cf_reset_buffer C (cf_raw_capacity c))
         (bindM cf_bits_to_modify (\<lambda>bits_to_modify.
          bindM (askM (\<lambda>s. png_read C c content)) (\<lambda>img.
          seqM (cf_gather (image_at img) (unat bits_to_modify))
         (seqM (CF_EmbedBufferUsingEncoder C)
         (bindM (askM (\<lambda>s. image_scatter (fst s) (unat bits_to_modify) img)) (\<lambda>img.
          case c_png_encode C content img (cf_width c) (cf_height c) of
            None \<Rightarrow> throwM (ParseError (GetFileName (cf_file c)) ''Unable to encode file'')
          | Some image_out \<Rightarrow>
              seqM (cf_put_file (fwrite content 0 image_out))
                   (whenM (ucast (word_of_nat (length image_out) :: u32) \<noteq> (word_of_nat (length image_out) :: u64))
                      (throwM (IoError (GetFileName (cf_file c))))))))))))))"

section \<open>JPEG\<close>

text \<open>
  The loops run over the blocks of the first component and over the coefficients 1 to 63 of each.
  A coefficient other than 0 and 1 (\<open>coeff & 0xFFFE\<close>) carries one bit.  \<^verbatim>\<open>libjpeg\<close> ends the process
  on a file it cannot read: the value is \<open>Undefined\<close>, which nothing catches.
\<close>

definition usable_coeff :: "16 word \<Rightarrow> bool" where
  "usable_coeff x \<longleftrightarrow> x AND 0xFFFE \<noteq> 0"

definition jpeg_read :: "cenv \<Rightarrow> bytes \<Rightarrow> coefs list res" where
  "jpeg_read C content = (case c_jpeg_read C content of None \<Rightarrow> Inl Undefined | Some bs \<Rightarrow> Inr bs)"

text \<open>The coefficients the loops look at, in their order.\<close>

definition ac_coeffs :: "coefs list \<Rightarrow> coefs" where
  "ac_coeffs blocks = concat (map tl blocks)"

definition JPEG_ComputeCapacity :: "cenv \<Rightarrow> files \<Rightarrow> carrier \<Rightarrow> carrier res" where
  "JPEG_ComputeCapacity C fs c =
     bindR (Open fs (cf_file c)) (\<lambda>content.
     bindR (jpeg_read C content) (\<lambda>blocks.
     let capacity_in_bits = fold (\<lambda>x n. if usable_coeff x then n + 1 else n) (ac_coeffs blocks) (0 :: u32)
     in Inr (c\<lparr>cf_raw_capacity := ucast (capacity_in_bits div 8)\<rparr>)))"

definition JPEG_new :: "cenv \<Rightarrow> files \<Rightarrow> file_obj \<Rightarrow> encoder option \<Rightarrow> permutation option \<Rightarrow> carrier res" where
  "JPEG_new C fs file' encoder permutation =
     JPEG_ComputeCapacity C fs (CarrierFile JPEG file' encoder permutation)"

text \<open>The loop that collects the bits: \<open>n\<close> is \<open>coeff_counter\<close>, \<open>bits\<close> is \<open>bits_to_modify\<close>.\<close>

fun jpeg_gather :: "u64 \<Rightarrow> coefs \<Rightarrow> u32 \<Rightarrow> unit cio" where
  "jpeg_gather bits [] n = returnM ()"
| "jpeg_gather bits (x # xs) n =
     (if usable_coeff x
      then seqM (whenM (x AND 1 \<noteq> 0) (on_carrier (CF_SetBitInBufferPermuted (ucast n))))
             (let n = n + 1 in if ucast n \<ge> bits then returnM () else jpeg_gather bits xs n)
      else jpeg_gather bits xs n)"

text \<open>
  The loop that puts the bits back: through the coefficients of one block, then through the
  blocks; the flag is \<open>should_write\<close>.
\<close>

fun jpeg_scatter_block :: "carrier \<Rightarrow> u32 \<Rightarrow> coefs \<Rightarrow> u32 \<times> bool \<Rightarrow> (coefs \<times> u32 \<times> bool) res" where
  "jpeg_scatter_block c bits [] (n, go) = Inr ([], n, go)"
| "jpeg_scatter_block c bits (x # xs) (n, go) =
     (if \<not> go then Inr (x # xs, n, go)
      else if usable_coeff x
      then bindR (CF_GetBitInBufferPermuted (ucast n) c) (\<lambda>b.
           bindR (jpeg_scatter_block c bits xs (n + 1, \<not> n + 1 \<ge> bits)) (\<lambda>(ys, st).
           Inr (((x AND 0xFFFE) OR (if b then 1 else 0)) # ys, st)))
      else bindR (jpeg_scatter_block c bits xs (n, go)) (\<lambda>(ys, st). Inr (x # ys, st)))"

fun jpeg_scatter :: "carrier \<Rightarrow> u32 \<Rightarrow> coefs list \<Rightarrow> u32 \<times> bool \<Rightarrow> coefs list res" where
  "jpeg_scatter c bits [] st = Inr []"
| "jpeg_scatter c bits (b # bs) st =
     bindR (jpeg_scatter_block c bits (tl b) st) (\<lambda>(ac, st).
     bindR (jpeg_scatter c bits bs st) (\<lambda>bs. Inr ((take 1 b @ ac) # bs)))"

definition JPEG_LoadFile :: "cenv \<Rightarrow> unit cio" where
  "JPEG_LoadFile C =
     bindM (getM fst) (\<lambda>c.
     if cf_file_loaded c then returnM ()
     else bindM cf_open (\<lambda>content.
          seqM (cf_init_permutation C (cf_raw_capacity c * 8))
         (seqM (cf_reset_buffer C (cf_raw_capacity c))
         (bindM (askM (\<lambda>s. jpeg_read C content)) (\<lambda>blocks.
          bindM cf_bits_to_modify (\<lambda>bits_to_modify.
          seqM (jpeg_gather bits_to_modify (ac_coeffs blocks) 0)
         (bindM (CF_ExtractBufferUsingEncoder C) (\<lambda>r.
          if r \<noteq> 0 then throwM RuntimeError
          else modifyM (\<lambda>s. ((fst s)\<lparr>cf_file_loaded := True\<rparr>, snd s))))))))))"

definition JPEG_SaveFile :: "cenv \<Rightarrow> unit cio" where
  "JPEG_SaveFile C =
     bindM cf_open (\<lambda>content.
     bindM (getM fst) (\<lambda>c.
     if \<not> cf_file_loaded c then throwM (InvalidState saveOp fileC notLoaded)
     else seqM (cf_init_permutation C (cf_raw_capacity c * 8))
         (seqM (cf_reset_buffer C (cf_raw_capacity c))
         (bindM (askM (\<lambda>s. jpeg_read C content)) (\<lambda>blocks.
          bindM cf_bits_to_modify (\<lambda>size.
          let bits_to_modify = ucast size :: u32 in
          seqM (jpeg_gather (ucast bits_to_modify) (ac_coeffs blocks) 0)
         (bindM (CF_EmbedBufferUsingEncoder C) (\<lambda>r.
          if r \<noteq> 0 then throwM RuntimeError
          else bindM (askM (\<lambda>s. jpeg_scatter (fst s) bits_to_modify blocks (0, True))) (\<lambda>blocks.
               cf_put_file (fwrite content 0 (c_jpeg_write C content blocks)))))))))))"

section \<open>Virtual calls\<close>

definition LoadFile :: "cenv \<Rightarrow> unit cio" where
  "LoadFile C s = (case cf_class (fst s) of
                     BMP off sz \<Rightarrow> BMP_LoadFile C s | JPEG \<Rightarrow> JPEG_LoadFile C s | PNG \<Rightarrow> PNG_LoadFile C s)"

definition SaveFile :: "cenv \<Rightarrow> unit cio" where
  "SaveFile C s = (case cf_class (fst s) of
                     BMP off sz \<Rightarrow> BMP_SaveFile C s | JPEG \<Rightarrow> JPEG_SaveFile C s | PNG \<Rightarrow> PNG_SaveFile C s)"

section \<open>The bits of the buffer\<close>

text \<open>Bit \<open>j\<close> of a buffer, the least significant bit of each byte first.\<close>

definition lbit :: "bytes \<Rightarrow> nat \<Rightarrow> bool" where
  "lbit bs j = bit (bs ! (j div 8)) (j mod 8)"

definition cf_bit :: "carrier \<Rightarrow> nat \<Rightarrow> bool" where
  "cf_bit c = lbit (mb_bytes (cf_buffer c))"

text \<open>The permutation of the carrier is set up and its positions lie in the buffer.\<close>

definition bits_ready :: "permutation \<Rightarrow> carrier \<Rightarrow> bool" where
  "bits_ready p c \<longleftrightarrow> cf_permutation c = Some p \<and> perm_ok p \<and> mb_ok (cf_buffer c) \<and>
                      unat (Perm_GetSize p) \<le> 8 * unat (mb_size (cf_buffer c))"

lemma bit_set_byte: "k < 8 \<Longrightarrow> bit (v OR (2 ^ m :: u8)) k = (bit v k \<or> k = m)"
  by (auto simp: bit_or_iff bit_exp_iff)

lemma and_power_byte: "m < 8 \<Longrightarrow> (v AND 2 ^ m \<noteq> 0) = bit (v :: u8) m"
proof -
  assume m: "m < 8"
  have "bit (v AND 2 ^ m) k \<longleftrightarrow> bit v m \<and> k = m" for k
    using m by (auto simp: bit_and_iff bit_exp_iff)
  then show ?thesis by (metis bit_0_eq bit_eq_iff bot_apply bot_bool_def)
qed

lemma same_bit_position: "j div 8 = k div 8 \<and> j mod 8 = k mod 8 \<longleftrightarrow> j = (k :: nat)"
  by (metis div_mult_mod_eq)

lemma cf_same_bits_ready: "bits_ready p c \<Longrightarrow> cf_same c c' \<Longrightarrow> mb_ok (cf_buffer c') \<Longrightarrow> bits_ready p c'"
  using cf_same_fields(6,11) [of c c'] by (simp add: bits_ready_def)

lemma CF_SetBit_correct:
  assumes "bits_ready p c" "i < unat (Perm_GetSize p)"
  shows "\<exists>c'. CF_SetBitInBufferPermuted (word_of_nat i) c = Inr c' \<and> cf_same c c' \<and> bits_ready p c' \<and>
              (\<forall>j < 8 * unat (mb_size (cf_buffer c)). cf_bit c' j = (cf_bit c j \<or> j = perm.pos p i))"
proof -
  let ?j = "perm.pos p i" and ?b = "cf_buffer c"
  have r: "cf_permutation c = Some p" "perm_ok p" "mb_ok ?b" "unat (Perm_GetSize p) \<le> 8 * unat (mb_size ?b)"
    using assms(1) by (simp_all add: bits_ready_def)
  have j: "Perm_Permute p (word_of_nat i) = Inr (word_of_nat ?j)" "?j < unat (Perm_GetSize p)"
    using perm.permute_pos [OF r(2) assms(2)] perm.pos_less [OF r(2) assms(2)] by simp_all
  have iu: "unat (word_of_nat i :: u64) = i" "unat (word_of_nat ?j :: u64) = ?j" using assms(2) j(2) by (simp_all add: unat_simps)
  have jd: "unat (word_of_nat ?j div 8 :: u64) = ?j div 8" using iu(2) by (simp add: unat_div)
  have jb: "?j div 8 < unat (mb_size ?b)" using j(2) r(4) by linarith
  let ?v = "mb_bytes ?b ! (?j div 8) OR push_bit (?j mod 8) 1"
  have idx: "MB_index ?b (word_of_nat ?j div 8) = Inr (mb_bytes ?b ! (?j div 8))" using r(3) jd jb by (simp add: MB_index_correct)
  obtain b' where b': "MB_set ?b (word_of_nat ?j div 8) ?v = Inr b'" using r(3) jd jb by (simp add: MB_set_correct)
  have b2: "b' = ?b\<lparr>mb_buffer := Some ((mb_bytes ?b)[?j div 8 := ?v])\<rparr>" using b' r(3) jd jb by (simp add: MB_set_correct)
  note s = MB_set_ok [OF r(3) b', unfolded jd]
  have "\<not> Perm_GetSize p \<le> word_of_nat i" "\<not> Perm_GetSize p \<le> word_of_nat ?j"
    using assms(2) j(2) iu by (simp_all add: word_le_nat_alt)
  then have "CF_SetBitInBufferPermuted (word_of_nat i) c = Inr (c\<lparr>cf_buffer := b'\<rparr>)"
    using r(1) j(1) idx b' iu(2) by (simp add: CF_SetBitInBufferPermuted_def cf_perm_def)
  moreover have "cf_same c (c\<lparr>cf_buffer := b'\<rparr>)" by (simp add: cf_same_def b2)
  moreover have "bits_ready p (c\<lparr>cf_buffer := b'\<rparr>)" using r s by (simp add: bits_ready_def)
  moreover have "cf_bit (c\<lparr>cf_buffer := b'\<rparr>) k = (cf_bit c k \<or> k = ?j)" if "k < 8 * unat (mb_size ?b)" for k
  proof -
    have "?j div 8 < length (mb_bytes ?b)" using jb length_mb_bytes [OF r(3)] by simp
    then show ?thesis using same_bit_position [of k ?j]
      by (auto simp: cf_bit_def lbit_def s nth_list_update bit_set_byte)
  qed
  ultimately show ?thesis by blast
qed

lemma CF_GetBit_correct:
  assumes "bits_ready p c" "i < unat (Perm_GetSize p)"
  shows "CF_GetBitInBufferPermuted (word_of_nat i) c = Inr (cf_bit c (perm.pos p i))"
proof -
  let ?j = "perm.pos p i" and ?b = "cf_buffer c"
  have r: "cf_permutation c = Some p" "perm_ok p" "mb_ok ?b" "unat (Perm_GetSize p) \<le> 8 * unat (mb_size ?b)"
    using assms(1) by (simp_all add: bits_ready_def)
  have j: "Perm_Permute p (word_of_nat i) = Inr (word_of_nat ?j)" "?j < unat (Perm_GetSize p)"
    using perm.permute_pos [OF r(2) assms(2)] perm.pos_less [OF r(2) assms(2)] by simp_all
  have iu: "unat (word_of_nat i :: u64) = i" "unat (word_of_nat ?j :: u64) = ?j" using assms(2) j(2) by (simp_all add: unat_simps)
  have jd: "unat (word_of_nat ?j div 8 :: u64) = ?j div 8" using iu(2) by (simp add: unat_div)
  have "?j div 8 < unat (mb_size ?b)" using j(2) r(4) by linarith
  moreover have "\<not> Perm_GetSize p \<le> word_of_nat i" using assms(2) iu by (simp add: word_le_nat_alt)
  ultimately show ?thesis using r j(1) jd iu(2)
    by (simp add: CF_GetBitInBufferPermuted_def cf_perm_def MB_index_correct and_power_byte cf_bit_def lbit_def)
qed

section \<open>Covers\<close>

text \<open>
  What the three classes have in common: a cover holds a sequence of lowest bits; \<open>gather\<close> sets the
  bits of a cleared buffer from it, \<open>scatter\<close> stores the bits of the buffer in it.  The cover is
  valid for a number of bits when it has that many.
\<close>

locale lsb_cover =
  fixes valid :: "u64 \<Rightarrow> 'm \<Rightarrow> bool"
    and lsb :: "'m \<Rightarrow> nat \<Rightarrow> bool"
    and gather :: "u64 \<Rightarrow> 'm \<Rightarrow> unit cio"
    and scatter :: "u64 \<Rightarrow> carrier \<Rightarrow> 'm \<Rightarrow> 'm res"
  assumes gather_run: "bits_ready p c \<Longrightarrow> n = Perm_GetSize p \<Longrightarrow> valid n m \<Longrightarrow>
            \<forall>j < 8 * unat (mb_size (cf_buffer c)). \<not> cf_bit c j \<Longrightarrow>
            \<exists>c'. gather n m (c, w) = ((c', w), Inr ()) \<and> cf_same c c' \<and> bits_ready p c' \<and>
                 (\<forall>i < unat n. cf_bit c' (perm.pos p i) = lsb m i)"
    and scatter_run: "bits_ready p c \<Longrightarrow> n = Perm_GetSize p \<Longrightarrow> valid n m \<Longrightarrow>
            \<exists>m'. scatter n c m = Inr m' \<and> valid n m' \<and> (\<forall>i < unat n. lsb m' i = cf_bit c (perm.pos p i))"
begin

text \<open>Collecting the bits of a cover that was written gives back every position of the permutation.\<close>

lemma gather_scatter:
  assumes "bits_ready p c" "n = Perm_GetSize p" "valid n m" "scatter n c m = Inr m'"
      and "bits_ready p c2" "\<forall>j < 8 * unat (mb_size (cf_buffer c2)). \<not> cf_bit c2 j"
  shows "\<exists>c3. gather n m' (c2, w) = ((c3, w), Inr ()) \<and> cf_same c2 c3 \<and> bits_ready p c3 \<and>
              (\<forall>j < unat n. cf_bit c3 j = cf_bit c j)"
proof -
  have m': "valid n m'" "\<forall>i < unat n. lsb m' i = cf_bit c (perm.pos p i)"
    using scatter_run [OF assms(1-3)] assms(4) by auto
  obtain c3 where c3: "gather n m' (c2, w) = ((c3, w), Inr ())" "cf_same c2 c3" "bits_ready p c3"
      "\<forall>i < unat n. cf_bit c3 (perm.pos p i) = lsb m' i"
    using gather_run [OF assms(5,2) m'(1) assms(6)] by blast
  have "cf_bit c3 j = cf_bit c j" if "j < unat n" for j
  proof -
    have "perm_ok p" using assms(1) by (simp add: bits_ready_def)
    then have "j \<in> perm.pos p ` {..<unat n}" using perm.bij_pos [of p] that assms(2) by (simp add: bij_betw_def)
    then show ?thesis using c3(4) m'(2) by auto
  qed
  with c3 show ?thesis by blast
qed

end

end
