(* ===== verification/Json_Object.thy ===== *)
theory Json_Object
  imports Stego_Exceptions
begin

text \<open>
  \<^verbatim>\<open>src/utils/json_object.h\<close>: the JSON values of the configuration, with every way to read and
  change them, and the two forms in which they are written.
\<close>


section \<open>Doubles\<close>

text \<open>
  A \<open>double\<close> is its IEEE 754 bit pattern: \<open>double_parts\<close> gives \<open>m\<close> and \<open>e\<close> with the magnitude
  \<open>m * 2 ^ e\<close> of a finite one.
\<close>

type_synonym double = "64 word"

definition double_negative :: "double \<Rightarrow> bool" where
  "double_negative d = bit d 63"

definition double_exponent :: "double \<Rightarrow> nat" where
  "double_exponent d = unat (drop_bit 52 d) mod 2 ^ 11"

definition double_fraction :: "double \<Rightarrow> nat" where
  "double_fraction d = unat d mod 2 ^ 52"

definition double_parts :: "double \<Rightarrow> nat \<times> int" where
  "double_parts d = (if double_exponent d = 0 then (double_fraction d, -1074)
                     else (2 ^ 52 + double_fraction d, int (double_exponent d) - 1075))"

definition double_finite :: "double \<Rightarrow> bool" where
  "double_finite d \<longleftrightarrow> double_exponent d \<noteq> 2047"

text \<open>The magnitude as a fraction, cut to an integer, and whether it is one.\<close>

definition double_ratio :: "double \<Rightarrow> nat \<times> nat" where
  "double_ratio d = (case double_parts d of
     (m, e) \<Rightarrow> if 0 \<le> e then (m * 2 ^ nat e, 1) else (m, 2 ^ nat (- e)))"

definition double_trunc :: "double \<Rightarrow> nat" where
  "double_trunc d = (case double_ratio d of (a, b) \<Rightarrow> a div b)"

definition double_integral :: "double \<Rightarrow> bool" where
  "double_integral d = (case double_ratio d of (a, b) \<Rightarrow> a mod b = 0)"

text \<open>\<open>printf("%.f")\<close> of an integral value and \<open>printf("%.17g")\<close> of any other.\<close>

definition sign_text :: "double \<Rightarrow> string" where
  "sign_text d = (if double_negative d then ''-'' else [])"

definition format_f :: "double \<Rightarrow> string" where
  "format_f d = sign_text d @ decimal (double_trunc d)"

text \<open>\<open>a / b * 10 ^ k\<close> rounded to the nearest integer, halves to the even one.\<close>

definition scaled :: "nat \<Rightarrow> nat \<Rightarrow> int \<Rightarrow> nat" where
  "scaled a b k =
     (let n = (if 0 \<le> k then a * 10 ^ nat k else a); m = (if 0 \<le> k then b else b * 10 ^ nat (- k));
          q = n div m; r = n mod m
      in if 2 * r > m \<or> 2 * r = m \<and> odd q then q + 1 else q)"

definition strip_zeros :: "string \<Rightarrow> string" where
  "strip_zeros s = rev (dropWhile (\<lambda>c. c = CHR ''0'') (rev s))"

definition with_point :: "string \<Rightarrow> string \<Rightarrow> string" where
  "with_point whole digits = (if digits = [] then whole else whole @ ''.'' @ digits)"

definition format_17g :: "double \<Rightarrow> string" where
  "format_17g d =
     (if \<not> double_finite d then sign_text d @ (if double_fraction d = 0 then ''inf'' else ''nan'')
      else case double_ratio d of (a, b) \<Rightarrow>
        if a = 0 then sign_text d @ ''0''
        else
          let guess = int (length (decimal a)) - int (length (decimal b));
              lg = (if (if 0 \<le> guess then a < b * 10 ^ nat guess else a * 10 ^ nat (- guess) < b) then guess - 1 else guess);
              r = scaled a b (16 - lg);
              x = (if r = 10 ^ 17 then lg + 1 else lg);
              digits = decimal (if r = 10 ^ 17 then 10 ^ 16 else r)
          in sign_text d @
             (if x < -4 \<or> 17 \<le> x
              then with_point (take 1 digits) (strip_zeros (drop 1 digits)) @ ''e'' @ (if x < 0 then ''-'' else ''+'') @
                   (let e = decimal (nat \<bar>x\<bar>) in if length e < 2 then CHR ''0'' # e else e)
              else if 0 \<le> x then with_point (take (nat x + 1) digits) (strip_zeros (drop (nat x + 1) digits))
              else with_point ''0'' (replicate (nat (- x) - 1) CHR ''0'' @ strip_zeros digits)))"

section \<open>JSON values\<close>

text \<open>
  The type tag and the payload it selects.  A payload that the tag does not select is never read: every
  operation that changes the tag to \<open>STRING\<close>, \<open>ARRAY\<close> or \<open>OBJECT\<close> resets the payload first.  The
  members of an object are those of a \<open>std::map\<close>, in the order of their keys.
\<close>

datatype json =
    JNull
  | JBool bool
  | JNumber double
  | JString string
  | JObject "(string \<times> json) list"
  | JArray "json list"

datatype NodeType = NULL_VAL | BOOLEAN | NUMBER | STRING | OBJECT | ARRAY

fun type_of :: "json \<Rightarrow> NodeType" where
  "type_of JNull = NULL_VAL"
| "type_of (JBool b) = BOOLEAN"
| "type_of (JNumber d) = NUMBER"
| "type_of (JString s) = STRING"
| "type_of (JObject m) = OBJECT"
| "type_of (JArray a) = ARRAY"

fun JsonObject_of_type :: "NodeType \<Rightarrow> json" where
  "JsonObject_of_type NULL_VAL = JNull"
| "JsonObject_of_type BOOLEAN = JBool False"
| "JsonObject_of_type NUMBER = JNumber 0"
| "JsonObject_of_type STRING = JString []"
| "JsonObject_of_type OBJECT = JObject []"
| "JsonObject_of_type ARRAY = JArray []"

text \<open>
  The constructors for integral and floating values take a second argument of type \<open>enable_if\<close> that no
  call gives, so \<open>JsonObject(f)\<close> for a \<open>double\<close> is the constructor for \<open>bool\<close>.
\<close>

definition JsonObject_of_double :: "double \<Rightarrow> json" where
  "JsonObject_of_double f = JBool (f \<noteq> 0 \<and> f \<noteq> 0x8000000000000000)"

section \<open>Maps with ordered keys\<close>

text \<open>\<open>std::map\<close>: the first place for a key that is not below it.\<close>

fun map_get :: "string \<Rightarrow> (string \<times> 'a) list \<Rightarrow> 'a option" where
  "map_get k [] = None"
| "map_get k ((k', v) # m) = (if k = k' then Some v else map_get k m)"

fun map_set :: "string \<Rightarrow> 'a \<Rightarrow> (string \<times> 'a) list \<Rightarrow> (string \<times> 'a) list" where
  "map_set k v [] = [(k, v)]"
| "map_set k v ((k', v') # m) =
     (if k = k' then (k, v) # m
      else if string_less k k' then (k, v) # (k', v') # m
      else (k', v') # map_set k v m)"

section \<open>Access\<close>

definition SetNull :: "json \<Rightarrow> json" where
  "SetNull j = JNull"

definition Assign_bool :: "bool \<Rightarrow> json \<Rightarrow> json" where
  "Assign_bool val j = JBool val"

definition Assign_double :: "double \<Rightarrow> json \<Rightarrow> json" where
  "Assign_double val j = JNumber val"

definition Swap :: "json \<times> json \<Rightarrow> json \<times> json" where
  "Swap p = (snd p, fst p)"

definition IsNull :: "json \<Rightarrow> bool" where "IsNull j \<longleftrightarrow> type_of j = NULL_VAL"
definition IsBool :: "json \<Rightarrow> bool" where "IsBool j \<longleftrightarrow> type_of j = BOOLEAN"
definition IsNumber :: "json \<Rightarrow> bool" where "IsNumber j \<longleftrightarrow> type_of j = NUMBER"
definition IsString :: "json \<Rightarrow> bool" where "IsString j \<longleftrightarrow> type_of j = STRING"
definition IsArray :: "json \<Rightarrow> bool" where "IsArray j \<longleftrightarrow> type_of j = ARRAY"
definition IsObject :: "json \<Rightarrow> bool" where "IsObject j \<longleftrightarrow> type_of j = OBJECT"

definition ToBool :: "bool \<Rightarrow> json \<Rightarrow> bool" where
  "ToBool def_val j = (case j of JBool b \<Rightarrow> b | _ \<Rightarrow> def_val)"

text \<open>The cast of a \<open>double\<close> to an \<open>int64_t\<close> cuts off the fraction; out of range it is undefined.\<close>

definition ToInt :: "int \<Rightarrow> json \<Rightarrow> int res" where
  "ToInt def_val j =
     (case j of
        JNumber d \<Rightarrow>
          let t = (if double_negative d then - int (double_trunc d) else int (double_trunc d)) in
          if double_finite d \<and> - (2 ^ 63) \<le> t \<and> t < 2 ^ 63 then Inr t else Inl Undefined
      | _ \<Rightarrow> Inr def_val)"

definition ToUInt :: "u64 \<Rightarrow> json \<Rightarrow> u64 res" where
  "ToUInt def_val j = bindR (ToInt (sint def_val) j) (\<lambda>t. Inr (word_of_int t))"

definition ToNumber :: "double \<Rightarrow> json \<Rightarrow> double" where
  "ToNumber def_val j = (case j of JNumber d \<Rightarrow> d | _ \<Rightarrow> def_val)"

definition BoolToString :: "bool \<Rightarrow> string" where
  "BoolToString v = (if v then ''true'' else ''false'')"

text \<open>\<open>ToString() const\<close>, with a default, and the reference of the method that is not \<open>const\<close>.\<close>

definition ToString_default :: "string \<Rightarrow> json \<Rightarrow> string" where
  "ToString_default def_val j = (case j of JString s \<Rightarrow> s | JBool b \<Rightarrow> BoolToString b | _ \<Rightarrow> def_val)"

definition ToString :: "json \<Rightarrow> string" where
  "ToString j = ToString_default [] j"

definition ToString_ref :: "json \<Rightarrow> json \<times> string" where
  "ToString_ref j = (case j of JString s \<Rightarrow> (j, s) | _ \<Rightarrow> (JString [], []))"

definition ToLowerString :: "string \<Rightarrow> json \<Rightarrow> string" where
  "ToLowerString def_val j = (case j of JString s \<Rightarrow> lower s | JBool b \<Rightarrow> BoolToString b | _ \<Rightarrow> def_val)"

definition ToArray :: "json \<Rightarrow> json list" where
  "ToArray j = (case j of JArray a \<Rightarrow> a | _ \<Rightarrow> [])"

definition ToArray_ref :: "json \<Rightarrow> json \<times> json list" where
  "ToArray_ref j = (JArray (ToArray j), ToArray j)"

definition AddToArray :: "json \<Rightarrow> json \<Rightarrow> json" where
  "AddToArray node j = JArray (ToArray j @ [node])"

definition ArraySize :: "json \<Rightarrow> nat" where
  "ArraySize j = length (ToArray j)"

definition GrowArray :: "nat \<Rightarrow> NodeType \<Rightarrow> json \<Rightarrow> json" where
  "GrowArray n t j = JArray (ToArray j @ replicate (n - ArraySize j) (JsonObject_of_type t))"

text \<open>
  \<open>operator[](size_t)\<close>: the array grows where needed; the \<open>const\<close> one compares with the unsigned
  \<open>size() - 1\<close>, so the element at any index of an empty array is read outside it.
\<close>

definition at_index :: "nat \<Rightarrow> json \<Rightarrow> json \<times> json" where
  "at_index pos j = (let j = GrowArray (pos + 1) NULL_VAL j in (j, ToArray j ! pos))"

definition NullNode :: json where
  "NullNode = JNull"

definition at_index_const :: "u64 \<Rightarrow> json \<Rightarrow> json res" where
  "at_index_const pos j =
     (if \<not> IsArray j \<or> pos > word_of_nat (ArraySize j) - 1 then Inr NullNode
      else if unat pos < ArraySize j then Inr (ToArray j ! unat pos) else Inl Undefined)"

definition ToObject :: "json \<Rightarrow> (string \<times> json) list" where
  "ToObject j = (case j of JObject m \<Rightarrow> m | _ \<Rightarrow> [])"

definition ToObject_ref :: "json \<Rightarrow> json \<times> (string \<times> json) list" where
  "ToObject_ref j = (JObject (ToObject j), ToObject j)"

text \<open>
  \<open>operator[](key)\<close> adds a null member for a new key; so does the \<open>const\<close> one of an object, since a
  \<open>const unique_ptr\<close> gives access to a map that is not \<open>const\<close>.
\<close>

definition map_at :: "string \<Rightarrow> (string \<times> json) list \<Rightarrow> (string \<times> json) list \<times> json" where
  "map_at key m = (case map_get key m of Some v \<Rightarrow> (m, v) | None \<Rightarrow> (map_set key JNull m, JNull))"

definition at_key :: "string \<Rightarrow> json \<Rightarrow> json \<times> json" where
  "at_key key j = (case map_at key (ToObject j) of (m, v) \<Rightarrow> (JObject m, v))"

definition at_key_const :: "string \<Rightarrow> json \<Rightarrow> json \<times> json" where
  "at_key_const key j = (case j of JObject m \<Rightarrow> (case map_at key m of (m, v) \<Rightarrow> (JObject m, v)) | _ \<Rightarrow> (j, NullNode))"

definition Contains :: "string \<Rightarrow> json \<Rightarrow> bool" where
  "Contains key j = (case j of JObject m \<Rightarrow> map_get key m \<noteq> None | _ \<Rightarrow> False)"

definition AddToObject :: "string \<Rightarrow> json \<Rightarrow> json \<Rightarrow> json" where
  "AddToObject key value j = JObject (map_set key value (ToObject j))"

section \<open>Serialization\<close>

definition to_str :: "json \<Rightarrow> string" where
  "to_str j =
     (case j of
        JNull \<Rightarrow> ''null''
      | JBool b \<Rightarrow> (if b then ''true'' else ''false'')
      | JNumber d \<Rightarrow> (if double_finite d \<and> double_trunc d < 2 ^ 53 \<and> double_integral d then format_f d else format_17g d)
      | JString s \<Rightarrow> s
      | JArray a \<Rightarrow> ''array''
      | JObject m \<Rightarrow> ''object'')"

definition hex_digit_low :: "nat \<Rightarrow> char" where
  "hex_digit_low n = char_of (if n < 10 then 48 + n else 87 + n)"

definition escape :: "char \<Rightarrow> string" where
  "escape c =
     (let n = of_char c :: nat; bs = CHR 0x5C in
      if n = 0x22 then [bs, CHR 0x22]
      else if n = 0x5C then [bs, bs]
      else if n = 0x2F then [bs, CHR ''/'']
      else if n = 0x08 then [bs, CHR ''b'']
      else if n = 0x0C then [bs, CHR ''f'']
      else if n = 0x0A then [bs, CHR ''n'']
      else if n = 0x0D then [bs, CHR ''r'']
      else if n = 0x09 then [bs, CHR ''t'']
      else if n < 0x20 \<or> n = 0x7F then [bs, CHR ''u'', CHR ''0'', CHR ''0'', hex_digit_low (n div 16), hex_digit_low (n mod 16)]
      else [c])"

definition serialize_str :: "string \<Rightarrow> string" where
  "serialize_str s = CHR 0x22 # concat (map escape s) @ [CHR 0x22]"

text \<open>The elements with \<open>,\<close> between them.\<close>

fun comma_separated :: "string list \<Rightarrow> string" where
  "comma_separated [] = []"
| "comma_separated [x] = x"
| "comma_separated (x # y # xs) = x @ CHR '','' # comma_separated (y # xs)"

fun Serialize :: "json \<Rightarrow> string" where
  "Serialize (JString s) = serialize_str s"
| "Serialize (JArray a) = ''['' @ comma_separated (map Serialize a) @ '']''"
| "Serialize (JObject m) = ''{'' @ comma_separated (map (\<lambda>(k, v). serialize_str k @ CHR '':'' # Serialize v) m) @ ''}''"
| "Serialize j = to_str j"

definition newline :: string where
  "newline = [CHR 0x0A]"

definition Indent :: "nat \<Rightarrow> string" where
  "Indent indent = replicate (indent * 2) CHR '' ''"

fun lines_separated :: "string list \<Rightarrow> string" where
  "lines_separated [] = []"
| "lines_separated [x] = x"
| "lines_separated (x # y # xs) = x @ CHR '','' # newline @ lines_separated (y # xs)"

fun PrettySerialize :: "nat \<Rightarrow> json \<Rightarrow> string" where
  "PrettySerialize indent (JString s) = serialize_str s"
| "PrettySerialize indent (JArray a) =
     ''['' @ newline @ lines_separated (map (\<lambda>v. Indent (indent + 1) @ PrettySerialize (indent + 1) v) a) @
     newline @ Indent indent @ '']''"
| "PrettySerialize indent (JObject m) =
     ''{'' @ newline @ lines_separated (map (\<lambda>(k, v). Indent (indent + 1) @ serialize_str k @ '' : '' @
                                                    PrettySerialize (indent + 1) v) m) @
     newline @ Indent indent @ ''}''"
| "PrettySerialize indent j = to_str j"

end
