(* ===== verification/Json_Parser.thy ===== *)
theory Json_Parser
  imports Json_Object
begin

text \<open>
  \<^verbatim>\<open>src/utils/json.h\<close>: the reader with one character of push-back, the recursive-descent parser with
  the context that builds a \<open>JsonObject\<close>, and \<open>Parse\<close>.  The parser is total; what the serializer writes
  it reads back.
\<close>

section \<open>The input\<close>

text \<open>The character read last is \<open>-1\<close> at the start and at the end; \<open>ungetc\<close> gives it back once.\<close>

record input =
  in_rest :: string
  in_last :: int
  in_ungot :: bool
  in_line :: int

definition input_of :: "string \<Rightarrow> input" where
  "input_of s = \<lparr>in_rest = s, in_last = -1, in_ungot = False, in_line = 1\<rparr>"

definition getc :: "input \<Rightarrow> int \<times> input" where
  "getc i =
     (if in_ungot i then (in_last i, i\<lparr>in_ungot := False\<rparr>)
      else case in_rest i of
          [] \<Rightarrow> (-1, i\<lparr>in_last := -1\<rparr>)
        | c # cs \<Rightarrow> (of_char c, i\<lparr>in_rest := cs, in_last := of_char c,
                                  in_line := (if in_last i = 0x0A then in_line i + 1 else in_line i)\<rparr>))"

definition ungetc :: "input \<Rightarrow> input" where
  "ungetc i = (if in_last i \<noteq> -1 then i\<lparr>in_ungot := True\<rparr> else i)"

definition remaining :: "input \<Rightarrow> nat" where
  "remaining i = length (in_rest i) + (if in_ungot i then 1 else 0)"

lemma getc_less: "getc i = (ch, i') \<Longrightarrow> ch \<noteq> -1 \<Longrightarrow> remaining i' < remaining i"
  by (auto simp: getc_def remaining_def split: if_splits list.splits)

lemma getc_le: "remaining (snd (getc i)) \<le> remaining i"
  by (auto simp: getc_def remaining_def split: if_splits list.splits)

lemma getc_ungetc_le: "remaining (ungetc (snd (getc i))) \<le> remaining i"
  by (auto simp: getc_def ungetc_def remaining_def split: if_splits list.splits)

definition is_space :: "int \<Rightarrow> bool" where
  "is_space ch \<longleftrightarrow> ch = 0x20 \<or> ch = 0x09 \<or> ch = 0x0A \<or> ch = 0x0D"

function skip_ws :: "input \<Rightarrow> input" where
  "skip_ws i = (case getc i of (ch, i') \<Rightarrow> if is_space ch then skip_ws i' else ungetc i')"
  by pat_completeness auto

termination
  by (relation "measure remaining") (auto simp: is_space_def dest: getc_less [OF sym])

declare skip_ws.simps [simp del]

lemma skip_ws_le: "remaining (skip_ws i) \<le> remaining i"
proof (induction i rule: skip_ws.induct)
  case (1 i)
  then show ?case using getc_le [of i] getc_ungetc_le [of i]
    by (subst skip_ws.simps) (fastforce split: prod.splits)
qed

definition expect :: "char \<Rightarrow> input \<Rightarrow> bool \<times> input" where
  "expect c i = (case getc (skip_ws i) of (ch, i') \<Rightarrow> if ch \<noteq> of_char c then (False, ungetc i') else (True, i'))"

lemma expect_le: "expect c i = (b, i') \<Longrightarrow> remaining i' \<le> remaining i"
  using skip_ws_le [of i] getc_le [of "skip_ws i"] getc_ungetc_le [of "skip_ws i"]
  by (auto simp: expect_def split: prod.splits if_splits)

lemma of_char_nonneg [simp]: "(of_char c :: int) \<noteq> -1" "0 \<le> (of_char c :: int)"
proof -
  show "0 \<le> (of_char c :: int)" by (metis of_nat_0_le_iff of_nat_of_char)
  then show "(of_char c :: int) \<noteq> -1" by linarith
qed

lemma expect_less: "expect c i = (True, i') \<Longrightarrow> remaining i' < remaining i"
proof -
  assume e: "expect c i = (True, i')"
  then have "getc (skip_ws i) = (of_char c, i')" by (auto simp: expect_def split: prod.splits if_splits)
  from getc_less [OF this] skip_ws_le [of i] show ?thesis by simp
qed

fun match :: "string \<Rightarrow> input \<Rightarrow> bool \<times> input" where
  "match [] i = (True, i)"
| "match (p # ps) i = (case getc i of (ch, i') \<Rightarrow> if ch \<noteq> of_char p then (False, ungetc i') else match ps i')"

lemma match_le: "match ps i = (b, i') \<Longrightarrow> remaining i' \<le> remaining i"
proof (induction ps arbitrary: i)
  case (Cons p ps)
  then show ?case using getc_le [of i] getc_ungetc_le [of i] by (fastforce split: prod.splits if_splits)
qed simp

section \<open>Strings\<close>

definition hex_value :: "int \<Rightarrow> int option" where
  "hex_value h = (if 0x30 \<le> h \<and> h \<le> 0x39 then Some (h - 0x30)
                  else if 0x41 \<le> h \<and> h \<le> 0x46 then Some (h - 0x37)
                  else if 0x61 \<le> h \<and> h \<le> 0x66 then Some (h - 0x57)
                  else None)"

text \<open>The loop of \<open>_parse_quadhex\<close> with \<open>n\<close> digits to go.\<close>

fun quadhex :: "nat \<Rightarrow> int \<Rightarrow> input \<Rightarrow> int \<times> input" where
  "quadhex 0 uni_ch i = (uni_ch, i)"
| "quadhex (Suc n) uni_ch i =
     (case getc i of (h, i') \<Rightarrow>
        if h = -1 then (-1, i')
        else case hex_value h of None \<Rightarrow> (-1, ungetc i') | Some d \<Rightarrow> quadhex n (uni_ch * 16 + d) i')"

definition parse_quadhex :: "input \<Rightarrow> int \<times> input" where
  "parse_quadhex i = quadhex 4 0 i"

definition utf8 :: "int \<Rightarrow> string" where
  "utf8 u =
     (let low = (\<lambda>n. char_of (nat (0x80 + (u div 2 ^ n) mod 0x40))) in
      if u < 0x80 then [char_of (nat u)]
      else if u < 0x800 then [char_of (nat (0xC0 + u div 2 ^ 6)), low 0]
      else if u < 0x10000 then [char_of (nat (0xE0 + u div 2 ^ 12)), low 6, low 0]
      else [char_of (nat (0xF0 + u div 2 ^ 18)), low 12, low 6, low 0])"

text \<open>The characters to append, or none when the escape is not valid.\<close>

definition parse_codepoint :: "input \<Rightarrow> string option \<times> input" where
  "parse_codepoint i =
     (case parse_quadhex i of (uni_ch, i) \<Rightarrow>
        if uni_ch = -1 then (None, i)
        else if 0xD800 \<le> uni_ch \<and> uni_ch \<le> 0xDFFF then
          if 0xDC00 \<le> uni_ch then (None, i)
          else (case getc i of (c1, i) \<Rightarrow>
            if c1 \<noteq> 0x5C then (None, ungetc i)
            else case getc i of (c2, i) \<Rightarrow>
              if c2 \<noteq> 0x75 then (None, ungetc i)
              else case parse_quadhex i of (second, i) \<Rightarrow>
                if 0xDC00 \<le> second \<and> second \<le> 0xDFFF
                then (Some (utf8 ((uni_ch - 0xD800) * 2 ^ 10 + (second - 0xDC00) mod 0x400 + 0x10000)), i)
                else (None, i))
        else (Some (utf8 uni_ch), i))"

definition simple_escape :: "int \<Rightarrow> char option" where
  "simple_escape ch =
     (if ch = 0x22 then Some (char_of (0x22 :: nat)) else if ch = 0x5C then Some (char_of (0x5C :: nat))
      else if ch = 0x2F then Some (char_of (0x2F :: nat)) else if ch = 0x62 then Some (char_of (0x08 :: nat))
      else if ch = 0x66 then Some (char_of (0x0C :: nat)) else if ch = 0x6E then Some (char_of (0x0A :: nat))
      else if ch = 0x72 then Some (char_of (0x0D :: nat)) else if ch = 0x74 then Some (char_of (0x09 :: nat))
      else None)"

lemma quadhex_le: "quadhex n u i = (r, i') \<Longrightarrow> remaining i' \<le> remaining i"
proof (induction n arbitrary: u i)
  case (Suc n)
  then show ?case using getc_le [of i] getc_ungetc_le [of i]
    by (fastforce split: prod.splits if_splits option.splits)
qed simp

lemma parse_codepoint_le: "parse_codepoint i = (r, i') \<Longrightarrow> remaining i' \<le> remaining i"
proof -
  assume a: "parse_codepoint i = (r, i')"
  obtain u i1 where q: "parse_quadhex i = (u, i1)" by (cases "parse_quadhex i")
  then have l: "remaining i1 \<le> remaining i" using quadhex_le by (auto simp: parse_quadhex_def)
  obtain c1 i2 where g: "getc i1 = (c1, i2)" by (cases "getc i1")
  obtain c2 i3 where h: "getc i2 = (c2, i3)" by (cases "getc i2")
  obtain s i4 where p: "parse_quadhex i3 = (s, i4)" by (cases "parse_quadhex i3")
  have "remaining i2 \<le> remaining i1" "remaining (ungetc i2) \<le> remaining i1" "remaining i3 \<le> remaining i2" "remaining (ungetc i3) \<le> remaining i2"
    using getc_le [of i1] getc_ungetc_le [of i1] getc_le [of i2] getc_ungetc_le [of i2] g h by simp_all
  moreover have "remaining i4 \<le> remaining i3" using p quadhex_le by (auto simp: parse_quadhex_def)
  ultimately show ?thesis using a l by (auto simp: parse_codepoint_def q g h p split: if_splits)
qed

function parse_string :: "string \<Rightarrow> input \<Rightarrow> bool \<times> string \<times> input" where
  "parse_string out i =
     (case getc i of (ch, i1) \<Rightarrow>
        if ch < 0x20 then (False, out, ungetc i1)
        else if ch = 0x22 then (True, out, i1)
        else if ch = 0x5C then
          (case getc i1 of (ch, i2) \<Rightarrow>
             if ch = -1 then (False, out, i2)
             else case simple_escape ch of
                 Some c \<Rightarrow> parse_string (out @ [c]) i2
               | None \<Rightarrow>
                   if ch = 0x75 then
                     (case parse_codepoint i2 of
                        (None, i3) \<Rightarrow> (False, out, i3)
                      | (Some s, i3) \<Rightarrow> parse_string (out @ s) i3)
                   else (False, out, i2))
        else parse_string (out @ [char_of (nat ch)]) i1)"
  by pat_completeness auto

termination
proof (relation "measure (\<lambda>(out, i). remaining i)", goal_cases)
  case (2 out i ch i1 ch' i2 c)
  then show ?case using getc_less [of i] getc_le [of i1]
    by (fastforce dest!: sym [of _ "getc _"] parse_codepoint_le [OF sym])
next
  case (3 out i ch i1 ch' i2 c)
  then show ?case using getc_less [of i] getc_le [of i1] by (auto dest!: sym [of _ "getc _"])
next
  case (4 out i ch i1)
  then show ?case using getc_less [of i] by (auto dest!: sym [of _ "getc _"])
qed simp

declare parse_string.simps [simp del]

lemma parse_string_le: "parse_string out i = (b, s, i') \<Longrightarrow> remaining i' \<le> remaining i"
proof (induction out i arbitrary: b s i' rule: parse_string.induct)
  case (1 out i)
  obtain ch i1 where g: "getc i = (ch, i1)" by (cases "getc i")
  obtain ch' i2 where h: "getc i1 = (ch', i2)" by (cases "getc i1")
  have l: "remaining i1 \<le> remaining i" "remaining (ungetc i1) \<le> remaining i" "remaining i2 \<le> remaining i1"
    using getc_le [of i] getc_ungetc_le [of i] getc_le [of i1] g h by simp_all
  show ?case
    using "1.prems" l "1.IH" [OF g [symmetric]] parse_codepoint_le [of i2]
    by (subst (asm) parse_string.simps)
      (fastforce simp: g h split: if_splits option.splits prod.splits dest: le_trans)
qed

section \<open>Numbers\<close>

definition is_number_char :: "int \<Rightarrow> bool" where
  "is_number_char ch \<longleftrightarrow> 0x30 \<le> ch \<and> ch \<le> 0x39 \<or> ch = 0x2B \<or> ch = 0x2D \<or> ch = 0x2E \<or> ch = 0x65 \<or> ch = 0x45"

function number_chars :: "string \<Rightarrow> input \<Rightarrow> string \<times> input" where
  "number_chars num_str i =
     (case getc i of (ch, i1) \<Rightarrow>
        if is_number_char ch then number_chars (num_str @ [char_of (nat ch)]) i1 else (num_str, ungetc i1))"
  by pat_completeness auto

termination
  by (relation "measure (\<lambda>(num_str, i). remaining i)") (auto simp: is_number_char_def dest: getc_less [OF sym])

declare number_chars.simps [simp del]

lemma number_chars_le: "number_chars s i = (s', i') \<Longrightarrow> remaining i' \<le> remaining i"
proof (induction s i rule: number_chars.induct)
  case (1 s i)
  then show ?case using getc_le [of i] getc_ungetc_le [of i]
    by (subst (asm) number_chars.simps) (fastforce split: prod.splits if_splits)
qed

text \<open>
  \<open>strtod\<close> on these characters: an optional sign, digits with at most one point among them, and an
  optional exponent; the value is the digits read as a number, scaled by a power of ten.  Of the value
  only whether it is zero counts (\<open>json_object.h\<close> makes a truth value of it), which it also is where it rounds to
  zero, at most half the least \<open>double\<close> \<open>2 ^ -1074\<close>.
\<close>

definition digit_char :: "char \<Rightarrow> bool" where
  "digit_char c \<longleftrightarrow> 48 \<le> (of_char c :: nat) \<and> (of_char c :: nat) \<le> 57"

definition digits_nat :: "string \<Rightarrow> nat" where
  "digits_nat s = fold (\<lambda>c n. 10 * n + (of_char c - 48)) s 0"

definition drop_sign :: "string \<Rightarrow> string" where
  "drop_sign s = (case s of c # cs \<Rightarrow> if c = CHR ''+'' \<or> c = CHR ''-'' then cs else s | [] \<Rightarrow> [])"

text \<open>The exponent, where the whole rest of the text is one.\<close>

definition strtod_exponent :: "string \<Rightarrow> int option" where
  "strtod_exponent s =
     (case s of
        [] \<Rightarrow> Some 0
      | c # cs \<Rightarrow>
          if (c = CHR ''e'' \<or> c = CHR ''E'') \<and> drop_sign cs \<noteq> [] \<and> list_all digit_char (drop_sign cs)
          then Some (if take 1 cs = ''-'' then - int (digits_nat (drop_sign cs)) else int (digits_nat (drop_sign cs)))
          else None)"

text \<open>The digits without the point and the power of ten, where the whole text is a number.\<close>

definition strtod_parts :: "string \<Rightarrow> (nat \<times> int) option" where
  "strtod_parts s =
     (let body = drop_sign s;
          whole = takeWhile digit_char body; rest = dropWhile digit_char body;
          point = take 1 rest = ''.'';
          frc = (if point then takeWhile digit_char (tl rest) else []);
          rest = (if point then dropWhile digit_char (tl rest) else rest)
      in if whole = [] \<and> frc = [] then None
         else case strtod_exponent rest of
             None \<Rightarrow> None
           | Some e \<Rightarrow> Some (digits_nat (whole @ frc), e - int (length frc)))"

definition strtod_nonzero :: "nat \<times> int \<Rightarrow> bool" where
  "strtod_nonzero v = (case v of (m, e) \<Rightarrow> if 0 \<le> e then m \<noteq> 0 else m * 2 ^ 1075 > 10 ^ nat (- e))"

definition parse_number :: "input \<Rightarrow> bool option \<times> input" where
  "parse_number i = (case number_chars [] i of (s, i1) \<Rightarrow> (map_option strtod_nonzero (strtod_parts s), i1))"

section \<open>Values\<close>

text \<open>
  \<open>_parse\<close> with the context that builds a \<open>JsonObject\<close> in place of \<open>out\<close>; the loops of
  \<open>_parse_array\<close> and \<open>_parse_object\<close>.  Where a branch returns false, what had been built stays in \<open>out\<close>.
\<close>

function (domintros) parse_value :: "json \<Rightarrow> input \<Rightarrow> bool \<times> json \<times> input"
    and parse_items :: "json list \<Rightarrow> input \<Rightarrow> bool \<times> json \<times> input"
    and parse_members :: "(string \<times> json) list \<Rightarrow> input \<Rightarrow> bool \<times> json \<times> input" where
  "parse_value out i =
     (case getc (skip_ws i) of (ch, i) \<Rightarrow>
        if ch = 0x6E then (case match ''ull'' i of (b, i) \<Rightarrow> (b, if b then JNull else out, i))
        else if ch = 0x66 then (case match ''alse'' i of (b, i) \<Rightarrow> (b, if b then JBool False else out, i))
        else if ch = 0x74 then (case match ''rue'' i of (b, i) \<Rightarrow> (b, if b then JBool True else out, i))
        else if ch = 0x22 then (case parse_string [] i of (b, s, i) \<Rightarrow> (b, JString s, i))
        else if ch = 0x5B then
          (case expect CHR '']'' i of (b, i) \<Rightarrow> if b then (True, JArray [], i) else parse_items [] i)
        else if ch = 0x7B then
          (case expect CHR ''}'' i of (b, i) \<Rightarrow> if b then (True, JObject [], i) else parse_members [] i)
        else if 0x30 \<le> ch \<and> ch \<le> 0x39 \<or> ch = 0x2D then
          (case parse_number (ungetc i) of (None, i) \<Rightarrow> (False, out, i) | (Some f, i) \<Rightarrow> (True, JBool f, i))
        else (False, out, ungetc i))"
| "parse_items a i =
     (case parse_value JNull i of (b, v, i) \<Rightarrow>
        if \<not> b then (False, JArray (a @ [v]), i)
        else case expect CHR '','' i of (b, i) \<Rightarrow>
          if b then parse_items (a @ [v]) i
          else case expect CHR '']'' i of (b, i) \<Rightarrow> (b, JArray (a @ [v]), i))"
| "parse_members m i =
     (case expect CHR 0x22 i of (b, i) \<Rightarrow>
        if \<not> b then (False, JObject m, i)
        else case parse_string [] i of (b, key, i) \<Rightarrow>
          if \<not> b then (False, JObject m, i)
          else case expect CHR '':'' i of (b, i) \<Rightarrow>
            if \<not> b then (False, JObject m, i)
            else case parse_value (snd (map_at key m)) i of (b, v, i) \<Rightarrow>
              let m = map_set key v m in
              if \<not> b then (False, JObject m, i)
              else case expect CHR '','' i of (b, i) \<Rightarrow>
                if b then parse_members m i
                else case expect CHR ''}'' i of (b, i) \<Rightarrow> (b, JObject m, i))"
  by pat_completeness auto

text \<open>
  The parser ends on every input: no call gives back more characters than it found, every loop
  consumes its separator, and every nested value comes after a bracket or a key.
\<close>

abbreviation parse_dom where "parse_dom \<equiv> parse_value_parse_items_parse_members_dom"

lemma parse_number_le: "parse_number i = (r, i') \<Longrightarrow> remaining i' \<le> remaining i"
  by (auto simp: parse_number_def split: prod.splits dest: number_chars_le)

lemma parse_value_dom:
  assumes "\<And>i'. remaining i' < remaining i \<Longrightarrow> parse_dom (Inr (Inl ([], i')))"
      and "\<And>i'. remaining i' < remaining i \<Longrightarrow> parse_dom (Inr (Inr ([], i')))"
  shows "parse_dom (Inl (out, i))"
proof (rule parse_value_parse_items_parse_members.domintros(1), goal_cases)
  case (1 i1 x i2)
  then have "getc (skip_ws i) = (91, i1)" "expect CHR '']'' i1 = (False, i2)" by simp_all
  then show ?case using assms(1) [of i2] getc_less [of "skip_ws i" 91 i1] skip_ws_le [of i] expect_le by fastforce
next
  case (2 i1 x i2)
  then have "getc (skip_ws i) = (123, i1)" "expect CHR ''}'' i1 = (False, i2)" by simp_all
  then show ?case using assms(2) [of i2] getc_less [of "skip_ws i" 123 i1] skip_ws_le [of i] expect_le by fastforce
qed

lemma parse_value_le_step:
  assumes "parse_dom (Inl (out, i))" "parse_value out i = (b, v, i')"
      and "\<And>i1 b v i'. remaining i1 < remaining i \<Longrightarrow> parse_items [] i1 = (b, v, i') \<Longrightarrow> remaining i' \<le> remaining i1"
      and "\<And>i1 b v i'. remaining i1 < remaining i \<Longrightarrow> parse_members [] i1 = (b, v, i') \<Longrightarrow> remaining i' \<le> remaining i1"
  shows "remaining i' \<le> remaining i"
proof -
  obtain ch i1 where g: "getc (skip_ws i) = (ch, i1)" by (cases "getc (skip_ws i)")
  have l: "remaining i1 \<le> remaining i" "remaining (ungetc i1) \<le> remaining i" "ch \<noteq> -1 \<Longrightarrow> remaining i1 < remaining i"
    using g getc_le [of "skip_ws i"] getc_ungetc_le [of "skip_ws i"] getc_less [of "skip_ws i"] skip_ws_le [of i] by fastforce+
  obtain b2 i2 where e: "expect CHR '']'' i1 = (b2, i2)" by (cases "expect CHR '']'' i1")
  obtain b3 i3 where e': "expect CHR ''}'' i1 = (b3, i3)" by (cases "expect CHR ''}'' i1")
  have le: "remaining i2 \<le> remaining i1" "remaining i3 \<le> remaining i1" using e e' expect_le by blast+
  have items: "parse_items [] i2 = (b, v, i') \<Longrightarrow> ch \<noteq> -1 \<Longrightarrow> remaining i' \<le> remaining i"
    using assms(3) [of i2] l(3) le(1) by fastforce
  have mems: "parse_members [] i3 = (b, v, i') \<Longrightarrow> ch \<noteq> -1 \<Longrightarrow> remaining i' \<le> remaining i"
    using assms(4) [of i3] l(3) le(2) by fastforce
  note eq = assms(2) [unfolded parse_value.psimps [OF assms(1)] g prod.case e e']
  consider "ch = 0x6E" | "ch = 0x66" | "ch = 0x74" | "ch = 0x22" | "ch = 0x5B" | "ch = 0x7B" |
    "0x30 \<le> ch \<and> ch \<le> 0x39 \<or> ch = 0x2D" |
    "ch \<notin> {0x6E, 0x66, 0x74, 0x22, 0x5B, 0x7B, 0x2D}" "\<not> (0x30 \<le> ch \<and> ch \<le> 0x39)" by blast
  then show ?thesis
  proof cases
    case 1 then show ?thesis using eq l match_le [of "''ull''" i1] by (auto split: prod.splits)
  next
    case 2 then show ?thesis using eq l match_le [of "''alse''" i1] by (auto split: prod.splits)
  next
    case 3 then show ?thesis using eq l match_le [of "''rue''" i1] by (auto split: prod.splits)
  next
    case 4 then show ?thesis using eq l parse_string_le [of "[]" i1] by (auto split: prod.splits)
  next
    case 5 then show ?thesis using eq l(3) le(1) items by (simp split: if_splits)
  next
    case 6 then show ?thesis using eq l(3) le(2) mems by (simp split: if_splits)
  next
    case 7
    then have "ch \<notin> {0x6E, 0x66, 0x74, 0x22, 0x5B, 0x7B}" by auto
    then show ?thesis using eq 7 l(2) parse_number_le [of "ungetc i1"] by (auto split: prod.splits option.splits)
  next
    case 8 then show ?thesis using eq l(2) by auto
  qed
qed

lemma parse_items_step:
  assumes "parse_dom (Inl (JNull, i))" "\<And>b v i'. parse_value JNull i = (b, v, i') \<Longrightarrow> remaining i' \<le> remaining i"
      and "\<And>i' a. remaining i' < remaining i \<Longrightarrow> parse_dom (Inr (Inl (a, i')))"
      and "\<And>i1 a b v i'. remaining i1 < remaining i \<Longrightarrow> parse_items a i1 = (b, v, i') \<Longrightarrow> remaining i' \<le> remaining i1"
  shows "parse_dom (Inr (Inl (a, i)))" "parse_items a i = (b, v, i') \<Longrightarrow> remaining i' \<le> remaining i"
proof -
  obtain b1 v1 i1 where p: "parse_value JNull i = (b1, v1, i1)" by (metis prod_cases3)
  obtain b2 i2 where e: "expect CHR '','' i1 = (b2, i2)" by (cases "expect CHR '','' i1")
  obtain b3 i3 where e': "expect CHR '']'' i2 = (b3, i3)" by (cases "expect CHR '']'' i2")
  have l: "remaining i1 \<le> remaining i" "remaining i2 \<le> remaining i1" "b2 \<Longrightarrow> remaining i2 < remaining i1" "remaining i3 \<le> remaining i2"
    using assms(2) [OF p] expect_le [OF e] expect_less [of "CHR '',''" i1 i2] e expect_le [OF e'] by auto
  show d: "parse_dom (Inr (Inl (a, i)))"
  proof (rule parse_value_parse_items_parse_members.domintros(2) [OF assms(1)], goal_cases)
    case (1 x v' i1' y i2')
    then have "v' = v1" "i1' = i1" "i2' = i2" "b2" using p e by auto
    then show ?case using l assms(3) [of i2] by simp
  qed
  show "remaining i' \<le> remaining i" if r: "parse_items a i = (b, v, i')"
  proof -
    have "b1 \<Longrightarrow> b2 \<Longrightarrow> parse_items (a @ [v1]) i2 = (b, v, i')"
      using r by (simp add: parse_items.psimps [OF d] p e)
    then have "b1 \<Longrightarrow> b2 \<Longrightarrow> remaining i' \<le> remaining i2" using l assms(4) [of i2] by simp
    then show ?thesis using r l by (auto simp: parse_items.psimps [OF d] p e e' split: if_splits)
  qed
qed

lemma parse_members_step:
  assumes "\<And>i' out. remaining i' < remaining i \<Longrightarrow> parse_dom (Inl (out, i'))"
      and "\<And>i1 out b v i'. remaining i1 < remaining i \<Longrightarrow> parse_value out i1 = (b, v, i') \<Longrightarrow> remaining i' \<le> remaining i1"
      and "\<And>i' m. remaining i' < remaining i \<Longrightarrow> parse_dom (Inr (Inr (m, i')))"
      and "\<And>i1 m b v i'. remaining i1 < remaining i \<Longrightarrow> parse_members m i1 = (b, v, i') \<Longrightarrow> remaining i' \<le> remaining i1"
  shows "parse_dom (Inr (Inr (m, i)))" "parse_members m i = (b, v, i') \<Longrightarrow> remaining i' \<le> remaining i"
proof -
  obtain b1 i1 where q: "expect CHR 0x22 i = (b1, i1)" by (cases "expect CHR 0x22 i")
  obtain b2 key i2 where s: "parse_string [] i1 = (b2, key, i2)" by (metis prod_cases3)
  obtain b3 i3 where c: "expect CHR '':'' i2 = (b3, i3)" by (cases "expect CHR '':'' i2")
  obtain b4 v1 i4 where p: "parse_value (snd (map_at key m)) i3 = (b4, v1, i4)" by (metis prod_cases3)
  obtain b5 i5 where e: "expect CHR '','' i4 = (b5, i5)" by (cases "expect CHR '','' i4")
  obtain b6 i6 where e': "expect CHR ''}'' i5 = (b6, i6)" by (cases "expect CHR ''}'' i5")
  have l: "remaining i1 \<le> remaining i" "b1 \<Longrightarrow> remaining i1 < remaining i" "remaining i2 \<le> remaining i1" "remaining i3 \<le> remaining i2"
      "remaining i5 \<le> remaining i4" "remaining i6 \<le> remaining i5"
    using expect_le [OF q] expect_less [of "CHR 0x22" i i1] q parse_string_le [OF s] expect_le [OF c] expect_le [OF e] expect_le [OF e'] by auto
  have l4: "b1 \<Longrightarrow> remaining i4 \<le> remaining i3" using l assms(2) [OF _ p] by simp
  show d: "parse_dom (Inr (Inr (m, i)))"
  proof (rule parse_value_parse_items_parse_members.domintros(3), goal_cases)
    case (1 x i1' y k i2' z i3')
    then have "k = key" "i3' = i3" "b1" using q s c by auto
    then show ?case using l assms(1) [of i3] by simp
  next
    case (2 x i1' y k i2' z i3' w v' i4' u i5')
    then have "k = key" "v' = v1" "i5' = i5" "b1" using q s c p e by auto
    then show ?case using l l4 assms(3) [of i5] by simp
  qed
  show "remaining i' \<le> remaining i" if r: "parse_members m i = (b, v, i')"
  proof -
    have "b1 \<Longrightarrow> b2 \<Longrightarrow> b3 \<Longrightarrow> b4 \<Longrightarrow> b5 \<Longrightarrow> parse_members (map_set key v1 m) i5 = (b, v, i')"
      using r by (simp add: parse_members.psimps [OF d] q s c p e)
    then have "b1 \<Longrightarrow> b2 \<Longrightarrow> b3 \<Longrightarrow> b4 \<Longrightarrow> b5 \<Longrightarrow> remaining i' \<le> remaining i5" using l l4 assms(4) [of i5] by simp
    then show ?thesis using r l l4 by (auto simp: parse_members.psimps [OF d] q s c p e e' Let_def split: if_splits)
  qed
qed

lemma parse_ends:
  "(\<forall>out. parse_dom (Inl (out, i)) \<and> remaining (snd (snd (parse_value out i))) \<le> remaining i) \<and>
   (\<forall>a. parse_dom (Inr (Inl (a, i))) \<and> remaining (snd (snd (parse_items a i))) \<le> remaining i) \<and>
   (\<forall>m. parse_dom (Inr (Inr (m, i))) \<and> remaining (snd (snd (parse_members m i))) \<le> remaining i)"
proof (induction "remaining i" arbitrary: i rule: less_induct)
  case less
  have ih: "parse_dom (Inl (out, i'))" "parse_dom (Inr (Inl (a, i')))" "parse_dom (Inr (Inr (m, i')))"
      "parse_value out i' = r \<Longrightarrow> remaining (snd (snd r)) \<le> remaining i'"
      "parse_items a i' = r \<Longrightarrow> remaining (snd (snd r)) \<le> remaining i'"
      "parse_members m i' = r \<Longrightarrow> remaining (snd (snd r)) \<le> remaining i'"
    if "remaining i' < remaining i" for i' out a m r
    using less [OF that] by auto
  have v: "parse_dom (Inl (out, i))" for out using parse_value_dom [of i] ih(2,3) by blast
  have vl: "parse_value out i = (b, w, i') \<Longrightarrow> remaining i' \<le> remaining i" for out b w i'
    by (rule parse_value_le_step [OF v]) (use ih(5,6) in force)+
  have it: "parse_dom (Inr (Inl (a, i)))" for a
    by (rule parse_items_step(1) [OF v]) (use vl ih(2,5) in force)+
  have itl: "parse_items a i = (b, w, i') \<Longrightarrow> remaining i' \<le> remaining i" for a b w i'
    by (rule parse_items_step(2) [OF v]) (use vl ih(2,5) in force)+
  have me: "parse_dom (Inr (Inr (m, i)))" for m
    by (rule parse_members_step(1)) (use ih(1,3,4,6) in force)+
  have mel: "parse_members m i = (b, w, i') \<Longrightarrow> remaining i' \<le> remaining i" for m b w i'
    by (rule parse_members_step(2)) (use ih(1,3,4,6) in force)+
  show ?case using v vl it itl me mel by (metis prod.collapse)
qed

lemma parse_dom_all: "parse_dom x"
proof (cases x)
  case (Inl p)
  then show ?thesis using parse_ends [of "snd p"] by (cases p) auto
next
  case x: (Inr y)
  show ?thesis
  proof (cases y)
    case (Inl p)
    then show ?thesis using x parse_ends [of "snd p"] by (cases p) auto
  next
    case (Inr p)
    then show ?thesis using x parse_ends [of "snd p"] by (cases p) auto
  qed
qed

termination parse_value
  by (simp add: parse_dom_all)

declare parse_value.simps [simp del] parse_items.simps [simp del] parse_members.simps [simp del]

section \<open>The whole text\<close>

text \<open>
  The rest of the line for the message: what \<open>getc\<close> gives up to a newline or the end, without control characters.
\<close>

function error_text :: "string \<Rightarrow> input \<Rightarrow> string" where
  "error_text err i =
     (case getc i of (ch, i1) \<Rightarrow>
        if ch = -1 \<or> ch = 0x0A then err
        else error_text (if ch \<ge> 0x20 then err @ [char_of (nat ch)] else err) i1)"
  by pat_completeness auto

termination
  by (relation "measure (\<lambda>(err, i). remaining i)") (auto dest: getc_less [OF sym])

declare error_text.simps [simp del]

definition parse_error_message :: "input \<Rightarrow> string" where
  "parse_error_message i = error_text (''syntax error at line '' @ decimal (nat (in_line i)) @ '' near: '') i"

text \<open>\<open>Parse\<close>: the new value of the root and the error, empty after a success.  What follows the value is not looked at.\<close>

definition Parse :: "string \<Rightarrow> json \<Rightarrow> json \<times> string" where
  "Parse js root =
     (case parse_value root (input_of js) of
        (b, v, i) \<Rightarrow> (v, if b then [] else parse_error_message i))"

section \<open>What the reader delivers\<close>

text \<open>The characters \<open>getc\<close> is going to give.\<close>

definition pending :: "input \<Rightarrow> string" where
  "pending i = (if in_ungot i then char_of (nat (in_last i)) # in_rest i else in_rest i)"

definition input_ok :: "input \<Rightarrow> bool" where
  "input_ok i \<longleftrightarrow> (in_ungot i \<longrightarrow> in_last i = of_char (char_of (nat (in_last i)) :: char))"

lemma char_of_nat_of_char [simp]: "char_of (nat (of_char c)) = c"
  by (metis char_of_char nat_int of_nat_of_char)

lemma getc_Cons:
  assumes "input_ok i" "pending i = c # cs"
  obtains i' where "getc i = (of_char c, i')" "input_ok i'" "pending i' = cs" "input_ok (ungetc i')" "pending (ungetc i') = c # cs"
  using assms by (cases "in_ungot i") (auto simp: getc_def pending_def input_ok_def ungetc_def)

lemma getc_Nil:
  assumes "pending i = []"
  obtains i' where "getc i = (-1, i')" "pending i' = []" "pending (ungetc i') = []" "\<not> in_ungot i'" "ungetc i' = i'"
  using assms by (cases "in_ungot i") (auto simp: getc_def pending_def ungetc_def)

definition spaces :: "string \<Rightarrow> bool" where
  "spaces w \<longleftrightarrow> list_all (\<lambda>c. is_space (of_char c)) w"

lemma spaces_simps [simp]: "spaces []" "spaces (c # w) \<longleftrightarrow> is_space (of_char c) \<and> spaces w" "spaces (v @ w) \<longleftrightarrow> spaces v \<and> spaces w"
  by (simp_all add: spaces_def)

definition solid :: "string \<Rightarrow> bool" where
  "solid s \<longleftrightarrow> s \<noteq> [] \<and> \<not> is_space (of_char (hd s))"

lemma skip_ws_pending:
  assumes "input_ok i" "pending i = w @ s" "spaces w" "solid s"
  shows "pending (skip_ws i) = s \<and> input_ok (skip_ws i)"
  using assms
proof (induction w arbitrary: i)
  case Nil
  then obtain c cs where s: "s = c # cs" "\<not> is_space (of_char c)" by (cases s) (auto simp: solid_def)
  obtain i' where i': "getc i = (of_char c, i')" "input_ok (ungetc i')" "pending (ungetc i') = c # cs"
    using getc_Cons [of i c cs] Nil s by auto
  then show ?case using s by (subst (1 2) skip_ws.simps) simp
next
  case (Cons c w)
  obtain i' where i': "getc i = (of_char c, i')" "input_ok i'" "pending i' = w @ s"
    using getc_Cons [of i c "w @ s"] Cons.prems by auto
  then show ?case using Cons.IH [OF i'(2,3)] Cons.prems by (subst (1 2) skip_ws.simps) simp
qed

lemma of_char_eq_iff: "(of_char c = (of_char d :: int)) = (c = d)"
  by (metis char_of_nat_of_char)

lemma expect_found:
  assumes "input_ok i" "pending i = w @ c # s" "spaces w" "\<not> is_space (of_char c)"
  obtains i' where "expect c i = (True, i')" "input_ok i'" "pending i' = s"
proof -
  have "pending (skip_ws i) = c # s" "input_ok (skip_ws i)"
    using skip_ws_pending [of i w "c # s"] assms by (simp_all add: solid_def)
  then obtain i' where "getc (skip_ws i) = (of_char c, i')" "input_ok i'" "pending i' = s"
    using getc_Cons by blast
  with that show thesis by (simp add: expect_def)
qed

lemma expect_missing:
  assumes "input_ok i" "pending i = w @ d # s" "spaces w" "\<not> is_space (of_char d)" "c \<noteq> d"
  obtains i' where "expect c i = (False, i')" "input_ok i'" "pending i' = d # s"
proof -
  have "pending (skip_ws i) = d # s" "input_ok (skip_ws i)"
    using skip_ws_pending [of i w "d # s"] assms by (simp_all add: solid_def)
  then obtain i' where "getc (skip_ws i) = (of_char d, i')" "input_ok (ungetc i')" "pending (ungetc i') = d # s"
    using getc_Cons by blast
  with that assms(5) show thesis by (simp add: expect_def of_char_eq_iff)
qed

lemma match_found:
  assumes "input_ok i" "pending i = ps @ s"
  shows "\<exists>i'. match ps i = (True, i') \<and> input_ok i' \<and> pending i' = s"
  using assms
proof (induction ps arbitrary: i)
  case (Cons p ps)
  obtain i1 where i1: "getc i = (of_char p, i1)" "input_ok i1" "pending i1 = ps @ s"
    using getc_Cons [of i p "ps @ s"] Cons.prems by auto
  with Cons.IH [OF i1(2,3)] show ?case by simp
qed simp

section \<open>Strings\<close>

lemma of_char_char_of_nat [simp]: "(of_char (char_of (n :: nat)) :: int) = int (n mod 256)"
  by (metis of_char_of of_nat_of_char)

lemma hex_value_low: "n < 16 \<Longrightarrow> hex_value (of_char (hex_digit_low n)) = Some (int n) \<and> of_char (hex_digit_low n) \<noteq> (-1 :: int)"
proof -
  assume "n < 16"
  then consider "n < 10" | "10 \<le> n" "n < 16" by linarith
  then show ?thesis by cases (simp_all add: hex_value_def hex_digit_low_def)
qed
lemma quadhex_Suc:
  assumes "input_ok i" "pending i = c # s" "hex_value (of_char c) = Some d"
  obtains i' where "quadhex (Suc n) u i = quadhex n (u * 16 + d) i'" "input_ok i'" "pending i' = s"
proof -
  obtain i' where "getc i = (of_char c, i')" "input_ok i'" "pending i' = s"
    using getc_Cons [OF assms(1,2)] by blast
  with that assms(3) show thesis by simp
qed

lemma parse_codepoint_small:
  assumes "input_ok i" "n < 128"
      and "pending i = CHR ''0'' # CHR ''0'' # hex_digit_low (n div 16) # hex_digit_low (n mod 16) # s"
  obtains i' where "parse_codepoint i = (Some [char_of n], i')" "input_ok i'" "pending i' = s"
proof -
  have h: "hex_value (of_char CHR ''0'') = Some 0" "hex_value (of_char (hex_digit_low (n div 16))) = Some (int (n div 16))"
      "hex_value (of_char (hex_digit_low (n mod 16))) = Some (int (n mod 16))"
    using hex_value_low [of "n div 16"] hex_value_low [of "n mod 16"] assms(2) by (simp_all add: hex_value_def)
  obtain i1 where i1: "quadhex (Suc (Suc (Suc (Suc 0)))) 0 i = quadhex (Suc (Suc (Suc 0))) (0 * 16 + 0) i1" "input_ok i1"
      "pending i1 = CHR ''0'' # hex_digit_low (n div 16) # hex_digit_low (n mod 16) # s"
    using quadhex_Suc [OF assms(1,3) h(1)] by blast
  obtain i2 where i2: "quadhex (Suc (Suc (Suc 0))) 0 i1 = quadhex (Suc (Suc 0)) (0 * 16 + 0) i2" "input_ok i2"
      "pending i2 = hex_digit_low (n div 16) # hex_digit_low (n mod 16) # s"
    using quadhex_Suc [OF i1(2,3) h(1)] by blast
  obtain i3 where i3: "quadhex (Suc (Suc 0)) 0 i2 = quadhex (Suc 0) (0 * 16 + int (n div 16)) i3" "input_ok i3"
      "pending i3 = hex_digit_low (n mod 16) # s"
    using quadhex_Suc [OF i2(2,3) h(2)] by blast
  obtain i4 where i4: "quadhex (Suc 0) (int (n div 16)) i3 = quadhex 0 (int (n div 16) * 16 + int (n mod 16)) i4" "input_ok i4" "pending i4 = s"
    using quadhex_Suc [OF i3(2,3) h(3)] by blast
  have "int (n div 16) * 16 + int (n mod 16) = int n" by (metis div_mult_mod_eq of_nat_add of_nat_mult of_nat_numeral)
  moreover have four: "4 = Suc (Suc (Suc (Suc 0)))" by simp
  moreover have "quadhex 4 0 i = (int (n div 16) * 16 + int (n mod 16), i4)"
    using i1(1) i2(1) i3(1) i4(1) by (simp only: four quadhex.simps(1) mult_zero_left add_0_left)
  ultimately have "parse_quadhex i = (int n, i4)" by (simp only: parse_quadhex_def)
  then have "parse_codepoint i = (Some (utf8 (int n)), i4)"
    using assms(2) by (simp add: parse_codepoint_def)
  moreover have "utf8 (int n) = [char_of n]" using assms(2) by (simp add: utf8_def)
  ultimately show thesis using that i4(2,3) by metis
qed

lemma of_char_ge: "0 \<le> (of_char c :: int)" "(of_char c :: int) < 256"
proof -
  show "0 \<le> (of_char c :: int)" by simp
  have "(of_char c :: nat) < 256" by simp
  then show "(of_char c :: int) < 256" by (metis of_nat_less_iff of_nat_numeral of_nat_of_char)
qed

lemma of_char_int_nat: "(of_char c :: int) = int (of_char c)"
  by (metis of_nat_of_char)

lemma char_codes [simp]:
  "of_char CHR 0x22 = (0x22 :: int)" "of_char CHR 0x5C = (0x5C :: int)" "of_char CHR ''/'' = (0x2F :: int)"
  "of_char CHR ''b'' = (0x62 :: int)" "of_char CHR ''f'' = (0x66 :: int)" "of_char CHR ''n'' = (0x6E :: int)"
  "of_char CHR ''r'' = (0x72 :: int)" "of_char CHR ''t'' = (0x74 :: int)" "of_char CHR ''u'' = (0x75 :: int)"
  "of_char CHR '','' = (0x2C :: int)" "of_char CHR '':'' = (0x3A :: int)" "of_char CHR ''['' = (0x5B :: int)"
  "of_char CHR '']'' = (0x5D :: int)" "of_char CHR ''{'' = (0x7B :: int)" "of_char CHR ''}'' = (0x7D :: int)"
  "of_char CHR '' '' = (0x20 :: int)" "of_char CHR 0x0A = (0x0A :: int)"
  by (simp_all add: of_char_int_nat)

text \<open>One escaped character.\<close>

lemma parse_string_escape:
  assumes "input_ok i" "pending i = escape c @ s"
  obtains i' where "parse_string out i = parse_string (out @ [c]) i'" "input_ok i'" "pending i' = s"
proof -
  let ?n = "of_char c :: nat"
  have c: "char_of ?n = c" by simp
  consider (simple) d where "escape c = [CHR 0x5C, d]" "simple_escape (of_char d) = Some c"
    | (code) "escape c = [CHR 0x5C, CHR ''u'', CHR ''0'', CHR ''0'', hex_digit_low (?n div 16), hex_digit_low (?n mod 16)]" "?n < 128"
    | (plain) "escape c = [c]" "?n \<ge> 32" "?n \<noteq> 0x22" "?n \<noteq> 0x5C"
  proof -
    have e: "?n = k \<Longrightarrow> c = char_of k" for k using c by simp
    consider "?n \<in> {0x22, 0x5C, 0x2F, 0x08, 0x0C, 0x0A, 0x0D, 0x09}"
      | "?n \<notin> {0x22, 0x5C, 0x2F, 0x08, 0x0C, 0x0A, 0x0D, 0x09}" "?n < 0x20 \<or> ?n = 0x7F"
      | "?n \<notin> {0x22, 0x5C, 0x2F, 0x08, 0x0C, 0x0A, 0x0D, 0x09}" "\<not> (?n < 0x20 \<or> ?n = 0x7F)" by blast
    then show thesis
    proof cases
      case 1
      then have "c \<in> {char_of (0x22::nat), char_of (0x5C::nat), char_of (0x2F::nat), char_of (0x08::nat), char_of (0x0C::nat),
                       char_of (0x0A::nat), char_of (0x0D::nat), char_of (0x09::nat)}" using e by blast
      then show thesis by (elim insertE emptyE) (rule simple, simp add: escape_def Let_def, simp add: simple_escape_def)+
    next
      case 2
      then show thesis by (intro code) (auto simp: escape_def Let_def)
    next
      case 3
      then show thesis by (intro plain) (auto simp: escape_def Let_def)
    qed
  qed
  then show thesis
  proof cases
    case (simple d)
    obtain i1 where i1: "getc i = (0x5C, i1)" "input_ok i1" "pending i1 = d # s"
      using getc_Cons [OF assms(1), of "CHR 0x5C" "d # s"] assms(2) simple(1) by auto
    obtain i2 where i2: "getc i1 = (of_char d, i2)" "input_ok i2" "pending i2 = s"
      using getc_Cons [OF i1(2,3)] by blast
    have "parse_string out i = parse_string (out @ [c]) i2"
      using simple(2) by (subst parse_string.simps) (simp add: i1(1) i2(1))
    with that i2(2,3) show thesis by blast
  next
    case code
    obtain i1 where i1: "getc i = (0x5C, i1)" "input_ok i1"
        "pending i1 = CHR ''u'' # CHR ''0'' # CHR ''0'' # hex_digit_low (?n div 16) # hex_digit_low (?n mod 16) # s"
      using getc_Cons [OF assms(1), of "CHR 0x5C"] assms(2) code(1) by auto
    obtain i2 where i2: "getc i1 = (0x75, i2)" "input_ok i2"
        "pending i2 = CHR ''0'' # CHR ''0'' # hex_digit_low (?n div 16) # hex_digit_low (?n mod 16) # s"
      using getc_Cons [OF i1(2,3)] by auto
    obtain i3 where i3: "parse_codepoint i2 = (Some [char_of ?n], i3)" "input_ok i3" "pending i3 = s"
      using parse_codepoint_small [OF i2(2) code(2) i2(3)] by blast
    have "parse_string out i = parse_string (out @ [c]) i3"
      by (subst parse_string.simps) (simp add: i1(1) i2(1) i3(1) simple_escape_def)
    with that i3(2,3) show thesis by blast
  next
    case plain
    obtain i1 where i1: "getc i = (of_char c, i1)" "input_ok i1" "pending i1 = s"
      using getc_Cons [OF assms(1), of c s] assms(2) plain(1) by auto
    have "(of_char c :: int) \<ge> 32" "(of_char c :: int) \<noteq> 0x22" "(of_char c :: int) \<noteq> 0x5C"
      using plain(2-4) unfolding of_char_int_nat by linarith+
    then have "parse_string out i = parse_string (out @ [c]) i1"
      by (subst parse_string.simps) (simp add: i1(1))
    with that i1(2,3) show thesis by blast
  qed
qed

lemma parse_string_correct:
  assumes "input_ok i" "pending i = concat (map escape s) @ CHR 0x22 # r"
  shows "\<exists>i'. parse_string out i = (True, out @ s, i') \<and> input_ok i' \<and> pending i' = r"
  using assms
proof (induction s arbitrary: i out)
  case Nil
  then obtain i1 where "getc i = (0x22, i1)" "input_ok i1" "pending i1 = r"
    using getc_Cons [of i "CHR 0x22" r] by auto
  then show ?case by (subst parse_string.simps) simp
next
  case (Cons c s)
  then obtain i' where "parse_string out i = parse_string (out @ [c]) i'" "input_ok i'" "pending i' = concat (map escape s) @ CHR 0x22 # r"
    using parse_string_escape [of i c "concat (map escape s) @ CHR 0x22 # r" out] by auto
  with Cons.IH [of i' "out @ [c]"] show ?case by simp
qed

section \<open>The texts of a value\<close>

text \<open>
  The texts a value without numbers may have: white space around every value and key, strings as
  \<open>serialize_str\<close> writes them.
\<close>

inductive json_text :: "json \<Rightarrow> string \<Rightarrow> bool"
    and items_text :: "json list \<Rightarrow> string \<Rightarrow> bool"
    and members_text :: "(string \<times> json) list \<Rightarrow> string \<Rightarrow> bool" where
  text_null: "json_text JNull ''null''"
| text_true: "json_text (JBool True) ''true''"
| text_false: "json_text (JBool False) ''false''"
| text_string: "json_text (JString s) (serialize_str s)"
| text_empty_array: "spaces w \<Longrightarrow> json_text (JArray []) (''['' @ w @ '']'')"
| text_array: "items_text vs s \<Longrightarrow> json_text (JArray vs) (''['' @ s @ '']'')"
| text_empty_object: "spaces w \<Longrightarrow> json_text (JObject []) (''{'' @ w @ ''}'')"
| text_object: "members_text m s \<Longrightarrow> sorted_wrt string_less (map fst m) \<Longrightarrow> json_text (JObject m) (''{'' @ s @ ''}'')"
| text_item: "json_text v t \<Longrightarrow> spaces w \<Longrightarrow> spaces w' \<Longrightarrow> items_text [v] (w @ t @ w')"
| text_items: "json_text v t \<Longrightarrow> spaces w \<Longrightarrow> spaces w' \<Longrightarrow> items_text vs s \<Longrightarrow> items_text (v # vs) (w @ t @ w' @ CHR '','' # s)"
| text_member: "json_text v t \<Longrightarrow> spaces w \<Longrightarrow> spaces w' \<Longrightarrow> spaces w2 \<Longrightarrow> spaces w3 \<Longrightarrow>
    members_text [(k, v)] (w @ serialize_str k @ w2 @ CHR '':'' # w3 @ t @ w')"
| text_members: "json_text v t \<Longrightarrow> spaces w \<Longrightarrow> spaces w' \<Longrightarrow> spaces w2 \<Longrightarrow> spaces w3 \<Longrightarrow> members_text m s \<Longrightarrow>
    members_text ((k, v) # m) (w @ serialize_str k @ w2 @ CHR '':'' # w3 @ t @ w' @ CHR '','' # s)"

lemma json_text_solid: "json_text v t \<Longrightarrow> solid (t @ r) \<and> hd t \<noteq> CHR '']'' \<and> t \<noteq> []"
  by (cases v t rule: json_text.cases) (auto simp: solid_def is_space_def serialize_str_def)


lemma string_less_irrefl [simp]: "\<not> string_less s s"
  by (induction s) auto

lemma string_less_asym: "string_less s t \<Longrightarrow> \<not> string_less t s"
  by (induction s t rule: string_less.induct) auto

lemma map_set_last:
  "list_all (\<lambda>x. string_less (fst x) k) m \<Longrightarrow> map_set k v m = m @ [(k, v)]"
  by (induction m) (auto dest: string_less_asym)

lemma sorted_last: "sorted_wrt string_less (map fst (m @ (k, v) # m')) \<Longrightarrow> list_all (\<lambda>x. string_less (fst x) k) m"
  by (auto simp: sorted_wrt_append list_all_iff)

definition parses :: "json \<Rightarrow> string \<Rightarrow> bool" where
  "parses v t \<longleftrightarrow> (\<forall>out i w r. input_ok i \<longrightarrow> spaces w \<longrightarrow> pending i = w @ t @ r \<longrightarrow>
     (\<exists>i'. parse_value out i = (True, v, i') \<and> input_ok i' \<and> pending i' = r))"

definition parses_items :: "json list \<Rightarrow> string \<Rightarrow> bool" where
  "parses_items vs s \<longleftrightarrow> (\<forall>a i w r. input_ok i \<longrightarrow> spaces w \<longrightarrow> pending i = w @ s @ CHR '']'' # r \<longrightarrow>
     (\<exists>i'. parse_items a i = (True, JArray (a @ vs), i') \<and> input_ok i' \<and> pending i' = r))"

definition parses_members :: "(string \<times> json) list \<Rightarrow> string \<Rightarrow> bool" where
  "parses_members m s \<longleftrightarrow> (\<forall>m0 i w r. input_ok i \<longrightarrow> spaces w \<longrightarrow> sorted_wrt string_less (map fst (m0 @ m)) \<longrightarrow> pending i = w @ s @ CHR ''}'' # r \<longrightarrow>
     (\<exists>i'. parse_members m0 i = (True, JObject (m0 @ m), i') \<and> input_ok i' \<and> pending i' = r))"

lemma skip_getc:
  assumes "input_ok i" "spaces w" "pending i = w @ c # r" "\<not> is_space (of_char c)"
  obtains i' where "getc (skip_ws i) = (of_char c, i')" "input_ok i'" "pending i' = r"
proof -
  have "pending (skip_ws i) = c # r" "input_ok (skip_ws i)"
    using skip_ws_pending [of i w "c # r"] assms by (simp_all add: solid_def)
  then show thesis using that getc_Cons by blast
qed

lemma parses_word:
  assumes "\<And>out i i1. getc (skip_ws i) = (of_char c, i1) \<Longrightarrow>
             parse_value out i = (case match cs i1 of (b, i) \<Rightarrow> (b, if b then v else out, i))"
      and "\<not> is_space (of_char c)"
  shows "parses v (c # cs)"
  unfolding parses_def
proof (intro allI impI)
  fix out i w r assume i: "input_ok i" "spaces w" "pending i = w @ (c # cs) @ r"
  obtain i1 where i1: "getc (skip_ws i) = (of_char c, i1)" "input_ok i1" "pending i1 = cs @ r"
    using skip_getc [OF i(1,2), of c "cs @ r"] i(3) assms(2) by auto
  show "\<exists>i'. parse_value out i = (True, v, i') \<and> input_ok i' \<and> pending i' = r"
    using match_found [OF i1(2,3)] assms(1) [OF i1(1)] by auto
qed

lemma parses_string: "parses (JString s) (serialize_str s)"
  unfolding parses_def
proof (intro allI impI)
  fix out i w r assume i: "input_ok i" "spaces w" "pending i = w @ serialize_str s @ r"
  obtain i1 where i1: "getc (skip_ws i) = (0x22, i1)" "input_ok i1" "pending i1 = concat (map escape s) @ CHR 0x22 # r"
    using skip_getc [OF i(1,2), of "CHR 0x22" "concat (map escape s) @ CHR 0x22 # r"] i(3) by (auto simp: serialize_str_def is_space_def)
  show "\<exists>i'. parse_value out i = (True, JString s, i') \<and> input_ok i' \<and> pending i' = r"
    using parse_string_correct [OF i1(2,3), of "[]"] by (subst parse_value.simps) (auto simp: i1(1))
qed

lemma parses_array:
  assumes "parses_items vs s0" "s = w0 @ s0" "spaces w0" "solid s0" "hd s0 \<noteq> CHR '']''"
  shows "parses (JArray vs) (''['' @ s @ '']'')"
  unfolding parses_def
proof (intro allI impI)
  fix out i w r assume i: "input_ok i" "spaces w" "pending i = w @ (''['' @ s @ '']'') @ r"
  obtain i1 where i1: "getc (skip_ws i) = (0x5B, i1)" "input_ok i1" "pending i1 = w0 @ s0 @ CHR '']'' # r"
    using skip_getc [OF i(1,2), of "CHR ''[''" "w0 @ s0 @ CHR '']'' # r"] i(3) assms(2) by (auto simp: is_space_def)
  obtain d s' where d: "s0 = d # s'" "\<not> is_space (of_char d)" "d \<noteq> CHR '']''" using assms(4,5) by (cases s0) (auto simp: solid_def)
  obtain i2 where i2: "expect CHR '']'' i1 = (False, i2)" "input_ok i2" "pending i2 = [] @ s0 @ CHR '']'' # r"
    using expect_missing [OF i1(2), of w0 d "s' @ CHR '']'' # r" "CHR '']''"] i1(3) assms(3) d by auto
  obtain i' where "parse_items [] i2 = (True, JArray vs, i')" "input_ok i'" "pending i' = r"
    using assms(1) i2(2,3) unfolding parses_items_def by (metis append_Nil spaces_simps(1))
  then show "\<exists>i'. parse_value out i = (True, JArray vs, i') \<and> input_ok i' \<and> pending i' = r"
    by (subst parse_value.simps) (simp add: i1(1) i2(1))
qed

lemma parses_object:
  assumes "parses_members m s0" "s = w0 @ s0" "spaces w0" "solid s0" "hd s0 = CHR 0x22" "sorted_wrt string_less (map fst m)"
  shows "parses (JObject m) (''{'' @ s @ ''}'')"
  unfolding parses_def
proof (intro allI impI)
  fix out i w r assume i: "input_ok i" "spaces w" "pending i = w @ (''{'' @ s @ ''}'') @ r"
  obtain i1 where i1: "getc (skip_ws i) = (0x7B, i1)" "input_ok i1" "pending i1 = w0 @ s0 @ CHR ''}'' # r"
    using skip_getc [OF i(1,2), of "CHR ''{''" "w0 @ s0 @ CHR ''}'' # r"] i(3) assms(2) by (auto simp: is_space_def)
  obtain d s' where d: "s0 = d # s'" "\<not> is_space (of_char d)" "d \<noteq> CHR ''}''" using assms(4,5) by (cases s0) (auto simp: solid_def)
  obtain i2 where i2: "expect CHR ''}'' i1 = (False, i2)" "input_ok i2" "pending i2 = [] @ s0 @ CHR ''}'' # r"
    using expect_missing [OF i1(2), of w0 d "s' @ CHR ''}'' # r" "CHR ''}''"] i1(3) assms(3) d by auto
  obtain i' where "parse_members [] i2 = (True, JObject m, i')" "input_ok i'" "pending i' = r"
    using assms(1,6) i2(2,3) unfolding parses_members_def by (metis append_Nil spaces_simps(1))
  then show "\<exists>i'. parse_value out i = (True, JObject m, i') \<and> input_ok i' \<and> pending i' = r"
    by (subst parse_value.simps) (simp add: i1(1) i2(1))
qed

lemma parses_empty:
  assumes "spaces w0"
  shows "parses (JArray []) (''['' @ w0 @ '']'')" "parses (JObject []) (''{'' @ w0 @ ''}'')"
proof -
  show "parses (JArray []) (''['' @ w0 @ '']'')"
    unfolding parses_def
  proof (intro allI impI)
    fix out i w r assume i: "input_ok i" "spaces w" "pending i = w @ (''['' @ w0 @ '']'') @ r"
    obtain i1 where i1: "getc (skip_ws i) = (0x5B, i1)" "input_ok i1" "pending i1 = w0 @ CHR '']'' # r"
      using skip_getc [OF i(1,2), of "CHR ''[''" "w0 @ CHR '']'' # r"] i(3) by (auto simp: is_space_def)
    obtain i2 where "expect CHR '']'' i1 = (True, i2)" "input_ok i2" "pending i2 = r"
      using expect_found [OF i1(2,3) assms] by (auto simp: is_space_def)
    then show "\<exists>i'. parse_value out i = (True, JArray [], i') \<and> input_ok i' \<and> pending i' = r"
      by (subst parse_value.simps) (simp add: i1(1))
  qed
  show "parses (JObject []) (''{'' @ w0 @ ''}'')"
    unfolding parses_def
  proof (intro allI impI)
    fix out i w r assume i: "input_ok i" "spaces w" "pending i = w @ (''{'' @ w0 @ ''}'') @ r"
    obtain i1 where i1: "getc (skip_ws i) = (0x7B, i1)" "input_ok i1" "pending i1 = w0 @ CHR ''}'' # r"
      using skip_getc [OF i(1,2), of "CHR ''{''" "w0 @ CHR ''}'' # r"] i(3) by (auto simp: is_space_def)
    obtain i2 where "expect CHR ''}'' i1 = (True, i2)" "input_ok i2" "pending i2 = r"
      using expect_found [OF i1(2,3) assms] by (auto simp: is_space_def)
    then show "\<exists>i'. parse_value out i = (True, JObject [], i') \<and> input_ok i' \<and> pending i' = r"
      by (subst parse_value.simps) (simp add: i1(1))
  qed
qed

lemma parses_value_in:
  assumes "parses v t" "input_ok i" "spaces w" "pending i = w @ t @ r"
  obtains i' where "parse_value out i = (True, v, i')" "input_ok i'" "pending i' = r"
  using assms unfolding parses_def by blast

lemma parses_one_item:
  assumes "parses v t" "spaces w'"
  shows "parses_items [v] (t @ w')"
  unfolding parses_items_def
proof (intro allI impI)
  fix a i w r assume i: "input_ok i" "spaces w" "pending i = w @ (t @ w') @ CHR '']'' # r"
  obtain i1 where i1: "parse_value JNull i = (True, v, i1)" "input_ok i1" "pending i1 = w' @ CHR '']'' # r"
    using parses_value_in [OF assms(1) i(1,2)] i(3) by auto
  obtain i2 where i2: "expect CHR '','' i1 = (False, i2)" "input_ok i2" "pending i2 = [] @ CHR '']'' # r"
    using expect_missing [OF i1(2,3) assms(2), of "CHR '',''"] by (auto simp: is_space_def)
  obtain i3 where "expect CHR '']'' i2 = (True, i3)" "input_ok i3" "pending i3 = r"
    using expect_found [OF i2(2,3)] by (auto simp: is_space_def)
  then show "\<exists>i'. parse_items a i = (True, JArray (a @ [v]), i') \<and> input_ok i' \<and> pending i' = r"
    by (subst parse_items.simps) (simp add: i1(1) i2(1))
qed

lemma parses_more_items:
  assumes "parses v t" "spaces w'" "parses_items vs s0" "s = w0 @ s0" "spaces w0"
  shows "parses_items (v # vs) (t @ w' @ CHR '','' # s)"
  unfolding parses_items_def
proof (intro allI impI)
  fix a i w r assume i: "input_ok i" "spaces w" "pending i = w @ (t @ w' @ CHR '','' # s) @ CHR '']'' # r"
  obtain i1 where i1: "parse_value JNull i = (True, v, i1)" "input_ok i1" "pending i1 = w' @ CHR '','' # w0 @ s0 @ CHR '']'' # r"
    using parses_value_in [OF assms(1) i(1,2)] i(3) assms(4) by auto
  obtain i2 where i2: "expect CHR '','' i1 = (True, i2)" "input_ok i2" "pending i2 = w0 @ s0 @ CHR '']'' # r"
    using expect_found [OF i1(2,3) assms(2)] by (auto simp: is_space_def)
  obtain i3 where "parse_items (a @ [v]) i2 = (True, JArray ((a @ [v]) @ vs), i3)" "input_ok i3" "pending i3 = r"
    using assms(3,5) i2(2,3) unfolding parses_items_def by blast
  then show "\<exists>i'. parse_items a i = (True, JArray (a @ v # vs), i') \<and> input_ok i' \<and> pending i' = r"
    by (subst parse_items.simps) (simp add: i1(1) i2(1))
qed

text \<open>The key, the colon and the value of a member.\<close>

lemma member_start:
  assumes "parses v t" "spaces w2" "spaces w3" "input_ok i" "spaces w"
      and "pending i = w @ serialize_str k @ w2 @ CHR '':'' # w3 @ t @ r"
  obtains i1 i2 i3 i4 where "expect CHR 0x22 i = (True, i1)" "parse_string [] i1 = (True, k, i2)" "expect CHR '':'' i2 = (True, i3)"
    "parse_value (snd (map_at k m)) i3 = (True, v, i4)" "input_ok i4" "pending i4 = r"
proof -
  obtain i1 where i1: "expect CHR 0x22 i = (True, i1)" "input_ok i1" "pending i1 = concat (map escape k) @ CHR 0x22 # w2 @ CHR '':'' # w3 @ t @ r"
    using expect_found [OF assms(4) _ assms(5), of "CHR 0x22"] assms(6) by (auto simp: is_space_def serialize_str_def)
  obtain i2 where i2: "parse_string [] i1 = (True, k, i2)" "input_ok i2" "pending i2 = w2 @ CHR '':'' # w3 @ t @ r"
    using parse_string_correct [OF i1(2,3), of "[]"] by auto
  obtain i3 where i3: "expect CHR '':'' i2 = (True, i3)" "input_ok i3" "pending i3 = w3 @ t @ r"
    using expect_found [OF i2(2,3) assms(2)] by (auto simp: is_space_def)
  obtain i4 where "parse_value (snd (map_at k m)) i3 = (True, v, i4)" "input_ok i4" "pending i4 = r"
    using parses_value_in [OF assms(1) i3(2) assms(3) i3(3)] by blast
  with that i1(1) i2(1) i3(1) show thesis by blast
qed

lemma parses_one_member:
  assumes "parses v t" "spaces w'" "spaces w2" "spaces w3"
  shows "parses_members [(k, v)] (serialize_str k @ w2 @ CHR '':'' # w3 @ t @ w')"
  unfolding parses_members_def
proof (intro allI impI)
  fix m0 i w r assume i: "input_ok i" "spaces w" "sorted_wrt string_less (map fst (m0 @ [(k, v)]))"
    "pending i = w @ (serialize_str k @ w2 @ CHR '':'' # w3 @ t @ w') @ CHR ''}'' # r"
  obtain i1 i2 i3 i4 where s: "expect CHR 0x22 i = (True, i1)" "parse_string [] i1 = (True, k, i2)" "expect CHR '':'' i2 = (True, i3)"
      "parse_value (snd (map_at k m0)) i3 = (True, v, i4)" "input_ok i4" "pending i4 = w' @ CHR ''}'' # r"
    using member_start [OF assms(1,3,4) i(1,2), of k "w' @ CHR ''}'' # r" m0] i(4) by (metis append.assoc append_Cons)
  obtain i5 where i5: "expect CHR '','' i4 = (False, i5)" "input_ok i5" "pending i5 = [] @ CHR ''}'' # r"
    using expect_missing [OF s(5,6) assms(2), of "CHR '',''"] by (auto simp: is_space_def)
  obtain i6 where "expect CHR ''}'' i5 = (True, i6)" "input_ok i6" "pending i6 = r"
    using expect_found [OF i5(2,3)] by (auto simp: is_space_def)
  then show "\<exists>i'. parse_members m0 i = (True, JObject (m0 @ [(k, v)]), i') \<and> input_ok i' \<and> pending i' = r"
    using map_set_last [of k m0 v] sorted_last [OF i(3)]
    by (subst parse_members.simps) (simp add: s(1-4) i5(1))
qed

lemma parses_more_members:
  assumes "parses v t" "spaces w'" "spaces w2" "spaces w3" "parses_members m s0" "s = w0 @ s0" "spaces w0"
  shows "parses_members ((k, v) # m) (serialize_str k @ w2 @ CHR '':'' # w3 @ t @ w' @ CHR '','' # s)"
  unfolding parses_members_def
proof (intro allI impI)
  fix m0 i w r assume i: "input_ok i" "spaces w" "sorted_wrt string_less (map fst (m0 @ (k, v) # m))"
    "pending i = w @ (serialize_str k @ w2 @ CHR '':'' # w3 @ t @ w' @ CHR '','' # s) @ CHR ''}'' # r"
  obtain i1 i2 i3 i4 where s: "expect CHR 0x22 i = (True, i1)" "parse_string [] i1 = (True, k, i2)" "expect CHR '':'' i2 = (True, i3)"
      "parse_value (snd (map_at k m0)) i3 = (True, v, i4)" "input_ok i4" "pending i4 = w' @ CHR '','' # s @ CHR ''}'' # r"
    using member_start [OF assms(1,3,4) i(1,2), of k "w' @ CHR '','' # s @ CHR ''}'' # r" m0] i(4) by (metis append.assoc append_Cons)
  obtain i5 where i5: "expect CHR '','' i4 = (True, i5)" "input_ok i5" "pending i5 = w0 @ s0 @ CHR ''}'' # r"
    using expect_found [OF s(5,6) assms(2)] assms(6) by (auto simp: is_space_def)
  have "sorted_wrt string_less (map fst ((m0 @ [(k, v)]) @ m))" using i(3) by simp
  then obtain i6 where "parse_members (m0 @ [(k, v)]) i5 = (True, JObject ((m0 @ [(k, v)]) @ m), i6)" "input_ok i6" "pending i6 = r"
    using assms(5,7) i5(2,3) unfolding parses_members_def by blast
  then show "\<exists>i'. parse_members m0 i = (True, JObject (m0 @ (k, v) # m), i') \<and> input_ok i' \<and> pending i' = r"
    using map_set_last [of k m0 v] sorted_last [OF i(3)]
    by (subst parse_members.simps) (simp add: s(1-4) i5(1))
qed

text \<open>The parser reads every text of a value as that value.\<close>

lemma text_parses:
  "json_text v t \<Longrightarrow> parses v t"
  "items_text vs s \<Longrightarrow> \<exists>w s0. s = w @ s0 \<and> spaces w \<and> solid s0 \<and> hd s0 \<noteq> CHR '']'' \<and> parses_items vs s0"
  "members_text m s \<Longrightarrow> \<exists>w s0. s = w @ s0 \<and> spaces w \<and> solid s0 \<and> hd s0 = CHR 0x22 \<and> parses_members m s0"
proof (induction rule: json_text_items_text_members_text.inducts)
  case text_null
  show ?case by (rule parses_word) (auto simp: parse_value.simps is_space_def)
next
  case text_true
  show ?case by (rule parses_word) (auto simp: parse_value.simps is_space_def)
next
  case text_false
  show ?case by (rule parses_word) (auto simp: parse_value.simps is_space_def)
next
  case (text_string s)
  show ?case by (rule parses_string)
next
  case (text_empty_array w)
  then show ?case by (rule parses_empty)
next
  case (text_array vs s)
  then show ?case using parses_array by blast
next
  case (text_empty_object w)
  then show ?case by (rule parses_empty)
next
  case (text_object m s)
  then show ?case using parses_object by blast
next
  case (text_item v t w w')
  have "solid (t @ w')" "hd (t @ w') \<noteq> CHR '']''" using json_text_solid [OF text_item(1), of w'] by auto
  then show ?case using parses_one_item [OF text_item.IH text_item.hyps(3)] text_item.hyps(2) by blast
next
  case (text_items v t w w' vs s)
  have "solid (t @ w' @ CHR '','' # s)" "hd (t @ w' @ CHR '','' # s) \<noteq> CHR '']''"
    using json_text_solid [OF text_items(1), of "w' @ CHR '','' # s"] by auto
  then show ?case using parses_more_items [OF text_items.IH(1) text_items.hyps(3)] text_items.IH(2) text_items.hyps(2) by blast
next
  case (text_member v t w w' w2 w3 k)
  have "solid (serialize_str k @ x) \<and> hd (serialize_str k @ x) = CHR 0x22" for x
    by (simp add: solid_def is_space_def serialize_str_def)
  then show ?case using parses_one_member [OF text_member.IH text_member.hyps(3-5)] text_member.hyps(2) by blast
next
  case (text_members v t w w' w2 w3 m s k)
  have "solid (serialize_str k @ x) \<and> hd (serialize_str k @ x) = CHR 0x22" for x
    by (simp add: solid_def is_space_def serialize_str_def)
  then show ?case using parses_more_members [OF text_members.IH(1) text_members.hyps(3-5)] text_members.IH(2) text_members.hyps(2) by blast
qed

section \<open>What is written is read back\<close>

text \<open>Values without numbers, objects with their keys in order, as a \<open>std::map\<close> has them.\<close>

fun json_plain :: "json \<Rightarrow> bool" where
  "json_plain (JNumber d) = False"
| "json_plain (JArray a) = list_all json_plain a"
| "json_plain (JObject m) = (sorted_wrt string_less (map fst m) \<and> list_all (\<lambda>(k, v). json_plain v) m)"
| "json_plain j = True"

lemma items_text_comma:
  assumes "vs \<noteq> []" "\<And>v. v \<in> set vs \<Longrightarrow> json_text v (g v)"
  shows "items_text vs (comma_separated (map g vs))"
  using assms
proof (induction vs rule: induct_list012)
  case (2 v)
  then show ?case using text_item [of v "g v" "[]" "[]"] by simp
next
  case (3 v v' vs)
  then show ?case using text_items [of v "g v" "[]" "[]" "v' # vs"] by simp
qed simp

lemma members_text_comma:
  assumes "m \<noteq> []" "\<And>k v. (k, v) \<in> set m \<Longrightarrow> json_text v (g v)"
  shows "members_text m (comma_separated (map (\<lambda>(k, v). serialize_str k @ CHR '':'' # g v) m))"
  using assms
proof (induction m rule: induct_list012)
  case (2 x)
  then show ?case using text_member [of "snd x" "g (snd x)" "[]" "[]" "[]" "[]" "fst x"] by (cases x) simp
next
  case (3 x y m)
  have "members_text (y # m) (comma_separated (map (\<lambda>(k, v). serialize_str k @ CHR '':'' # g v) (y # m)))"
    by (rule "3.IH"(2)) (use "3.prems" in auto)
  moreover obtain k v where "x = (k, v)" by (cases x)
  moreover have "json_text v (g v)" using "3.prems"(2) [of k v] calculation(2) by simp
  ultimately show ?case using text_members [of v "g v" "[]" "[]" "[]" "[]" "y # m" _ k] by simp
qed simp

lemma items_text_lines:
  assumes "vs \<noteq> []" "\<And>v. v \<in> set vs \<Longrightarrow> json_text v (g v)" "spaces pre" "spaces ind" "spaces tail"
  shows "items_text vs (pre @ lines_separated (map (\<lambda>v. ind @ g v) vs) @ tail)"
  using assms(1,2,3)
proof (induction vs arbitrary: pre rule: induct_list012)
  case (2 v)
  then show ?case using text_item [of v "g v" "pre @ ind" tail] assms(4,5) by simp
next
  case (3 v v' vs)
  have "spaces newline" by (simp add: newline_def is_space_def)
  with 3 have "items_text (v' # vs) (newline @ lines_separated (map (\<lambda>v. ind @ g v) (v' # vs)) @ tail)" by simp
  then show ?case using text_items [of v "g v" "pre @ ind" "[]" "v' # vs"] 3 assms(4) by simp
qed simp

lemma members_text_lines:
  assumes "m \<noteq> []" "\<And>k v. (k, v) \<in> set m \<Longrightarrow> json_text v (g v)" "spaces pre" "spaces ind" "spaces tail"
  shows "members_text m (pre @ lines_separated (map (\<lambda>(k, v). ind @ serialize_str k @ '' : '' @ g v) m) @ tail)"
  using assms(1,2,3)
proof (induction m arbitrary: pre rule: induct_list012)
  case (2 x)
  then show ?case using text_member [of "snd x" "g (snd x)" "pre @ ind" tail "'' ''" "'' ''" "fst x"] assms(4,5)
    by (cases x) (simp add: is_space_def)
next
  case (3 x y m)
  have "spaces newline" by (simp add: newline_def is_space_def)
  then have "members_text (y # m) (newline @ lines_separated (map (\<lambda>(k, v). ind @ serialize_str k @ '' : '' @ g v) (y # m)) @ tail)"
    by (intro "3.IH"(2)) (use "3.prems" in auto)
  moreover obtain k v where "x = (k, v)" by (cases x)
  moreover have "json_text v (g v)" using "3.prems"(2) [of k v] calculation(2) by simp
  ultimately show ?case using text_members [of v "g v" "pre @ ind" "[]" "'' ''" "'' ''" "y # m" _ k] "3.prems"(3) assms(4)
    by (simp add: is_space_def)
qed simp

lemma Serialize_text: "json_plain v \<Longrightarrow> json_text v (Serialize v)"
proof (induction v rule: json.induct)
  case (JBool b)
  then show ?case by (cases b) (simp_all add: to_str_def text_true text_false)
next
  case (JObject m)
  show ?case
  proof (cases "m = []")
    case True
    then show ?thesis using text_empty_object [of "[]"] by simp
  next
    case False
    have "members_text m (comma_separated (map (\<lambda>(k, v). serialize_str k @ CHR '':'' # Serialize v) m))"
      using False JObject by (intro members_text_comma) (force simp: list_all_iff)+
    then show ?thesis using text_object JObject.prems by simp
  qed
next
  case (JArray vs)
  show ?case
  proof (cases "vs = []")
    case True
    then show ?thesis using text_empty_array [of "[]"] by simp
  next
    case False
    have "items_text vs (comma_separated (map Serialize vs))"
      using False JArray by (intro items_text_comma) (auto simp: list_all_iff)
    then show ?thesis using text_array by simp
  qed
qed (simp_all add: to_str_def text_null text_string)

lemma spaces_Indent: "spaces (Indent n)" "spaces newline"
  by (simp_all add: Indent_def spaces_def list_all_iff is_space_def newline_def)

lemma PrettySerialize_text: "json_plain v \<Longrightarrow> json_text v (PrettySerialize n v)"
proof (induction v arbitrary: n rule: json.induct)
  case (JBool b)
  then show ?case by (cases b) (simp_all add: to_str_def text_true text_false)
next
  case (JObject m)
  let ?g = "PrettySerialize (Suc n)"
  show ?case
  proof (cases "m = []")
    case True
    then show ?thesis using text_empty_object [of "newline @ newline @ Indent n"] by (simp add: spaces_Indent)
  next
    case False
    have "members_text m (newline @ lines_separated (map (\<lambda>(k, v). Indent (Suc n) @ serialize_str k @ '' : '' @ ?g v) m) @ newline @ Indent n)"
      by (rule members_text_lines) (use False JObject in \<open>force simp: list_all_iff spaces_Indent\<close>)+
    from text_object [OF this] JObject.prems show ?thesis by simp
  qed
next
  case (JArray vs)
  let ?g = "PrettySerialize (Suc n)"
  show ?case
  proof (cases "vs = []")
    case True
    then show ?thesis using text_empty_array [of "newline @ newline @ Indent n"] by (simp add: spaces_Indent)
  next
    case False
    have "items_text vs (newline @ lines_separated (map (\<lambda>v. Indent (Suc n) @ ?g v) vs) @ newline @ Indent n)"
      by (rule items_text_lines) (use False JArray in \<open>auto simp: list_all_iff spaces_Indent\<close>)
    from text_array [OF this] show ?thesis by simp
  qed
qed (simp_all add: to_str_def text_null text_string)

lemma input_of_simps [simp]: "input_ok (input_of s)" "pending (input_of s) = s"
  by (simp_all add: input_of_def input_ok_def pending_def)

lemma Parse_text:
  assumes "json_text v t"
  shows "Parse (t @ r) root = (v, [])"
proof -
  have "pending (input_of (t @ r)) = [] @ t @ r" by simp
  then obtain i' where "parse_value root (input_of (t @ r)) = (True, v, i')"
    using parses_value_in [OF text_parses(1) [OF assms] input_of_simps(1)] by (metis spaces_simps(1))
  then show ?thesis by (simp add: Parse_def)
qed

text \<open>
  C15. The parser reads what the serializer writes: a value without numbers, written in the
  compact or in the indented form at any depth, is parsed back to the same value without an error, whatever
  the text that follows it and whatever the root held before.
\<close>

theorem json_roundtrip:
  assumes "json_plain v"
  shows "Parse (Serialize v @ r) root = (v, []) \<and> Parse (PrettySerialize n v @ r) root = (v, [])"
  using Parse_text Serialize_text [OF assms] PrettySerialize_text [OF assms] by blast

theorem json_roundtrip_witness:
  "Parse (Serialize (JObject [(''a'', JArray [JNull, JBool True]), (''b'', JString [CHR 0x0A])])) JNull =
     (JObject [(''a'', JArray [JNull, JBool True]), (''b'', JString [CHR 0x0A])], [])"
  using json_roundtrip [of "JObject [(''a'', JArray [JNull, JBool True]), (''b'', JString [CHR 0x0A])]" "[]"] by simp

section \<open>What can be read\<close>

lemma map_set_keys: "set (map fst (map_set k v m)) = insert k (set (map fst m))"
proof (induction m)
  case (Cons x m)
  then show ?case by (cases x) (simp add: insert_commute)
qed simp

lemma string_less_trans: "string_less s t \<Longrightarrow> string_less t u \<Longrightarrow> string_less s u"
proof (induction s t arbitrary: u rule: string_less.induct)
  case (2 y ys)
  then show ?case by (cases u) auto
next
  case (4 x xs y ys)
  then show ?case by (cases u) auto
qed simp_all

lemma string_less_total: "string_less s t \<or> s = t \<or> string_less t s"
proof (induction s t rule: string_less.induct)
  case (4 x xs y ys)
  have "(of_char x :: nat) < of_char y \<or> x = y \<or> (of_char y :: nat) < of_char x"
    by (metis char_of_char linorder_neqE_nat)
  with 4 show ?case by auto
qed simp_all

lemma map_set_sorted:
  "sorted_wrt string_less (map fst m) \<Longrightarrow> sorted_wrt string_less (map fst (map_set k v m))"
proof (induction m)
  case (Cons x m)
  obtain k' v' where x: "x = (k', v')" by (cases x)
  show ?case
  proof (cases "k = k' \<or> string_less k k'")
    case True
    then show ?thesis using Cons.prems x by (auto intro: string_less_trans)
  next
    case False
    then have "string_less k' k" using string_less_total [of k k'] by auto
    moreover have "map fst (map_set k v (x # m)) = k' # map fst (map_set k v m)" using False x by simp
    moreover have "sorted_wrt string_less (map fst (map_set k v m))" using Cons by simp
    ultimately show ?thesis using Cons.prems x by (simp only: sorted_wrt.simps map_set_keys) simp
  qed
qed simp

lemma map_set_plain:
  "list_all (\<lambda>(k, v). json_plain v) m \<Longrightarrow> json_plain v \<Longrightarrow> list_all (\<lambda>(k, v). json_plain v) (map_set k v m)"
  by (induction m) auto

lemma map_at_plain: "list_all (\<lambda>(k, v). json_plain v) m \<Longrightarrow> json_plain (snd (map_at k m))"
proof -
  have "map_get k m = Some v \<Longrightarrow> list_all (\<lambda>(k, v). json_plain v) m \<Longrightarrow> json_plain v" for v
    by (induction m) (auto split: if_splits)
  then show "list_all (\<lambda>(k, v). json_plain v) m \<Longrightarrow> json_plain (snd (map_at k m))"
    by (auto simp: map_at_def split: option.splits)
qed

lemma parse_plain:
  "json_plain out \<Longrightarrow> json_plain (fst (snd (parse_value out i)))"
  "list_all json_plain a \<Longrightarrow> json_plain (fst (snd (parse_items a i)))"
  "json_plain (JObject m) \<Longrightarrow> json_plain (fst (snd (parse_members m i)))"
proof (induction out i and a i and m i rule: parse_value_parse_items_parse_members.induct)
  case (1 out i)
  obtain ch i1 where g: "getc (skip_ws i) = (ch, i1)" by (cases "getc (skip_ws i)")
  obtain b2 i2 where e: "expect CHR '']'' i1 = (b2, i2)" by (cases "expect CHR '']'' i1")
  obtain b3 i3 where e': "expect CHR ''}'' i1 = (b3, i3)" by (cases "expect CHR ''}'' i1")
  have "ch = 0x5B \<Longrightarrow> \<not> b2 \<Longrightarrow> json_plain (fst (snd (parse_items [] i2)))"
    using "1.IH"(1) [OF g [symmetric] _ _ _ _ _ e [symmetric]] by simp
  moreover have "ch = 0x7B \<Longrightarrow> \<not> b3 \<Longrightarrow> json_plain (fst (snd (parse_members [] i3)))"
    using "1.IH"(2) [OF g [symmetric] _ _ _ _ _ _ e' [symmetric]] by simp
  ultimately show ?case using "1.prems"
    by (subst parse_value.simps) (auto simp: g e e' split: prod.splits option.splits)
next
  case (2 a i)
  obtain b1 v1 i1 where p: "parse_value JNull i = (b1, v1, i1)" by (metis prod_cases3)
  obtain b2 i2 where e: "expect CHR '','' i1 = (b2, i2)" by (cases "expect CHR '','' i1")
  have v1: "json_plain v1" using "2.IH"(1) p by simp
  have "b1 \<Longrightarrow> b2 \<Longrightarrow> json_plain (fst (snd (parse_items (a @ [v1]) i2)))"
    using "2.IH"(2) [OF p [symmetric] refl _ e [symmetric]] "2.prems" v1 by simp
  then show ?case using "2.prems" v1
    by (subst parse_items.simps) (auto simp: p e split: prod.splits)
next
  case (3 m i)
  obtain b1 i1 where q: "expect CHR 0x22 i = (b1, i1)" by (cases "expect CHR 0x22 i")
  obtain b2 key i2 where s: "parse_string [] i1 = (b2, key, i2)" by (metis prod_cases3)
  obtain b3 i3 where c: "expect CHR '':'' i2 = (b3, i3)" by (cases "expect CHR '':'' i2")
  obtain b4 v1 i4 where p: "parse_value (snd (map_at key m)) i3 = (b4, v1, i4)" by (metis prod_cases3)
  obtain b5 i5 where e: "expect CHR '','' i4 = (b5, i5)" by (cases "expect CHR '','' i4")
  have v1: "b1 \<Longrightarrow> b2 \<Longrightarrow> b3 \<Longrightarrow> json_plain v1"
    using "3.IH"(1) [OF q [symmetric] _ s [symmetric] refl _ c [symmetric]] map_at_plain "3.prems" p by simp
  have m': "b1 \<Longrightarrow> b2 \<Longrightarrow> b3 \<Longrightarrow> json_plain (JObject (map_set key v1 m))"
    using v1 map_set_sorted [of m key v1] map_set_plain [of m v1 key] "3.prems" by simp
  have "b1 \<Longrightarrow> b2 \<Longrightarrow> b3 \<Longrightarrow> b4 \<Longrightarrow> b5 \<Longrightarrow> json_plain (fst (snd (parse_members (map_set key v1 m) i5)))"
    using "3.IH"(2) [OF q [symmetric] _ s [symmetric] refl _ c [symmetric] _ p [symmetric] refl refl _ e [symmetric]] m' by simp
  then show ?case using "3.prems" m'
    by (subst parse_members.simps) (auto simp: q s c p e Let_def split: prod.splits)
qed

text \<open>
  C39. Whatever the text, and whether it is valid or not, what the parser leaves in the root is free of numbers
  and has the members of every object in the order of their keys: a number in the text becomes a truth value.
  So written again in the compact or the indented form it is read back unchanged.
\<close>

theorem parsed_values_have_no_numbers:
  "json_plain (fst (Parse s JNull)) \<and> Parse (Serialize (fst (Parse s JNull))) JNull = (fst (Parse s JNull), [])"
proof -
  have "json_plain (fst (Parse s JNull))"
    using parse_plain(1) [of JNull "input_of s"] by (auto simp: Parse_def split: prod.splits)
  then show ?thesis using Parse_text [OF Serialize_text, of "fst (Parse s JNull)" "[]"] by simp
qed

end
