(* ===== verification/Stego_Config.thy ===== *)
theory Stego_Config
  imports Json_Parser Permutation_Factory Encoder_Factory
begin

text \<open>
  \<^verbatim>\<open>src/utils/stego_config.h\<close>: the settings of the process, a single object that \<open>Init\<close> fills from a
  JSON value.
\<close>

section \<open>The settings\<close>

text \<open>
  The members \<open>include_list_\<close>, a \<open>std::set\<close>, and \<open>file_config_\<close>, a \<open>std::map\<close>, are kept in the order of
  their keys.
\<close>

record stego_config =
  sc_loaded :: bool
  sc_ffprobe_path :: string
  sc_encoder :: EncoderType
  sc_global_perm :: PermutationType
  sc_local_perm :: PermutationType
  sc_include_list :: "(string \<times> unit) list"
  sc_file_config :: "(string \<times> EncoderType \<times> PermutationType) list"

text \<open>
  The object has static storage, so the members without an initializer start as the enumerators with
  the value 0.
\<close>

definition StegoConfig :: stego_config where
  "StegoConfig = \<lparr>sc_loaded = False, sc_ffprobe_path = [], sc_encoder = LSB, sc_global_perm = IDENTITY,
                  sc_local_perm = IDENTITY, sc_include_list = [], sc_file_config = []\<rparr>"

definition include_list :: "stego_config \<Rightarrow> string list" where
  "include_list sc = map fst (sc_include_list sc)"

section \<open>Init\<close>

text \<open>
  \<open>config["key"]\<close> on the \<open>const\<close> argument; the null members it adds are not seen by a later look-up
  (lemma \<open>const_member_again\<close>), so each look-up is one in the original value.
\<close>

definition const_member :: "string \<Rightarrow> json \<Rightarrow> json" where
  "const_member key config = snd (at_key_const key config)"

text \<open>\<open>file_types[i]["key"].ToString()\<close>: neither is \<open>const\<close>, so a value that is no string becomes an empty one.\<close>

definition member_string :: "string \<Rightarrow> json \<Rightarrow> string" where
  "member_string key j = snd (ToString_ref (snd (at_key key j)))"

definition add_include :: "json \<Rightarrow> stego_config \<Rightarrow> stego_config" where
  "add_include j sc =
     (if IsString j then sc\<lparr>sc_include_list := map_set (snd (ToString_ref j)) () (sc_include_list sc)\<rparr> else sc)"

definition add_file_type :: "json \<Rightarrow> stego_config \<Rightarrow> stego_config" where
  "add_file_type j sc =
     (if IsObject j \<and> IsString (snd (at_key ''file_type'' j))
      then sc\<lparr>sc_file_config :=
                map_set (member_string ''file_type'' j)
                  (GetEncoderType (member_string ''encoder'' j), GetPermutationType (member_string ''permutation'' j))
                  (sc_file_config sc)\<rparr>
      else sc)"

definition StegoConfig_Init :: "json \<Rightarrow> stego_config \<Rightarrow> stego_config" where
  "StegoConfig_Init config sc =
     (let sc = sc\<lparr>sc_encoder := GetEncoderType (ToString (const_member ''encoder'' config)),
                  sc_global_perm := GetPermutationType (ToString (const_member ''glob_perm'' config)),
                  sc_local_perm := GetPermutationType (ToString (const_member ''local_perm'' config)),
                  sc_loaded := True,
                  sc_ffprobe_path := ToString (const_member ''ffprobe_path'' config)\<rparr>;
          include = const_member ''include_types'' config;
          sc = (if IsArray include then fold add_include (ToArray include) sc else sc);
          file_types = const_member ''file_types'' config
      in if IsArray file_types then fold add_file_type (ToArray file_types) sc else sc)"

lemma const_member_again:
  "snd (at_key_const key (fst (at_key_const key' config))) = const_member key config"
proof -
  have "map_get key (map_set key' JNull m) = (if key = key' then Some JNull else map_get key m)" if "map_get key' m = None" for m
    using that by (induction m) (auto split: if_splits)
  then show ?thesis
    by (cases config) (auto simp: const_member_def at_key_const_def map_at_def split: option.splits)
qed

end
