(* ===== verification/Carrier_Factory.thy ===== *)
theory Carrier_Factory
  imports Carrier_Images Stego_Config
begin

text \<open>
  \<^verbatim>\<open>src/carrier_files/carrier_file_factory.cc\<close> in the default build, without the video formats: a carrier for a file by its
  extension, with the local permutation the settings name for that format.
\<close>

definition CreatePermutation :: "stego_config \<Rightarrow> string \<Rightarrow> permutation" where
  "CreatePermutation sc ext =
     GetPermutation (case map_get ext (sc_file_config sc) of
                       Some (e, p) \<Rightarrow> p | None \<Rightarrow> sc_local_perm sc)"

text \<open>A file that is no carrier, or has no room for a byte, gives no carrier.\<close>

definition CreateCarrierFile :: "cenv \<Rightarrow> stego_config \<Rightarrow> files \<Rightarrow> file_obj \<Rightarrow> carrier option res" where
  "CreateCarrierFile C sc fs file' =
     (let ext = GetExtension file' True; perm = Some (CreatePermutation sc ext) in
      bindR (if ext = ''bmp'' then mapR Some (BMP_new fs file' None perm)
             else if ext = ''jpg'' then mapR Some (JPEG_new C fs file' None perm)
             else if ext = ''png'' then mapR Some (PNG_new C fs file' None perm)
             else Inr None) (\<lambda>carrier_file.
      case carrier_file of
        None \<Rightarrow> Inr None
      | Some c \<Rightarrow> if cf_raw_capacity c < 1 then Inr None else Inr (Some c)))"

end
