(* ===== verification/Carrier_Covers.thy ===== *)
theory Carrier_Covers
  imports Carrier_Images
begin

text \<open>
  The loops of the three picture carriers that collect and store the lowest bits are instances of
  the contract \<open>lsb_cover\<close>: the bytes of a bitmap, the pixels of a decoded PNG file, and the
  coefficients of a JPEG file, where storing a bit never changes which coefficients are used.
\<close>

section \<open>Bitmaps and pixels as covers\<close>

lemma and_1_byte: "(v :: u8) AND 1 \<noteq> 0 \<longleftrightarrow> bit v 0"
  using and_power_byte [of 0 v] by simp

definition with_lsb :: "u8 \<Rightarrow> bool \<Rightarrow> u8" where
  "with_lsb v b = (v AND 0xFE) OR bit_byte b"

lemma bit_0xFE: "k < 8 \<Longrightarrow> bit (0xFE :: u8) k = (k \<noteq> 0)"
proof -
  assume "k < 8"
  then have "k \<in> {0, 1, 2, 3, 4, 5, 6, 7}" by auto
  then show ?thesis by (elim insertE emptyE) simp_all
qed

lemma bit_with_lsb: "k < 8 \<Longrightarrow> bit (with_lsb v b) k = (if k = 0 then b else bit v k)"
proof -
  assume "k < 8"
  then have "bit (0xFE :: u8) k = (k \<noteq> 0)" by (rule bit_0xFE)
  then show ?thesis unfolding with_lsb_def bit_byte_def bit_or_iff bit_and_iff by (simp add: bit_1_iff)
qed

lemma cf_gather_correct:
  assumes "bits_ready p c" "n = unat (Perm_GetSize p)" "\<forall>i < n. cover i = Inr (v i)"
      and "\<forall>j < 8 * unat (mb_size (cf_buffer c)). \<not> cf_bit c j"
  shows "\<exists>c'. cf_gather cover n (c, w) = ((c', w), Inr ()) \<and> cf_same c c' \<and> bits_ready p c' \<and>
              (\<forall>i < n. cf_bit c' (perm.pos p i) = bit (v i) 0)"
proof -
  have ok: "perm_ok p" using assms(1) by (simp add: bits_ready_def)
  let ?M = "8 * unat (mb_size (cf_buffer c))"
  let ?I = "\<lambda>k s. \<exists>c1. s = (c1, w) \<and> cf_same c c1 \<and> bits_ready p c1 \<and>
              (\<forall>j < ?M. cf_bit c1 j = (\<exists>i < k. bit (v i) 0 \<and> j = perm.pos p i))"
  let ?f = "\<lambda>i. bindM (askM (\<lambda>s. cover i)) (\<lambda>v. whenM (v AND 1 \<noteq> 0) (on_carrier (CF_SetBitInBufferPermuted (word_of_nat i))))"
  have "\<exists>t. forM ?f [0..<n] (c, w) = (t, Inr ()) \<and> ?I n t"
  proof (rule forM_invariant [where I = ?I])
    show "?I 0 (c, w)" using assms(1,4) by simp
  next
    fix k t assume k: "k < length [0..<n]" and "?I k t"
    then obtain c1 where c1: "t = (c1, w)" "cf_same c c1" "bits_ready p c1"
        "\<And>j. j < ?M \<Longrightarrow> cf_bit c1 j = (\<exists>i < k. bit (v i) 0 \<and> j = perm.pos p i)" by blast
    have kn: "k < n" using k by simp
    show "\<exists>u. ?f ([0..<n] ! k) t = (u, Inr ()) \<and> ?I (Suc k) u"
    proof (cases "bit (v k) 0")
      case True
      have "k < unat (Perm_GetSize p)" using kn assms(2) by simp
      then obtain c2 where c2: "CF_SetBitInBufferPermuted (word_of_nat k) c1 = Inr c2" "cf_same c1 c2" "bits_ready p c2"
          "\<And>j. j < 8 * unat (mb_size (cf_buffer c1)) \<Longrightarrow> cf_bit c2 j = (cf_bit c1 j \<or> j = perm.pos p k)"
        using CF_SetBit_correct [OF c1(3)] by blast
      have M: "8 * unat (mb_size (cf_buffer c1)) = ?M" using cf_same_fields(11) [OF c1(2)] by simp
      have "?f ([0..<n] ! k) t = ((c2, w), Inr ())"
        using True kn assms(3) c2(1) by (simp add: c1(1) run_simps and_1_byte on_carrier_def)
      moreover have "cf_bit c2 j = (\<exists>i < Suc k. bit (v i) 0 \<and> j = perm.pos p i)" if "j < ?M" for j
        using c2(4) [of j] c1(4) [OF that] that True by (auto simp: M less_Suc_eq)
      ultimately show ?thesis using cf_same_trans [OF c1(2) c2(2)] c2(3) by blast
    next
      case False
      have "?f ([0..<n] ! k) t = ((c1, w), Inr ())"
        using False kn assms(3) by (simp add: c1(1) run_simps and_1_byte)
      moreover have "cf_bit c1 j = (\<exists>i < Suc k. bit (v i) 0 \<and> j = perm.pos p i)" if "j < ?M" for j
        using c1(4) [OF that] False by (auto simp: less_Suc_eq)
      ultimately show ?thesis using c1(2,3) by blast
    qed
  qed simp
  then obtain c' where c': "cf_gather cover n (c, w) = ((c', w), Inr ())" "cf_same c c'" "bits_ready p c'"
      "\<And>j. j < ?M \<Longrightarrow> cf_bit c' j = (\<exists>i < n. bit (v i) 0 \<and> j = perm.pos p i)"
    by (auto simp: cf_gather_def)
  have "cf_bit c' (perm.pos p i) = bit (v i) 0" if i: "i < n" for i
  proof -
    have "perm.pos p i < ?M" using perm.pos_less [OF ok, of i] i assms(1,2) by (simp add: bits_ready_def)
    moreover have "k = i" if "k < n" "perm.pos p i = perm.pos p k" for k
      using perm.inj_on_pos [OF ok] i that assms(2) by (auto simp: inj_on_def)
    ultimately show ?thesis using c'(4) i by auto
  qed
  with c' show ?thesis by blast
qed

lemma mb_scatter_correct:
  assumes "bits_ready p c" "mb_ok b" "k \<le> unat (Perm_GetSize p)" "k \<le> unat (mb_size b)"
  shows "\<exists>b'. mb_scatter c k b = Inr b' \<and> mb_ok b' \<and> mb_size b' = mb_size b \<and>
              mb_bytes b' = map (\<lambda>i. with_lsb (mb_bytes b ! i) (cf_bit c (perm.pos p i))) [0..<k] @ drop k (mb_bytes b)"
  using assms(3,4)
proof (induction k)
  case 0
  then show ?case using assms(2) by (simp add: mb_scatter_def)
next
  case (Suc k)
  then obtain b1 where b1: "mb_scatter c k b = Inr b1" "mb_ok b1" "mb_size b1 = mb_size b"
      "mb_bytes b1 = map (\<lambda>i. with_lsb (mb_bytes b ! i) (cf_bit c (perm.pos p i))) [0..<k] @ drop k (mb_bytes b)"
    by auto
  have ku: "unat (word_of_nat k :: u64) = k" using Suc.prems(2) by (intro unat_of_nat_upto [of _ "mb_size b"]) simp
  have kl: "k < length (mb_bytes b)" using Suc.prems(2) length_mb_bytes [OF assms(2)] by simp
  have at_k: "mb_bytes b1 ! k = mb_bytes b ! k" using kl by (simp add: b1(4) nth_append)
  have idx: "MB_index b1 (word_of_nat k) = Inr (mb_bytes b ! k)"
    using b1(2,3) Suc.prems(2) ku at_k by (simp add: MB_index_correct)
  have get: "CF_GetBitInBufferPermuted (word_of_nat k) c = Inr (cf_bit c (perm.pos p k))"
    using CF_GetBit_correct [OF assms(1)] Suc.prems(1) by simp
  let ?x = "with_lsb (mb_bytes b ! k) (cf_bit c (perm.pos p k))"
  obtain b2 where b2: "MB_set b1 (word_of_nat k) ?x = Inr b2" using b1(2,3) Suc.prems(2) ku by (simp add: MB_set_correct)
  note s = MB_set_ok [OF b1(2) b2, unfolded ku]
  have "mb_bytes b2 = map (\<lambda>i. with_lsb (mb_bytes b ! i) (cf_bit c (perm.pos p i))) [0..<Suc k] @ drop (Suc k) (mb_bytes b)"
    using s kl by (simp add: b1(4) list_update_append Cons_nth_drop_Suc [symmetric])
  moreover have "mb_scatter c (Suc k) b = Inr b2"
    using b1(1) idx get b2 by (simp add: mb_scatter_def foldR_append with_lsb_def)
  ultimately show ?case using s b1(3) by simp
qed

lemma image_scatter_correct:
  assumes "bits_ready p c" "k \<le> unat (Perm_GetSize p)" "k \<le> length img"
  shows "image_scatter c k img =
           Inr (map (\<lambda>i. with_lsb (img ! i) (cf_bit c (perm.pos p i))) [0..<k] @ drop k img)"
  using assms(2,3)
proof (induction k)
  case 0
  then show ?case by (simp add: image_scatter_def)
next
  case (Suc k)
  then have "image_scatter c k img = Inr (map (\<lambda>i. with_lsb (img ! i) (cf_bit c (perm.pos p i))) [0..<k] @ drop k img)" by simp
  moreover have "CF_GetBitInBufferPermuted (word_of_nat k) c = Inr (cf_bit c (perm.pos p k))"
    using CF_GetBit_correct [OF assms(1)] Suc.prems(1) by simp
  ultimately show ?case using Suc.prems(2)
    by (simp add: image_scatter_def foldR_append image_at_def nth_append with_lsb_def list_update_append Cons_nth_drop_Suc [symmetric])
qed

interpretation bmp: lsb_cover "\<lambda>n b. mb_ok b \<and> unat n \<le> unat (mb_size b) \<and> mb_size b = sz" "\<lambda>b i. bit (mb_bytes b ! i) 0"
    "\<lambda>n b. cf_gather (\<lambda>i. MB_index b (word_of_nat i)) (unat n)" "\<lambda>n c. mb_scatter c (unat n)" for sz
proof (unfold_locales, goal_cases)
  case (1 p c n b w)
  have "MB_index b (word_of_nat i) = Inr (mb_bytes b ! i)" if "i < unat n" for i
    using 1(3) that unat_of_nat_below [of i n] by (auto simp: MB_index_correct)
  then show ?case
    using cf_gather_correct [OF 1(1), of "unat n" "\<lambda>i. MB_index b (word_of_nat i)" "\<lambda>i. mb_bytes b ! i" w] 1(2,4) by simp
next
  case (2 p c n b)
  obtain b' where b': "mb_scatter c (unat n) b = Inr b'" "mb_ok b'" "mb_size b' = mb_size b"
      "mb_bytes b' = map (\<lambda>i. with_lsb (mb_bytes b ! i) (cf_bit c (perm.pos p i))) [0..<unat n] @ drop (unat n) (mb_bytes b)"
    using mb_scatter_correct [OF 2(1), of b "unat n"] 2(2,3) by auto
  then show ?case using 2(3) by (auto simp: nth_append bit_with_lsb)
qed

interpretation png: lsb_cover "\<lambda>n img. unat n \<le> length img \<and> length img = len" "\<lambda>img i. bit (img ! i) 0"
    "\<lambda>n img. cf_gather (image_at img) (unat n)" "\<lambda>n c. image_scatter c (unat n)" for len
proof (unfold_locales, goal_cases)
  case (1 p c n img w)
  have "image_at img i = Inr (img ! i)" if "i < unat n" for i using 1(3) that by (simp add: image_at_def)
  then show ?case
    using cf_gather_correct [OF 1(1), of "unat n" "image_at img" "\<lambda>i. img ! i" w] 1(2,4) by simp
next
  case (2 p c n img)
  then show ?case using image_scatter_correct [OF 2(1), of "unat n" img] by (auto simp: nth_append bit_with_lsb)
qed

section \<open>Coefficients as a cover\<close>

text \<open>The coefficients that carry a bit, in the order of the loops.\<close>

definition usable_coeffs :: "coefs list \<Rightarrow> coefs" where
  "usable_coeffs blocks = filter usable_coeff (ac_coeffs blocks)"

definition coeff_with_lsb :: "16 word \<Rightarrow> bool \<Rightarrow> 16 word" where
  "coeff_with_lsb x b = (x AND 0xFFFE) OR (if b then 1 else 0)"

lemma bit_0xFFFE: "k < 16 \<Longrightarrow> bit (0xFFFE :: 16 word) k = (k \<noteq> 0)"
proof -
  assume "k < 16"
  then have "k \<in> {0, 1, 2, 3, 4, 5, 6, 7, 8, 9, 10, 11, 12, 13, 14, 15}" unfolding insert_iff empty_iff by presburger
  then show ?thesis by (elim insertE emptyE) simp_all
qed

lemma bit_coeff_with_lsb: "k < 16 \<Longrightarrow> bit (coeff_with_lsb x b) k = (if k = 0 then b else bit x k)"
proof -
  assume "k < 16"
  then have "bit (0xFFFE :: 16 word) k = (k \<noteq> 0)" by (rule bit_0xFFFE)
  then show ?thesis unfolding coeff_with_lsb_def bit_or_iff bit_and_iff by (simp add: bit_1_iff)
qed

lemma usable_coeff_bits: "usable_coeff x \<longleftrightarrow> (\<exists>k < 16. 0 < k \<and> bit x k)"
proof -
  have "bit (x AND 0xFFFE) k \<longleftrightarrow> 0 < k \<and> bit x k" if "k < 16" for k
    unfolding bit_and_iff using bit_0xFFFE [OF that] by auto
  then have "x AND 0xFFFE = 0 \<longleftrightarrow> (\<forall>k < 16. \<not> (0 < k \<and> bit x k))"
    by (auto simp: bit_eq_iff)
  then show ?thesis by (auto simp: usable_coeff_def)
qed

text \<open>Changing the lowest bit of a coefficient does not change whether it is used.\<close>

lemma usable_coeff_with_lsb [simp]: "usable_coeff (coeff_with_lsb x b) = usable_coeff x"
  by (auto simp: usable_coeff_bits bit_coeff_with_lsb)

lemma and_1_coeff: "(x :: 16 word) AND 1 \<noteq> 0 \<longleftrightarrow> bit x 0"
  by (simp add: and_one_eq odd_iff_mod_2_eq_one bit_0 split: if_splits)

text \<open>The collecting loop looks at the usable coefficients one after the other.\<close>

lemma jpeg_gather_correct:
  assumes "bits_ready p c0" "n = Perm_GetSize p" "unat n < 2 ^ 32" "m < unat n" "m \<le> length us0"
      and "us0 = take m us0 @ filter usable_coeff xs" "unat n \<le> length us0"
      and "cf_same c0 c" "bits_ready p c"
      and "\<forall>j < 8 * unat (mb_size (cf_buffer c0)). cf_bit c j = (\<exists>i < m. bit (us0 ! i) 0 \<and> j = perm.pos p i)"
  shows "\<exists>c'. jpeg_gather n xs (word_of_nat m) (c, w) = ((c', w), Inr ()) \<and> cf_same c0 c' \<and> bits_ready p c' \<and>
              (\<forall>j < 8 * unat (mb_size (cf_buffer c0)). cf_bit c' j = (\<exists>i < unat n. bit (us0 ! i) 0 \<and> j = perm.pos p i))"
  using assms(4-10)
proof (induction xs arbitrary: m c)
  case Nil
  then have "us0 = take m us0" by simp
  then have "length us0 \<le> m" by (metis length_take min.cobounded2)
  then show ?case using Nil by simp
next
  case (Cons x xs)
  let ?M = "8 * unat (mb_size (cf_buffer c0))"
  show ?case
  proof (cases "usable_coeff x")
    case False
    then show ?thesis using Cons by simp
  next
    case True
    have us: "us0 = take m us0 @ x # filter usable_coeff xs" using Cons.prems(3) True by simp
    have lm: "length (take m us0) = m" using Cons.prems(2) by simp
    have um: "us0 ! m = x" using us lm by (metis nth_append_length)
    have m1: "Suc m \<le> length us0" using us lm by (metis length_append length_Cons add_Suc_right Suc_le_mono le_add1)
    have us': "us0 = take (Suc m) us0 @ filter usable_coeff xs"
      using us um m1 by (metis Suc_le_lessD append.assoc append_Cons append_Nil take_Suc_conv_app_nth)
    have m32: "m < 4294967296" "Suc m \<le> 4294967295" using Cons.prems(1) assms(3) by auto
    have sm: "unat (word_of_nat (Suc m) :: u32) = Suc m" using m32 by (intro unat_of_nat_u32) simp
    have um32: "ucast (word_of_nat m :: u32) = (word_of_nat m :: u64)" "word_of_nat m + 1 = (word_of_nat (Suc m) :: u32)"
        "unat (ucast (word_of_nat (Suc m) :: u32) :: u64) = Suc m"
      using m32 sm by (simp_all add: word_eq_unat unat_ucast_u32_u64 unat_simps del: of_nat_Suc) (simp add: add.commute)
    obtain c1 where c1: "whenM (x AND 1 \<noteq> 0) (on_carrier (CF_SetBitInBufferPermuted (ucast (word_of_nat m :: u32)))) (c, w) = ((c1, w), Inr ())"
        "cf_same c0 c1" "bits_ready p c1"
        "\<forall>j < ?M. cf_bit c1 j = (\<exists>i < Suc m. bit (us0 ! i) 0 \<and> j = perm.pos p i)"
    proof (cases "bit x 0")
      case b: True
      have "m < unat (Perm_GetSize p)" using Cons.prems(1) assms(2) by simp
      then obtain c1 where c1: "CF_SetBitInBufferPermuted (word_of_nat m) c = Inr c1" "cf_same c c1" "bits_ready p c1"
          "\<And>j. j < 8 * unat (mb_size (cf_buffer c)) \<Longrightarrow> cf_bit c1 j = (cf_bit c j \<or> j = perm.pos p m)"
        using CF_SetBit_correct [OF Cons.prems(6)] by blast
      have M: "8 * unat (mb_size (cf_buffer c)) = ?M" using cf_same_fields(11) [OF Cons.prems(5)] by simp
      have "cf_bit c1 j = (\<exists>i < Suc m. bit (us0 ! i) 0 \<and> j = perm.pos p i)" if "j < ?M" for j
        using c1(4) [of j] Cons.prems(7) that b um by (auto simp: M less_Suc_eq)
      then show ?thesis using that c1 b cf_same_trans [OF Cons.prems(5) c1(2)]
        by (simp add: um32 and_1_coeff run_simps on_carrier_def)
    next
      case b: False
      have "cf_bit c j = (\<exists>i < Suc m. bit (us0 ! i) 0 \<and> j = perm.pos p i)" if "j < ?M" for j
        using Cons.prems(7) that b um by (auto simp: less_Suc_eq)
      then show ?thesis using that b Cons.prems(5,6) by (simp add: and_1_coeff run_simps)
    qed
    show ?thesis
    proof (cases "Suc m = unat n")
      case last: True
      then have "n \<le> ucast (word_of_nat (Suc m) :: u32)" using um32(3) by (simp add: word_le_nat_alt)
      then have "jpeg_gather n (x # xs) (word_of_nat m) (c, w) = ((c1, w), Inr ())"
        using True c1(1) by (simp add: run_simps um32(2) Let_def)
      then show ?thesis using c1(2-4) last by auto
    next
      case more: False
      then have "\<not> n \<le> ucast (word_of_nat (Suc m) :: u32)" using um32(3) Cons.prems(1) by (simp add: word_le_nat_alt)
      then have "jpeg_gather n (x # xs) (word_of_nat m) (c, w) = jpeg_gather n xs (word_of_nat (Suc m)) (c1, w)"
        using True c1(1) by (simp add: run_simps um32(2) Let_def)
      then show ?thesis using Cons.IH [OF _ m1 us' Cons.prems(4) c1(2-4)] more Cons.prems(1) by auto
    qed
  qed
qed


text \<open>What the storing loop makes of the usable coefficients from counter \<open>n\<close> on.\<close>

fun coeffs_upd :: "(nat \<Rightarrow> bool) \<Rightarrow> nat \<Rightarrow> nat \<Rightarrow> coefs \<Rightarrow> coefs" where
  "coeffs_upd g bits n [] = []"
| "coeffs_upd g bits n (x # xs) = (if n < bits then coeff_with_lsb x (g n) else x) # coeffs_upd g bits (Suc n) xs"

lemma coeffs_upd_full: "bits \<le> n \<Longrightarrow> coeffs_upd g bits n us = us"
  by (induction us arbitrary: n) auto

lemma length_coeffs_upd [simp]: "length (coeffs_upd g bits n us) = length us"
  by (induction us arbitrary: n) auto

lemma nth_coeffs_upd:
  "k < length us \<Longrightarrow> coeffs_upd g bits n us ! k = (if n + k < bits then coeff_with_lsb (us ! k) (g (n + k)) else us ! k)"
proof (induction us arbitrary: n k)
  case (Cons u us)
  then show ?case by (cases k) auto
qed simp

lemma coeffs_upd_append:
  "coeffs_upd g bits n (us @ vs) = coeffs_upd g bits n us @ coeffs_upd g bits (min bits (n + length us)) vs"
proof (induction us arbitrary: n)
  case Nil
  then show ?case by (cases "bits \<le> n") (simp_all add: coeffs_upd_full)
next
  case (Cons u us)
  show ?case using Cons.IH [of "Suc n"] by simp
qed

lemma jpeg_scatter_block_correct:
  assumes "bits_ready p c" "unat bits = unat (Perm_GetSize p)" "n \<le> unat bits" "go = (n < unat bits)"
  defines "g \<equiv> \<lambda>i. cf_bit c (perm.pos p i)"
  shows "\<exists>ys. jpeg_scatter_block c bits xs (word_of_nat n, go) =
              Inr (ys, word_of_nat (min (unat bits) (n + length (filter usable_coeff xs))), n + length (filter usable_coeff xs) < unat bits) \<and>
              filter usable_coeff ys = coeffs_upd g (unat bits) n (filter usable_coeff xs) \<and> length ys = length xs"
  using assms(3,4)
proof (induction xs arbitrary: n go)
  case Nil
  then show ?case by auto
next
  case (Cons x xs)
  show ?case
  proof (cases "go \<and> usable_coeff x")
    case False
    show ?thesis
    proof (cases go)
      case go: False
      then have "n = unat bits" using Cons.prems by simp
      then show ?thesis using go by (auto simp: coeffs_upd_full)
    next
      case go: True
      with False have "\<not> usable_coeff x" by simp
      then show ?thesis using go Cons.IH [OF Cons.prems] by auto
    qed
  next
    case True
    then have n: "n < unat bits" using Cons.prems by simp
    have nb: "unat (word_of_nat n :: u32) = n" using n unat_u32_less [of bits] by (simp add: unat_simps)
    have ns: "unat (word_of_nat (Suc n) :: u32) = Suc n" using n unat_u32_less [of bits] by (intro unat_of_nat_u32) simp
    have w: "ucast (word_of_nat n :: u32) = (word_of_nat n :: u64)"
      using n nb unat_u32_less [of bits] by (simp add: word_eq_unat unat_ucast_u32_u64 unat_simps)
    have "CF_GetBitInBufferPermuted (word_of_nat n) c = Inr (g n)"
      using CF_GetBit_correct [OF assms(1), of n] n assms(2) by (simp add: g_def)
    moreover have s: "word_of_nat n + 1 = (word_of_nat (Suc n) :: u32)" by (simp add: add.commute)
    have c: "(\<not> word_of_nat (Suc n) \<ge> bits) = (Suc n < unat bits)" unfolding word_le_nat_alt ns by auto
    obtain ys where ys: "jpeg_scatter_block c bits xs (word_of_nat (Suc n), Suc n < unat bits) =
          Inr (ys, word_of_nat (min (unat bits) (Suc n + length (filter usable_coeff xs))), Suc n + length (filter usable_coeff xs) < unat bits)"
        "filter usable_coeff ys = coeffs_upd g (unat bits) (Suc n) (filter usable_coeff xs)" "length ys = length xs"
      using Cons.IH [of "Suc n" "Suc n < unat bits"] n by auto
    ultimately have "jpeg_scatter_block c bits (x # xs) (word_of_nat n, go) =
          Inr (coeff_with_lsb x (g n) # ys, word_of_nat (min (unat bits) (Suc n + length (filter usable_coeff xs))), Suc n + length (filter usable_coeff xs) < unat bits)"
      using True by (simp add: w s c coeff_with_lsb_def del: of_nat_Suc)
    then show ?thesis using True n ys(2,3) by auto
  qed
qed

lemma jpeg_scatter_correct:
  assumes "bits_ready p c" "unat bits = unat (Perm_GetSize p)" "n \<le> unat bits" "go = (n < unat bits)"
  defines "g \<equiv> \<lambda>i. cf_bit c (perm.pos p i)"
  shows "\<exists>bs'. jpeg_scatter c bits bs (word_of_nat n, go) = Inr bs' \<and>
               usable_coeffs bs' = coeffs_upd g (unat bits) n (usable_coeffs bs) \<and> map length bs' = map length bs"
  using assms(3,4)
proof (induction bs arbitrary: n go)
  case Nil
  then show ?case by (simp add: usable_coeffs_def ac_coeffs_def)
next
  case (Cons b bs)
  let ?u = "filter usable_coeff (tl b)"
  let ?n = "min (unat bits) (n + length ?u)"
  obtain ac where ac: "jpeg_scatter_block c bits (tl b) (word_of_nat n, go) = Inr (ac, word_of_nat ?n, n + length ?u < unat bits)"
      "filter usable_coeff ac = coeffs_upd g (unat bits) n ?u" "length ac = length (tl b)"
    using jpeg_scatter_block_correct [OF assms(1,2) Cons.prems, of "tl b"] unfolding g_def by blast
  have "(n + length ?u < unat bits) = (?n < unat bits)" by auto
  with Cons.IH [of ?n "n + length ?u < unat bits"] obtain bs' where bs':
      "jpeg_scatter c bits bs (word_of_nat ?n, n + length ?u < unat bits) = Inr bs'"
      "usable_coeffs bs' = coeffs_upd g (unat bits) ?n (usable_coeffs bs)" "map length bs' = map length bs" by auto
  have "tl (take 1 b @ ac) = ac" "length (take 1 b @ ac) = length b" using ac(3) by (cases b; simp)+
  moreover have "usable_coeffs (b # bs) = ?u @ usable_coeffs bs" "usable_coeffs ((take 1 b @ ac) # bs') = filter usable_coeff (tl (take 1 b @ ac)) @ usable_coeffs bs'"
    by (simp_all add: usable_coeffs_def ac_coeffs_def)
  ultimately show ?case using ac bs' by (simp add: coeffs_upd_append)
qed

text \<open>What the storing loop leaves of a coefficient: everything but the lowest bit of a usable one.\<close>

definition coef_high :: "16 word \<Rightarrow> 16 word" where
  "coef_high x = (if usable_coeff x then x AND 0xFFFE else x)"

lemma coef_high_with_lsb: "usable_coeff x \<Longrightarrow> coef_high (coeff_with_lsb x b) = coef_high x"
proof -
  assume u: "usable_coeff x"
  have "bit (coeff_with_lsb x b AND 0xFFFE) k = bit (x AND 0xFFFE) k" if "k < 16" for k
    unfolding bit_and_iff using bit_coeff_with_lsb [OF that] bit_0xFFFE [OF that] by auto
  then show ?thesis using u by (simp add: coef_high_def bit_eq_iff)
qed

lemma jpeg_scatter_block_high:
  "jpeg_scatter_block c bits xs st = Inr (ys, st') \<Longrightarrow> map coef_high ys = map coef_high xs"
proof (induction c bits xs st arbitrary: ys st' rule: jpeg_scatter_block.induct)
  case (2 c bits x xs n go)
  consider "\<not> go" | "go" "usable_coeff x" | "go" "\<not> usable_coeff x" by blast
  then show ?case
  proof cases
    case 2
    then show ?thesis using "2.prems" "2.IH"(1) coef_high_with_lsb [OF 2(2)]
      by (auto simp: bindR_eq_Inr coeff_with_lsb_def)
  next
    case 3
    then show ?thesis using "2.prems" "2.IH"(2) by (auto simp: bindR_eq_Inr)
  qed (use "2.prems" in auto)
qed simp

definition coefs_high :: "coefs list \<Rightarrow> coefs list" where
  "coefs_high bs = map (map coef_high) bs"

lemma jpeg_scatter_high: "jpeg_scatter c bits bs st = Inr bs' \<Longrightarrow> coefs_high bs' = coefs_high bs"
proof (induction bs arbitrary: st bs')
  case (Cons b bs)
  then obtain ac st2 bs2 where a: "jpeg_scatter_block c bits (tl b) st = Inr (ac, st2)"
      "jpeg_scatter c bits bs st2 = Inr bs2" "bs' = (take 1 b @ ac) # bs2"
    by (auto simp: bindR_eq_Inr)
  have "map coef_high (take 1 b @ ac) = map coef_high b"
    using jpeg_scatter_block_high [OF a(1)] by (cases b) auto
  then show ?case using Cons.IH [OF a(2)] a(3) by (simp add: coefs_high_def)
qed (simp add: coefs_high_def)

text \<open>The usable coefficients behind those the permutation covers are not touched.\<close>

lemma jpeg_scatter_beyond:
  assumes "bits_ready p c" "n = Perm_GetSize p" "0 < unat n" "unat n < 2 ^ 32" "jpeg_scatter c (ucast n) bs (0, True) = Inr bs'"
  shows "drop (unat n) (usable_coeffs bs') = drop (unat n) (usable_coeffs bs)"
proof -
  have u: "unat (ucast n :: u32) = unat n" using assms(4) by (simp add: unsigned_ucast_eq take_bit_nat_eq_self)
  have "0 \<le> unat (ucast n :: u32)" "True = (0 < unat (ucast n :: u32))" using assms(3) u by simp_all
  from jpeg_scatter_correct [OF assms(1) _ this, of bs] u assms(2,5)
  have "usable_coeffs bs' = coeffs_upd (\<lambda>i. cf_bit c (perm.pos p i)) (unat n) 0 (usable_coeffs bs)" by auto
  then show ?thesis by (auto intro: nth_equalityI simp: nth_coeffs_upd)
qed

interpretation jpeg: lsb_cover "\<lambda>n bs. 0 < unat n \<and> unat n < 2 ^ 32 \<and> unat n \<le> length (usable_coeffs bs) \<and> coefs_high bs = H" "\<lambda>bs i. bit (usable_coeffs bs ! i) 0"
    "\<lambda>n bs. jpeg_gather n (ac_coeffs bs) 0" "\<lambda>n c bs. jpeg_scatter c (ucast n) bs (0, True)" for H
proof (unfold_locales, goal_cases)
  case (1 p c n bs w)
  have us: "usable_coeffs bs = take 0 (usable_coeffs bs) @ filter usable_coeff (ac_coeffs bs)" by (simp add: usable_coeffs_def)
  have "\<forall>j < 8 * unat (mb_size (cf_buffer c)). cf_bit c j = (\<exists>i < 0. bit (usable_coeffs bs ! i) 0 \<and> j = perm.pos p i)"
    using 1(4) by simp
  from jpeg_gather_correct [where w = w, OF 1(1,2) _ _ _ us _ cf_same_refl 1(1) this] 1(3) obtain c' where c':
      "jpeg_gather n (ac_coeffs bs) (word_of_nat 0) (c, w) = ((c', w), Inr ())" "cf_same c c'" "bits_ready p c'"
      "\<And>j. j < 8 * unat (mb_size (cf_buffer c)) \<Longrightarrow> cf_bit c' j = (\<exists>i < unat n. bit (usable_coeffs bs ! i) 0 \<and> j = perm.pos p i)"
    by auto
  have ok: "perm_ok p" using 1(1) by (simp add: bits_ready_def)
  have "cf_bit c' (perm.pos p i) = bit (usable_coeffs bs ! i) 0" if i: "i < unat n" for i
  proof -
    have "perm.pos p i < 8 * unat (mb_size (cf_buffer c))" using perm.pos_less [OF ok, of i] i 1(1,2) by (simp add: bits_ready_def)
    moreover have "k = i" if "k < unat n" "perm.pos p i = perm.pos p k" for k
      using perm.inj_on_pos [OF ok] i that 1(2) by (auto simp: inj_on_def)
    ultimately show ?thesis using c'(4) i by auto
  qed
  with c' show ?case by auto
next
  case (2 p c n bs)
  have u: "unat (ucast n :: u32) = unat n" using 2(3) by (simp add: unsigned_ucast_eq take_bit_nat_eq_self)
  have "0 \<le> unat (ucast n :: u32)" "True = (0 < unat (ucast n :: u32))" using 2(3) u by simp_all
  from jpeg_scatter_correct [OF 2(1) _ this, of bs] u 2(2) obtain bs' where bs':
      "jpeg_scatter c (ucast n) bs (word_of_nat 0, True) = Inr bs'"
      "usable_coeffs bs' = coeffs_upd (\<lambda>i. cf_bit c (perm.pos p i)) (unat n) 0 (usable_coeffs bs)" "map length bs' = map length bs" by auto
  then show ?case using 2(3) jpeg_scatter_high [OF bs'(1)] by (auto simp: nth_coeffs_upd bit_coeff_with_lsb)
qed

end
