(* ===== verification/Carrier_Roundtrip.thy ===== *)
theory Carrier_Roundtrip
  imports Carrier_Covers
begin

text \<open>
  What \<open>SaveFile\<close> writes into a picture, \<open>LoadFile\<close> reads back: the bytes of the virtual storage a
  carrier holds survive the encoder, the local permutation and the lowest bits of the cover.  The
  two halves are proved once for every cover, in the context of \<open>lsb_cover\<close>, and then put together
  for the three classes.
\<close>

section \<open>A carrier in use\<close>

text \<open>
  What \<open>SetEncoder\<close>, \<open>AddToVirtualStorage\<close> and the first \<open>Init\<close> of the permutation have set up: the
  blocks in use lie within the permuted bits, these within the raw capacity, and the counts of
  bytes in the 32 bits the file operations cast them to and \<open>Randomize\<close> counts with.
\<close>

definition cf_in_use :: "permutation \<Rightarrow> encoder \<Rightarrow> nat \<Rightarrow> carrier \<Rightarrow> bool" where
  "cf_in_use p e a c \<longleftrightarrow>
     cf_permutation c = Some p \<and> perm_ok p \<and> cf_encodes e c \<and> cf_storage c = Some a \<and> mb_ok (cf_buffer c) \<and>
     unat (mb_size (cf_buffer c)) < 2 ^ 32 \<and> 0 < unat (cf_blocks_used c) \<and>
     8 * (unat (cf_blocks_used c) * unat (cf_codeword_block_size c)) \<le> unat (Perm_GetSize p) \<and>
     unat (Perm_GetSize p) \<le> 8 * unat (cf_raw_capacity c) \<and> 8 * unat (cf_raw_capacity c) < 2 ^ 32 \<and>
     cf_fits c"

lemma MB_reset:
  assumes "mb_ok b"
  shows "mb_ok (MB_Clear (mb_resized n b)) \<and> mb_size (MB_Clear (mb_resized n b)) = n \<and>
         mb_bytes (MB_Clear (mb_resized n b)) = replicate (unat n) 0"
proof -
  let ?r = "mb_resized n b"
  have r: "mb_ok ?r" "mb_size ?r = n" using mb_resized_correct [OF assms] by simp_all
  show ?thesis
  proof (cases "n = 0")
    case True
    then show ?thesis using r by (auto simp: MB_Clear_def mb_ok_def mb_bytes_def split: option.splits)
  next
    case False
    then obtain bs where "mb_buffer ?r = Some bs" using mb_ok_size_pos [OF r(1)] r(2) by auto
    then show ?thesis using False r(2) by (simp add: MB_Clear_def mb_ok_def mb_bytes_def)
  qed
qed

lemma lbit_zero: "j < 8 * n \<Longrightarrow> \<not> lbit (replicate n 0) j"
  by (simp add: lbit_def less_mult_imp_div_less mult.commute)

text \<open>The carrier after \<open>Resize\<close> and \<open>Clear\<close>.\<close>

definition cf_reset :: "carrier \<Rightarrow> carrier" where
  "cf_reset c = c\<lparr>cf_buffer := MB_Clear (mb_resized (cf_raw_capacity c) (cf_buffer c))\<rparr>"

lemma cf_reset_buffer_run [run_simps]:
  assumes "mb_ok (cf_buffer c)" "unat (mb_size (cf_buffer c)) < 2 ^ 32"
  shows "cf_reset_buffer C (cf_raw_capacity c) (c, w) = ((cf_reset c, w), Inr ())"
  using MB_Resize_run [OF assms, of "e_garbage C" "cf_raw_capacity c"]
  by (auto simp: cf_reset_buffer_def cf_reset_def updateM_def)

lemma cf_reset_fields [simp]:
  "cf_class (cf_reset c) = cf_class c" "cf_permutation (cf_reset c) = cf_permutation c"
  "cf_encoder (cf_reset c) = cf_encoder c" "cf_storage (cf_reset c) = cf_storage c"
  "cf_blocks_used (cf_reset c) = cf_blocks_used c" "cf_data_block_size (cf_reset c) = cf_data_block_size c"
  "cf_codeword_block_size (cf_reset c) = cf_codeword_block_size c" "cf_raw_capacity (cf_reset c) = cf_raw_capacity c"
  "cf_offset (cf_reset c) = cf_offset c" "cf_file (cf_reset c) = cf_file c" "cf_file_loaded (cf_reset c) = cf_file_loaded c"
  "cf_width (cf_reset c) = cf_width c" "cf_height (cf_reset c) = cf_height c" "cf_subkey (cf_reset c) = cf_subkey c"
  by (simp_all add: cf_reset_def)

lemma cf_reset_correct:
  assumes "cf_in_use p e a c"
  shows "bits_ready p (cf_reset c)" "cf_encodes e (cf_reset c)" "cf_room (cf_reset c)" "cf_fits (cf_reset c)"
    "mb_size (cf_buffer (cf_reset c)) = cf_raw_capacity c"
    "\<forall>j < 8 * unat (mb_size (cf_buffer (cf_reset c))). \<not> cf_bit (cf_reset c) j"
proof -
  note u = assms [unfolded cf_in_use_def]
  have b: "mb_ok (cf_buffer (cf_reset c))" "mb_size (cf_buffer (cf_reset c)) = cf_raw_capacity c"
      "mb_bytes (cf_buffer (cf_reset c)) = replicate (unat (cf_raw_capacity c)) 0"
    using MB_reset [of "cf_buffer c"] u by (simp_all add: cf_reset_def)
  show "bits_ready p (cf_reset c)" using u b by (simp add: bits_ready_def)
  show "cf_encodes e (cf_reset c)" using u by (simp add: cf_encodes_def)
  show "cf_room (cf_reset c)" using u b cf_encodes_pos [of e c] by (simp add: cf_room_def)
  show "cf_fits (cf_reset c)" using u by (simp add: cf_fits_def)
  show "mb_size (cf_buffer (cf_reset c)) = cf_raw_capacity c" by (rule b)
  show "\<forall>j < 8 * unat (mb_size (cf_buffer (cf_reset c))). \<not> cf_bit (cf_reset c) j"
    using b lbit_zero by (simp add: cf_bit_def)
qed

lemma bit_index_less: "x < y \<Longrightarrow> k < 8 \<Longrightarrow> 8 * x + k < 8 * (y :: nat)"
  by linarith

lemma lbit_byte: "k < 8 \<Longrightarrow> lbit bs (8 * x + k) = bit (bs ! x) k"
  by (simp add: lbit_def)

text \<open>Buffers with the same bits have the same codeword blocks.\<close>

lemma byte_eq_bits: "(x :: u8) = y \<longleftrightarrow> (\<forall>k < 8. bit x k = bit y k)"
  by (auto simp: bit_eq_iff)

lemma cf_slice_bits:
  assumes "cf_room c" "cf_room c'" "cf_blocks_used c' = cf_blocks_used c" "cf_codeword_block_size c' = cf_codeword_block_size c"
      and "\<forall>j < 8 * (unat (cf_blocks_used c) * unat (cf_codeword_block_size c)). cf_bit c' j = cf_bit c j"
      and "b < unat (cf_blocks_used c)"
  shows "cf_slice c' b = cf_slice c b"
proof (rule nth_equalityI)
  let ?m = "unat (cf_codeword_block_size c)"
  show l: "length (cf_slice c' b) = length (cf_slice c b)"
    using cf_codeword_room(2) [OF assms(1,6)] cf_codeword_room(2) [OF assms(2)] assms(3,4,6) by simp
  fix i assume "i < length (cf_slice c' b)"
  then have i: "i < ?m" using l cf_codeword_room(2) [OF assms(1,6)] by simp
  have f: "b * ?m + i < unat (cf_blocks_used c) * ?m" using block_fits [OF assms(6), of ?m] i by linarith
  have lens: "unat (cf_blocks_used c) * ?m \<le> length (mb_bytes (cf_buffer c))" "unat (cf_blocks_used c) * ?m \<le> length (mb_bytes (cf_buffer c'))"
    using assms(1-4) length_mb_bytes by (auto simp: cf_room_def)
  have "bit (mb_bytes (cf_buffer c') ! (b * ?m + i)) k = bit (mb_bytes (cf_buffer c) ! (b * ?m + i)) k" if k: "k < 8" for k
  proof -
    have "8 * (b * ?m + i) + k < 8 * (unat (cf_blocks_used c) * ?m)" using f k by (rule bit_index_less)
    from assms(5) [rule_format, OF this] show ?thesis unfolding cf_bit_def lbit_byte [OF k] .
  qed
  then have "mb_bytes (cf_buffer c') ! (b * ?m + i) = mb_bytes (cf_buffer c) ! (b * ?m + i)" by (simp add: byte_eq_bits)
  then show "cf_slice c' b ! i = cf_slice c b ! i"
    using i f lens assms(4) by (simp add: cf_slice_def)
qed

lemma cf_decodes_bits:
  assumes "cf_decodes e c D" "cf_room c" "cf_room c'" "cf_blocks_used c' = cf_blocks_used c"
      and "cf_codeword_block_size c' = cf_codeword_block_size c" "cf_data_block_size c' = cf_data_block_size c"
      and "\<forall>j < 8 * (unat (cf_blocks_used c) * unat (cf_codeword_block_size c)). cf_bit c' j = cf_bit c j"
  shows "cf_decodes e c' D"
  using assms(1) cf_codeword_room(1) [OF assms(2)] cf_codeword_room(1) [OF assms(3)] cf_slice_bits [OF assms(2-5,7)]
  unfolding cf_decodes_def assms(4,6) by auto

lemma cf_same_room: "cf_room c \<Longrightarrow> cf_same c c' \<Longrightarrow> mb_ok (cf_buffer c') \<Longrightarrow> cf_room c'"
  using cf_same_fields [of c c'] by (simp add: cf_room_def)

lemma cf_same_encodes: "cf_encodes e c \<Longrightarrow> cf_same c c' \<Longrightarrow> cf_encodes e c'"
  using cf_same_fields [of c c'] by (simp add: cf_encodes_def)

lemma cf_same_fits: "cf_fits c \<Longrightarrow> cf_same c c' \<Longrightarrow> cf_fits c'"
  using cf_same_fields [of c c'] by (simp add: cf_fits_def)

section \<open>Saving and loading over a cover\<close>

text \<open>The two carriers agree in what fixes the layout of the blocks.\<close>

definition cf_layout :: "carrier \<Rightarrow> carrier \<Rightarrow> bool" where
  "cf_layout c c' \<longleftrightarrow> cf_blocks_used c' = cf_blocks_used c \<and> cf_codeword_block_size c' = cf_codeword_block_size c \<and>
                      cf_data_block_size c' = cf_data_block_size c \<and> cf_offset c' = cf_offset c"

context lsb_cover
begin

lemma save_run:
  assumes "cf_in_use p e a c" "st_ok a w" "n = Perm_GetSize p" "valid n m"
  shows "\<exists>c1 c2 m'. gather n m (cf_reset c, w) = ((c1, w), Inr ()) \<and>
           CF_EmbedBufferUsingEncoder C (c1, w) = ((c2, w), Inr 0) \<and> cf_same (cf_reset c) c2 \<and>
           scatter n c2 m = Inr m' \<and> valid n m' \<and> bits_ready p c2 \<and> cf_room c2 \<and> cf_decodes e c2 (cf_data a w c)"
proof -
  note u = assms(1) [unfolded cf_in_use_def] and r = cf_reset_correct [OF assms(1)]
  obtain c1 where c1: "gather n m (cf_reset c, w) = ((c1, w), Inr ())" "cf_same (cf_reset c) c1" "bits_ready p c1"
    using gather_run [OF r(1) assms(3,4) r(6)] by blast
  note f = cf_same_fields [OF c1(2)]
  have ok1: "mb_ok (cf_buffer c1)" using c1(3) by (simp add: bits_ready_def)
  have "cf_storage c1 = Some a" "0 < unat (cf_blocks_used c1)" using f u by simp_all
  then obtain c2 where c2: "CF_EmbedBufferUsingEncoder C (c1, w) = ((c2, w), Inr 0)" "cf_same c1 c2" "cf_room c2"
      "cf_decodes e c2 (cf_data a w c1)"
    using CF_Embed_correct [OF _ assms(2) cf_same_encodes [OF r(2) c1(2)] cf_same_room [OF r(3) c1(2) ok1]] by blast
  have s: "cf_same (cf_reset c) c2" using cf_same_trans [OF c1(2) c2(2)] .
  have "bits_ready p c2" using cf_same_bits_ready [OF c1(3) c2(2)] c2(3) by (simp add: cf_room_def)
  moreover obtain m' where "scatter n c2 m = Inr m'" "valid n m'" using scatter_run [OF calculation assms(3,4)] by blast
  moreover have "cf_data a w c1 = cf_data a w c" using f by (auto simp: cf_data_def cf_position_def fun_eq_iff)
  ultimately show ?thesis using c1(1) c2 s by auto
qed

lemma load_run:
  assumes "scatter n c2 m = Inr m'" "n = Perm_GetSize p" "valid n m" "bits_ready p c2" "cf_room c2" "cf_decodes e c2 D"
      and "8 * (unat (cf_blocks_used c2) * unat (cf_codeword_block_size c2)) \<le> unat n"
      and "cf_in_use p e a0 c0" "cf_layout c2 c0" "st_ok a0 w0"
  defines "o0 \<equiv> unat (cf_offset c0)" and "k \<equiv> unat (cf_data_block_size c0)"
  shows "\<exists>c3 w3. gather n m' (cf_reset c0, w0) = ((c3, w0), Inr ()) \<and>
           CF_ExtractBufferUsingEncoder C (c3, w0) = ((c3, w3), Inr 0) \<and> cf_same (cf_reset c0) c3 \<and>
           st_ok a0 w3 \<and> st_same a0 w0 w3 \<and>
           (\<forall>q. st_byte a0 w3 q = (if o0 \<le> unat q \<and> unat q < o0 + unat (cf_blocks_used c0) * k \<and> unat q < st_capacity a0 w0
                                      then D ((unat q - o0) div k) ! ((unat q - o0) mod k) else st_byte a0 w0 q))"
proof -
  note u = assms(8) [unfolded cf_in_use_def] and r = cf_reset_correct [OF assms(8)]
  obtain c3 where c3: "gather n m' (cf_reset c0, w0) = ((c3, w0), Inr ())" "cf_same (cf_reset c0) c3" "bits_ready p c3"
      "\<forall>j < unat n. cf_bit c3 j = cf_bit c2 j"
    using gather_scatter [OF assms(4,2,3,1) r(1,6)] by blast
  note f = cf_same_fields [OF c3(2)]
  have ok3: "mb_ok (cf_buffer c3)" using c3(3) by (simp add: bits_ready_def)
  have room: "cf_room c3" by (rule cf_same_room [OF r(3) c3(2) ok3])
  have dec: "cf_decodes e c3 D"
    by (rule cf_decodes_bits [OF assms(6,5) room]) (use f assms(7,9) c3(4) in \<open>auto simp: cf_layout_def\<close>)
  have st: "cf_storage c3 = Some a0" "0 < unat (cf_blocks_used c3)" using f u by simp_all
  have o: "unat (cf_offset c3) = o0" "unat (cf_data_block_size c3) = k" "cf_blocks_used c3 = cf_blocks_used c0"
    using f by (simp_all add: o0_def k_def)
  have "\<exists>w'. CF_ExtractBufferUsingEncoder C (c3, w0) = ((c3, w'), Inr 0) \<and> st_ok a0 w' \<and> st_same a0 w0 w' \<and>
              (\<forall>q. st_byte a0 w' q = (if o0 \<le> unat q \<and> unat q < o0 + unat (cf_blocks_used c0) * k \<and> unat q < st_capacity a0 w0
                                      then D ((unat q - o0) div k) ! ((unat q - o0) mod k) else st_byte a0 w0 q))"
    using CF_Extract_correct [OF st(1) assms(10) cf_same_encodes [OF r(2) c3(2)] room st(2) cf_same_fits [OF r(4) c3(2)] dec, of C]
    by (simp only: o)
  with c3(1,2) show ?thesis by blast
qed

end

section \<open>The three classes\<close>

text \<open>The permutation that \<open>Init\<close> finds or makes when the carrier is loaded or saved.\<close>

definition cf_perm_after :: "cenv \<Rightarrow> carrier \<Rightarrow> permutation \<Rightarrow> bool" where
  "cf_perm_after C c p \<longleftrightarrow>
     (\<exists>q. cf_permutation c = Some q \<and>
        (if Perm_GetSize q \<noteq> 0 then p = q
         else \<exists>k. cf_subkey c = Some k \<and> Perm_Init (env_of C) (cf_raw_capacity c * 8) k q = (p, Inr ())))"

lemma cf_init_permutation_run:
  "cf_perm_after C c p \<Longrightarrow>
     cf_init_permutation C (cf_raw_capacity c * 8) (c, w) = ((c\<lparr>cf_permutation := Some p\<rparr>, w), Inr ())"
  by (auto simp: cf_perm_after_def cf_init_permutation_def cf_perm_def cf_key_def split: if_splits)

lemma cf_perm_after_self:
  "cf_in_use p e a c \<Longrightarrow> cf_perm_after C c p \<and> c\<lparr>cf_permutation := Some p\<rparr> = c"
proof -
  assume u: "cf_in_use p e a c"
  then have "0 < unat (cf_codeword_block_size c)" using cf_encodes_pos [of e c] by (simp add: cf_in_use_def)
  with u have "Perm_GetSize p \<noteq> 0" by (auto simp: cf_in_use_def)
  with u show ?thesis by (simp add: cf_perm_after_def cf_in_use_def)
qed

lemma cf_perm_after_reset [simp]: "cf_perm_after C (cf_reset c) p = cf_perm_after C c p"
  by (simp add: cf_perm_after_def)

lemma cf_reset_permutation: "(cf_reset c)\<lparr>cf_permutation := Some p\<rparr> = cf_reset (c\<lparr>cf_permutation := Some p\<rparr>)"
  by (simp add: cf_reset_def)

lemma cf_bits_to_modify_run:
  "cf_permutation (fst s) = Some p \<Longrightarrow> cf_bits_to_modify s = (s, Inr (Perm_GetSize p))"
  by (simp add: cf_bits_to_modify_def cf_perm_def run_simps)

text \<open>A loaded carrier with the contents of the storage at its positions.\<close>

definition reloads :: "cenv \<Rightarrow> permutation \<Rightarrow> encoder \<Rightarrow> nat \<Rightarrow> carrier \<Rightarrow> world \<Rightarrow> bytes \<Rightarrow> bool" where
  "reloads C p e a c w content \<longleftrightarrow>
     (\<forall>c0 w0 a0. \<not> cf_file_loaded c0 \<and> cf_class c0 = cf_class c \<and> cf_raw_capacity c0 = cf_raw_capacity c \<and>
        cf_perm_after C c0 p \<and> cf_in_use p e a0 (c0\<lparr>cf_permutation := Some p\<rparr>) \<and> cf_layout c c0 \<and>
        st_ok a0 w0 \<and> Open (w_files w0) (cf_file c0) = Inr content \<longrightarrow>
        (\<exists>c3 w3. LoadFile C (c0, w0) = ((c3, w3), Inr ()) \<and> cf_file_loaded c3 \<and> st_ok a0 w3 \<and> st_same a0 w0 w3 \<and>
           (\<forall>q. st_byte a0 w3 q =
              (if unat (cf_offset c) \<le> unat q \<and>
                  unat q < unat (cf_offset c) + unat (cf_blocks_used c) * unat (cf_data_block_size c) \<and> unat q < st_capacity a0 w0
               then st_byte a w q else st_byte a0 w0 q))))"

lemma cast32: "unat n < 2 ^ 32 \<Longrightarrow> ucast (ucast (n :: u64) :: u32) = n"
proof -
  assume "unat n < 2 ^ 32"
  then have "unat (ucast n :: u32) = unat n" by (simp add: unsigned_ucast_eq take_bit_nat_eq_self)
  then show ?thesis by (simp only: word_eq_unat unat_ucast_u32_u64)
qed

lemma cast32_nat: "m < 2 ^ 32 \<Longrightarrow> unat (ucast (word_of_nat m :: u32) :: u64) = m"
  by (simp only: unat_ucast_u32_u64) (simp add: unat_of_nat_u32)

lemma MB_sized_Some:
  "n \<noteq> 0 \<Longrightarrow> mb_buffer (MB_new_sized g n) = Some (map g [0..<unat n])"
  by (simp add: MB_new_sized_def MB_Init_eq)

lemma bmp_read_correct:
  assumes "cf_class c = BMP off sz" "8 * unat (cf_raw_capacity c) < 2 ^ 32" "0 < unat (cf_raw_capacity c)"
      and "unat off + 8 * unat (cf_raw_capacity c) \<le> length content"
  shows "bmp_read C c content =
           Inr \<lparr>mb_buffer = Some (take (8 * unat (cf_raw_capacity c)) (drop (unat off) content)), mb_size = cf_raw_capacity c * 8\<rparr>"
proof -
  let ?n = "cf_raw_capacity c * 8" and ?got = "take (8 * unat (cf_raw_capacity c)) (drop (unat off) content)"
  have n: "unat ?n = 8 * unat (cf_raw_capacity c)" using assms(2) by (simp add: unat_simps)
  have l: "length ?got = unat ?n" using assms(4) n by simp
  have g: "fread content (unat off) (unat ?n) = ?got" by (simp add: fread_def n)
  have "unat (ucast (word_of_nat (length ?got) :: u32) :: u64) = unat ?n"
    using l n assms(2) cast32_nat [of "length ?got"] by (simp del: of_nat_mult)
  then have c: "ucast (word_of_nat (length ?got) :: u32) = ?n" by (simp only: word_eq_unat)
  have n0: "?n \<noteq> 0" using n assms(3) by (metis mult_is_0 neq0_conv unat_0 zero_neq_numeral)
  have "copy_at 0 ?got (map (e_garbage C) [0..<unat ?n]) = ?got" using l by (simp add: copy_at_def)
  then show ?thesis unfolding bmp_read_def Let_def bmp_offset_def assms(1) carrier_class.case g
    using c n0 by (simp add: MB_sized_Some MB_new_sized_def MB_Init_eq)
qed

lemma fwrite_inside:
  "off + length d \<le> length content \<Longrightarrow> fwrite content off d = copy_at off d content"
  by (auto simp: fwrite_def copy_at_def)

lemma LoadFile_class:
  "cf_class (fst s) = BMP off sz \<Longrightarrow> LoadFile C s = BMP_LoadFile C s"
  "cf_class (fst s) = PNG \<Longrightarrow> LoadFile C s = PNG_LoadFile C s"
  "cf_class (fst s) = JPEG \<Longrightarrow> LoadFile C s = JPEG_LoadFile C s"
  by (simp_all add: LoadFile_def)

lemma SaveFile_class:
  "cf_class (fst s) = BMP off sz \<Longrightarrow> SaveFile C s = BMP_SaveFile C s"
  "cf_class (fst s) = PNG \<Longrightarrow> SaveFile C s = PNG_SaveFile C s"
  "cf_class (fst s) = JPEG \<Longrightarrow> SaveFile C s = JPEG_SaveFile C s"
  by (simp_all add: SaveFile_def)

lemma in_use_facts:
  assumes "cf_in_use p e a c"
  shows "cf_permutation c = Some p" "0 < unat (cf_raw_capacity c)" "8 * unat (cf_raw_capacity c) < 2 ^ 32"
    "unat (Perm_GetSize p) \<le> 8 * unat (cf_raw_capacity c)" "0 < unat (Perm_GetSize p)"
    "8 * (unat (cf_blocks_used c) * unat (cf_codeword_block_size c)) \<le> unat (Perm_GetSize p)" "cf_fits c"
    "mb_ok (cf_buffer c)" "unat (mb_size (cf_buffer c)) < 2 ^ 32"
proof -
  note u = assms [unfolded cf_in_use_def]
  show "cf_permutation c = Some p" "8 * unat (cf_raw_capacity c) < 2 ^ 32"
    "unat (Perm_GetSize p) \<le> 8 * unat (cf_raw_capacity c)"
    "8 * (unat (cf_blocks_used c) * unat (cf_codeword_block_size c)) \<le> unat (Perm_GetSize p)" "cf_fits c"
    "mb_ok (cf_buffer c)" "unat (mb_size (cf_buffer c)) < 2 ^ 32"
    using u by simp_all
  have "0 < unat (cf_blocks_used c) * unat (cf_codeword_block_size c)" using u cf_encodes_pos [of e c] by simp
  then show "0 < unat (Perm_GetSize p)" using u by linarith
  then show "0 < unat (cf_raw_capacity c)" using u by linarith
qed

lemma in_use_reset:
  "cf_in_use p e a c \<Longrightarrow> cf_reset_buffer C (cf_raw_capacity c) (c, w) = ((cf_reset c, w), Inr ())"
  "cf_in_use p e a (c\<lparr>cf_permutation := Some p\<rparr>) \<Longrightarrow> cf_reset_buffer C (cf_raw_capacity c) (c, w) = ((cf_reset c, w), Inr ())"
  by (simp_all add: cf_in_use_def cf_reset_buffer_run)

lemma layout_facts: "cf_layout c c0 \<Longrightarrow> cf_same (cf_reset c) c2 \<Longrightarrow> cf_layout c2 (c0\<lparr>cf_permutation := Some p\<rparr>)"
  using cf_same_fields [of "cf_reset c" c2] by (simp add: cf_layout_def)

lemma BMP_roundtrip:
  assumes "cf_class c = BMP off sz" "cf_in_use p e a c" "cf_file_loaded c" "st_ok a w"
      and "Open (w_files w) (cf_file c) = Inr content" "unat off + 8 * unat (cf_raw_capacity c) \<le> length content"
  shows "\<exists>c2 content'. SaveFile C (c, w) = ((c2, w\<lparr>w_files := set_content (cf_file c) content' (w_files w)\<rparr>), Inr ()) \<and>
           cf_same (cf_reset c) c2 \<and> reloads C p e a c w content' \<and> length content' = length content \<and>
           (\<forall>i < length content. \<forall>k < 8. 0 < k \<or> i < unat off \<or> unat off + unat (Perm_GetSize p) \<le> i \<longrightarrow>
              bit (content' ! i) k = bit (content ! i) k)"
proof -
  note u = in_use_facts [OF assms(2)]
  let ?n = "Perm_GetSize p" and ?L = "8 * unat (cf_raw_capacity c)"
  let ?m = "\<lparr>mb_buffer = Some (take ?L (drop (unat off) content)), mb_size = cf_raw_capacity c * 8\<rparr>"
  have r8: "unat (cf_raw_capacity c * 8) = ?L" using u(3) by (simp add: unat_simps)
  have rd: "bmp_read C c content = Inr ?m" using bmp_read_correct [OF assms(1) u(3,2) assms(6)] .
  have valid: "mb_ok ?m \<and> unat ?n \<le> unat (mb_size ?m) \<and> mb_size ?m = cf_raw_capacity c * 8"
    using assms(6) u(4) r8 by (simp add: mb_ok_def)
  obtain c1 c2 m' where s: "cf_gather (\<lambda>i. MB_index ?m (word_of_nat i)) (unat ?n) (cf_reset c, w) = ((c1, w), Inr ())"
      "CF_EmbedBufferUsingEncoder C (c1, w) = ((c2, w), Inr 0)" "cf_same (cf_reset c) c2"
      "mb_scatter c2 (unat ?n) ?m = Inr m'" "mb_ok m' \<and> unat ?n \<le> unat (mb_size m') \<and> mb_size m' = cf_raw_capacity c * 8"
      "bits_ready p c2" "cf_room c2" "cf_decodes e c2 (cf_data a w c)"
    using bmp.save_run [OF assms(2,4) refl valid, of C] by blast
  let ?d = "mb_bytes m'"
  let ?content = "fwrite content (unat off) ?d"
  have d: "length ?d = ?L" using s(5) length_mb_bytes [of m'] r8 by simp
  have "mb_size m' \<noteq> 0" using s(5) u(5) by auto
  then have m': "m' = \<lparr>mb_buffer = Some ?d, mb_size = cf_raw_capacity c * 8\<rparr>"
    using mb_ok_size_pos [of m'] s(5) by (cases m') simp
  have cast: "ucast (ucast (cf_raw_capacity c * 8) :: u32) = cf_raw_capacity c * 8"
    using u(3) r8 cast32 by simp
  have pa: "cf_perm_after C c p" "(cf_reset c)\<lparr>cf_permutation := Some p\<rparr> = cf_reset c"
    using cf_perm_after_self [OF assms(2), of C] cf_reset_permutation [where c = c and p = p] by simp_all
  have ini: "cf_init_permutation C (cf_raw_capacity c * 8) (cf_reset c, w) = ((cf_reset c, w), Inr ())"
    using cf_init_permutation_run [of C "cf_reset c" p w] pa by simp
  note f = cf_same_fields [OF s(3)]
  have "SaveFile C (c, w) = ((c2, w\<lparr>w_files := set_content (cf_file c) ?content (w_files w)\<rparr>), Inr ())"
    unfolding SaveFile_class(1) [of "(c, w)", simplified, OF assms(1)] BMP_SaveFile_def cf_open_def cf_put_file_def
    using assms(1,3,5) rd in_use_reset(1) [OF assms(2)] ini cf_bits_to_modify_run [of "(cf_reset c, w)" p] u(1) s(1,2,4) cast f
    by (simp add: run_simps bmp_offset_def)
  moreover have "reloads C p e a c w ?content"
    unfolding reloads_def
  proof (intro allI impI, elim conjE)
    fix c0 w0 a0
    assume l: "\<not> cf_file_loaded c0" "cf_class c0 = cf_class c" "cf_raw_capacity c0 = cf_raw_capacity c"
      "cf_perm_after C c0 p" "cf_in_use p e a0 (c0\<lparr>cf_permutation := Some p\<rparr>)" "cf_layout c c0" "st_ok a0 w0"
      "Open (w_files w0) (cf_file c0) = Inr ?content"
    let ?c0 = "c0\<lparr>cf_permutation := Some p\<rparr>"
    have b: "8 * (unat (cf_blocks_used c2) * unat (cf_codeword_block_size c2)) \<le> unat ?n" using u(6) f by simp
    obtain c3 w3 where g: "cf_gather (\<lambda>i. MB_index m' (word_of_nat i)) (unat ?n) (cf_reset ?c0, w0) = ((c3, w0), Inr ())"
        "CF_ExtractBufferUsingEncoder C (c3, w0) = ((c3, w3), Inr 0)" "cf_same (cf_reset ?c0) c3" "st_ok a0 w3" "st_same a0 w0 w3"
        "\<And>q. st_byte a0 w3 q = (if unat (cf_offset ?c0) \<le> unat q \<and>
              unat q < unat (cf_offset ?c0) + unat (cf_blocks_used ?c0) * unat (cf_data_block_size ?c0) \<and> unat q < st_capacity a0 w0
            then cf_data a w c ((unat q - unat (cf_offset ?c0)) div unat (cf_data_block_size ?c0)) ! ((unat q - unat (cf_offset ?c0)) mod unat (cf_data_block_size ?c0))
            else st_byte a0 w0 q)"
      using bmp.load_run [OF s(4) refl valid s(6,7,8) b l(5) layout_facts [OF l(6) s(3)] l(7), of C] by blast
    have "unat off + length ?d \<le> length content" using assms(6) d by simp
    then have "length ?content = length content" "take ?L (drop (unat off) ?content) = ?d"
      using take_drop_copy_at [of "unat off" ?d content] d by (simp_all add: fwrite_inside)
    then have rd0: "bmp_read C c0 ?content = Inr m'"
      using bmp_read_correct [of c0 off sz ?content C] l(2,3) assms(1,6) u(2,3) m' by simp
    have ini0: "cf_init_permutation C (cf_raw_capacity c0 * 8) (cf_reset c0, w0) = ((cf_reset ?c0, w0), Inr ())"
      using cf_init_permutation_run [of C "cf_reset c0" p w0] l(4) cf_reset_permutation [where c = c0 and p = p] by simp
    have "LoadFile C (c0, w0) = ((c3\<lparr>cf_file_loaded := True\<rparr>, w3), Inr ())"
      unfolding LoadFile_class(1) [of "(c0, w0)", simplified, OF l(2) [unfolded assms(1)]] BMP_LoadFile_def cf_open_def
      using l(1,8) rd0 in_use_reset(2) [OF l(5)] ini0 cf_bits_to_modify_run [of "(cf_reset ?c0, w0)" p] g(1,2) by (simp add: run_simps)
    moreover have "st_byte a0 w3 q = (if unat (cf_offset c) \<le> unat q \<and>
          unat q < unat (cf_offset c) + unat (cf_blocks_used c) * unat (cf_data_block_size c) \<and> unat q < st_capacity a0 w0
          then st_byte a w q else st_byte a0 w0 q)" for q
      using cf_data_nth [OF u(7) refl refl, of q a w] l(6) unfolding g(6) by (auto simp: cf_layout_def)
    ultimately show "\<exists>c3 w3. LoadFile C (c0, w0) = ((c3, w3), Inr ()) \<and> cf_file_loaded c3 \<and> st_ok a0 w3 \<and> st_same a0 w0 w3 \<and>
           (\<forall>q. st_byte a0 w3 q =
              (if unat (cf_offset c) \<le> unat q \<and>
                  unat q < unat (cf_offset c) + unat (cf_blocks_used c) * unat (cf_data_block_size c) \<and> unat q < st_capacity a0 w0
               then st_byte a w q else st_byte a0 w0 q))"
      using g(4,5) by fastforce
  qed
  moreover have "length ?content = length content" using assms(6) d by (simp add: fwrite_inside)
  moreover have "bit (?content ! i) k = bit (content ! i) k"
    if i: "i < length content" "k < 8" "0 < k \<or> i < unat off \<or> unat off + unat ?n \<le> i" for i k
  proof -
    have md: "?d = map (\<lambda>i. with_lsb (mb_bytes ?m ! i) (cf_bit c2 (perm.pos p i))) [0..<unat ?n] @ drop (unat ?n) (mb_bytes ?m)"
      using mb_scatter_correct [OF s(6), of ?m "unat ?n"] valid s(4) by auto
    have mb: "mb_bytes ?m ! j = content ! (unat off + j)" if "j < ?L" for j
      using that assms(6) by (simp add: mb_bytes_def)
    have o: "unat off + length ?d \<le> length content" using assms(6) d by simp
    show ?thesis
    proof (cases "unat off \<le> i \<and> i < unat off + length ?d")
      case True
      define j where "j = i - unat off"
      have j: "i = unat off + j" "j < ?L" using True d by (auto simp: j_def)
      have "bit (?d ! j) k = bit (mb_bytes ?m ! j) k"
      proof (cases "j < unat ?n")
        case True
        then have "?d ! j = with_lsb (mb_bytes ?m ! j) (cf_bit c2 (perm.pos p j))" by (subst md) (simp add: nth_append)
        then show ?thesis using i(2,3) j(1) True by (simp add: bit_with_lsb)
      next
        case False
        have "unat ?n \<le> length (mb_bytes ?m)" using valid length_mb_bytes [of ?m] by simp
        moreover have "j < length (mb_bytes ?m)" using j(2) valid length_mb_bytes [of ?m] r8 by simp
        ultimately have "?d ! j = mb_bytes ?m ! j" using False by (subst md) (simp add: nth_append)
        then show ?thesis by simp
      qed
      then show ?thesis using mb [OF j(2)] True o j(1) i(1) by (simp add: fwrite_inside nth_copy_at)
    next
      case False
      then show ?thesis using o i(1) by (auto simp: fwrite_inside nth_copy_at)
    qed
  qed
  ultimately show ?thesis using s(3) by blast
qed

text \<open>Reading a range that decodes to the data a carrier held gives the storage it was saved from.\<close>

lemma reload_bytes:
  assumes "cf_fits c" "cf_layout c c0"
  shows "(if unat (cf_offset (c0\<lparr>cf_permutation := Some p\<rparr>)) \<le> unat q \<and>
              unat q < unat (cf_offset (c0\<lparr>cf_permutation := Some p\<rparr>)) +
                unat (cf_blocks_used (c0\<lparr>cf_permutation := Some p\<rparr>)) * unat (cf_data_block_size (c0\<lparr>cf_permutation := Some p\<rparr>)) \<and> unat q < m
          then cf_data a w c ((unat q - unat (cf_offset (c0\<lparr>cf_permutation := Some p\<rparr>))) div unat (cf_data_block_size (c0\<lparr>cf_permutation := Some p\<rparr>))) !
                 ((unat q - unat (cf_offset (c0\<lparr>cf_permutation := Some p\<rparr>))) mod unat (cf_data_block_size (c0\<lparr>cf_permutation := Some p\<rparr>)))
          else x) =
         (if unat (cf_offset c) \<le> unat q \<and>
             unat q < unat (cf_offset c) + unat (cf_blocks_used c) * unat (cf_data_block_size c) \<and> unat q < m
          then st_byte a w q else x)"
  using cf_data_nth [OF assms(1) refl refl, of q a w] assms(2) by (auto simp: cf_layout_def)

lemma png_read_correct:
  "length content < 2 ^ 32 \<Longrightarrow> c_png_decode C content = Some img \<Longrightarrow> png_read C c content = Inr img"
proof -
  assume l: "length content < 2 ^ 32" "c_png_decode C content = Some img"
  have "unat (word_of_nat (length content) :: u64) = length content" using l(1) by (simp add: unat_of_nat_u64)
  then have "\<not> ucast (word_of_nat (length content) :: u32) < (word_of_nat (length content) :: u64)"
    using cast32_nat [OF l(1)] by (simp only: word_less_nat_alt)
  with l(2) show ?thesis by (simp add: png_read_def)
qed

text \<open>
  The documented behaviour of \<^verbatim>\<open>lodepng\<close>: pixels of the same number encode to a file that decodes to
  them, also when a longer old file leaves bytes behind its end.
\<close>

definition png_lossless :: "cenv \<Rightarrow> carrier \<Rightarrow> bytes \<Rightarrow> nat \<Rightarrow> bool" where
  "png_lossless C c content n \<longleftrightarrow>
     (\<forall>img. length img = n \<longrightarrow>
        (\<exists>out. c_png_encode C content img (cf_width c) (cf_height c) = Some out \<and> length out < 2 ^ 32 \<and>
               length (fwrite content 0 out) < 2 ^ 32 \<and> c_png_decode C (fwrite content 0 out) = Some img))"

text \<open>Two images that differ at most in the lowest bits of the first \<open>n\<close> bytes.\<close>

definition pixels_same :: "nat \<Rightarrow> bytes \<Rightarrow> bytes \<Rightarrow> bool" where
  "pixels_same n img img' \<longleftrightarrow>
     length img' = length img \<and> (\<forall>i < length img. \<forall>k < 8. 0 < k \<or> n \<le> i \<longrightarrow> bit (img' ! i) k = bit (img ! i) k)"

lemma PNG_roundtrip:
  assumes "cf_class c = PNG" "cf_in_use p e a c" "cf_file_loaded c" "st_ok a w"
      and "Open (w_files w) (cf_file c) = Inr content" "length content < 2 ^ 32"
      and "c_png_decode C content = Some img" "unat (Perm_GetSize p) \<le> length img" "png_lossless C c content (length img)"
  shows "\<exists>c2 content'. SaveFile C (c, w) = ((c2, w\<lparr>w_files := set_content (cf_file c) content' (w_files w)\<rparr>), Inr ()) \<and>
           cf_same (cf_reset c) c2 \<and> reloads C p e a c w content' \<and>
           (\<exists>img'. c_png_decode C content' = Some img' \<and> pixels_same (unat (Perm_GetSize p)) img img')"
proof -
  note u = in_use_facts [OF assms(2)]
  let ?n = "Perm_GetSize p"
  have rd: "png_read C c content = Inr img" by (rule png_read_correct [OF assms(6,7)])
  have valid: "unat ?n \<le> length img \<and> length img = length img" using assms(8) by simp
  obtain c1 c2 img' where s: "cf_gather (image_at img) (unat ?n) (cf_reset c, w) = ((c1, w), Inr ())"
      "CF_EmbedBufferUsingEncoder C (c1, w) = ((c2, w), Inr 0)" "cf_same (cf_reset c) c2"
      "image_scatter c2 (unat ?n) img = Inr img'" "unat ?n \<le> length img' \<and> length img' = length img"
      "bits_ready p c2" "cf_room c2" "cf_decodes e c2 (cf_data a w c)"
    using png.save_run [OF assms(2,4) refl valid, of C] by blast
  note f = cf_same_fields [OF s(3)]
  obtain out where out: "c_png_encode C content img' (cf_width c) (cf_height c) = Some out" "length out < 2 ^ 32"
      "length (fwrite content 0 out) < 2 ^ 32" "c_png_decode C (fwrite content 0 out) = Some img'"
    using assms(9) s(5) unfolding png_lossless_def by blast
  let ?content = "fwrite content 0 out"
  have "unat (word_of_nat (length out) :: u64) = length out" using out(2) by (simp add: unat_of_nat_u64)
  then have cast: "ucast (word_of_nat (length out) :: u32) = (word_of_nat (length out) :: u64)"
    using cast32_nat [OF out(2)] by (simp only: word_eq_unat)
  have ini: "cf_init_permutation C (cf_raw_capacity c * 8) (c, w) = ((c, w), Inr ())"
    using cf_init_permutation_run [of C c p w] cf_perm_after_self [OF assms(2), of C] by simp
  have "SaveFile C (c, w) = ((c2, w\<lparr>w_files := set_content (cf_file c) ?content (w_files w)\<rparr>), Inr ())"
    unfolding SaveFile_class(2) [of "(c, w)", simplified, OF assms(1)] PNG_SaveFile_def cf_open_def cf_put_file_def
    using assms(3,5) rd in_use_reset(1) [OF assms(2)] ini cf_bits_to_modify_run [of "(cf_reset c, w)" p] u(1) s(1,2,4) cast f out(1)
    by (simp add: run_simps)
  moreover have "reloads C p e a c w ?content"
    unfolding reloads_def
  proof (intro allI impI, elim conjE)
    fix c0 w0 a0
    assume l: "\<not> cf_file_loaded c0" "cf_class c0 = cf_class c" "cf_raw_capacity c0 = cf_raw_capacity c"
      "cf_perm_after C c0 p" "cf_in_use p e a0 (c0\<lparr>cf_permutation := Some p\<rparr>)" "cf_layout c c0" "st_ok a0 w0"
      "Open (w_files w0) (cf_file c0) = Inr ?content"
    let ?c0 = "c0\<lparr>cf_permutation := Some p\<rparr>"
    have b: "8 * (unat (cf_blocks_used c2) * unat (cf_codeword_block_size c2)) \<le> unat ?n" using u(6) f by simp
    obtain c3 w3 where g: "cf_gather (image_at img') (unat ?n) (cf_reset ?c0, w0) = ((c3, w0), Inr ())"
        "CF_ExtractBufferUsingEncoder C (c3, w0) = ((c3, w3), Inr 0)" "cf_same (cf_reset ?c0) c3" "st_ok a0 w3" "st_same a0 w0 w3"
        "\<And>q. st_byte a0 w3 q = (if unat (cf_offset ?c0) \<le> unat q \<and>
              unat q < unat (cf_offset ?c0) + unat (cf_blocks_used ?c0) * unat (cf_data_block_size ?c0) \<and> unat q < st_capacity a0 w0
            then cf_data a w c ((unat q - unat (cf_offset ?c0)) div unat (cf_data_block_size ?c0)) ! ((unat q - unat (cf_offset ?c0)) mod unat (cf_data_block_size ?c0))
            else st_byte a0 w0 q)"
      using png.load_run [OF s(4) refl valid s(6,7,8) b l(5) layout_facts [OF l(6) s(3)] l(7), of C] by blast
    have rd0: "png_read C c0 ?content = Inr img'" by (rule png_read_correct [OF out(3,4)])
    have ini0: "cf_init_permutation C (cf_raw_capacity c0 * 8) (c0, w0) = ((?c0, w0), Inr ())"
      by (rule cf_init_permutation_run [OF l(4)])
    have rs: "cf_reset_buffer C (cf_raw_capacity c0) (?c0, w0) = ((cf_reset ?c0, w0), Inr ())"
      using in_use_reset(1) [OF l(5)] by simp
    have "LoadFile C (c0, w0) = ((c3\<lparr>cf_file_loaded := True\<rparr>, w3), Inr ())"
      unfolding LoadFile_class(2) [of "(c0, w0)", simplified, OF l(2) [unfolded assms(1)]] PNG_LoadFile_def cf_open_def
      using l(1,8) rd0 ini0 rs cf_bits_to_modify_run [of "(cf_reset ?c0, w0)" p] g(1,2) by (simp add: run_simps)
    then show "\<exists>c3 w3. LoadFile C (c0, w0) = ((c3, w3), Inr ()) \<and> cf_file_loaded c3 \<and> st_ok a0 w3 \<and> st_same a0 w0 w3 \<and>
           (\<forall>q. st_byte a0 w3 q =
              (if unat (cf_offset c) \<le> unat q \<and>
                  unat q < unat (cf_offset c) + unat (cf_blocks_used c) * unat (cf_data_block_size c) \<and> unat q < st_capacity a0 w0
               then st_byte a w q else st_byte a0 w0 q))"
      using g(4,5,6) [unfolded reload_bytes [OF u(7) l(6)]] by fastforce
  qed
  moreover have "pixels_same (unat ?n) img img'"
    using image_scatter_correct [OF s(6), of "unat ?n" img] s(4) assms(8)
    by (auto simp: pixels_same_def nth_append bit_with_lsb)
  ultimately show ?thesis using s(3) out(4) by blast
qed

text \<open>
  The documented behaviour of \<^verbatim>\<open>libjpeg\<close>: coefficients that differ from those of the file at
  most in the lowest bits of the usable ones are read back from the file they are written to, also
  when a longer old file leaves bytes behind its end.
\<close>

definition jpeg_lossless :: "cenv \<Rightarrow> bytes \<Rightarrow> coefs list \<Rightarrow> bool" where
  "jpeg_lossless C content bs \<longleftrightarrow>
     (\<forall>bs'. coefs_high bs' = coefs_high bs \<longrightarrow> c_jpeg_read C (fwrite content 0 (c_jpeg_write C content bs')) = Some bs')"

text \<open>
  Two arrays of coefficients that differ at most in the lowest bits of the first \<open>n\<close> usable ones: what else
  a coefficient holds, and every usable coefficient behind these, is the same.
\<close>

definition coeffs_same :: "nat \<Rightarrow> coefs list \<Rightarrow> coefs list \<Rightarrow> bool" where
  "coeffs_same n bs bs' \<longleftrightarrow>
     coefs_high bs' = coefs_high bs \<and> drop n (usable_coeffs bs') = drop n (usable_coeffs bs)"

lemma JPEG_roundtrip:
  assumes "cf_class c = JPEG" "cf_in_use p e a c" "cf_file_loaded c" "st_ok a w"
      and "Open (w_files w) (cf_file c) = Inr content"
      and "c_jpeg_read C content = Some bs" "unat (Perm_GetSize p) \<le> length (usable_coeffs bs)" "jpeg_lossless C content bs"
  shows "\<exists>c2 content'. SaveFile C (c, w) = ((c2, w\<lparr>w_files := set_content (cf_file c) content' (w_files w)\<rparr>), Inr ()) \<and>
           cf_same (cf_reset c) c2 \<and> reloads C p e a c w content' \<and>
           (\<exists>bs'. c_jpeg_read C content' = Some bs' \<and> coeffs_same (unat (Perm_GetSize p)) bs bs')"
proof -
  note u = in_use_facts [OF assms(2)]
  let ?n = "Perm_GetSize p"
  have n32: "unat ?n < 2 ^ 32" using u(3,4) by simp
  have valid: "0 < unat ?n \<and> unat ?n < 2 ^ 32 \<and> unat ?n \<le> length (usable_coeffs bs) \<and> coefs_high bs = coefs_high bs"
    using u(5) n32 assms(7) by simp
  obtain c1 c2 bs' where s: "jpeg_gather ?n (ac_coeffs bs) 0 (cf_reset c, w) = ((c1, w), Inr ())"
      "CF_EmbedBufferUsingEncoder C (c1, w) = ((c2, w), Inr 0)" "cf_same (cf_reset c) c2"
      "jpeg_scatter c2 (ucast ?n) bs (0, True) = Inr bs'"
      "0 < unat ?n \<and> unat ?n < 2 ^ 32 \<and> unat ?n \<le> length (usable_coeffs bs') \<and> coefs_high bs' = coefs_high bs"
      "bits_ready p c2" "cf_room c2" "cf_decodes e c2 (cf_data a w c)"
    using jpeg.save_run [OF assms(2,4) refl valid, of C] by blast
  note f = cf_same_fields [OF s(3)]
  let ?content = "fwrite content 0 (c_jpeg_write C content bs')"
  have jr: "c_jpeg_read C ?content = Some bs'" using assms(8) s(5) unfolding jpeg_lossless_def by blast
  have ini: "cf_init_permutation C (cf_raw_capacity c * 8) (c, w) = ((c, w), Inr ())"
    using cf_init_permutation_run [of C c p w] cf_perm_after_self [OF assms(2), of C] by simp
  have "SaveFile C (c, w) = ((c2, w\<lparr>w_files := set_content (cf_file c) ?content (w_files w)\<rparr>), Inr ())"
    unfolding SaveFile_class(3) [of "(c, w)", simplified, OF assms(1)] JPEG_SaveFile_def cf_open_def cf_put_file_def
    using assms(3,5,6) in_use_reset(1) [OF assms(2)] ini cf_bits_to_modify_run [of "(cf_reset c, w)" p] u(1) s(1,2,4) cast32 [OF n32] f
    by (simp add: run_simps jpeg_read_def Let_def)
  moreover have "reloads C p e a c w ?content"
    unfolding reloads_def
  proof (intro allI impI, elim conjE)
    fix c0 w0 a0
    assume l: "\<not> cf_file_loaded c0" "cf_class c0 = cf_class c" "cf_raw_capacity c0 = cf_raw_capacity c"
      "cf_perm_after C c0 p" "cf_in_use p e a0 (c0\<lparr>cf_permutation := Some p\<rparr>)" "cf_layout c c0" "st_ok a0 w0"
      "Open (w_files w0) (cf_file c0) = Inr ?content"
    let ?c0 = "c0\<lparr>cf_permutation := Some p\<rparr>"
    have b: "8 * (unat (cf_blocks_used c2) * unat (cf_codeword_block_size c2)) \<le> unat ?n" using u(6) f by simp
    obtain c3 w3 where g: "jpeg_gather ?n (ac_coeffs bs') 0 (cf_reset ?c0, w0) = ((c3, w0), Inr ())"
        "CF_ExtractBufferUsingEncoder C (c3, w0) = ((c3, w3), Inr 0)" "cf_same (cf_reset ?c0) c3" "st_ok a0 w3" "st_same a0 w0 w3"
        "\<And>q. st_byte a0 w3 q = (if unat (cf_offset ?c0) \<le> unat q \<and>
              unat q < unat (cf_offset ?c0) + unat (cf_blocks_used ?c0) * unat (cf_data_block_size ?c0) \<and> unat q < st_capacity a0 w0
            then cf_data a w c ((unat q - unat (cf_offset ?c0)) div unat (cf_data_block_size ?c0)) ! ((unat q - unat (cf_offset ?c0)) mod unat (cf_data_block_size ?c0))
            else st_byte a0 w0 q)"
      using jpeg.load_run [OF s(4) refl valid s(6,7,8) b l(5) layout_facts [OF l(6) s(3)] l(7), of C] by blast
    have ini0: "cf_init_permutation C (cf_raw_capacity c0 * 8) (c0, w0) = ((?c0, w0), Inr ())"
      by (rule cf_init_permutation_run [OF l(4)])
    have rs: "cf_reset_buffer C (cf_raw_capacity c0) (?c0, w0) = ((cf_reset ?c0, w0), Inr ())"
      using in_use_reset(1) [OF l(5)] by simp
    have "LoadFile C (c0, w0) = ((c3\<lparr>cf_file_loaded := True\<rparr>, w3), Inr ())"
      unfolding LoadFile_class(3) [of "(c0, w0)", simplified, OF l(2) [unfolded assms(1)]] JPEG_LoadFile_def cf_open_def
      using l(1,8) jr ini0 rs cf_bits_to_modify_run [of "(cf_reset ?c0, w0)" p] g(1,2) by (simp add: run_simps jpeg_read_def)
    then show "\<exists>c3 w3. LoadFile C (c0, w0) = ((c3, w3), Inr ()) \<and> cf_file_loaded c3 \<and> st_ok a0 w3 \<and> st_same a0 w0 w3 \<and>
           (\<forall>q. st_byte a0 w3 q =
              (if unat (cf_offset c) \<le> unat q \<and>
                  unat q < unat (cf_offset c) + unat (cf_blocks_used c) * unat (cf_data_block_size c) \<and> unat q < st_capacity a0 w0
               then st_byte a w q else st_byte a0 w0 q))"
      using g(4,5,6) [unfolded reload_bytes [OF u(7) l(6)]] by fastforce
  qed
  moreover have "coeffs_same (unat ?n) bs bs'"
    using jpeg_scatter_beyond [OF s(6) refl u(5) n32 s(4)] s(5) by (simp add: coeffs_same_def)
  ultimately show ?thesis using s(3) jr by blast
qed

section \<open>All classes together\<close>

text \<open>What the contents of the file of a carrier have to satisfy for it to be loaded and saved.\<close>

definition cover_ok :: "cenv \<Rightarrow> permutation \<Rightarrow> carrier \<Rightarrow> bytes \<Rightarrow> bool" where
  "cover_ok C p c content =
     (case cf_class c of
        BMP off sz \<Rightarrow> unat off + 8 * unat (cf_raw_capacity c) \<le> length content
      | PNG \<Rightarrow> length content < 2 ^ 32 \<and>
               (case c_png_decode C content of
                  None \<Rightarrow> False
                | Some img \<Rightarrow> unat (Perm_GetSize p) \<le> length img \<and> png_lossless C c content (length img))
      | JPEG \<Rightarrow> (case c_jpeg_read C content of
                    None \<Rightarrow> False
                  | Some bs \<Rightarrow> unat (Perm_GetSize p) \<le> length (usable_coeffs bs) \<and> jpeg_lossless C content bs))"

text \<open>Two contents whose pictures differ at most in the lowest bits of the samples.\<close>

definition cover_same :: "cenv \<Rightarrow> permutation \<Rightarrow> carrier \<Rightarrow> bytes \<Rightarrow> bytes \<Rightarrow> bool" where
  "cover_same C p c content content' =
     (case cf_class c of
        BMP off sz \<Rightarrow> length content' = length content \<and>
                      pixels_same (unat (Perm_GetSize p)) (drop (unat off) content) (drop (unat off) content') \<and>
                      take (unat off) content' = take (unat off) content
      | PNG \<Rightarrow> (case (c_png_decode C content, c_png_decode C content') of
                  (Some img, Some img') \<Rightarrow> pixels_same (unat (Perm_GetSize p)) img img' | _ \<Rightarrow> False)
      | JPEG \<Rightarrow> (case (c_jpeg_read C content, c_jpeg_read C content') of
                  (Some bs, Some bs') \<Rightarrow> coeffs_same (unat (Perm_GetSize p)) bs bs' | _ \<Rightarrow> False))"

lemma byte_eq_bits_list:
  "length (xs :: bytes) = length ys \<Longrightarrow> (\<And>i k. i < length ys \<Longrightarrow> k < 8 \<Longrightarrow> bit (xs ! i) k = bit (ys ! i) k) \<Longrightarrow> xs = ys"
  by (rule nth_equalityI) (simp_all add: byte_eq_bits)

lemma SaveFile_run:
  assumes "cf_in_use p e a c" "cf_file_loaded c" "st_ok a w" "Open (w_files w) (cf_file c) = Inr content" "cover_ok C p c content"
  shows "\<exists>c2 content'. SaveFile C (c, w) = ((c2, w\<lparr>w_files := set_content (cf_file c) content' (w_files w)\<rparr>), Inr ()) \<and>
           cf_same (cf_reset c) c2 \<and> reloads C p e a c w content' \<and> cover_same C p c content content'"
proof (cases "cf_class c")
  case (BMP off sz)
  have l: "unat off + 8 * unat (cf_raw_capacity c) \<le> length content" using assms(5) BMP by (simp add: cover_ok_def)
  obtain c2 content' where s: "SaveFile C (c, w) = ((c2, w\<lparr>w_files := set_content (cf_file c) content' (w_files w)\<rparr>), Inr ())"
      "cf_same (cf_reset c) c2" "reloads C p e a c w content'" "length content' = length content"
      "\<And>i k. i < length content \<Longrightarrow> k < 8 \<Longrightarrow> 0 < k \<or> i < unat off \<or> unat off + unat (Perm_GetSize p) \<le> i \<Longrightarrow>
              bit (content' ! i) k = bit (content ! i) k"
    using BMP_roundtrip [OF BMP assms(1-4) l] by blast
  have "take (unat off) content' = take (unat off) content"
    by (rule byte_eq_bits_list) (use s(4,5) in auto)
  moreover have "pixels_same (unat (Perm_GetSize p)) (drop (unat off) content) (drop (unat off) content')"
    using s(4,5) l by (auto simp: pixels_same_def)
  ultimately have "cover_same C p c content content'" using s(4) by (simp add: cover_same_def BMP)
  with s(1-3) show ?thesis by blast
next
  case PNG
  obtain img where "c_png_decode C content = Some img" "unat (Perm_GetSize p) \<le> length img" "png_lossless C c content (length img)"
      "length content < 2 ^ 32"
    using assms(5) by (auto simp: cover_ok_def PNG split: option.splits)
  moreover from this obtain c2 content' img' where
      "SaveFile C (c, w) = ((c2, w\<lparr>w_files := set_content (cf_file c) content' (w_files w)\<rparr>), Inr ())"
      "cf_same (cf_reset c) c2" "reloads C p e a c w content'" "c_png_decode C content' = Some img'"
      "pixels_same (unat (Perm_GetSize p)) img img'"
    using PNG_roundtrip [OF PNG assms(1-4), of C img] by blast
  ultimately have "cover_same C p c content content'" by (simp add: cover_same_def PNG)
  then show ?thesis using \<open>SaveFile C (c, w) = _\<close> \<open>cf_same _ c2\<close> \<open>reloads C p e a c w content'\<close> by blast
next
  case JPEG
  obtain bs where "c_jpeg_read C content = Some bs" "unat (Perm_GetSize p) \<le> length (usable_coeffs bs)" "jpeg_lossless C content bs"
    using assms(5) by (auto simp: cover_ok_def JPEG split: option.splits)
  moreover from this obtain c2 content' bs' where
      "SaveFile C (c, w) = ((c2, w\<lparr>w_files := set_content (cf_file c) content' (w_files w)\<rparr>), Inr ())"
      "cf_same (cf_reset c) c2" "reloads C p e a c w content'" "c_jpeg_read C content' = Some bs'"
      "coeffs_same (unat (Perm_GetSize p)) bs bs'"
    using JPEG_roundtrip [OF JPEG assms(1-4), of C bs] by blast
  ultimately have "cover_same C p c content content'" by (simp add: cover_same_def JPEG)
  then show ?thesis using \<open>SaveFile C (c, w) = _\<close> \<open>cf_same _ c2\<close> \<open>reloads C p e a c w content'\<close> by blast
qed

text \<open>A bitmap of 40 bytes after a header of 54 and the storage it belongs to.\<close>

definition cenv0 :: cenv where
  "cenv0 = \<lparr>e_garbage = (\<lambda>_. 0), e_rnd = (\<lambda>_. 1), c_entries = (\<lambda>_. None), c_regex = (\<lambda>_. None), c_png_inspect = (\<lambda>_. None),
            c_png_raw_size = (\<lambda>_ _. 0), c_png_decode = (\<lambda>_. None), c_png_encode = (\<lambda>_ _ _ _. None),
            c_jpeg_read = (\<lambda>_. None), c_jpeg_write = (\<lambda>c _. c)\<rparr>"

definition perm40 :: permutation where
  "perm40 = IdentityPerm \<lparr>p_size = 40, p_initialized = True\<rparr>"

definition enc1 :: encoder where
  "enc1 = LsbEnc \<lparr>codeword_block_size = 1, data_block_size = 1\<rparr>"

definition bmp0 :: carrier where
  "bmp0 = (CarrierFile (BMP 54 40) (File ''a.bmp'') (Some enc1) (Some perm40))
            \<lparr>cf_raw_capacity := 5, cf_capacity := 5, cf_block_count := 5, cf_blocks_used := 4, cf_storage := Some 0, cf_file_loaded := True\<rparr>"

definition world0 :: world where
  "world0 = \<lparr>w_files = [''a.bmp'' \<mapsto> replicate 94 77], w_storages = [vs0]\<rparr>"

lemma bmp0_in_use: "cf_in_use perm40 enc1 0 bmp0"
  by (simp add: cf_in_use_def bmp0_def perm40_def enc1_def CarrierFile_def cf_encodes_def lsb_ok_def cf_fits_def MB_new_def mb_ok_def
      Encoder_GetCodewordBlockSize_def Encoder_GetDataBlockSize_def Permutation_GetSize_def)

lemma bmp0_ready: "cf_file_loaded bmp0" "st_ok 0 world0" "Open (w_files world0) (cf_file bmp0) = Inr (replicate 94 77)"
    "cover_ok cenv0 perm40 bmp0 (replicate 94 77)"
  using vs0_ok by (simp_all add: bmp0_def CarrierFile_def st_ok_def world0_def Open_def GetAbsolutePath_def File_def cover_ok_def)

text \<open>
  Codecs that keep what the two libraries promise, for the PNG and the JPEG carrier: pixels behind a signature of eight
  bytes, and coefficients of 16 bits in one block.
\<close>

definition signature8 :: bytes where
  "signature8 = [0x89, 0x50, 0x4E, 0x47, 0x0D, 0x0A, 0x1A, 0x0A]"

fun read16 :: "bytes \<Rightarrow> coefs" where
  "read16 (a # b # bs) = (ucast a OR push_bit 8 (ucast b)) # read16 bs"
| "read16 bs = []"

definition write16 :: "coefs \<Rightarrow> bytes" where
  "write16 xs = concat (map (\<lambda>x. [ucast x, ucast (drop_bit 8 x)]) xs)"

lemma length_write16 [simp]: "length (write16 xs) = 2 * length xs"
  by (induction xs) (simp_all add: write16_def)

lemma bytes_of_16: "ucast (ucast x :: u8) OR push_bit 8 (ucast (ucast (drop_bit 8 x) :: u8)) = (x :: 16 word)"
  by (rule bit_word_eqI) (auto simp: bit_or_iff bit_push_bit_iff bit_ucast_iff bit_drop_bit_eq)

lemma read16_write16 [simp]: "read16 (write16 xs) = xs"
  by (induction xs) (simp_all add: write16_def bytes_of_16)

definition cenv1 :: cenv where
  "cenv1 = cenv0\<lparr>c_png_decode := (\<lambda>bs. if take 8 bs = signature8 then Some (drop 8 bs) else None),
                 c_png_encode := (\<lambda>old img w h. Some (signature8 @ img)),
                 c_jpeg_read := (\<lambda>bs. Some [read16 bs]),
                 c_jpeg_write := (\<lambda>old blocks. write16 (concat blocks))\<rparr>"

lemma fwrite_whole: "length d = length content \<Longrightarrow> fwrite content 0 d = d"
  by (simp add: fwrite_inside copy_at_def)

lemma cenv1_png_lossless:
  assumes "length content = 8 + n" "n < 2 ^ 31"
  shows "png_lossless cenv1 c content n"
  unfolding png_lossless_def
proof (intro allI impI)
  fix img :: bytes assume "length img = n"
  then have "fwrite content 0 (signature8 @ img) = signature8 @ img" "length (signature8 @ img) < 2 ^ 32"
    using assms by (simp_all add: fwrite_whole signature8_def)
  then show "\<exists>out. c_png_encode cenv1 content img (cf_width c) (cf_height c) = Some out \<and> length out < 2 ^ 32 \<and>
      length (fwrite content 0 out) < 2 ^ 32 \<and> c_png_decode cenv1 (fwrite content 0 out) = Some img"
    by (simp add: cenv1_def) (simp add: signature8_def)
qed

lemma one_block:
  assumes "coefs_high bs' = coefs_high [xs]"
  shows "\<exists>ys. bs' = [ys] \<and> length ys = length xs"
proof -
  have "length bs' = 1" using arg_cong [OF assms, of length] by (simp add: coefs_high_def)
  then obtain ys where ys: "bs' = [ys]" by (auto simp: length_Suc_conv)
  have "map length (coefs_high bs') = map length (coefs_high [xs])" using assms by simp
  with ys show ?thesis by (simp add: coefs_high_def)
qed

lemma cenv1_jpeg_lossless:
  assumes "length content = 2 * length xs"
  shows "jpeg_lossless cenv1 content [xs]"
  unfolding jpeg_lossless_def
proof (intro allI impI)
  fix bs' assume "coefs_high bs' = coefs_high [xs]"
  then obtain ys where "bs' = [ys]" "length ys = length xs" using one_block by blast
  then show "c_jpeg_read cenv1 (fwrite content 0 (c_jpeg_write cenv1 content bs')) = Some bs'"
    using assms by (simp add: cenv1_def fwrite_whole)
qed

text \<open>A carrier of each class in use, with 40 bits of the permutation over a longer cover.\<close>

definition png1 :: carrier where
  "png1 = bmp0\<lparr>cf_class := PNG\<rparr>"

definition jpeg1 :: carrier where
  "jpeg1 = bmp0\<lparr>cf_class := JPEG\<rparr>"

definition png1_content :: bytes where
  "png1_content = signature8 @ replicate 45 77"

definition jpeg1_content :: bytes where
  "jpeg1_content = write16 (replicate 48 77)"

definition world_with :: "bytes \<Rightarrow> world" where
  "world_with content = \<lparr>w_files = [''a.bmp'' \<mapsto> content], w_storages = [vs0]\<rparr>"

lemma carriers1_in_use: "cf_in_use perm40 enc1 0 png1" "cf_in_use perm40 enc1 0 jpeg1"
  by (simp_all add: png1_def jpeg1_def cf_in_use_def bmp0_def perm40_def enc1_def CarrierFile_def cf_encodes_def lsb_ok_def cf_fits_def
      MB_new_def mb_ok_def Encoder_GetCodewordBlockSize_def Encoder_GetDataBlockSize_def Permutation_GetSize_def)

lemma carriers1_ready:
  "cf_file_loaded png1" "cf_file_loaded jpeg1" "st_ok 0 (world_with content)"
  "Open (w_files (world_with content)) (cf_file png1) = Inr content" "Open (w_files (world_with content)) (cf_file jpeg1) = Inr content"
  using vs0_ok by (simp_all add: png1_def jpeg1_def bmp0_def CarrierFile_def st_ok_def world_with_def Open_def GetAbsolutePath_def File_def)

lemma carriers1_cover:
  "cover_ok cenv1 perm40 png1 png1_content" "cover_ok cenv1 perm40 jpeg1 jpeg1_content"
proof -
  have "png_lossless cenv1 png1 png1_content 45"
    by (rule cenv1_png_lossless) (simp_all add: png1_content_def signature8_def)
  then show "cover_ok cenv1 perm40 png1 png1_content"
    by (simp add: cover_ok_def png1_def png1_content_def cenv1_def signature8_def perm40_def Permutation_GetSize_def)
  have "jpeg_lossless cenv1 jpeg1_content [replicate 48 77]"
    by (rule cenv1_jpeg_lossless) (simp add: jpeg1_content_def)
  moreover have "usable_coeff 77" by (simp add: usable_coeff_def)
  then have "length (usable_coeffs [replicate 48 77]) = 47" by (simp add: usable_coeffs_def ac_coeffs_def)
  ultimately show "cover_ok cenv1 perm40 jpeg1 jpeg1_content"
    by (simp add: cover_ok_def jpeg1_def jpeg1_content_def cenv1_def perm40_def Permutation_GetSize_def)
qed

text \<open>
  C5. What \<open>SaveFile\<close> embeds, \<open>LoadFile\<close> extracts again.  A loaded carrier in use saves its part of
  the virtual storage without an error and changes no other file; a carrier of the same class and
  layout that has not been loaded yet then loads the new contents of the file, puts exactly the bytes the
  storage held into its own storage at the positions of the carrier, and changes no other byte.  For PNG and
  JPEG files this rests on the libraries reading back what they write.
\<close>

theorem carrier_roundtrip:
  assumes "cf_in_use p e a c" "cf_file_loaded c" "st_ok a w" "Open (w_files w) (cf_file c) = Inr content" "cover_ok C p c content"
  shows "\<exists>c2 content'. SaveFile C (c, w) = ((c2, w\<lparr>w_files := set_content (cf_file c) content' (w_files w)\<rparr>), Inr ()) \<and>
           reloads C p e a c w content'"
  using SaveFile_run [OF assms] by blast

theorem carrier_roundtrip_witness:
  "(\<exists>c2 content'. SaveFile cenv0 (bmp0, world0) = ((c2, world0\<lparr>w_files := set_content (File ''a.bmp'') content' (w_files world0)\<rparr>), Inr ()) \<and>
     reloads cenv0 perm40 enc1 0 bmp0 world0 content') \<and>
   (\<exists>c2 content'. SaveFile cenv1 (png1, world_with png1_content) =
        ((c2, world_with png1_content\<lparr>w_files := set_content (cf_file png1) content' (w_files (world_with png1_content))\<rparr>), Inr ()) \<and>
     reloads cenv1 perm40 enc1 0 png1 (world_with png1_content) content') \<and>
   (\<exists>c2 content'. SaveFile cenv1 (jpeg1, world_with jpeg1_content) =
        ((c2, world_with jpeg1_content\<lparr>w_files := set_content (cf_file jpeg1) content' (w_files (world_with jpeg1_content))\<rparr>), Inr ()) \<and>
     reloads cenv1 perm40 enc1 0 jpeg1 (world_with jpeg1_content) content')"
  using carrier_roundtrip [OF bmp0_in_use bmp0_ready]
    carrier_roundtrip [OF carriers1_in_use(1) carriers1_ready(1,3,4) carriers1_cover(1)]
    carrier_roundtrip [OF carriers1_in_use(2) carriers1_ready(2,3,5) carriers1_cover(2)]
  by (simp add: bmp0_def CarrierFile_def)



end
