(* ===== verification/Carrier_Manager.thy ===== *)
theory Carrier_Manager
  imports Carrier_Factory Carrier_Roundtrip
begin

text \<open>
  \<^verbatim>\<open>src/file_management/carrier_files_manager.cc\<close>: the carriers of a directory, the encoder they share, the keys that
  come from the password and the names of the files, and the virtual storage that is laid out over the carriers.
\<close>

section \<open>Tasks\<close>

text \<open>
  The manager gives one task per carrier to the thread pool and then asks for the results in order, so
  the first exception in the order of the carriers is thrown.  Every task runs; tasks of different carriers share
  the world, and the order in which they are taken from the queue is that of the carriers.

  When a task throws, the manager does not wait for the tasks behind it: they go on running while the exception
  reaches the caller.  The state \<open>run_tasks\<close> gives is the one when they have all finished; the caller sees it only
  when every task returned or when there was no task behind the one that threw.  What is stated about calls
  made after a call that threw (\<open>stego_call\<close>) keeps to these cases.
\<close>

fun run_tasks :: "unit cio \<Rightarrow> carrier list \<Rightarrow> world \<Rightarrow> carrier list \<times> world \<times> unit res list" where
  "run_tasks task [] w = ([], w, [])"
| "run_tasks task (c # cs) w =
     (case task (c, w) of ((c', w'), r) \<Rightarrow>
        (case run_tasks task cs w' of (cs', w'', rs) \<Rightarrow> (c' # cs', w'', r # rs)))"

fun get_results :: "unit res list \<Rightarrow> unit res" where
  "get_results [] = Inr ()"
| "get_results (Inl e # rs) = Inl e"
| "get_results (Inr u # rs) = get_results rs"

text \<open>A task whose behaviour is undefined leaves nothing to say about the process, also behind one that threw.\<close>

definition any_undefined :: "'a res list \<Rightarrow> bool" where
  "any_undefined rs = list_ex (\<lambda>r. case r of Inl Undefined \<Rightarrow> True | _ \<Rightarrow> False) rs"

lemma get_results_defined: "get_results rs = Inr () \<Longrightarrow> \<not> any_undefined rs"
  by (induction rs rule: get_results.induct) (auto simp: any_undefined_def)

section \<open>The state\<close>

record manager =
  cm_base_path :: string
  cm_carriers :: "carrier list"
  cm_capacity :: u64
  cm_files_in_directory :: u64
  cm_master_key :: "key option"
  cm_storage :: "nat option"
  cm_encoder :: "encoder option"
  cm_password_hash :: hash
  cm_active :: bool

type_synonym 'a mio = "(manager \<times> world, 'a) meth"

definition CarrierFilesManager :: "(nat \<Rightarrow> u8) \<Rightarrow> manager res" where
  "CarrierFilesManager garbage =
     bindR (Hash_Init garbage) (\<lambda>h.
     Inr \<lparr>cm_base_path = [], cm_carriers = [], cm_capacity = 0, cm_files_in_directory = 0, cm_master_key = None,
          cm_storage = None, cm_encoder = None, cm_password_hash = h, cm_active = False\<rparr>)"

definition CM_GetPath :: "manager \<Rightarrow> string" where
  "CM_GetPath m = cm_base_path m"

text \<open>A change of the carriers by a method of theirs, and a step on the manager alone.\<close>

definition cm_set_carriers :: "carrier list \<Rightarrow> manager \<Rightarrow> manager" where
  "cm_set_carriers cs m = m\<lparr>cm_carriers := cs\<rparr>"

definition run_on_carriers :: "unit cio \<Rightarrow> unit mio" where
  "run_on_carriers task s =
     (case run_tasks task (cm_carriers (fst s)) (snd s) of
        (cs, w, rs) \<Rightarrow> ((cm_set_carriers cs (fst s), w), if any_undefined rs then Inl Undefined else get_results rs))"

section \<open>The directory\<close>

text \<open>The loop over the futures: the carriers before the first exception are kept.\<close>

fun collect_carriers :: "carrier option res list \<Rightarrow> carrier list \<Rightarrow> carrier list \<times> unit res" where
  "collect_carriers [] cs = (cs, Inr ())"
| "collect_carriers (Inl e # rs) cs = (cs, Inl e)"
| "collect_carriers (Inr None # rs) cs = collect_carriers rs cs"
| "collect_carriers (Inr (Some c) # rs) cs = collect_carriers rs (cs @ [c])"

text \<open>
  \<open>std::sort\<close>, as the insertion of every element behind those not above it: the order of elements that
  compare equal, which \<open>std::sort\<close> leaves open, is that of the list.
\<close>

fun insert_carrier :: "carrier \<Rightarrow> carrier list \<Rightarrow> carrier list" where
  "insert_carrier c [] = [c]"
| "insert_carrier c (d # ds) = (if CF_CompareBySharedPointers c d then c # d # ds else d # insert_carrier c ds)"

definition sort_carriers :: "carrier list \<Rightarrow> carrier list" where
  "sort_carriers cs = fold insert_carrier cs []"

definition LoadDirectory :: "cenv \<Rightarrow> stego_config \<Rightarrow> string \<Rightarrow> string \<Rightarrow> unit mio" where
  "LoadDirectory C sc directory filter_text s =
     (let m = (fst s)\<lparr>cm_carriers := [], cm_capacity := 0, cm_files_in_directory := 0, cm_base_path := directory\<rparr> in
      case GetFilesInDir C directory filter_text of
        Inl e \<Rightarrow> ((m, snd s), Inl e)
      | Inr files' \<Rightarrow>
          let m = m\<lparr>cm_files_in_directory := word_of_nat (length files')\<rparr>;
              carrier_files = map (CreateCarrierFile C sc (w_files (snd s))) files' in
          (case collect_carriers carrier_files [] of
             (cs, Inl e) \<Rightarrow> ((m\<lparr>cm_carriers := cs\<rparr>, snd s), Inl (if any_undefined carrier_files then Undefined else e))
           | (cs, Inr u) \<Rightarrow> ((m\<lparr>cm_carriers := sort_carriers cs\<rparr>, snd s), Inr ())))"

section \<open>Filter\<close>

definition SupportedFormats :: "string set" where
  "SupportedFormats = {''jpg'', ''bmp'', ''png'', ''mkv'', ''mp4''}"

definition CreateFilterFromConfig :: "stego_config \<Rightarrow> string" where
  "CreateFilterFromConfig sc =
     (if sc_loaded sc
      then let new_filter = concat (map (\<lambda>format. if format \<in> SupportedFormats then format @ ''|'' else [])
                                      (include_list sc))
           in if new_filter \<noteq> [] then butlast new_filter else new_filter
      else [])"

section \<open>The encoder\<close>

text \<open>
  The carriers share the encoder object of the manager: an argument that changes it changes it for
  the carriers that hold it.
\<close>

definition CM_SetEncoderArg :: "string \<Rightarrow> string \<Rightarrow> (manager, unit) meth" where
  "CM_SetEncoderArg param val m =
     (if cm_encoder m = None then (m, Inl (InvalidState setEncoderArg encoderC notSetted))
      else if cm_active m then (m, Inl (InvalidState setEncoderArg encoderC isActive))
      else case SetEncoderArg param val (cm_encoder m) of
          (e, r) \<Rightarrow> (m\<lparr>cm_encoder := e,
                       cm_carriers := map (\<lambda>c. if cf_encoder c = None then c else c\<lparr>cf_encoder := e\<rparr>) (cm_carriers m)\<rparr>, r))"

definition CM_UnSetEncoder :: "manager \<Rightarrow> manager" where
  "CM_UnSetEncoder m =
     m\<lparr>cm_carriers := map CF_UnSetEncoder (cm_carriers m), cm_encoder := None, cm_active := False\<rparr>"

definition CM_SetEncoder :: "encoder option \<Rightarrow> (manager, unit) meth" where
  "CM_SetEncoder encoder m =
     (if encoder = None then (m, Inl (NullptrArgument ''encoder''))
      else ((if cm_encoder m \<noteq> None then CM_UnSetEncoder m else m)\<lparr>cm_encoder := encoder, cm_active := False\<rparr>, Inr ()))"

section \<open>Keys\<close>

definition SetPassword :: "string \<Rightarrow> (manager, unit) meth" where
  "SetPassword password = updateM (\<lambda>m. bindR (Hash_Process_string (cm_password_hash m) password)
                                        (\<lambda>h. Inr (m\<lparr>cm_password_hash := h\<rparr>)))"

definition GenerateMasterKey :: "cenv \<Rightarrow> manager \<Rightarrow> manager res" where
  "GenerateMasterKey C m =
     (if cm_carriers m = [] then Inl (EmptyMember ''carrier_files'')
      else
        let st = Hash_GetState (cm_password_hash m) in
        bindR (Hash_of_bytes (e_garbage C) (mb_buffer st) (mb_size st)) (\<lambda>h.
        bindR (foldR (\<lambda>c h. bindR (CF_GetPermKey (e_garbage C) c) (\<lambda>k. bindR (Key_GetData k) (\<lambda>d.
                 Hash_Append_buffer (e_garbage C) h d))) (cm_carriers m) h) (\<lambda>h.
        bindR (Key_of_buffer (e_garbage C) (Hash_GetState h)) (\<lambda>k.
        Inr (m\<lparr>cm_master_key := Some k\<rparr>)))))"

text \<open>The body of the loop for carrier \<open>i\<close>; the hash object serves all carriers.\<close>

definition derive_subkey :: "cenv \<Rightarrow> key \<Rightarrow> nat \<Rightarrow> carrier \<Rightarrow> hash \<Rightarrow> (hash \<times> carrier) res" where
  "derive_subkey C master i c h =
     bindR (Key_GetData master) (\<lambda>d.
     bindR (Hash_Process_buffer h d) (\<lambda>h.
     bindR (Hash_Append_string (e_garbage C) h (decimal i)) (\<lambda>h.
     bindR (Hash_Append_string (e_garbage C) h (GetNormalizedPath (cf_file c))) (\<lambda>h.
     bindR (Key_of_buffer (e_garbage C) (Hash_GetState h)) (\<lambda>k.
     bindR (CF_SetSubkey (e_garbage C) k c) (\<lambda>c. Inr (h, c)))))))"

fun derive_subkeys :: "cenv \<Rightarrow> key \<Rightarrow> nat \<Rightarrow> hash \<Rightarrow> carrier list \<Rightarrow> carrier list \<times> unit res" where
  "derive_subkeys C master i h [] = ([], Inr ())"
| "derive_subkeys C master i h (c # cs) =
     (case derive_subkey C master i c h of
        Inl e \<Rightarrow> (c # cs, Inl e)
      | Inr (h, c) \<Rightarrow> (case derive_subkeys C master (Suc i) h cs of (cs, r) \<Rightarrow> (c # cs, r)))"

definition DeriveSubkeys :: "cenv \<Rightarrow> (manager, unit) meth" where
  "DeriveSubkeys C m =
     (if cm_carriers m = [] then (m, Inr ())
      else case cm_master_key m of
          None \<Rightarrow> (m, Inl Undefined)
        | Some k \<Rightarrow>
            (case Hash_Init (e_garbage C) of
               Inl e \<Rightarrow> (m, Inl e)
             | Inr h \<Rightarrow> (case derive_subkeys C k 0 h (cm_carriers m) of
                          (cs, r) \<Rightarrow> (m\<lparr>cm_carriers := cs\<rparr>, r))))"

section \<open>Applying the encoder\<close>

text \<open>The loop of \<open>ApplyEncoder\<close>; the result is the sum of the capacities, in 64 bits.\<close>

fun set_encoders :: "cenv \<Rightarrow> encoder option \<Rightarrow> carrier list \<Rightarrow> u64 \<Rightarrow> carrier list \<times> u64 res" where
  "set_encoders C e [] capacity = ([], Inr capacity)"
| "set_encoders C e (c # cs) capacity =
     (case CF_SetEncoder (env_of C) e c of
        (c, Inl x) \<Rightarrow> (c # cs, Inl x)
      | (c, Inr u) \<Rightarrow> (case set_encoders C e cs (capacity + cf_capacity c) of (cs, r) \<Rightarrow> (c # cs, r)))"

definition ApplyEncoder :: "cenv \<Rightarrow> (manager, unit) meth" where
  "ApplyEncoder C m =
     (if cm_encoder m = None then (m, Inl (InvalidState applyEncoder encoderC notSetted))
      else case GenerateMasterKey C m of
          Inl e \<Rightarrow> (m, Inl e)
        | Inr m \<Rightarrow>
            (case DeriveSubkeys C m of
               (m, Inl e) \<Rightarrow> (m, Inl e)
             | (m, Inr u) \<Rightarrow>
                 (case set_encoders C (cm_encoder m) (cm_carriers m) 0 of
                    (cs, Inl e) \<Rightarrow> (m\<lparr>cm_carriers := cs\<rparr>, Inl e)
                  | (cs, Inr capacity) \<Rightarrow>
                      let m = m\<lparr>cm_carriers := cs\<rparr> in
                      if capacity = 0 then (m, Inl ZeroAllocatedSize)
                      else (m\<lparr>cm_capacity := capacity, cm_active := True\<rparr>, Inr ()))))"

definition CM_GetCapacity :: "manager \<Rightarrow> u64 res" where
  "CM_GetCapacity m =
     (if cm_encoder m = None then Inl (InvalidState getCapacity encoderC notSetted)
      else if \<not> cm_active m then Inl (InvalidState getCapacity encoderC notActive)
      else Inr (cm_capacity m))"

definition CM_GetRawCapacity :: "manager \<Rightarrow> u64" where
  "CM_GetRawCapacity m = fold (\<lambda>c n. n + cf_raw_capacity c) (cm_carriers m) 0"

definition CM_GetCapacityUsingEncoder :: "cenv \<Rightarrow> encoder option \<Rightarrow> manager \<Rightarrow> u64 res" where
  "CM_GetCapacityUsingEncoder C encoder m =
     (if encoder = None then Inl (InvalidState getCapacity encoderC notSetted)
      else foldR (\<lambda>c n. bindR (CF_GetCapacityUsingEncoder (env_of C) encoder c) (\<lambda>x. Inr (n + x))) (cm_carriers m) 0)"

section \<open>Loading and saving\<close>

text \<open>The loop that gives every carrier its part of the storage.\<close>

fun allocate :: "nat \<Rightarrow> u64 \<Rightarrow> u64 \<Rightarrow> carrier list \<Rightarrow> carrier list \<times> unit res" where
  "allocate a offset remaining_capacity [] = ([], Inr ())"
| "allocate a offset remaining_capacity (c # cs) =
     (let cap = cf_capacity c;
          bytes_used = (if remaining_capacity > cap then cap else remaining_capacity);
          remaining_capacity = (if remaining_capacity > cap then remaining_capacity - cap else 0)
      in case CF_AddToVirtualStorage (Some a) offset bytes_used c of
           Inl e \<Rightarrow> (c\<lparr>cf_storage := Some a, cf_offset := offset\<rparr> # cs, Inl e)
         | Inr c \<Rightarrow> (case allocate a (offset + cap) remaining_capacity cs of (cs, r) \<Rightarrow> (c # cs, r)))"

text \<open>A method of the storage at an address, on the heap.\<close>

definition on_storage :: "nat \<Rightarrow> (vstore, 'a) meth \<Rightarrow> 'a mio" where
  "on_storage a f s =
     (if a < length (w_storages (snd s))
      then (case f (w_storages (snd s) ! a) of
              (vs, r) \<Rightarrow> ((fst s, (snd s)\<lparr>w_storages := (w_storages (snd s))[a := vs]\<rparr>), r))
      else (s, Inl Undefined))"

definition the_storage :: "nat \<Rightarrow> manager \<times> world \<Rightarrow> vstore res" where
  "the_storage a s = (if a < length (w_storages (snd s)) then Inr (w_storages (snd s) ! a) else Inl Undefined)"

definition LoadVirtualStorage :: "cenv \<Rightarrow> nat option \<Rightarrow> bool mio" where
  "LoadVirtualStorage C vstorage =
     bindM (getM fst) (\<lambda>m.
     case vstorage of
       None \<Rightarrow> throwM (InvalidState loadVirtualStorage storage notInitialized)
     | Some a \<Rightarrow>
         if cm_encoder m = None then throwM (InvalidState loadVirtualStorage encoderC notSetted)
         else if \<not> cm_active m then throwM (InvalidState loadVirtualStorage encoderC notActive)
         else
           bindM (askM (\<lambda>s. CM_GetCapacity m)) (\<lambda>capacity.
           bindM (askM (\<lambda>s. case cm_master_key m of None \<Rightarrow> Inl Undefined | Some k \<Rightarrow> Inr k)) (\<lambda>k.
           seqM (on_storage a (VS_ApplyPermutation (env_of C) capacity k))
          (bindM (askM (\<lambda>s. bindR (the_storage a s) VS_GetRawCapacity)) (\<lambda>remaining_capacity.
           seqM (\<lambda>s. case allocate a 0 remaining_capacity (cm_carriers (fst s)) of
                       (cs, r) \<Rightarrow> ((cm_set_carriers cs (fst s), snd s), r))
          (seqM (run_on_carriers (LoadFile C))
          (seqM (modifyM (\<lambda>s. ((fst s)\<lparr>cm_storage := Some a\<rparr>, snd s)))
          (askM (\<lambda>s. bindR (the_storage a s) (VS_IsValidChecksum (env_of C)))))))))))"

definition SaveAllFiles :: "cenv \<Rightarrow> unit mio" where
  "SaveAllFiles C = run_on_carriers (SaveFile C)"

definition SaveVirtualStorage :: "cenv \<Rightarrow> unit mio" where
  "SaveVirtualStorage C =
     bindM (getM fst) (\<lambda>m.
     case cm_storage m of
       None \<Rightarrow> throwM (InvalidState saveVirtualStorage virtualStorage notInitialized)
     | Some a \<Rightarrow> seqM (on_storage a (updateM (VS_WriteChecksum (env_of C)))) (SaveAllFiles C))"

end
