(* ===== verification/Storage_Session.thy ===== *)
theory Storage_Session
  imports Carrier_Manager
begin

text \<open>
  What a session leaves in the files, the next one finds: the virtual storage is laid out over the carriers,
  loaded from whatever the files hold, changed, saved, and loaded again into a new storage.  The
  theory follows the loops of \<^verbatim>\<open>carrier_files_manager.cc\<close> over the carriers, on top of the round trip of one
  carrier.
\<close>

section \<open>Loading any file\<close>

text \<open>The loops of the extraction run to their end whatever the blocks decode to.\<close>

lemma cf_write_bytes_run:
  assumes "cf_storage c = Some a" "st_ok a w" "mb_ok data" "n \<le> unat (mb_size data)"
  shows "\<exists>w'. forM (\<lambda>i. catch_range (cf_write_byte b data i) (returnM ())) [0..<n] (c, w) = ((c, w'), Inr ()) \<and>
              st_ok a w' \<and> st_same a w w'"
proof -
  let ?I = "\<lambda>j :: nat. \<lambda>s. \<exists>w'. s = (c, w') \<and> st_ok a w' \<and> st_same a w w'"
  have "\<exists>t. forM (\<lambda>i. catch_range (cf_write_byte b data i) (returnM ())) [0..<n] (c, w) = (t, Inr ()) \<and> ?I n t"
  proof (rule forM_invariant [where I = ?I])
    show "?I 0 (c, w)" using assms(2) by simp
  next
    fix j t
    assume j: "j < length [0..<n]" and "?I j t"
    then obtain w1 where w1: "t = (c, w1)" "st_ok a w1" "st_same a w w1" by blast
    have "j < unat (mb_size data)" using j assms(4) by simp
    then obtain w2 where "catch_range (cf_write_byte b data j) (returnM ()) (c, w1) = ((c, w2), Inr ())" "st_ok a w2" "st_same a w1 w2"
      using cf_write_byte_caught [OF assms(1) w1(2) assms(3)] by blast
    then show "\<exists>u. catch_range (cf_write_byte b data ([0..<n] ! j)) (returnM ()) t = (u, Inr ()) \<and> ?I (Suc j) u"
      using w1 j st_same_trans by auto
  qed simp
  then show ?thesis by blast
qed

lemma cf_extract_blocks_run:
  assumes "cf_storage c = Some a" "cf_encodes e c" "cf_room c"
      and "st_ok a w" "mb_ok data" "mb_size data = ucast (cf_data_block_size c)" "\<forall>b \<in> set bs. b < unat (cf_blocks_used c)"
  shows "\<exists>w'. cf_extract_blocks e bs data (c, w) = ((c, w'), Inr ()) \<and> st_ok a w' \<and> st_same a w w'"
  using assms(4-7)
proof (induction bs arbitrary: w data)
  case Nil
  then show ?case by (auto simp: run_simps)
next
  case (Cons b bs)
  let ?n = "unat (cf_data_block_size c)"
  have ms: "unat (mb_size data) = ?n" using Cons.prems(3) by (simp add: unat_ucast_u32_u64)
  have "mb_size data \<noteq> 0" using cf_encodes_pos [OF assms(2)] ms by auto
  then have d0: "mb_buffer data = Some (mb_bytes data)" "length (mb_bytes data) = ?n"
    using mb_ok_size_pos [OF Cons.prems(2)] length_mb_bytes [OF Cons.prems(2)] ms by auto
  have b: "b < unat (cf_blocks_used c)" using Cons.prems(4) by simp
  note cw = cf_codeword_room [OF assms(3) b]
  have enc: "encoder_ok e" "length (cf_slice c b) = unat (GetCodewordBlockSize e)" "length (mb_bytes data) = unat (GetDataBlockSize e)"
    using assms(2) cw(2) d0(2) by (simp_all add: cf_encodes_def)
  obtain d where d: "Encoder_Extract e (Some (cf_slice c b)) (Some (mb_bytes data)) = Inr d" "length d = ?n"
    using encoder.retrieve_total [OF enc] assms(2) by (auto simp: cf_encodes_def)
  let ?data = "data\<lparr>mb_buffer := Some d\<rparr>"
  have dk: "mb_ok ?data" "mb_size ?data = ucast (cf_data_block_size c)" "?n \<le> unat (mb_size ?data)"
    using d(2) ms Cons.prems(3) by (simp_all add: mb_ok_def)
  obtain w1 where w1: "forM (\<lambda>i. catch_range (cf_write_byte b ?data i) (returnM ())) [0..<?n] (c, w) = ((c, w1), Inr ())"
      "st_ok a w1" "st_same a w w1"
    using cf_write_bytes_run [OF assms(1) Cons.prems(1) dk(1,3)] by blast
  have "\<forall>x \<in> set bs. x < unat (cf_blocks_used c)" using Cons.prems(4) by simp
  then obtain w2 where w2: "cf_extract_blocks e bs ?data (c, w1) = ((c, w2), Inr ())" "st_ok a w2" "st_same a w1 w2"
    using Cons.IH [OF w1(2) dk(1,2)] by blast
  have "cf_extract_blocks e (b # bs) data (c, w) = ((c, w2), Inr ())"
    using w1(1) w2(1) cw(1) d(1) d0(1) by (simp add: run_simps Let_def)
  then show ?case using w2(2) st_same_trans [OF w1(3) w2(3)] by blast
qed

lemma CF_Extract_run:
  assumes "cf_storage c = Some a" "st_ok a w" "cf_encodes e c" "cf_room c" "0 < unat (cf_blocks_used c)"
  shows "\<exists>w'. CF_ExtractBufferUsingEncoder C (c, w) = ((c, w'), Inr 0) \<and> st_ok a w' \<and> st_same a w w'"
proof -
  let ?d = "MB_new_sized (e_garbage C) (ucast (cf_data_block_size c))"
  have d: "mb_ok ?d" "mb_size ?d = ucast (cf_data_block_size c)" by simp_all
  obtain w' where w': "cf_extract_blocks e [0..<unat (cf_blocks_used c)] ?d (c, w) = ((c, w'), Inr ())" "st_ok a w'" "st_same a w w'"
    using cf_extract_blocks_run [OF assms(1,3,4,2) d, of "[0..<unat (cf_blocks_used c)]"] by auto
  have "mb_size (cf_buffer c) \<noteq> 0" "cf_codeword_block_size c \<noteq> 0" "cf_blocks_used c \<noteq> 0" "cf_encoder c = Some e"
    using cf_buffer_MB_pos [OF assms(4,5)] cf_encodes_pos [OF assms(3)] assms(3,5) by (auto simp: cf_encodes_def)
  then have "CF_ExtractBufferUsingEncoder C (c, w) = ((c, w'), Inr 0)"
    using w'(1) by (simp add: CF_ExtractBufferUsingEncoder_def run_simps)
  with w' show ?thesis by blast
qed

context lsb_cover
begin

lemma load_any:
  assumes "cf_in_use p e a c" "st_ok a w" "n = Perm_GetSize p" "valid n m"
  shows "\<exists>c3 w3. gather n m (cf_reset c, w) = ((c3, w), Inr ()) \<and>
           CF_ExtractBufferUsingEncoder C (c3, w) = ((c3, w3), Inr 0) \<and> cf_same (cf_reset c) c3 \<and> mb_ok (cf_buffer c3) \<and>
           st_ok a w3 \<and> st_same a w w3"
proof -
  note u = assms(1) [unfolded cf_in_use_def] and r = cf_reset_correct [OF assms(1)]
  obtain c3 where c3: "gather n m (cf_reset c, w) = ((c3, w), Inr ())" "cf_same (cf_reset c) c3" "bits_ready p c3"
    using gather_run [OF r(1) assms(3,4) r(6)] by blast
  note f = cf_same_fields [OF c3(2)]
  have ok3: "mb_ok (cf_buffer c3)" using c3(3) by (simp add: bits_ready_def)
  have "cf_storage c3 = Some a" "0 < unat (cf_blocks_used c3)" using f u by simp_all
  then show ?thesis
    using CF_Extract_run [OF _ assms(2) cf_same_encodes [OF r(2) c3(2)] cf_same_room [OF r(3) c3(2) ok3], of C] c3 ok3 by blast
qed

end

text \<open>A carrier as \<open>LoadFile\<close> leaves it: all members but the contents of the buffer.\<close>

definition cf_loaded_as :: "permutation \<Rightarrow> carrier \<Rightarrow> carrier \<Rightarrow> bool" where
  "cf_loaded_as p c c3 \<longleftrightarrow>
     mb_ok (cf_buffer c3) \<and> mb_size (cf_buffer c3) = cf_raw_capacity c \<and> (\<exists>c2. cf_same (cf_reset (c\<lparr>cf_permutation := Some p\<rparr>)) c2 \<and> c3 = c2\<lparr>cf_file_loaded := True\<rparr>)"

lemma cf_loaded_as_fields:
  assumes "cf_loaded_as p c c3"
  shows "cf_storage c3 = cf_storage c" "cf_offset c3 = cf_offset c" "cf_blocks_used c3 = cf_blocks_used c"
    "cf_data_block_size c3 = cf_data_block_size c" "cf_codeword_block_size c3 = cf_codeword_block_size c"
    "cf_permutation c3 = Some p" "cf_encoder c3 = cf_encoder c" "cf_file c3 = cf_file c"
    "cf_class c3 = cf_class c" "cf_raw_capacity c3 = cf_raw_capacity c" "cf_width c3 = cf_width c" "cf_height c3 = cf_height c"
    "cf_file_loaded c3" "mb_ok (cf_buffer c3)" "mb_size (cf_buffer c3) = cf_raw_capacity c"
proof -
  show "mb_size (cf_buffer c3) = cf_raw_capacity c" using assms by (simp add: cf_loaded_as_def)
  obtain c2 where "cf_same (cf_reset (c\<lparr>cf_permutation := Some p\<rparr>)) c2" "c3 = c2\<lparr>cf_file_loaded := True\<rparr>" "mb_ok (cf_buffer c3)"
    using assms by (auto simp: cf_loaded_as_def)
  note f = cf_same_fields [OF this(1)] and this(2,3)
  then show "cf_storage c3 = cf_storage c" "cf_offset c3 = cf_offset c" "cf_blocks_used c3 = cf_blocks_used c"
    "cf_data_block_size c3 = cf_data_block_size c" "cf_codeword_block_size c3 = cf_codeword_block_size c"
    "cf_permutation c3 = Some p" "cf_encoder c3 = cf_encoder c" "cf_file c3 = cf_file c"
    "cf_class c3 = cf_class c" "cf_raw_capacity c3 = cf_raw_capacity c" "cf_width c3 = cf_width c" "cf_height c3 = cf_height c"
    "cf_file_loaded c3" "mb_ok (cf_buffer c3)"
    by simp_all
qed

lemma cf_loaded_as_in_use:
  "cf_loaded_as p c c3 \<Longrightarrow> cf_in_use p e a (c\<lparr>cf_permutation := Some p\<rparr>) \<Longrightarrow> cf_in_use p e a c3"
  using cf_loaded_as_fields [of p c c3] by (auto simp: cf_in_use_def cf_encodes_def cf_fits_def)

lemma cf_loaded_as_cover: "cf_loaded_as p c c3 \<Longrightarrow> cover_ok C p c3 content = cover_ok C p c content"
  using cf_loaded_as_fields [of p c c3] by (auto simp: cover_ok_def png_lossless_def split: carrier_class.splits option.splits)

lemma LoadFile_run:
  assumes "\<not> cf_file_loaded c" "cf_perm_after C c p" "cf_in_use p e a (c\<lparr>cf_permutation := Some p\<rparr>)" "st_ok a w"
      and "Open (w_files w) (cf_file c) = Inr content" "cover_ok C p c content"
  shows "\<exists>c3 w3. LoadFile C (c, w) = ((c3, w3), Inr ()) \<and> cf_loaded_as p c c3 \<and> st_ok a w3 \<and> st_same a w w3"
proof -
  let ?c = "c\<lparr>cf_permutation := Some p\<rparr>" and ?n = "Perm_GetSize p"
  note u = in_use_facts [OF assms(3)]
  have ini: "cf_init_permutation C (cf_raw_capacity c * 8) (c, w) = ((?c, w), Inr ())"
    by (rule cf_init_permutation_run [OF assms(2)])
  have ini0: "cf_init_permutation C (cf_raw_capacity c * 8) (cf_reset c, w) = ((cf_reset ?c, w), Inr ())"
    using cf_init_permutation_run [of C "cf_reset c" p w] assms(2) cf_reset_permutation [where c = c and p = p] by simp
  have rs: "cf_reset_buffer C (cf_raw_capacity c) (?c, w) = ((cf_reset ?c, w), Inr ())"
    using in_use_reset(1) [OF assms(3)] by simp
  have bits: "cf_bits_to_modify (cf_reset ?c, w) = ((cf_reset ?c, w), Inr ?n)"
    by (rule cf_bits_to_modify_run) simp
  have la: "mb_ok (cf_buffer c3) \<Longrightarrow> cf_same (cf_reset ?c) c3 \<Longrightarrow> cf_loaded_as p c (c3\<lparr>cf_file_loaded := True\<rparr>)" for c3
    using cf_same_fields(11) [of "cf_reset ?c" c3] cf_reset_correct(5) [OF assms(3)] by (auto simp: cf_loaded_as_def)
  show ?thesis
  proof (cases "cf_class c")
    case (BMP off sz)
    let ?L = "8 * unat (cf_raw_capacity c)"
    let ?m = "\<lparr>mb_buffer = Some (take ?L (drop (unat off) content)), mb_size = cf_raw_capacity c * 8\<rparr>"
    have l: "unat off + ?L \<le> length content" using assms(6) BMP by (simp add: cover_ok_def)
    have r8: "unat (cf_raw_capacity c * 8) = ?L" using u(3) by (simp add: unat_simps)
    have rd: "bmp_read C c content = Inr ?m" using bmp_read_correct [OF BMP _ _ l] u(2,3) by simp
    have "mb_ok ?m \<and> unat ?n \<le> unat (mb_size ?m) \<and> mb_size ?m = cf_raw_capacity c * 8"
      using l u(4) r8 by (simp add: mb_ok_def)
    then obtain c3 w3 where g: "cf_gather (\<lambda>i. MB_index ?m (word_of_nat i)) (unat ?n) (cf_reset ?c, w) = ((c3, w), Inr ())"
        "CF_ExtractBufferUsingEncoder C (c3, w) = ((c3, w3), Inr 0)" "cf_same (cf_reset ?c) c3" "mb_ok (cf_buffer c3)" "st_ok a w3" "st_same a w w3"
      using bmp.load_any [OF assms(3,4) refl, where C = C] by blast
    have "LoadFile C (c, w) = ((c3\<lparr>cf_file_loaded := True\<rparr>, w3), Inr ())"
      unfolding LoadFile_class(1) [of "(c, w)", simplified, OF BMP] BMP_LoadFile_def cf_open_def
      using assms(1,5) rd in_use_reset(2) [OF assms(3)] ini0 bits g(1,2) by (simp add: run_simps)
    with g la show ?thesis by blast
  next
    case PNG
    obtain img where img: "c_png_decode C content = Some img" "unat ?n \<le> length img" "length content < 2 ^ 32"
      using assms(6) by (auto simp: cover_ok_def PNG split: option.splits)
    then obtain c3 w3 where g: "cf_gather (image_at img) (unat ?n) (cf_reset ?c, w) = ((c3, w), Inr ())"
        "CF_ExtractBufferUsingEncoder C (c3, w) = ((c3, w3), Inr 0)" "cf_same (cf_reset ?c) c3" "mb_ok (cf_buffer c3)" "st_ok a w3" "st_same a w w3"
      using png.load_any [OF assms(3,4) refl, where C = C] by blast
    have "LoadFile C (c, w) = ((c3\<lparr>cf_file_loaded := True\<rparr>, w3), Inr ())"
      unfolding LoadFile_class(2) [of "(c, w)", simplified, OF PNG] PNG_LoadFile_def cf_open_def
      using assms(1,5) png_read_correct [OF img(3,1)] ini rs bits g(1,2) by (simp add: run_simps)
    with g la show ?thesis by blast
  next
    case JPEG
    obtain bs where bs: "c_jpeg_read C content = Some bs" "unat ?n \<le> length (usable_coeffs bs)"
      using assms(6) by (auto simp: cover_ok_def JPEG split: option.splits)
    have "unat ?n < 2 ^ 32" using u(3,4) by simp
    then have "0 < unat ?n \<and> unat ?n < 2 ^ 32 \<and> unat ?n \<le> length (usable_coeffs bs) \<and> coefs_high bs = coefs_high bs" using u(5) bs(2) by simp
    then obtain c3 w3 where g: "jpeg_gather ?n (ac_coeffs bs) 0 (cf_reset ?c, w) = ((c3, w), Inr ())"
        "CF_ExtractBufferUsingEncoder C (c3, w) = ((c3, w3), Inr 0)" "cf_same (cf_reset ?c) c3" "mb_ok (cf_buffer c3)" "st_ok a w3" "st_same a w w3"
      using jpeg.load_any [OF assms(3,4) refl, where C = C] by blast
    have "LoadFile C (c, w) = ((c3\<lparr>cf_file_loaded := True\<rparr>, w3), Inr ())"
      unfolding LoadFile_class(3) [of "(c, w)", simplified, OF JPEG] JPEG_LoadFile_def cf_open_def
      using assms(1,5) bs(1) ini rs bits g(1,2) by (simp add: run_simps jpeg_read_def)
    with g la show ?thesis by blast
  qed
qed

section \<open>The layout of the storage over the carriers\<close>

text \<open>A carrier with its part of the storage, and the list the loop of \<open>LoadVirtualStorage\<close> makes.\<close>

definition place :: "nat \<Rightarrow> u64 \<Rightarrow> u64 \<Rightarrow> carrier \<Rightarrow> carrier" where
  "place a offset bytes_used c =
     c\<lparr>cf_storage := Some a, cf_offset := offset,
       cf_blocks_used := (if bytes_used = 0 then 0 else ucast ((bytes_used - 1) div ucast (cf_data_block_size c) + 1))\<rparr>"

fun placed :: "nat \<Rightarrow> u64 \<Rightarrow> u64 \<Rightarrow> carrier list \<Rightarrow> carrier list" where
  "placed a offset rest [] = []"
| "placed a offset rest (c # cs) =
     place a offset (min rest (cf_capacity c)) c #
     placed a (offset + cf_capacity c) (rest - min rest (cf_capacity c)) cs"

lemma allocate_placed:
  "\<forall>c \<in> set cs. cf_data_block_size c \<noteq> 0 \<Longrightarrow> allocate a offset rest cs = (placed a offset rest cs, Inr ())"
proof (induction cs arbitrary: offset rest)
  case (Cons c cs)
  have "CF_AddToVirtualStorage (Some a) offset (min rest (cf_capacity c)) c = Inr (place a offset (min rest (cf_capacity c)) c)"
    using Cons.prems by (simp add: CF_AddToVirtualStorage_def place_def Let_def)
  moreover have "(if rest > cf_capacity c then cf_capacity c else rest) = min rest (cf_capacity c)"
    "(if rest > cf_capacity c then rest - cf_capacity c else 0) = rest - min rest (cf_capacity c)"
    by (auto simp: min_def not_less)
  ultimately show ?case using Cons by (simp add: Let_def)
qed simp

lemma placed_again: "placed a' offset rest cs = map (\<lambda>d. d\<lparr>cf_storage := Some a'\<rparr>) (placed a offset rest cs)"
  by (induction cs arbitrary: offset rest) (simp_all add: place_def)

lemma length_placed [simp]: "length (placed a offset rest cs) = length cs"
  by (induction cs arbitrary: offset rest) simp_all

definition room :: "carrier list \<Rightarrow> nat" where
  "room cs = sum_list (map (\<lambda>c. unat (cf_capacity c)) cs)"

lemma room_simps [simp]: "room [] = 0" "room (c # cs) = unat (cf_capacity c) + room cs" "room (cs @ ds) = room cs + room ds"
  by (simp_all add: room_def)

text \<open>The blocks a carrier under its encoder has room for.\<close>

definition cf_blocks :: "carrier \<Rightarrow> nat \<Rightarrow> bool" where
  "cf_blocks c n \<longleftrightarrow> unat (cf_capacity c) = n * unat (cf_data_block_size c) \<and> 0 < unat (cf_data_block_size c) \<and> n < 2 ^ 32"

lemma place_blocks:
  assumes "cf_blocks c n" "0 < unat used" "unat used \<le> unat (cf_capacity c)"
  shows "0 < unat (cf_blocks_used (place a offset used c))" "unat (cf_blocks_used (place a offset used c)) \<le> n"
    "unat used \<le> unat (cf_blocks_used (place a offset used c)) * unat (cf_data_block_size c)"
    "unat (cf_blocks_used (place a offset used c)) * unat (cf_data_block_size c) < unat used + unat (cf_data_block_size c)"
proof -
  let ?k = "unat (cf_data_block_size c)" and ?u = "unat used"
  let ?b = "(?u - 1) div ?k + 1"
  have k: "0 < ?k" "?u \<le> n * ?k" "n < 2 ^ 32" using assms by (simp_all add: cf_blocks_def)
  have bn: "?b \<le> n" using k assms(2) by (simp add: div_less_iff_less_mult Suc_le_eq)
  have "unat (used - 1) = ?u - 1" using assms(2) by (simp add: unat_simps)
  then have "unat ((used - 1) div ucast (cf_data_block_size c) + 1) = ?b"
    using bn k(3) by (simp add: unat_simps unat_div unat_ucast_u32_u64)
  moreover have "used \<noteq> 0" using assms(2) by auto
  ultimately have b: "unat (cf_blocks_used (place a offset used c)) = ?b"
    using bn k(3) by (simp add: place_def unsigned_ucast_eq take_bit_nat_eq_self)
  have e: "(?u - 1) div ?k * ?k + (?u - 1) mod ?k = ?u - 1" "(?u - 1) mod ?k < ?k" using k(1) by simp_all
  show "0 < unat (cf_blocks_used (place a offset used c))" "unat (cf_blocks_used (place a offset used c)) \<le> n" using b bn by simp_all
  show "?u \<le> unat (cf_blocks_used (place a offset used c)) * ?k"
    "unat (cf_blocks_used (place a offset used c)) * ?k < ?u + ?k"
    unfolding b add_mult_distrib using e assms(2) by linarith+
qed

text \<open>
  Every carrier gets at least one block when the storage reaches into the last one; the parts lie behind each
  other, and together they cover the storage.
\<close>

lemma placed_each:
  assumes "\<forall>c \<in> set cs. \<exists>n. cf_blocks c n" "unat offset + room cs < 2 ^ 64" "room (butlast cs) < unat rest"
      and "i < length cs" "0 < unat (cf_capacity (last cs))"
  shows "\<exists>used. placed a offset rest cs ! i = place a (offset + word_of_nat (room (take i cs))) used (cs ! i) \<and>
           unat used = min (unat rest - room (take i cs)) (unat (cf_capacity (cs ! i))) \<and> (0 < unat (cf_capacity (cs ! i)) \<longrightarrow> 0 < unat used)"
  using assms
proof (induction cs arbitrary: offset rest i)
  case (Cons c cs)
  have m: "unat (min rest (cf_capacity c)) = min (unat rest) (unat (cf_capacity c))"
    by (simp add: min_def word_le_nat_alt)
  show ?case
  proof (cases i)
    case 0
    then show ?thesis using m Cons.prems(3) by (intro exI [of _ "min rest (cf_capacity c)"]) auto
  next
    case (Suc j)
    then have cs: "cs \<noteq> []" "j < length cs" using Cons.prems(4) by auto
    have o: "unat (offset + cf_capacity c) = unat offset + unat (cf_capacity c)"
      using Cons.prems(2) by (simp add: unat_simps)
    have r: "unat (rest - min rest (cf_capacity c)) = unat rest - unat (cf_capacity c)"
    proof -
      have "min rest (cf_capacity c) \<le> rest" by simp
      then have "unat (rest - min rest (cf_capacity c)) = unat rest - unat (min rest (cf_capacity c))"
        by (simp add: unat_sub)
      then show ?thesis using m by simp
    qed
    have l: "unat (cf_capacity c) + room (butlast cs) < unat rest" using Cons.prems(3) cs(1) by simp
    let ?o = "offset + cf_capacity c" and ?r = "rest - min rest (cf_capacity c)"
    have p: "\<forall>c \<in> set cs. \<exists>n. cf_blocks c n" "unat ?o + room cs < 2 ^ 64" "room (butlast cs) < unat ?r" "0 < unat (cf_capacity (last cs))"
      subgoal using Cons.prems(1) by simp
      subgoal using Cons.prems(2) o by simp
      subgoal using l r by simp
      subgoal using Cons.prems(5) cs(1) by simp
      done
    from Cons.IH [OF p(1-3) cs(2) p(4)] obtain used where u: "placed a ?o ?r cs ! j = place a (?o + word_of_nat (room (take j cs))) used (cs ! j)"
        "unat used = min (unat ?r - room (take j cs)) (unat (cf_capacity (cs ! j)))" "0 < unat (cf_capacity (cs ! j)) \<longrightarrow> 0 < unat used"
      by (elim exE conjE)
    have "placed a offset rest (c # cs) ! i = place a (offset + word_of_nat (room (take i (c # cs)))) used ((c # cs) ! i)"
      using u(1) Suc by (simp add: add.assoc)
    moreover have "unat used = min (unat rest - room (take i (c # cs))) (unat (cf_capacity ((c # cs) ! i)))"
      using u(2) Suc r by simp
    ultimately show ?thesis using u(3) Suc by auto
  qed
qed simp

lemma room_take_less: "i < length cs \<Longrightarrow> room (take i cs) + unat (cf_capacity (cs ! i)) \<le> room cs"
proof -
  assume i: "i < length cs"
  then have "cs = take i cs @ cs ! i # drop (Suc i) cs" by (simp add: id_take_nth_drop)
  then have "room cs = room (take i cs @ cs ! i # drop (Suc i) cs)" by simp
  then show ?thesis by simp
qed

text \<open>Every position below the sum lies in the part of one carrier.\<close>

lemma room_position: "q < room cs \<Longrightarrow> \<exists>i < length cs. room (take i cs) \<le> q \<and> q < room (take i cs) + unat (cf_capacity (cs ! i))"
proof (induction cs arbitrary: q)
  case (Cons c cs)
  show ?case
  proof (cases "q < unat (cf_capacity c)")
    case True
    then show ?thesis by (intro exI [of _ 0]) simp
  next
    case False
    then have "q - unat (cf_capacity c) < room cs" using Cons.prems by auto
    then obtain i where i: "i < length cs" "room (take i cs) \<le> q - unat (cf_capacity c)"
        "q - unat (cf_capacity c) < room (take i cs) + unat (cf_capacity (cs ! i))"
      using Cons.IH by blast
    then show ?thesis using False by (intro exI [of _ "Suc i"]) auto
  qed
qed simp

definition in_slice :: "carrier \<Rightarrow> nat \<Rightarrow> bool" where
  "in_slice d q \<longleftrightarrow> unat (cf_offset d) \<le> q \<and> q < unat (cf_offset d) + unat (cf_blocks_used d) * unat (cf_data_block_size d)"

lemma placed_at:
  assumes "\<forall>c \<in> set cs. 0 < unat (cf_capacity c) \<and> (\<exists>n. cf_blocks c n)" "room cs < 2 ^ 64" "room (butlast cs) < unat rest"
      and "i < length cs"
  shows "\<exists>used. placed a 0 rest cs ! i = place a (word_of_nat (room (take i cs))) used (cs ! i) \<and>
           unat used = min (unat rest - room (take i cs)) (unat (cf_capacity (cs ! i))) \<and> 0 < unat used \<and>
           unat (word_of_nat (room (take i cs)) :: u64) = room (take i cs)"
proof -
  have "cs \<noteq> []" using assms(4) by auto
  then have l: "0 < unat (cf_capacity (last cs))" "0 < unat (cf_capacity (cs ! i))" using assms(1,4) by simp_all
  have "room (take i cs) < 2 ^ 64" using room_take_less [OF assms(4)] assms(2) by linarith
  then have "unat (word_of_nat (room (take i cs)) :: u64) = room (take i cs)" by (simp add: unat_of_nat_u64)
  with placed_each [of cs 0 rest i a] assms l show ?thesis by auto
qed

lemma placed_covers:
  assumes "\<forall>c \<in> set cs. 0 < unat (cf_capacity c) \<and> (\<exists>n. cf_blocks c n)" "room cs < 2 ^ 64" "room (butlast cs) < unat rest"
      and "q < unat rest" "unat rest \<le> room cs"
  shows "\<exists>i < length cs. in_slice (placed a 0 rest cs ! i) q"
proof -
  obtain i where i: "i < length cs" "room (take i cs) \<le> q" "q < room (take i cs) + unat (cf_capacity (cs ! i))"
    using room_position [of q cs] assms(4,5) by auto
  obtain used where u: "placed a 0 rest cs ! i = place a (word_of_nat (room (take i cs))) used (cs ! i)"
      "unat used = min (unat rest - room (take i cs)) (unat (cf_capacity (cs ! i)))" "0 < unat used"
      "unat (word_of_nat (room (take i cs)) :: u64) = room (take i cs)"
    using placed_at [OF assms(1-3) i(1)] by blast
  obtain n where n: "cf_blocks (cs ! i) n" using assms(1) i(1) by force
  have "unat used \<le> unat (cf_blocks_used (place a (word_of_nat (room (take i cs))) used (cs ! i))) * unat (cf_data_block_size (cs ! i))"
    using place_blocks(3) [OF n u(3)] u(2) by simp
  moreover have "q < room (take i cs) + unat used" using u(2) i(2,3) assms(4) by auto
  ultimately have "in_slice (place a (word_of_nat (room (take i cs))) used (cs ! i)) q"
    using u(4) i(2) by (auto simp: in_slice_def place_def)
  then show ?thesis using u(1) i(1) by metis
qed

section \<open>The tasks\<close>

text \<open>A carrier that can be loaded: with its place in the storage, and its file a cover.\<close>

definition cf_set_up :: "cenv \<Rightarrow> encoder \<Rightarrow> nat \<Rightarrow> files \<Rightarrow> carrier \<Rightarrow> bool" where
  "cf_set_up C e a fs d \<longleftrightarrow>
     (\<exists>p content. \<not> cf_file_loaded d \<and> cf_perm_after C d p \<and> cf_in_use p e a (d\<lparr>cf_permutation := Some p\<rparr>) \<and>
        Open fs (cf_file d) = Inr content \<and> cover_ok C p d content)"

definition cf_loaded_from :: "cenv \<Rightarrow> carrier \<Rightarrow> carrier \<Rightarrow> bool" where
  "cf_loaded_from C d d3 \<longleftrightarrow> (\<exists>p. cf_perm_after C d p \<and> cf_loaded_as p d d3)"

lemma cf_perm_after_unique: "cf_perm_after C c p \<Longrightarrow> cf_perm_after C c p' \<Longrightarrow> p' = p"
  by (auto simp: cf_perm_after_def split: if_splits)

lemma load_tasks:
  assumes "\<forall>d \<in> set ds. cf_set_up C e a (w_files w) d" "st_ok a w"
  shows "\<exists>ds3 w3 rs. run_tasks (LoadFile C) ds w = (ds3, w3, rs) \<and> get_results rs = Inr () \<and>
           list_all2 (cf_loaded_from C) ds ds3 \<and> st_ok a w3 \<and> st_same a w w3"
  using assms
proof (induction ds arbitrary: w)
  case (Cons d ds)
  obtain p content where s: "\<not> cf_file_loaded d" "cf_perm_after C d p" "cf_in_use p e a (d\<lparr>cf_permutation := Some p\<rparr>)"
      "Open (w_files w) (cf_file d) = Inr content" "cover_ok C p d content"
    using Cons.prems(1) by (auto simp: cf_set_up_def)
  obtain d3 w1 where d: "LoadFile C (d, w) = ((d3, w1), Inr ())" "cf_loaded_as p d d3" "st_ok a w1" "st_same a w w1"
    using LoadFile_run [OF s(1-3) Cons.prems(2) s(4,5)] by blast
  have "\<forall>d \<in> set ds. cf_set_up C e a (w_files w1) d" using Cons.prems(1) d(4) by (simp add: st_same_def)
  then obtain ds3 w3 rs where r: "run_tasks (LoadFile C) ds w1 = (ds3, w3, rs)" "get_results rs = Inr ()"
      "list_all2 (cf_loaded_from C) ds ds3" "st_ok a w3" "st_same a w1 w3"
    using Cons.IH [OF _ d(3)] by blast
  have "cf_loaded_from C d d3" using d(2) s(2) by (auto simp: cf_loaded_from_def)
  then show ?case using d r st_same_trans [OF d(4) r(5)]
    by (intro exI [of _ "d3 # ds3"] exI [of _ w3] exI [of _ "Inr () # rs"]) auto
qed simp

lemma reloads_storages: "w_storages w' = w_storages w \<Longrightarrow> reloads C p e a c w' content = reloads C p e a c w content"
  by (simp add: reloads_def st_byte_def)

definition file_paths :: "carrier list \<Rightarrow> string list" where
  "file_paths ds = map (\<lambda>d. GetAbsolutePath (cf_file d)) ds"

lemma file_paths_simps [simp]: "file_paths [] = []" "file_paths (d # ds) = GetAbsolutePath (cf_file d) # file_paths ds"
  by (simp_all add: file_paths_def)

text \<open>Saving changes the file of each carrier, so that it loads again, and nothing else.\<close>

lemma save_tasks:
  assumes "\<forall>d \<in> set ds. \<exists>p content. cf_in_use p e a d \<and> cf_file_loaded d \<and> Open (w_files w) (cf_file d) = Inr content \<and> cover_ok C p d content"
      and "st_ok a w" "distinct (file_paths ds)"
  shows "\<exists>ds3 w3 rs. run_tasks (SaveFile C) ds w = (ds3, w3, rs) \<and> get_results rs = Inr () \<and> w_storages w3 = w_storages w \<and>
           (\<forall>x. x \<notin> set (file_paths ds) \<longrightarrow> w_files w3 x = w_files w x) \<and>
           (\<forall>d \<in> set ds. \<exists>content. Open (w_files w3) (cf_file d) = Inr content \<and>
              (\<forall>p. cf_in_use p e a d \<longrightarrow> reloads C p e a d w content))"
  using assms
proof (induction ds arbitrary: w)
  case (Cons d ds)
  obtain p content where s: "cf_in_use p e a d" "cf_file_loaded d" "Open (w_files w) (cf_file d) = Inr content" "cover_ok C p d content"
    using Cons.prems(1) by auto
  let ?x = "GetAbsolutePath (cf_file d)"
  obtain d3 content' where d: "SaveFile C (d, w) = ((d3, w\<lparr>w_files := set_content (cf_file d) content' (w_files w)\<rparr>), Inr ())"
      "reloads C p e a d w content'"
    using SaveFile_run [OF s(1,2) Cons.prems(2) s(3,4)] by blast
  let ?w = "w\<lparr>w_files := set_content (cf_file d) content' (w_files w)\<rparr>"
  have o: "Open (w_files ?w) (cf_file d') = Open (w_files w) (cf_file d')" if "d' \<in> set ds" for d'
  proof -
    have "GetAbsolutePath (cf_file d') \<noteq> ?x" using that Cons.prems(3) by (auto simp: file_paths_def image_iff)
    then show ?thesis by (simp add: Open_def set_content_def)
  qed
  have "\<forall>d \<in> set ds. \<exists>p content. cf_in_use p e a d \<and> cf_file_loaded d \<and> Open (w_files ?w) (cf_file d) = Inr content \<and> cover_ok C p d content"
    using Cons.prems(1) o by simp
  moreover have "st_ok a ?w" using Cons.prems(2) by (simp add: st_ok_def)
  ultimately obtain ds3 w3 rs where r: "run_tasks (SaveFile C) ds ?w = (ds3, w3, rs)" "get_results rs = Inr ()"
      "w_storages w3 = w_storages ?w" "\<forall>x. x \<notin> set (file_paths ds) \<longrightarrow> w_files w3 x = w_files ?w x"
      "\<forall>d \<in> set ds. \<exists>content. Open (w_files w3) (cf_file d) = Inr content \<and> (\<forall>p. cf_in_use p e a d \<longrightarrow> reloads C p e a d ?w content)"
    using Cons.IH [of ?w] Cons.prems(3) by auto
  have "?x \<notin> set (file_paths ds)" using Cons.prems(3) by simp
  then have "Open (w_files w3) (cf_file d) = Inr content'" using r(4) by (simp add: Open_def set_content_def)
  moreover have "p' = p" if "cf_in_use p' e a d" for p' using that s(1) by (simp add: cf_in_use_def)
  ultimately have "\<exists>content. Open (w_files w3) (cf_file d) = Inr content \<and> (\<forall>p. cf_in_use p e a d \<longrightarrow> reloads C p e a d w content)"
    using d(2) by blast
  moreover have "\<forall>d \<in> set ds. \<exists>content. Open (w_files w3) (cf_file d) = Inr content \<and> (\<forall>p. cf_in_use p e a d \<longrightarrow> reloads C p e a d w content)"
    using r(5) reloads_storages [of ?w w] by simp
  moreover have "\<forall>x. x \<notin> set (file_paths (d # ds)) \<longrightarrow> w_files w3 x = w_files w x" using r(4) by (simp add: set_content_def)
  ultimately show ?case using d(1) r(1-3) by (intro exI [of _ "d3 # ds3"] exI [of _ w3] exI [of _ "Inr () # rs"]) auto
qed simp

text \<open>A carrier whose file holds what another one with the same layout saved from storage \<open>a0\<close> of \<open>w2\<close>.\<close>

definition comes_back :: "cenv \<Rightarrow> encoder \<Rightarrow> nat \<Rightarrow> nat \<Rightarrow> world \<Rightarrow> files \<Rightarrow> carrier \<Rightarrow> bool" where
  "comes_back C e a a0 w2 fs d \<longleftrightarrow>
     (\<exists>p d3 content. reloads C p e a0 d3 w2 content \<and> \<not> cf_file_loaded d \<and> cf_class d = cf_class d3 \<and>
        cf_raw_capacity d = cf_raw_capacity d3 \<and> cf_perm_after C d p \<and> cf_in_use p e a (d\<lparr>cf_permutation := Some p\<rparr>) \<and>
        cf_layout d3 d \<and> Open fs (cf_file d) = Inr content)"

lemma reload_tasks:
  assumes "\<forall>d \<in> set ds. comes_back C e a a0 w2 (w_files w) d" "st_ok a w"
  shows "\<exists>ds3 w3 rs. run_tasks (LoadFile C) ds w = (ds3, w3, rs) \<and> get_results rs = Inr () \<and> st_ok a w3 \<and> st_same a w w3 \<and>
           (\<forall>q. st_byte a w3 q = (if (\<exists>d \<in> set ds. in_slice d (unat q)) \<and> unat q < st_capacity a w then st_byte a0 w2 q else st_byte a w q))"
  using assms
proof (induction ds arbitrary: w)
  case (Cons d ds)
  obtain p d2 content where s: "reloads C p e a0 d2 w2 content" "\<not> cf_file_loaded d" "cf_class d = cf_class d2"
      "cf_raw_capacity d = cf_raw_capacity d2" "cf_perm_after C d p" "cf_in_use p e a (d\<lparr>cf_permutation := Some p\<rparr>)"
      "cf_layout d2 d" "Open (w_files w) (cf_file d) = Inr content"
    using Cons.prems(1) by (auto simp: comes_back_def)
  obtain d3 w1 where d: "LoadFile C (d, w) = ((d3, w1), Inr ())" "st_ok a w1" "st_same a w w1"
      "\<And>q. st_byte a w1 q =
         (if unat (cf_offset d2) \<le> unat q \<and> unat q < unat (cf_offset d2) + unat (cf_blocks_used d2) * unat (cf_data_block_size d2) \<and>
             unat q < st_capacity a w
          then st_byte a0 w2 q else st_byte a w q)"
    using s(1) [unfolded reloads_def] s(2-8) Cons.prems(2) by blast
  have sl: "(unat (cf_offset d2) \<le> x \<and> x < unat (cf_offset d2) + unat (cf_blocks_used d2) * unat (cf_data_block_size d2)) = in_slice d x" for x
    using s(7) by (auto simp: in_slice_def cf_layout_def)
  have "\<forall>d \<in> set ds. comes_back C e a a0 w2 (w_files w1) d" using Cons.prems(1) d(3) by (simp add: st_same_def)
  then obtain ds3 w3 rs where r: "run_tasks (LoadFile C) ds w1 = (ds3, w3, rs)" "get_results rs = Inr ()" "st_ok a w3" "st_same a w1 w3"
      "\<And>q. st_byte a w3 q = (if (\<exists>d \<in> set ds. in_slice d (unat q)) \<and> unat q < st_capacity a w1 then st_byte a0 w2 q else st_byte a w1 q)"
    using Cons.IH [OF _ d(2)] by blast
  have "st_byte a w3 q = (if (\<exists>d \<in> set (d # ds). in_slice d (unat q)) \<and> unat q < st_capacity a w then st_byte a0 w2 q else st_byte a w q)" for q
    unfolding r(5) d(4) st_same_capacity [OF d(3)] using sl by auto
  then show ?case using d(1) r(1-3) st_same_trans [OF d(3) r(4)]
    by (intro exI [of _ "d3 # ds3"] exI [of _ w3] exI [of _ "Inr () # rs"]) auto
qed simp

section \<open>Equal bytes\<close>

lemma vs_bytes_eq:
  assumes "vs_ok vs" "vs_ok vs'" "vs_permutation vs' = vs_permutation vs"
      and "\<And>q. unat q < unat (vs_raw_capacity vs) \<Longrightarrow> vs.byte_at vs' q = vs.byte_at vs q"
  shows "vs_bytes vs' = vs_bytes vs \<and> vs_usable_capacity vs' = vs_usable_capacity vs"
proof -
  obtain f b where v: "vs_permutation vs = Some f" "vs_data vs = Some b" "perm_ok f" "mb_ok b" "mb_size b = Perm_GetSize f"
      "vs_raw_capacity vs = Perm_GetSize f" using assms(1) by (elim vs_okE)
  obtain f' b' where v': "vs_permutation vs' = Some f'" "vs_data vs' = Some b'" "perm_ok f'" "mb_ok b'" "mb_size b' = Perm_GetSize f'"
      "vs_raw_capacity vs' = Perm_GetSize f'" using assms(2) by (elim vs_okE)
  have f: "f' = f" using assms(3) v(1) v'(1) by simp
  have u: "vs_usable_capacity vs = Perm_GetSize f - 32" "vs_usable_capacity vs' = Perm_GetSize f - 32"
    using assms(1,2) v(1) v'(1) f by (auto simp: vs_ok_def)
  have byte: "vs.byte_at x (word_of_nat i) = vs_bytes x ! perm.pos f i"
    if x: "vs_permutation x = Some f" "vs_data x = Some y" "mb_ok y" "mb_size y = Perm_GetSize f" "vs_raw_capacity x = Perm_GetSize f"
      and i: "i < unat (Perm_GetSize f)" for x y i
  proof -
    have iu: "unat (word_of_nat i :: u64) = i" using i unat_of_nat_below by blast
    have pp: "Perm_Permute f (word_of_nat i) = Inr (word_of_nat (perm.pos f i))" "perm.pos f i < unat (Perm_GetSize f)"
      using perm.permute_pos [OF v(3) i] perm.pos_less [OF v(3) i] by simp_all
    have "unat (word_of_nat (perm.pos f i) :: u64) = perm.pos f i" using pp(2) unat_of_nat_below by blast
    then have "VS_ReadByte x (word_of_nat i) = Inr (vs_bytes x ! perm.pos f i)"
      using x pp i iu by (simp add: VS_ReadByte_def vs_buffer_def MB_index_correct vs_bytes_def word_le_nat_alt)
    then show ?thesis by (simp add: vs.byte_at_def vs.get_caught_def)
  qed
  have "vs_bytes vs' = vs_bytes vs"
  proof (rule nth_equalityI)
    show "length (vs_bytes vs') = length (vs_bytes vs)" using vs_capacity(3) [OF assms(1)] vs_capacity(3) [OF assms(2)] v(6) v'(6) f by simp
    fix j assume "j < length (vs_bytes vs')"
    then have "j < unat (Perm_GetSize f)" using vs_capacity(3) [OF assms(2)] v'(6) f by simp
    then have "j \<in> perm.pos f ` {..<unat (Perm_GetSize f)}" using perm.bij_pos [OF v(3)] by (simp add: bij_betw_def)
    then obtain i where i: "i < unat (Perm_GetSize f)" "j = perm.pos f i" by blast
    have "unat (word_of_nat i :: u64) = i" using i(1) unat_of_nat_below by blast
    then have "vs.byte_at vs' (word_of_nat i) = vs.byte_at vs (word_of_nat i)" using assms(4) i(1) v(6) by simp
    then show "vs_bytes vs' ! j = vs_bytes vs ! j" using byte [of vs b i] byte [of vs' b' i] v v' f i by simp
  qed
  with u show ?thesis by simp
qed

section \<open>A session\<close>

text \<open>A storage with a permutation that is not applied yet, and one with it applied.\<close>

definition new_vs :: "permutation \<Rightarrow> vstore" where
  "new_vs q = VirtualStorage\<lparr>vs_permutation := Some q\<rparr>"

lemma new_vs_made: "VS_SetPermutation (Some q) VirtualStorage = Inr (new_vs q)"
  by (simp add: VS_SetPermutation_def new_vs_def VirtualStorage_def VS_Init_def)

definition vs_applied :: "env \<Rightarrow> permutation \<Rightarrow> permutation \<Rightarrow> vstore" where
  "vs_applied E q p =
     (new_vs q)\<lparr>vs_permutation := Some p, vs_data := Some (MB_new_sized (e_garbage E) (Perm_GetSize p)),
               vs_raw_capacity := Perm_GetSize p, vs_usable_capacity := Perm_GetSize p - 32, vs_is_set := True\<rparr>"

lemma VS_Apply_run:
  assumes "Perm_Init E n k q = (p, Inr ())" "32 < Perm_GetSize p" "n \<le> 0xFFFFFFFF"
  shows "VS_ApplyPermutation E n k (new_vs q) = (vs_applied E q p, Inr ())" "vs_ok (vs_applied E q p)"
    "vs_raw_capacity (vs_applied E q p) = Perm_GetSize p" "Perm_GetSize p \<le> n"
proof -
  have "Perm_GetSize p \<noteq> 0" "\<not> Perm_GetSize p \<le> 32" using assms(2) by auto
  then show r: "VS_ApplyPermutation E n k (new_vs q) = (vs_applied E q p, Inr ())"
    using assms(1) by (simp add: VS_ApplyPermutation_def new_vs_def vs_applied_def StorageHashLenght_def Let_def)
  show "vs_raw_capacity (vs_applied E q p) = Perm_GetSize p" by (simp add: vs_applied_def)
  then show "vs_ok (vs_applied E q p)" "Perm_GetSize p \<le> n" using VS_Apply_ok [OF r assms(3)] by simp_all
qed

text \<open>
  What \<open>ApplyEncoder\<close> leaves of a carrier that has not been loaded: its blocks fit into the permuted bits,
  and its file is a cover.
\<close>

definition cf_idle :: "cenv \<Rightarrow> encoder \<Rightarrow> files \<Rightarrow> carrier \<Rightarrow> bool" where
  "cf_idle C e fs c \<longleftrightarrow>
     (\<exists>p n content. \<not> cf_file_loaded c \<and> cf_perm_after C c p \<and> perm_ok p \<and> cf_encodes e c \<and> mb_ok (cf_buffer c) \<and>
        unat (mb_size (cf_buffer c)) < 2 ^ 32 \<and> cf_blocks c n \<and> 0 < n \<and> 8 * (n * unat (cf_codeword_block_size c)) \<le> unat (Perm_GetSize p) \<and>
        unat (Perm_GetSize p) \<le> 8 * unat (cf_raw_capacity c) \<and> 8 * unat (cf_raw_capacity c) < 2 ^ 32 \<and>
        Open fs (cf_file c) = Inr content \<and> cover_ok C p c content)"

lemma cf_idle_capacity: "cf_idle C e fs c \<Longrightarrow> 0 < unat (cf_capacity c) \<and> (\<exists>n. cf_blocks c n)"
  by (auto simp: cf_idle_def cf_blocks_def)

lemma place_fields [simp]:
  "cf_class (place a o1 u c) = cf_class c" "cf_permutation (place a o1 u c) = cf_permutation c" "cf_subkey (place a o1 u c) = cf_subkey c"
  "cf_encoder (place a o1 u c) = cf_encoder c" "cf_storage (place a o1 u c) = Some a"
  "cf_data_block_size (place a o1 u c) = cf_data_block_size c" "cf_codeword_block_size (place a o1 u c) = cf_codeword_block_size c"
  "cf_raw_capacity (place a o1 u c) = cf_raw_capacity c" "cf_offset (place a o1 u c) = o1" "cf_file (place a o1 u c) = cf_file c"
  "cf_file_loaded (place a o1 u c) = cf_file_loaded c" "cf_width (place a o1 u c) = cf_width c" "cf_height (place a o1 u c) = cf_height c"
  "cf_buffer (place a o1 u c) = cf_buffer c"
  by (simp_all add: place_def)

lemma cf_perm_after_storage: "cf_perm_after C (c\<lparr>cf_storage := s\<rparr>) p = cf_perm_after C c p"
  by (simp add: cf_perm_after_def)

lemma place_perm [simp]: "cf_perm_after C (place a o1 u c) p = cf_perm_after C c p"
  by (simp add: cf_perm_after_def)

lemma place_cover [simp]: "cover_ok C p (place a o1 u c) content = cover_ok C p c content"
proof -
  have "png_lossless C (place a o1 u c) = png_lossless C c" by (simp add: png_lossless_def fun_eq_iff)
  then show ?thesis by (simp add: cover_ok_def split: carrier_class.split option.split)
qed

lemma place_set_up:
  assumes "cf_idle C e fs c" "0 < unat used" "unat used \<le> unat (cf_capacity c)" "unat o1 + unat (cf_capacity c) < 2 ^ 64"
  shows "cf_set_up C e a fs (place a o1 used c)"
proof -
  obtain p n content where i: "\<not> cf_file_loaded c" "cf_perm_after C c p" "perm_ok p" "cf_encodes e c" "mb_ok (cf_buffer c)"
      "cf_blocks c n" "8 * (n * unat (cf_codeword_block_size c)) \<le> unat (Perm_GetSize p)"
      "unat (Perm_GetSize p) \<le> 8 * unat (cf_raw_capacity c)" "8 * unat (cf_raw_capacity c) < 2 ^ 32"
      "Open fs (cf_file c) = Inr content" "cover_ok C p c content" "unat (mb_size (cf_buffer c)) < 2 ^ 32"
    using assms(1) by (auto simp: cf_idle_def)
  let ?d = "place a o1 used c"
  note b = place_blocks [OF i(6) assms(2,3), of a o1]
  have "unat (cf_blocks_used ?d) * unat (cf_codeword_block_size c) \<le> n * unat (cf_codeword_block_size c)" using b(2) by simp
  then have "8 * (unat (cf_blocks_used ?d) * unat (cf_codeword_block_size c)) \<le> unat (Perm_GetSize p)" using i(7) by linarith
  moreover have "unat (cf_blocks_used ?d) * unat (cf_data_block_size c) \<le> n * unat (cf_data_block_size c)" using b(2) by (rule mult_le_mono1)
  then have "unat o1 + unat (cf_blocks_used ?d) * unat (cf_data_block_size c) < 2 ^ 64" using assms(4) i(6) unfolding cf_blocks_def by linarith
  ultimately have "cf_in_use p e a (?d\<lparr>cf_permutation := Some p\<rparr>)"
    using i b(1) by (simp add: cf_in_use_def cf_encodes_def cf_fits_def)
  then show ?thesis using i by (auto simp: cf_set_up_def)
qed

text \<open>The manager is ready to load a storage of \<open>sz\<close> bytes, which reaches into the last carrier.\<close>

definition cm_ready :: "cenv \<Rightarrow> encoder \<Rightarrow> files \<Rightarrow> u64 \<Rightarrow> manager \<Rightarrow> bool" where
  "cm_ready C e fs sz m \<longleftrightarrow>
     cm_encoder m = Some e \<and> cm_active m \<and> (\<forall>c \<in> set (cm_carriers m). cf_idle C e fs c) \<and>
     distinct (file_paths (cm_carriers m)) \<and> room (cm_carriers m) = unat (cm_capacity m) \<and>
     room (butlast (cm_carriers m)) < unat sz \<and> cm_capacity m < 2 ^ 31"

lemma cm_ready_set_up:
  assumes "cm_ready C e fs sz m"
  shows "\<forall>d \<in> set (placed a 0 sz (cm_carriers m)). cf_set_up C e a fs d"
    and "file_paths (placed a 0 sz (cm_carriers m)) = file_paths (cm_carriers m)"
proof -
  let ?cs = "cm_carriers m"
  have r: "\<forall>c \<in> set ?cs. cf_idle C e fs c" "room ?cs < 2 ^ 64" "room (butlast ?cs) < unat sz"
    using assms unat_u64_less [of "cm_capacity m"] by (simp_all add: cm_ready_def)
  then have c: "\<forall>c \<in> set ?cs. 0 < unat (cf_capacity c) \<and> (\<exists>n. cf_blocks c n)" using cf_idle_capacity by blast
  show "\<forall>d \<in> set (placed a 0 sz ?cs). cf_set_up C e a fs d"
  proof
    fix d assume "d \<in> set (placed a 0 sz ?cs)"
    then obtain i where i: "i < length ?cs" "d = placed a 0 sz ?cs ! i" by (metis in_set_conv_nth length_placed)
    obtain used where u: "d = place a (word_of_nat (room (take i ?cs))) used (?cs ! i)"
        "unat used = min (unat sz - room (take i ?cs)) (unat (cf_capacity (?cs ! i)))" "0 < unat used"
        "unat (word_of_nat (room (take i ?cs)) :: u64) = room (take i ?cs)"
      using placed_at [OF c r(2,3) i(1), of a] i(2) by (elim exE conjE) simp
    have "room (take i ?cs) + unat (cf_capacity (?cs ! i)) < 2 ^ 64" using room_take_less [OF i(1)] r(2) by linarith
    then show "cf_set_up C e a fs d"
      unfolding u(1) using r(1) i(1) u(2-4) by (intro place_set_up) auto
  qed
  have "file_paths (placed a off rest cs) = file_paths cs" for off rest cs
    by (induction cs arbitrary: off rest) simp_all
  then show "file_paths (placed a 0 sz ?cs) = file_paths ?cs" .
qed

text \<open>The call up to its tasks.\<close>

lemma LoadVirtualStorage_run:
  assumes "cm_ready C e fs (Perm_GetSize p) m" "cm_master_key m = Some k" "Perm_Init (env_of C) (cm_capacity m) k q = (p, Inr ())"
      and "32 < Perm_GetSize p" "a < length (w_storages w)" "w_storages w ! a = new_vs q"
      and "run_tasks (LoadFile C) (placed a 0 (Perm_GetSize p) (cm_carriers m))
             (w\<lparr>w_storages := (w_storages w)[a := vs_applied (env_of C) q p]\<rparr>) = (ds, w3, rs)"
      and "get_results rs = Inr ()" "st_ok a w3" "VS_IsValidChecksum (env_of C) (w_storages w3 ! a) = Inr b"
  shows "LoadVirtualStorage C (Some a) (m, w) = ((m\<lparr>cm_carriers := ds, cm_storage := Some a\<rparr>, w3), Inr b)"
proof -
  let ?w1 = "w\<lparr>w_storages := (w_storages w)[a := vs_applied (env_of C) q p]\<rparr>"
  note rd = assms(1) [unfolded cm_ready_def]
  have cap: "cm_capacity m \<le> 0xFFFFFFFF" using rd by (simp add: word_le_nat_alt word_less_nat_alt)
  note ap = VS_Apply_run [OF assms(3,4) cap]
  have "on_storage a (VS_ApplyPermutation (env_of C) (cm_capacity m) k) (m, w) = ((m, ?w1), Inr ())"
    using assms(5,6) ap(1) by (simp add: on_storage_def)
  moreover have "CM_GetCapacity m = Inr (cm_capacity m)" using rd by (simp add: CM_GetCapacity_def)
  moreover have "the_storage a (m, ?w1) = Inr (vs_applied (env_of C) q p)" using assms(5) by (simp add: the_storage_def)
  moreover have "VS_GetRawCapacity (vs_applied (env_of C) q p) = Inr (Perm_GetSize p)"
    by (simp add: VS_GetRawCapacity_def vs_applied_def)
  moreover have "\<forall>c \<in> set (cm_carriers m). cf_data_block_size c \<noteq> 0" using rd by (auto simp: cf_idle_def cf_blocks_def)
  then have "allocate a 0 (Perm_GetSize p) (cm_carriers m) = (placed a 0 (Perm_GetSize p) (cm_carriers m), Inr ())"
    by (rule allocate_placed)
  moreover have "run_on_carriers (LoadFile C) (cm_set_carriers (placed a 0 (Perm_GetSize p) (cm_carriers m)) m, ?w1) =
      ((cm_set_carriers ds m, w3), Inr ())"
    using assms(7,8) by (simp add: run_on_carriers_def get_results_defined cm_set_carriers_def)
  moreover have "the_storage a (x, w3) = Inr (w_storages w3 ! a)" for x
    using assms(9) by (simp add: the_storage_def st_ok_def)
  ultimately show ?thesis
    using rd assms(2,10) by (simp add: LoadVirtualStorage_def run_simps cm_set_carriers_def)
qed

lemma first_load:
  assumes "cm_ready C e (w_files w) (Perm_GetSize p) m" "cm_master_key m = Some k"
      and "Perm_Init (env_of C) (cm_capacity m) k q = (p, Inr ())" "32 < Perm_GetSize p"
      and "a < length (w_storages w)" "w_storages w ! a = new_vs q"
  shows "\<exists>ds w1 b. LoadVirtualStorage C (Some a) (m, w) = ((m\<lparr>cm_carriers := ds, cm_storage := Some a\<rparr>, w1), Inr b) \<and>
           list_all2 (cf_loaded_from C) (placed a 0 (Perm_GetSize p) (cm_carriers m)) ds \<and>
           st_ok a w1 \<and> w_files w1 = w_files w \<and> vs_permutation (w_storages w1 ! a) = Some p"
proof -
  let ?w1 = "w\<lparr>w_storages := (w_storages w)[a := vs_applied (env_of C) q p]\<rparr>"
  have cap: "cm_capacity m \<le> 0xFFFFFFFF" "unat (cm_capacity m) < 2 ^ 31"
    using assms(1) by (simp_all add: cm_ready_def word_le_nat_alt word_less_nat_alt)
  note ap = VS_Apply_run [OF assms(3,4) cap(1)]
  have ok: "st_ok a ?w1" using assms(5) ap(2) by (simp add: st_ok_def)
  have "\<forall>d \<in> set (placed a 0 (Perm_GetSize p) (cm_carriers m)). cf_set_up C e a (w_files ?w1) d"
    using cm_ready_set_up(1) [OF assms(1)] by simp
  from load_tasks [OF this ok] obtain ds w3 rs where r:
      "run_tasks (LoadFile C) (placed a 0 (Perm_GetSize p) (cm_carriers m)) ?w1 = (ds, w3, rs)" "get_results rs = Inr ()"
      "list_all2 (cf_loaded_from C) (placed a 0 (Perm_GetSize p) (cm_carriers m)) ds" "st_ok a w3" "st_same a ?w1 w3"
    by (elim exE conjE)
  have vp: "vs_permutation (w_storages w3 ! a) = Some p" "vs_raw_capacity (w_storages w3 ! a) = Perm_GetSize p"
    using r(5) assms(5) by (simp_all add: st_same_def vs_applied_def)
  have vok: "vs_ok (w_storages w3 ! a)" using r(4) by (simp add: st_ok_def)
  have "unat (vs_usable_capacity (w_storages w3 ! a)) < 2 ^ 31"
    using vs_capacity(1) [OF vok] vp(2) ap(4) cap(2) by (simp add: word_le_nat_alt)
  from LoadVirtualStorage_run [OF assms r(1,2,4) VS_IsValidChecksum_correct [OF vok this]] r(3-5) vp(1)
  show ?thesis by (auto simp: st_same_def)
qed

text \<open>Saving: the checksum goes into the storage, and every carrier loads again.\<close>

lemma save_run_all:
  assumes "cm_ready C e (w_files w) (Perm_GetSize p) m" "Perm_GetSize p \<le> cm_capacity m"
      and "list_all2 (cf_loaded_from C) (placed a 0 (Perm_GetSize p) (cm_carriers m)) ds"
      and "st_ok a w2" "w_files w2 = w_files w" "vs_permutation (w_storages w2 ! a) = Some p"
  shows "\<exists>m3 w3. SaveVirtualStorage C (m\<lparr>cm_carriers := ds, cm_storage := Some a\<rparr>, w2) = ((m3, w3), Inr ()) \<and>
           st_ok a w3 \<and> vs_permutation (w_storages w3 ! a) = Some p \<and> vs_checksum_ok (w_storages w3 ! a) \<and>
           vs_abs (w_storages w3 ! a) = vs_abs (w_storages w2 ! a) \<and>
           (\<forall>d \<in> set ds. \<exists>content. Open (w_files w3) (cf_file d) = Inr content \<and>
              (\<forall>p. cf_in_use p e a d \<longrightarrow> reloads C p e a d w3 content))"
proof -
  have w2: "a < length (w_storages w2)" "vs_ok (w_storages w2 ! a)" using assms(4) by (simp_all add: st_ok_def)
  have "vs_raw_capacity (w_storages w2 ! a) = Perm_GetSize p" using w2(2) assms(6) by (auto simp: vs_ok_def)
  then have "unat (vs_usable_capacity (w_storages w2 ! a)) < 2 ^ 31"
    using vs_capacity(1) [OF w2(2)] assms(1,2) by (simp add: cm_ready_def word_le_nat_alt word_less_nat_alt)
  from VS_WriteChecksum_correct [OF w2(2) this, of "env_of C"] obtain vs where vs:
      "VS_WriteChecksum (env_of C) (w_storages w2 ! a) = Inr vs" "vs_ok vs" "vs_abs vs = vs_abs (w_storages w2 ! a)" "vs_checksum_ok vs"
      "vs_permutation vs = vs_permutation (w_storages w2 ! a)"
    by (elim exE conjE)
  let ?w = "w2\<lparr>w_storages := (w_storages w2)[a := vs]\<rparr>"
  have ok: "st_ok a ?w" using w2(1) vs(2) by (simp add: st_ok_def)
  have each: "\<exists>p content. cf_in_use p e a d \<and> cf_file_loaded d \<and> Open (w_files ?w) (cf_file d) = Inr content \<and> cover_ok C p d content"
    if d: "d \<in> set ds" for d
  proof -
    obtain i where i: "i < length ds" "d = ds ! i" using d by (auto simp: in_set_conv_nth)
    obtain d0 where d0: "d0 \<in> set (placed a 0 (Perm_GetSize p) (cm_carriers m))" "cf_loaded_from C d0 d"
      using list_all2_nthD2 [OF assms(3) i(1)] list_all2_lengthD [OF assms(3)] i by (metis nth_mem)
    obtain p0 content where s: "cf_perm_after C d0 p0" "cf_in_use p0 e a (d0\<lparr>cf_permutation := Some p0\<rparr>)"
        "Open (w_files w) (cf_file d0) = Inr content" "cover_ok C p0 d0 content"
      using cm_ready_set_up(1) [OF assms(1), of a] d0(1) by (auto simp: cf_set_up_def)
    have l: "cf_loaded_as p0 d0 d" using d0(2) s(1) cf_perm_after_unique by (auto simp: cf_loaded_from_def)
    then show ?thesis
      using cf_loaded_as_in_use [OF l s(2)] cf_loaded_as_fields [OF l] cf_loaded_as_cover [OF l] s(3,4) assms(5) by auto
  qed
  have "list_all2 (=) (file_paths (placed a 0 (Perm_GetSize p) (cm_carriers m))) (file_paths ds)"
    unfolding file_paths_def list.rel_map
    by (rule list_all2_mono [OF assms(3)]) (auto simp: cf_loaded_from_def dest: cf_loaded_as_fields(8))
  then have "file_paths ds = file_paths (cm_carriers m)"
    using cm_ready_set_up(2) [OF assms(1), of a] by (simp add: list.rel_eq)
  then have dis: "distinct (file_paths ds)" using assms(1) by (simp add: cm_ready_def)
  from each have "\<forall>d \<in> set ds. \<exists>p content. cf_in_use p e a d \<and> cf_file_loaded d \<and> Open (w_files ?w) (cf_file d) = Inr content \<and> cover_ok C p d content"
    by blast
  from save_tasks [OF this ok dis] obtain ds3 w3 rs where r: "run_tasks (SaveFile C) ds ?w = (ds3, w3, rs)" "get_results rs = Inr ()"
      "w_storages w3 = w_storages ?w"
      "\<forall>d \<in> set ds. \<exists>content. Open (w_files w3) (cf_file d) = Inr content \<and> (\<forall>p. cf_in_use p e a d \<longrightarrow> reloads C p e a d ?w content)"
    by (elim exE conjE)
  have "on_storage a (updateM (VS_WriteChecksum (env_of C))) (m\<lparr>cm_carriers := ds, cm_storage := Some a\<rparr>, w2) =
      ((m\<lparr>cm_carriers := ds, cm_storage := Some a\<rparr>, ?w), Inr ())"
    using w2(1) vs(1) by (simp add: on_storage_def run_simps)
  moreover have "SaveAllFiles C (m\<lparr>cm_carriers := ds, cm_storage := Some a\<rparr>, ?w) =
      ((m\<lparr>cm_carriers := ds3, cm_storage := Some a\<rparr>, w3), Inr ())"
    using r(1,2) by (simp add: SaveAllFiles_def run_on_carriers_def get_results_defined cm_set_carriers_def)
  ultimately have "SaveVirtualStorage C (m\<lparr>cm_carriers := ds, cm_storage := Some a\<rparr>, w2) =
      ((m\<lparr>cm_carriers := ds3, cm_storage := Some a\<rparr>, w3), Inr ())"
    by (simp add: SaveVirtualStorage_def run_simps)
  moreover have "w_storages w3 ! a = vs" "st_ok a w3" using r(3) w2(1) vs(2) by (simp_all add: st_ok_def)
  moreover have "\<forall>d \<in> set ds. \<exists>content. Open (w_files w3) (cf_file d) = Inr content \<and> (\<forall>p. cf_in_use p e a d \<longrightarrow> reloads C p e a d w3 content)"
    using r(4) reloads_storages [OF r(3)] by simp
  ultimately show ?thesis using vs(3-5) assms(6) by auto
qed

text \<open>Loading the saved files into a new storage.\<close>

lemma load_again:
  assumes "cm_ready C e fs (Perm_GetSize p) m" "cm_master_key m = Some k"
      and "Perm_Init (env_of C) (cm_capacity m) k q = (p, Inr ())" "32 < Perm_GetSize p"
      and "list_all2 (cf_loaded_from C) (placed a 0 (Perm_GetSize p) (cm_carriers m)) ds"
      and "st_ok a w3" "vs_permutation (w_storages w3 ! a) = Some p" "vs_checksum_ok (w_storages w3 ! a)"
      and "\<forall>d \<in> set ds. \<exists>content. Open (w_files w) (cf_file d) = Inr content \<and> (\<forall>p. cf_in_use p e a d \<longrightarrow> reloads C p e a d w3 content)"
      and "b < length (w_storages w)" "w_storages w ! b = new_vs q"
  shows "\<exists>m5 w5. LoadVirtualStorage C (Some b) (m, w) = ((m5, w5), Inr True) \<and> st_ok b w5 \<and>
           vs_abs (w_storages w5 ! b) = vs_abs (w_storages w3 ! a) \<and> vs_permutation (w_storages w5 ! b) = Some p"
proof -
  let ?cs = "cm_carriers m" and ?n = "Perm_GetSize p"
  let ?w1 = "w\<lparr>w_storages := (w_storages w)[b := vs_applied (env_of C) q p]\<rparr>"
  have cap: "cm_capacity m \<le> 0xFFFFFFFF" "unat (cm_capacity m) < 2 ^ 31"
    using assms(1) by (simp_all add: cm_ready_def word_le_nat_alt word_less_nat_alt)
  note ap = VS_Apply_run [OF assms(3,4) cap(1)]
  have ok: "st_ok b ?w1" using assms(10) ap(2) by (simp add: st_ok_def)
  have each: "comes_back C e b a w3 (w_files ?w1) d" if d: "d \<in> set (placed b 0 ?n ?cs)" for d
  proof -
    obtain i where i: "i < length ?cs" "d = placed b 0 ?n ?cs ! i" using d by (metis in_set_conv_nth length_placed)
    let ?d0 = "placed a 0 ?n ?cs ! i" and ?d3 = "ds ! i"
    have dd: "d = ?d0\<lparr>cf_storage := Some b\<rparr>" using i placed_again [of b 0 ?n ?cs a] by simp
    have ds: "?d3 \<in> set ds" "cf_loaded_from C ?d0 ?d3" using assms(5) i(1) by (auto simp: list_all2_conv_all_nth)
    have "?d0 \<in> set (placed a 0 ?n ?cs)" using i(1) by simp
    then obtain p0 where s0: "cf_perm_after C ?d0 p0" "cf_in_use p0 e a (?d0\<lparr>cf_permutation := Some p0\<rparr>)"
      using cm_ready_set_up(1) [OF assms(1), of a] by (auto simp: cf_set_up_def)
    obtain p1 where s1: "\<not> cf_file_loaded d" "cf_perm_after C d p1" "cf_in_use p1 e b (d\<lparr>cf_permutation := Some p1\<rparr>)"
      using cm_ready_set_up(1) [OF assms(1), of b] d by (auto simp: cf_set_up_def)
    have "cf_perm_after C d p0" unfolding dd using s0(1) by (simp only: cf_perm_after_storage)
    then have p: "p1 = p0" using s1(2) cf_perm_after_unique by blast
    have l: "cf_loaded_as p0 ?d0 ?d3" using ds(2) s0(1) cf_perm_after_unique by (auto simp: cf_loaded_from_def)
    note f = cf_loaded_as_fields [OF l]
    obtain content where c: "Open (w_files w) (cf_file ?d3) = Inr content" "reloads C p0 e a ?d3 w3 content"
      using assms(9) ds(1) cf_loaded_as_in_use [OF l s0(2)] by blast
    have "cf_layout ?d3 d" "cf_class d = cf_class ?d3" "cf_raw_capacity d = cf_raw_capacity ?d3" "cf_file d = cf_file ?d3"
      using f dd by (simp_all add: cf_layout_def)
    then show ?thesis unfolding comes_back_def using c s1 p by auto
  qed
  then have "\<forall>d \<in> set (placed b 0 ?n ?cs). comes_back C e b a w3 (w_files ?w1) d" by blast
  from reload_tasks [OF this ok] obtain es w5 rs where r: "run_tasks (LoadFile C) (placed b 0 ?n ?cs) ?w1 = (es, w5, rs)"
      "get_results rs = Inr ()" "st_ok b w5" "st_same b ?w1 w5"
      "\<forall>q. st_byte b w5 q = (if (\<exists>d \<in> set (placed b 0 ?n ?cs). in_slice d (unat q)) \<and> unat q < st_capacity b ?w1 then st_byte a w3 q else st_byte b ?w1 q)"
    by (elim exE conjE)
  have v5: "vs_ok (w_storages w5 ! b)" "vs_permutation (w_storages w5 ! b) = Some p" "vs_raw_capacity (w_storages w5 ! b) = ?n"
    using r(3,4) assms(10) by (simp_all add: st_ok_def st_same_def vs_applied_def)
  have v3: "vs_ok (w_storages w3 ! a)" using assms(6) by (simp add: st_ok_def)
  then have v3n: "vs_raw_capacity (w_storages w3 ! a) = ?n" using assms(7) by (auto simp: vs_ok_def)
  have rd: "\<forall>c \<in> set ?cs. 0 < unat (cf_capacity c) \<and> (\<exists>n. cf_blocks c n)" "room ?cs < 2 ^ 64" "room (butlast ?cs) < unat ?n" "unat ?n \<le> room ?cs"
    using assms(1) cf_idle_capacity ap(4) unat_u64_less [of "cm_capacity m"] by (auto simp: cm_ready_def word_le_nat_alt)
  have "vs.byte_at (w_storages w5 ! b) q = vs.byte_at (w_storages w3 ! a) q" if q: "unat q < unat (vs_raw_capacity (w_storages w3 ! a))" for q
  proof -
    have "unat q < unat ?n" using q v3n by simp
    then obtain i where "i < length ?cs" "in_slice (placed b 0 ?n ?cs ! i) (unat q)"
      using placed_covers [OF rd(1-3) _ rd(4), of "unat q" b] by blast
    then have "\<exists>d \<in> set (placed b 0 ?n ?cs). in_slice d (unat q)" by (metis length_placed nth_mem)
    moreover have "st_capacity b ?w1 = unat ?n" using assms(10) ap(3) by (simp add: st_capacity_def)
    ultimately show ?thesis using r(5) \<open>unat q < unat ?n\<close> by (auto simp: st_byte_def)
  qed
  then have eq: "vs_bytes (w_storages w5 ! b) = vs_bytes (w_storages w3 ! a) \<and>
        vs_usable_capacity (w_storages w5 ! b) = vs_usable_capacity (w_storages w3 ! a)"
    using vs_bytes_eq [OF v3 v5(1)] v5(2) assms(7) by simp
  then have abs: "vs_abs (w_storages w5 ! b) = vs_abs (w_storages w3 ! a)" and ck: "vs_checksum_ok (w_storages w5 ! b)"
    using assms(8) by (simp_all add: vs_abs_def vs_checksum_ok_def)
  have "unat (vs_usable_capacity (w_storages w5 ! b)) < 2 ^ 31"
    using vs_capacity(1) [OF v5(1)] v5(3) ap(4) cap(2) by (simp add: word_le_nat_alt)
  from LoadVirtualStorage_run [OF assms(1-4,10,11) r(1-3) VS_IsValidChecksum_correct [OF v5(1) this]] ck
  have "LoadVirtualStorage C (Some b) (m, w) = ((m\<lparr>cm_carriers := es, cm_storage := Some b\<rparr>, w5), Inr True)" by simp
  with abs r(3) v5(2) show ?thesis by blast
qed

end
