(* ===== verification/Session_Keys.thy ===== *)
theory Session_Keys
  imports Carrier_Manager
begin

text \<open>
  The keys of \<^verbatim>\<open>carrier_files_manager.cc\<close>: the master key from the password and the names of the carriers, and
  the subkeys that set up the local permutations, as chains of digests.
\<close>

section \<open>Chains of digests\<close>

definition key_with :: "bytes \<Rightarrow> key" where
  "key_with bs = \<lparr>k_data = Some \<lparr>mb_buffer = Some bs, mb_size = 32\<rparr>\<rparr>"

text \<open>One \<open>Append\<close>.\<close>

definition chain :: "bytes \<Rightarrow> bytes \<Rightarrow> bytes" where
  "chain st d = digest (digest d @ st)"

lemma length_chain [simp]: "length (chain st d) = 32"
  by (simp add: chain_def)

text \<open>The name of a carrier as the keys see it: the file name in lower case.\<close>

definition cf_name :: "carrier \<Rightarrow> string" where
  "cf_name c = GetNormalizedPath (cf_file c)"

definition name_ok :: "carrier \<Rightarrow> bool" where
  "name_ok c \<longleftrightarrow> length (cf_name c) < 2 ^ 31"

definition master_of :: "bytes \<Rightarrow> string list \<Rightarrow> bytes" where
  "master_of password_state names = fold (\<lambda>n st. chain st (digest (string_bytes n))) names (digest password_state)"

definition subkey_of :: "bytes \<Rightarrow> nat \<Rightarrow> string \<Rightarrow> bytes" where
  "subkey_of master i name = chain (chain (digest master) (string_bytes (decimal i))) (string_bytes name)"

lemma length_master [simp]: "length (master_of st ns) = 32"
  by (cases ns rule: rev_cases) (simp_all add: master_of_def)

lemma Hash_Append_chain:
  "hash_is h bs \<Longrightarrow> unat len = length d \<Longrightarrow> length d < 2 ^ 31 \<Longrightarrow>
     \<exists>h'. Hash_Append g h (Some d) len = Inr h' \<and> hash_is h' (chain bs d)"
  using Hash_Append_correct unfolding chain_def by blast

lemma Hash_Append_string_chain:
  assumes "hash_is h bs" "length s < 2 ^ 31"
  shows "\<exists>h'. Hash_Append_string g h s = Inr h' \<and> hash_is h' (chain bs (string_bytes s))"
  unfolding Hash_Append_string_def by (rule Hash_Append_chain [OF assms(1)]) (use assms(2) in \<open>simp_all add: unat_simps\<close>)

lemma Key_of_hash_with: "hash_is h bs \<Longrightarrow> Key_of_buffer g (Hash_GetState h) = Inr (key_with bs)"
  unfolding key_with_def by (rule Key_of_hash)

section \<open>The master key\<close>

lemma append_names:
  assumes "hash_is h bs" "\<forall>c \<in> set cs. name_ok c"
  shows "\<exists>h'. foldR (\<lambda>c h. bindR (CF_GetPermKey g c) (\<lambda>k. bindR (Key_GetData k) (\<lambda>d. Hash_Append_buffer g h d))) cs h = Inr h' \<and>
              hash_is h' (fold (\<lambda>n st. chain st (digest (string_bytes n))) (map cf_name cs) bs)"
  using assms
proof (induction cs arbitrary: h bs)
  case (Cons c cs)
  have k: "CF_GetPermKey g c = Inr (key_with (digest (string_bytes (cf_name c))))"
    using Cons.prems(2) Key_FromString_correct [of "cf_name c" g] by (simp add: CF_GetPermKey_def cf_name_def name_ok_def key_with_def)
  obtain h1 where h1: "Hash_Append g h (Some (digest (string_bytes (cf_name c)))) 32 = Inr h1"
      "hash_is h1 (chain bs (digest (string_bytes (cf_name c))))"
    using Hash_Append_chain [OF Cons.prems(1), of 32 "digest (string_bytes (cf_name c))" g] by auto
  have "\<forall>c \<in> set cs. name_ok c" using Cons.prems(2) by simp
  from Cons.IH [OF h1(2) this] k h1(1) show ?case by (simp add: Key_GetData_def key_with_def Hash_Append_buffer_def res_simps)
qed simp

lemma GenerateMasterKey_run:
  assumes "hash_is (cm_password_hash m) st" "cm_carriers m \<noteq> []" "\<forall>c \<in> set (cm_carriers m). name_ok c"
  shows "GenerateMasterKey C m = Inr (m\<lparr>cm_master_key := Some (key_with (master_of st (map cf_name (cm_carriers m))))\<rparr>)"
proof -
  have s: "h_state (cm_password_hash m) = \<lparr>mb_buffer = Some st, mb_size = 32\<rparr>" "length st = 32"
    using assms(1) by (simp_all add: hash_is_def)
  obtain h where h: "Hash_of_bytes (e_garbage C) (Some st) 32 = Inr h" "hash_is h (digest st)"
    using Hash_of_bytes_correct [of 32 st "e_garbage C"] s(2) by auto
  obtain h' where h': "foldR (\<lambda>c h. bindR (CF_GetPermKey (e_garbage C) c) (\<lambda>k. bindR (Key_GetData k) (\<lambda>d. Hash_Append_buffer (e_garbage C) h d)))
      (cm_carriers m) h = Inr h'" "hash_is h' (master_of st (map cf_name (cm_carriers m)))"
    using append_names [OF h(2) assms(3), of "e_garbage C"] by (auto simp: master_of_def)
  show ?thesis
    using assms(2) s h(1) h' Key_of_hash_with by (simp add: GenerateMasterKey_def Hash_GetState_def Let_def)
qed

section \<open>The subkeys\<close>

lemma length_decimal: "length (decimal n) \<le> Suc n"
  by (induction n rule: decimal.induct) (subst decimal.simps, auto)

lemma Key_of_key: "Key_of_buffer g \<lparr>mb_buffer = Some bs, mb_size = 32\<rparr> = Inr (key_with bs)" if "length bs = 32"
  using Key_of_hash_with [of "\<lparr>h_state = \<lparr>mb_buffer = Some bs, mb_size = 32\<rparr>\<rparr>" bs g] that by (simp add: hash_is_def Hash_GetState_def)

lemma derive_subkey_run:
  assumes "length master = 32" "hash_is h bs" "name_ok c" "i < 2 ^ 30"
  shows "\<exists>h'. derive_subkey C (key_with master) i c h = Inr (h', c\<lparr>cf_subkey := Some (key_with (subkey_of master i (cf_name c)))\<rparr>) \<and>
              hash_is h' (subkey_of master i (cf_name c))"
proof -
  have "mb_size \<lparr>mb_buffer = Some master, mb_size = 32\<rparr> \<noteq> (0 :: u64)" by simp
  have kb: "k_data (key_with master) = Some \<lparr>mb_buffer = Some master, mb_size = 32\<rparr>" by (simp add: key_with_def)
  obtain h1 where h1: "Hash_Process h (Some master) 32 = Inr h1" "hash_is h1 (digest master)"
    using Hash_Process_correct [OF assms(2), of 32 master] assms(1) by auto
  have p: "Hash_Process_buffer h \<lparr>mb_buffer = Some master, mb_size = 32\<rparr> = Inr h1"
    using h1(1) by (simp add: Hash_Process_buffer_def Hash_Process_def default_hash_impl_def)
  have "length (decimal i) < 2 ^ 31" using length_decimal [of i] assms(4) by simp
  then obtain h2 where h2: "Hash_Append_string (e_garbage C) h1 (decimal i) = Inr h2" "hash_is h2 (chain (digest master) (string_bytes (decimal i)))"
    using Hash_Append_string_chain [OF h1(2)] by blast
  obtain h3 where h3: "Hash_Append_string (e_garbage C) h2 (cf_name c) = Inr h3" "hash_is h3 (subkey_of master i (cf_name c))"
    using Hash_Append_string_chain [OF h2(2), of "cf_name c"] assms(3) by (auto simp: name_ok_def subkey_of_def)
  have "CF_SetSubkey (e_garbage C) (key_with (subkey_of master i (cf_name c))) c =
      Inr (c\<lparr>cf_subkey := Some (key_with (subkey_of master i (cf_name c)))\<rparr>)"
    using Key_of_key [of "subkey_of master i (cf_name c)" "e_garbage C"] by (simp add: CF_SetSubkey_def Key_GetData_def key_with_def subkey_of_def)
  then show ?thesis
    using p h2(1) h3 Key_of_hash_with [OF h3(2)] by (simp add: derive_subkey_def Key_GetData_def kb cf_name_def)
qed

text \<open>The carriers with the subkeys for their places.\<close>

definition with_subkeys :: "bytes \<Rightarrow> nat \<Rightarrow> carrier list \<Rightarrow> carrier list" where
  "with_subkeys master i cs =
     map (\<lambda>(j, c). c\<lparr>cf_subkey := Some (key_with (subkey_of master j (cf_name c)))\<rparr>) (zip [i..<i + length cs] cs)"

lemma with_subkeys_simps [simp]:
  "with_subkeys master i [] = []"
  "with_subkeys master i (c # cs) = c\<lparr>cf_subkey := Some (key_with (subkey_of master i (cf_name c)))\<rparr> # with_subkeys master (Suc i) cs"
  by (simp_all add: with_subkeys_def upt_conv_Cons del: upt_Suc)

lemma length_with_subkeys [simp]: "length (with_subkeys master i cs) = length cs"
  by (simp add: with_subkeys_def)

lemma derive_subkeys_run:
  assumes "length master = 32" "hash_is h bs" "\<forall>c \<in> set cs. name_ok c" "i + length cs \<le> 2 ^ 30"
  shows "derive_subkeys C (key_with master) i h cs = (with_subkeys master i cs, Inr ())"
  using assms(2-4)
proof (induction cs arbitrary: i h bs)
  case (Cons c cs)
  obtain h1 where "derive_subkey C (key_with master) i c h = Inr (h1, c\<lparr>cf_subkey := Some (key_with (subkey_of master i (cf_name c)))\<rparr>)"
      "hash_is h1 (subkey_of master i (cf_name c))"
    using derive_subkey_run [OF assms(1) Cons.prems(1), of c i C] Cons.prems(2,3) by auto
  with Cons.IH [of h1 _ "Suc i"] Cons.prems(2,3) show ?case by simp
qed simp

lemma DeriveSubkeys_run:
  assumes "cm_master_key m = Some (key_with master)" "length master = 32" "\<forall>c \<in> set (cm_carriers m). name_ok c" "length (cm_carriers m) \<le> 2 ^ 30"
  shows "DeriveSubkeys C m = (m\<lparr>cm_carriers := with_subkeys master 0 (cm_carriers m)\<rparr>, Inr ())"
proof -
  obtain h where "Hash_Init (e_garbage C) = Inr h" "hash_is h (replicate 32 0)" using Hash_Init_correct by blast
  then show ?thesis using assms derive_subkeys_run [OF assms(2), of h _ "cm_carriers m" 0 C]
    by (simp add: DeriveSubkeys_def)
qed

lemma SetPassword_run:
  assumes "hash_is (cm_password_hash m) bs" "length password < 2 ^ 31"
  shows "\<exists>h. SetPassword password m = (m\<lparr>cm_password_hash := h\<rparr>, Inr ()) \<and> hash_is h (digest (string_bytes password))"
  using Hash_Process_correct [OF assms(1), of "word_of_nat (length password)" "string_bytes password"] assms(2)
  by (auto simp: SetPassword_def Hash_Process_string_def updateM_def unat_simps)

text \<open>
  C26. The keys of a session.  Setting a password, generating the master key and deriving the
  subkeys never fail for names and passwords below 2 GiB.  The master key is the chain of the digests of the
  names of the carriers, in their order, on the digest of the digest of the password; the subkey of a carrier chains
  its place and its name onto the digest of the master key.  They depend on nothing else: not on earlier
  passwords, not on the contents of the files, not on the fresh memory of the buffers.
\<close>

theorem session_keys_correct:
  assumes "hash_is (cm_password_hash m) bs" "length password < 2 ^ 31" "cm_carriers m \<noteq> []"
      and "\<forall>c \<in> set (cm_carriers m). name_ok c" "length (cm_carriers m) \<le> 2 ^ 30"
  defines "master \<equiv> master_of (digest (string_bytes password)) (map cf_name (cm_carriers m))"
  shows "\<exists>m1 m2 m3. SetPassword password m = (m1, Inr ()) \<and> GenerateMasterKey C m1 = Inr m2 \<and> DeriveSubkeys C m2 = (m3, Inr ()) \<and>
           cm_master_key m3 = Some (key_with master) \<and> length (cm_carriers m3) = length (cm_carriers m) \<and>
           (\<forall>i < length (cm_carriers m). cm_carriers m3 ! i =
              (cm_carriers m ! i)\<lparr>cf_subkey := Some (key_with (subkey_of master i (cf_name (cm_carriers m ! i))))\<rparr>)"
proof -
  obtain h where h: "SetPassword password m = (m\<lparr>cm_password_hash := h\<rparr>, Inr ())" "hash_is h (digest (string_bytes password))"
    using SetPassword_run [OF assms(1,2)] by blast
  let ?m1 = "m\<lparr>cm_password_hash := h\<rparr>"
  let ?m2 = "?m1\<lparr>cm_master_key := Some (key_with master)\<rparr>"
  have g: "GenerateMasterKey C ?m1 = Inr ?m2"
    using GenerateMasterKey_run [of ?m1 _ C] h(2) assms(3,4) by (simp add: master_def)
  have "DeriveSubkeys C ?m2 = (?m2\<lparr>cm_carriers := with_subkeys master 0 (cm_carriers ?m2)\<rparr>, Inr ())"
    by (rule DeriveSubkeys_run) (use assms(4,5) in \<open>simp_all add: master_def\<close>)
  with h(1) g show ?thesis by (auto simp: with_subkeys_def)
qed

definition manager0 :: manager where
  "manager0 = \<lparr>cm_base_path = [], cm_carriers = [bmp0], cm_capacity = 0, cm_files_in_directory = 1, cm_master_key = None,
               cm_storage = None, cm_encoder = None, cm_password_hash = \<lparr>h_state = \<lparr>mb_buffer = Some (replicate 32 0), mb_size = 32\<rparr>\<rparr>,
               cm_active = False\<rparr>"

theorem session_keys_correct_witness:
  "\<exists>m1 m2 m3. SetPassword ''heslo'' manager0 = (m1, Inr ()) \<and> GenerateMasterKey cenv0 m1 = Inr m2 \<and> DeriveSubkeys cenv0 m2 = (m3, Inr ()) \<and>
     cf_subkey (cm_carriers m3 ! 0) = Some (key_with (subkey_of (master_of (digest (string_bytes ''heslo'')) [''a.bmp'']) 0 ''a.bmp''))"
proof -
  have n: "name_ok bmp0" "cf_name bmp0 = ''a.bmp''"
    by (simp_all add: name_ok_def cf_name_def bmp0_def CarrierFile_def GetNormalizedPath_def NormalizePath_def GetRelativePath_def File_def
        path_filename_def lower_def tolower_def)
  then show ?thesis
    using session_keys_correct [of manager0 "replicate 32 0" "''heslo''" cenv0] by (auto simp: manager0_def hash_is_def)
qed

end
