(* ===== verification/Carrier_Capacity.thy ===== *)
theory Carrier_Capacity
  imports Storage_Session Session_Keys
begin

text \<open>
  Capacities: what a carrier reports under an encoder, what \<open>ApplyEncoder\<close> sums up, and how
  \<open>LoadVirtualStorage\<close> divides the storage among the carriers (\<^verbatim>\<open>carrier_file.cc\<close>,
  \<^verbatim>\<open>carrier_files_manager.cc\<close>).
\<close>

section \<open>The capacity of a carrier\<close>

lemma encoder_sizes: "encoder_ok e \<Longrightarrow> unat (GetDataBlockSize e) \<le> unat (GetCodewordBlockSize e)"
proof (cases e)
  case (LsbEnc x)
  then show "encoder_ok e \<Longrightarrow> ?thesis" by (simp add: lsb_ok_def Encoder_GetDataBlockSize_def Encoder_GetCodewordBlockSize_def)
next
  case (HammingEnc x)
  assume "encoder_ok e"
  then obtain k where k: "3 \<le> k" "k \<le> 8" "unat (codeword_buffer_size x) = (2 ^ k - 2) div 8 + 1"
      "unat (codewords_in_block x) * k = 8 * unat (data_block_size x)"
      "unat (codeword_block_size x) = unat (codeword_buffer_size x) * unat (codewords_in_block x)"
    using HammingEnc by (auto simp: hamming_ok_def Let_def)
  have "k \<in> {3, 4, 5, 6, 7, 8}" using k(1,2) by auto
  then have "k \<le> 8 * ((2 ^ k - 2) div 8 + 1)" by auto
  then have "unat (codewords_in_block x) * k \<le> unat (codewords_in_block x) * (8 * unat (codeword_buffer_size x))" using k(3) by simp
  then have "8 * unat (data_block_size x) \<le> unat (codewords_in_block x) * (8 * unat (codeword_buffer_size x))" using k(4) by simp
  also have "unat (codewords_in_block x) * (8 * unat (codeword_buffer_size x)) = 8 * unat (codeword_block_size x)"
    unfolding k(5) by (simp only: mult.commute mult.left_commute)
  finally show ?thesis using HammingEnc by (simp add: Encoder_GetDataBlockSize_def Encoder_GetCodewordBlockSize_def)
qed

lemma SetEncoder_run:
  assumes "encoder_ok e" "cf_permutation c = Some q" "cf_subkey c = Some k"
      and "Perm_Init E (cf_raw_capacity c * 8) k q = (p, Inr ())" "8 * unat (cf_raw_capacity c) < 2 ^ 32"
  defines "n \<equiv> unat (Perm_GetSize p) div 8 div unat (GetCodewordBlockSize e)"
  shows "\<exists>c'. CF_SetEncoder E (Some e) c = (c', Inr ()) \<and> unat (cf_block_count c') = n \<and>
           c' = c\<lparr>cf_encoder := Some e, cf_data_block_size := GetDataBlockSize e, cf_codeword_block_size := GetCodewordBlockSize e,
                  cf_block_count := cf_block_count c', cf_capacity := cf_capacity c'\<rparr> \<and>
           unat (cf_capacity c') = n * unat (GetDataBlockSize e) \<and> 8 * (n * unat (GetCodewordBlockSize e)) \<le> unat (Perm_GetSize p) \<and>
           perm_ok p \<and> unat (Perm_GetSize p) \<le> 8 * unat (cf_raw_capacity c) \<and> n < 2 ^ 32"
proof -
  let ?m = "unat (GetCodewordBlockSize e)" and ?k = "unat (GetDataBlockSize e)" and ?s = "Perm_GetSize p"
  have r8: "unat (cf_raw_capacity c * 8) = 8 * unat (cf_raw_capacity c)" using assms(5) by (simp add: unat_simps)
  have sup: "perm_supported (cf_raw_capacity c * 8)" using assms(5) r8 by (simp add: perm_supported_def word_le_nat_alt)
  have size: "Perm_GetSizeUsingParams E (cf_raw_capacity c * 8) k q = Inr ?s" "?s \<le> cf_raw_capacity c * 8" and ok: "perm_ok p"
    using perm.init_size [OF sup assms(4)] perm.init_le [OF sup assms(4)] perm.init_ok [OF sup assms(4)] by simp_all
  have le: "unat ?s \<le> 8 * unat (cf_raw_capacity c)" using size(2) r8 by (simp add: word_le_nat_alt)
  have m: "0 < ?m" "0 < ?k" "?k \<le> ?m" using encoder.sizes_pos [OF assms(1)] encoder_sizes [OF assms(1)] by simp_all
  have nm: "n * ?m \<le> unat ?s div 8" unfolding n_def by simp
  have "n \<le> unat ?s" unfolding n_def by (meson div_le_dividend le_trans)
  then have n32: "n < 4294967296" using le assms(5) by simp
  have "n * ?k \<le> n * ?m" using m(3) by simp
  moreover have "unat ?s div 8 < 4294967296" using le assms(5) by simp
  ultimately have nk: "n * ?k < 4294967296" using nm by linarith
  let ?count = "ucast (?s div 8 div ucast (GetCodewordBlockSize e)) :: u32"
  have c: "unat ?count = n"
  proof -
    have "unat (?s div 8 div ucast (GetCodewordBlockSize e) :: u64) = n" by (simp add: unat_div unat_ucast_u32_u64 n_def)
    then show ?thesis using n32 by (simp add: unsigned_ucast_eq take_bit_nat_eq_self)
  qed
  have cap: "unat (ucast (?count * GetDataBlockSize e) :: u64) = n * ?k"
    using nk c iffD1 [OF unat_mult_lem [of ?count "GetDataBlockSize e"]] by (simp add: unat_ucast_u32_u64)
  have "GetCodewordBlockSize e \<noteq> 0" using m(1) by auto
  then have "CF_SetEncoder E (Some e) c =
      (c\<lparr>cf_encoder := Some e, cf_data_block_size := GetDataBlockSize e, cf_codeword_block_size := GetCodewordBlockSize e,
         cf_block_count := ?count, cf_capacity := ucast (?count * GetDataBlockSize e)\<rparr>, Inr ())"
    using assms(2,3) size(1) by (simp add: CF_SetEncoder_def cf_perm_def cf_key_def Let_def)
  moreover have "8 * (n * ?m) \<le> unat ?s" using nm by linarith
  ultimately show ?thesis using c cap ok le n32 by simp
qed

text \<open>
  C11. The capacity a carrier reports under an encoder fits its cover.  When the local permutation can be set
  up with the subkey, \<open>SetEncoder\<close> succeeds; the number of blocks is the number of whole codeword blocks in the
  permuted bits, the capacity is that number of data blocks without any wrap-around in the 32-bit product, all
  codeword blocks lie within the bits \<open>Init\<close> will permute, and the capacity is at most the raw capacity.
\<close>

theorem capacity_fits_cover:
  assumes "encoder_ok e" "cf_permutation c = Some q" "cf_subkey c = Some k"
      and "Perm_Init E (cf_raw_capacity c * 8) k q = (p, Inr ())" "8 * unat (cf_raw_capacity c) < 2 ^ 32"
  shows "\<exists>c'. CF_SetEncoder E (Some e) c = (c', Inr ()) \<and>
           unat (cf_block_count c') = unat (Perm_GetSize p) div 8 div unat (cf_codeword_block_size c') \<and>
           unat (cf_capacity c') = unat (cf_block_count c') * unat (cf_data_block_size c') \<and>
           8 * (unat (cf_block_count c') * unat (cf_codeword_block_size c')) \<le> unat (Perm_GetSize p) \<and>
           cf_capacity c' \<le> cf_raw_capacity c"
proof -
  let ?n = "unat (Perm_GetSize p) div 8 div unat (GetCodewordBlockSize e)"
  obtain c' where c': "CF_SetEncoder E (Some e) c = (c', Inr ())" "unat (cf_block_count c') = ?n"
      "c' = c\<lparr>cf_encoder := Some e, cf_data_block_size := GetDataBlockSize e, cf_codeword_block_size := GetCodewordBlockSize e,
              cf_block_count := cf_block_count c', cf_capacity := cf_capacity c'\<rparr>"
      "unat (cf_capacity c') = ?n * unat (GetDataBlockSize e)" "8 * (?n * unat (GetCodewordBlockSize e)) \<le> unat (Perm_GetSize p)"
      "unat (Perm_GetSize p) \<le> 8 * unat (cf_raw_capacity c)"
    using SetEncoder_run [OF assms] by blast
  have f: "cf_data_block_size c' = GetDataBlockSize e" "cf_codeword_block_size c' = GetCodewordBlockSize e" by (subst c'(3), simp)+
  have "?n * unat (GetDataBlockSize e) \<le> ?n * unat (GetCodewordBlockSize e)" using encoder_sizes [OF assms(1)] by simp
  then have "unat (cf_capacity c') \<le> unat (cf_raw_capacity c)" using c'(4-6) by linarith
  then show ?thesis using c'(1,2,4,5) f by (simp add: word_le_nat_alt)
qed

theorem capacity_fits_cover_witness:
  "\<exists>c'. CF_SetEncoder env0 (Some enc1) (bmp0\<lparr>cf_subkey := Some key0\<rparr>) = (c', Inr ()) \<and> unat (cf_capacity c') = 5"
proof -
  have i: "Perm_Init env0 (cf_raw_capacity (bmp0\<lparr>cf_subkey := Some key0\<rparr>) * 8) key0 perm40 = (perm40, Inr ())"
    by (simp add: bmp0_def perm40_def Identity_Init_def)
  have f: "encoder_ok enc1" "cf_permutation (bmp0\<lparr>cf_subkey := Some key0\<rparr>) = Some perm40"
      "cf_subkey (bmp0\<lparr>cf_subkey := Some key0\<rparr>) = Some key0" "8 * unat (cf_raw_capacity (bmp0\<lparr>cf_subkey := Some key0\<rparr>)) < 2 ^ 32"
    by (simp_all add: enc1_def lsb_ok_def bmp0_def CarrierFile_def)
  obtain c' where "CF_SetEncoder env0 (Some enc1) (bmp0\<lparr>cf_subkey := Some key0\<rparr>) = (c', Inr ())"
    using capacity_fits_cover [OF f(1-3) i f(4)] by blast
  moreover have "fst (CF_SetEncoder env0 (Some enc1) (bmp0\<lparr>cf_subkey := Some key0\<rparr>)) = x \<Longrightarrow> unat (cf_capacity x) = 5" for x
    by (auto simp: CF_SetEncoder_def cf_perm_def cf_key_def bmp0_def perm40_def enc1_def CarrierFile_def Encoder_GetCodewordBlockSize_def
        Encoder_GetDataBlockSize_def Identity_GetSizeUsingParams_def Let_def)
  ultimately show ?thesis by force
qed

section \<open>The parts of the storage\<close>

text \<open>
  C10. The loop of \<open>LoadVirtualStorage\<close> divides the storage among the carriers: it never fails, every carrier gets
  at least one block and no more blocks than it has room for, every position of the storage lies in the part of exactly
  one carrier, and the parts follow each other in the order of the carriers.
\<close>

theorem allocation_partitions_storage:
  assumes "\<forall>c \<in> set cs. 0 < unat (cf_capacity c) \<and> (\<exists>n. cf_blocks c n)" "room cs < 2 ^ 64"
      and "room (butlast cs) < unat raw" "unat raw \<le> room cs"
  shows "\<exists>ds. allocate a 0 raw cs = (ds, Inr ()) \<and> length ds = length cs \<and>
           (\<forall>i < length cs. cf_storage (ds ! i) = Some a \<and> 0 < unat (cf_blocks_used (ds ! i)) \<and>
              unat (cf_blocks_used (ds ! i)) * unat (cf_data_block_size (cs ! i)) \<le> unat (cf_capacity (cs ! i)) \<and>
              unat (cf_offset (ds ! i)) = room (take i cs)) \<and>
           (\<forall>q < unat raw. \<exists>!i. i < length ds \<and> in_slice (ds ! i) q)"
proof -
  let ?ds = "placed a 0 raw cs"
  have each: "cf_storage (?ds ! i) = Some a \<and> 0 < unat (cf_blocks_used (?ds ! i)) \<and>
      unat (cf_blocks_used (?ds ! i)) * unat (cf_data_block_size (cs ! i)) \<le> unat (cf_capacity (cs ! i)) \<and>
      unat (cf_offset (?ds ! i)) = room (take i cs) \<and> cf_data_block_size (?ds ! i) = cf_data_block_size (cs ! i)" if i: "i < length cs" for i
  proof -
    obtain used where u: "?ds ! i = place a (word_of_nat (room (take i cs))) used (cs ! i)"
        "unat used = min (unat raw - room (take i cs)) (unat (cf_capacity (cs ! i)))" "0 < unat used"
        "unat (word_of_nat (room (take i cs)) :: u64) = room (take i cs)"
      using placed_at [OF assms(1-3) i] by blast
    obtain n where n: "cf_blocks (cs ! i) n" using assms(1) i by force
    have "unat used \<le> unat (cf_capacity (cs ! i))" using u(2) by simp
    note b = place_blocks [OF n u(3) this, of a "word_of_nat (room (take i cs))"]
    have "unat (cf_blocks_used (?ds ! i)) * unat (cf_data_block_size (cs ! i)) \<le> n * unat (cf_data_block_size (cs ! i))"
      unfolding u(1) using b(2) by (rule mult_le_mono1)
    then show ?thesis using b(1) u(1,4) n by (simp add: cf_blocks_def)
  qed
  have uniq: "i = j" if ij: "i < length cs" "j < length cs" "in_slice (?ds ! i) q" "in_slice (?ds ! j) q" for i j q
  proof -
    have sep: False if "i < j" "j < length cs" "in_slice (?ds ! i) q" "in_slice (?ds ! j) q" for i j
    proof -
      have i: "i < length cs" using that by simp
      have "room (take i cs) + unat (cf_capacity (cs ! i)) \<le> room (take j cs)"
        using room_take_less [of i "take j cs"] that(1,2) by (simp add: min_def)
      then show False using each [OF i] each [OF that(2)] that(3,4) by (auto simp: in_slice_def)
    qed
    show ?thesis using sep [of i j] sep [of j i] ij by (cases i j rule: linorder_cases) auto
  qed
  have ex: "\<exists>i < length cs. in_slice (?ds ! i) q" if "q < unat raw" for q
    using placed_covers [OF assms(1-3) that assms(4)] .
  have "\<forall>c \<in> set cs. cf_data_block_size c \<noteq> 0" using assms(1) by (auto simp: cf_blocks_def)
  then have "allocate a 0 raw cs = (?ds, Inr ())" by (rule allocate_placed)
  moreover have "\<exists>!i. i < length ?ds \<and> in_slice (?ds ! i) q" if q: "q < unat raw" for q
  proof -
    obtain i where i: "i < length cs" "in_slice (?ds ! i) q" using ex [OF q] by blast
    show ?thesis by (rule ex1I [of _ i]) (use i uniq in auto)
  qed
  ultimately show ?thesis using each by (intro exI [of _ ?ds]) simp
qed

theorem allocation_partitions_storage_witness:
  "\<exists>ds. allocate 0 0 7 [bmp0, bmp0] = (ds, Inr ()) \<and> (\<forall>q < 7. \<exists>!i. i < length ds \<and> in_slice (ds ! i) q)"
proof -
  have "cf_blocks bmp0 5" by (simp add: cf_blocks_def bmp0_def CarrierFile_def enc1_def Encoder_GetDataBlockSize_def)
  moreover have "unat (cf_capacity bmp0) = 5" by (simp add: bmp0_def CarrierFile_def)
  ultimately have c: "\<forall>c \<in> set [bmp0, bmp0]. 0 < unat (cf_capacity c) \<and> (\<exists>n. cf_blocks c n)" "room [bmp0, bmp0] < 2 ^ 64"
      "room (butlast [bmp0, bmp0]) < unat (7 :: u64)" "unat (7 :: u64) \<le> room [bmp0, bmp0]" by auto
  show ?thesis using allocation_partitions_storage [OF c, of 0] by (elim exE conjE) (intro exI conjI, assumption, simp)
qed

section \<open>Applying the encoder\<close>

text \<open>A carrier whose local permutation can be set up with its subkey, and the same carrier under an encoder.\<close>

definition cf_prepared :: "cenv \<Rightarrow> carrier \<Rightarrow> bool" where
  "cf_prepared C c \<longleftrightarrow>
     (\<exists>q k p. cf_permutation c = Some q \<and> cf_subkey c = Some k \<and> Perm_Init (env_of C) (cf_raw_capacity c * 8) k q = (p, Inr ())) \<and>
     8 * unat (cf_raw_capacity c) < 2 ^ 32"

definition cf_under :: "cenv \<Rightarrow> encoder \<Rightarrow> carrier \<Rightarrow> carrier \<Rightarrow> bool" where
  "cf_under C e c c' \<longleftrightarrow>
     CF_SetEncoder (env_of C) (Some e) c = (c', Inr ()) \<and> unat (cf_capacity c') < 2 ^ 32 \<and>
     (\<exists>n. cf_blocks c' n \<and> n = unat (cf_block_count c'))"

lemma prepared_under:
  assumes "cf_prepared C c" "encoder_ok e"
  shows "cf_under C e c (fst (CF_SetEncoder (env_of C) (Some e) c))"
proof -
  obtain q k p where p: "cf_permutation c = Some q" "cf_subkey c = Some k"
      "Perm_Init (env_of C) (cf_raw_capacity c * 8) k q = (p, Inr ())" "8 * unat (cf_raw_capacity c) < 2 ^ 32"
    using assms(1) by (auto simp: cf_prepared_def)
  obtain c' where c: "CF_SetEncoder (env_of C) (Some e) c = (c', Inr ())"
      "c' = c\<lparr>cf_encoder := Some e, cf_data_block_size := GetDataBlockSize e, cf_codeword_block_size := GetCodewordBlockSize e,
              cf_block_count := cf_block_count c', cf_capacity := cf_capacity c'\<rparr>"
      "unat (cf_block_count c') = unat (Perm_GetSize p) div 8 div unat (GetCodewordBlockSize e)"
      "unat (cf_capacity c') = unat (Perm_GetSize p) div 8 div unat (GetCodewordBlockSize e) * unat (GetDataBlockSize e)"
      "8 * (unat (Perm_GetSize p) div 8 div unat (GetCodewordBlockSize e) * unat (GetCodewordBlockSize e)) \<le> unat (Perm_GetSize p)"
      "unat (Perm_GetSize p) \<le> 8 * unat (cf_raw_capacity c)"
    using SetEncoder_run [OF assms(2) p] by blast
  have d: "cf_data_block_size c' = GetDataBlockSize e" by (subst c(2), simp)
  have s: "0 < unat (GetDataBlockSize e)" "unat (GetDataBlockSize e) \<le> unat (GetCodewordBlockSize e)"
    using encoder.sizes_pos [OF assms(2)] encoder_sizes [OF assms(2)] by simp_all
  have "unat (cf_capacity c') \<le> unat (Perm_GetSize p) div 8 div unat (GetCodewordBlockSize e) * unat (GetCodewordBlockSize e)"
    unfolding c(4) using s(2) by (rule mult_le_mono2)
  then have "unat (cf_capacity c') < 2 ^ 32" using c(5,6) p(4) by linarith
  moreover have "unat (cf_block_count c') < 2 ^ 32" using unat_u32_less by simp
  ultimately show ?thesis using c(1,3,4) d s(1) by (auto simp: cf_under_def cf_blocks_def)
qed

lemma set_encoders_run:
  assumes "\<forall>c \<in> set cs. cf_prepared C c" "encoder_ok e"
  shows "set_encoders C (Some e) cs n =
           (map (\<lambda>c. fst (CF_SetEncoder (env_of C) (Some e) c)) cs,
            Inr (n + word_of_nat (room (map (\<lambda>c. fst (CF_SetEncoder (env_of C) (Some e) c)) cs))))"
  using assms(1)
proof (induction cs arbitrary: n)
  case (Cons c cs)
  have "cf_under C e c (fst (CF_SetEncoder (env_of C) (Some e) c))" using prepared_under assms(2) Cons.prems by simp
  then obtain c' where "CF_SetEncoder (env_of C) (Some e) c = (c', Inr ())" by (auto simp: cf_under_def)
  with Cons show ?case by (simp add: add.assoc)
qed simp

lemma room_bound: "\<forall>c \<in> set cs. unat (cf_capacity c) < 2 ^ 32 \<Longrightarrow> room cs \<le> length cs * 2 ^ 32"
  by (induction cs) auto

lemma ApplyEncoder_run:
  fixes C :: cenv
  assumes "cm_encoder m = Some e" "encoder_ok e" "hash_is (cm_password_hash m) st" "cm_carriers m \<noteq> []"
      and "\<forall>c \<in> set (cm_carriers m). name_ok c" "length (cm_carriers m) \<le> 2 ^ 30"
  defines "master \<equiv> master_of st (map cf_name (cm_carriers m))"
  defines "cs \<equiv> map (\<lambda>c. fst (CF_SetEncoder (env_of C) (Some e) c)) (with_subkeys master 0 (cm_carriers m))"
  assumes "\<forall>c \<in> set (with_subkeys master 0 (cm_carriers m)). cf_prepared C c"
  shows "ApplyEncoder C m =
           (if room cs = 0 then (m\<lparr>cm_master_key := Some (key_with master), cm_carriers := cs\<rparr>, Inl ZeroAllocatedSize)
            else (m\<lparr>cm_master_key := Some (key_with master), cm_carriers := cs,
                    cm_capacity := word_of_nat (room cs), cm_active := True\<rparr>, Inr ())) \<and>
         unat (word_of_nat (room cs) :: u64) = room cs \<and>
         (\<forall>c \<in> set cs. cf_blocks c (unat (cf_block_count c)))"
proof -
  let ?m2 = "m\<lparr>cm_master_key := Some (key_with master)\<rparr>"
  have g: "GenerateMasterKey C m = Inr ?m2" using GenerateMasterKey_run [OF assms(3-5)] by (simp add: master_def)
  have d: "DeriveSubkeys C ?m2 = (?m2\<lparr>cm_carriers := with_subkeys master 0 (cm_carriers m)\<rparr>, Inr ())"
    using DeriveSubkeys_run [of ?m2 master C] assms(5,6) by (simp add: master_def)
  have se: "set_encoders C (Some e) (with_subkeys master 0 (cm_carriers m)) 0 = (cs, Inr (word_of_nat (room cs)))"
    using set_encoders_run [OF assms(9,2), of 0] by (simp add: cs_def)
  have each: "\<forall>c \<in> set cs. unat (cf_capacity c) < 2 ^ 32 \<and> cf_blocks c (unat (cf_block_count c))"
    using prepared_under [OF _ assms(2)] assms(9) by (auto simp: cs_def cf_under_def)
  have "length cs \<le> 2 ^ 30" using assms(6) by (simp add: cs_def)
  then have "length cs * 2 ^ 32 \<le> 2 ^ 30 * (2 ^ 32 :: nat)" by (rule mult_le_mono1)
  moreover have "room cs \<le> length cs * 2 ^ 32" using room_bound each by blast
  ultimately have r: "room cs < 2 ^ 64" by simp
  then have u: "unat (word_of_nat (room cs) :: u64) = room cs" by (simp add: unat_of_nat_u64)
  then have "(word_of_nat (room cs) :: u64) = 0 \<longleftrightarrow> room cs = 0" by (metis unat_0 unat_eq_0)
  then show ?thesis using g d se assms(1) u each by (simp add: ApplyEncoder_def Let_def)
qed

text \<open>A manager with one bitmap, before the encoder is applied.\<close>

definition bmp2 :: carrier where
  "bmp2 = (CarrierFile (BMP 54 400) (File ''a.bmp'') None (Some (IdentityPerm IdentityPermutation)))\<lparr>cf_raw_capacity := 50\<rparr>"

definition manager2 :: manager where
  "manager2 = \<lparr>cm_base_path = ''.'', cm_carriers = [bmp2], cm_capacity = 0, cm_files_in_directory = 1, cm_master_key = None,
               cm_storage = None, cm_encoder = Some enc1,
               cm_password_hash = \<lparr>h_state = \<lparr>mb_buffer = Some (replicate 32 0), mb_size = 32\<rparr>\<rparr>, cm_active = False\<rparr>"

definition master2 :: bytes where
  "master2 = master_of (replicate 32 0) [''a.bmp'']"

definition bmp2_encoded :: carrier where
  "bmp2_encoded = bmp2\<lparr>cf_subkey := Some (key_with (subkey_of master2 0 ''a.bmp'')), cf_encoder := Some enc1,
                       cf_data_block_size := 1, cf_codeword_block_size := 1, cf_block_count := 50, cf_capacity := 50\<rparr>"

lemma bmp2_name: "cf_name bmp2 = ''a.bmp''" "name_ok bmp2"
  by (simp_all add: name_ok_def cf_name_def bmp2_def CarrierFile_def GetNormalizedPath_def NormalizePath_def GetRelativePath_def File_def
      path_filename_def lower_def tolower_def)

lemma bmp2_prepared: "cf_prepared C (bmp2\<lparr>cf_subkey := Some k\<rparr>)"
  by (simp add: cf_prepared_def bmp2_def CarrierFile_def split_def Identity_Init_def)

lemma bmp2_under: "CF_SetEncoder E (Some enc1) (bmp2\<lparr>cf_subkey := Some k\<rparr>) =
   (bmp2\<lparr>cf_subkey := Some k, cf_encoder := Some enc1, cf_data_block_size := 1, cf_codeword_block_size := 1,
         cf_block_count := 50, cf_capacity := 50\<rparr>, Inr ())"
  by (simp add: CF_SetEncoder_def cf_perm_def cf_key_def bmp2_def CarrierFile_def enc1_def Encoder_GetCodewordBlockSize_def
      Encoder_GetDataBlockSize_def Identity_GetSizeUsingParams_def Let_def)

lemma manager2_applied:
  "ApplyEncoder cenv0 manager2 =
     (manager2\<lparr>cm_master_key := Some (key_with master2), cm_carriers := [bmp2_encoded], cm_capacity := 50, cm_active := True\<rparr>, Inr ())"
proof -
  have "encoder_ok enc1" by (simp add: enc1_def lsb_ok_def)
  moreover have "unat (cf_capacity bmp2_encoded) = 50" by (simp add: bmp2_encoded_def)
  ultimately show ?thesis
    using ApplyEncoder_run [of manager2 enc1 "replicate 32 0" cenv0] bmp2_name bmp2_prepared
    by (simp add: manager2_def hash_is_def bmp2_under bmp2_encoded_def master2_def)
qed



end
