(* ===== verification/Stego_Storage.thy ===== *)
theory Stego_Storage
  imports Carrier_Manager
begin

text \<open>
  \<^verbatim>\<open>src/stego_storage.cc\<close>: the interface of the library.  An object is not configured, configured, opened and
  loaded, in an order that every call checks; reading and writing go to the virtual storage.
\<close>

section \<open>The state of the process\<close>

text \<open>The members of \<open>StegoStorage\<close>, with the settings of the process and the world.\<close>

record stego =
  ss_manager :: manager
  ss_storage :: "nat option"
  ss_opened :: bool
  ss_config :: stego_config
  ss_world :: world

definition StegoStorage :: "(nat \<Rightarrow> u8) \<Rightarrow> stego_config \<Rightarrow> world \<Rightarrow> stego res" where
  "StegoStorage garbage sc w =
     bindR (CarrierFilesManager garbage) (\<lambda>m.
     Inr \<lparr>ss_manager = m, ss_storage = None, ss_opened = False, ss_config = sc, ss_world = w\<rparr>)"

type_synonym 'a sio = "(stego, 'a) meth"

definition on_manager :: "'a mio \<Rightarrow> 'a sio" where
  "on_manager f s =
     (case f (ss_manager s, ss_world s) of ((m, w), r) \<Rightarrow> (s\<lparr>ss_manager := m, ss_world := w\<rparr>, r))"

definition manager_only :: "(manager, 'a) meth \<Rightarrow> 'a mio" where
  "manager_only f s = (case f (fst s) of (m, r) \<Rightarrow> ((m, snd s), r))"

section \<open>The calls\<close>

definition SS_Open :: "cenv \<Rightarrow> string \<Rightarrow> string \<Rightarrow> string \<Rightarrow> unit sio" where
  "SS_Open C storage_base_path password filter_text =
     seqM (modifyM (\<lambda>s. s\<lparr>ss_opened := False\<rparr>))
    (bindM (getM (\<lambda>s. if filter_text = [] then CreateFilterFromConfig (ss_config s) else filter_text)) (\<lambda>used_filter.
     seqM (on_manager (manager_only (SetPassword password)))
    (seqM (\<lambda>s. on_manager (LoadDirectory C (ss_config s) storage_base_path used_filter) s)
          (modifyM (\<lambda>s. s\<lparr>ss_opened := True\<rparr>)))))"

definition file_text :: "bytes \<Rightarrow> string" where
  "file_text bs = map (\<lambda>b. char_of (unat b)) bs"

definition Configure_file :: "string \<Rightarrow> unit sio" where
  "Configure_file config_path =
     bindM (getM (\<lambda>s. w_files (ss_world s) config_path)) (\<lambda>content.
     case content of
       None \<Rightarrow> throwM (ErrorOpenFile config_path)
     | Some bs \<Rightarrow>
         (case Parse (file_text bs) JNull of (config, parse_error) \<Rightarrow>
            if parse_error = [] then modifyM (\<lambda>s. s\<lparr>ss_config := StegoConfig_Init config (ss_config s)\<rparr>)
            else throwM (ParseError config_path parse_error)))"

definition configuration :: "EncoderType \<Rightarrow> PermutationType \<Rightarrow> PermutationType \<Rightarrow> json" where
  "configuration encoder global_perm local_perm =
     AddToObject ''local_perm'' (JString (GetPermutationName local_perm))
       (AddToObject ''global_perm'' (JString (GetPermutationName global_perm))
         (AddToObject ''encoder'' (JString (GetEncoderName encoder)) JNull))"

definition Configure :: "EncoderType \<Rightarrow> PermutationType \<Rightarrow> PermutationType \<Rightarrow> unit sio" where
  "Configure encoder global_perm local_perm =
     modifyM (\<lambda>s. s\<lparr>ss_config := StegoConfig_Init (configuration encoder global_perm local_perm) (ss_config s)\<rparr>)"

definition Configure_default :: "unit sio" where
  "Configure_default = Configure GetDefaultEncoderType GetDefaultPermutationType GetDefaultPermutationType"

text \<open>
  \<open>Load\<close> puts a new virtual storage on the heap; the member points to it from then on, also when what
  follows throws.  Whether the checksum is valid is not looked at.
\<close>

definition new_storage :: "unit sio" where
  "new_storage =
     modifyM (\<lambda>s. s\<lparr>ss_storage := Some (length (w_storages (ss_world s))),
                    ss_world := (ss_world s)\<lparr>w_storages := w_storages (ss_world s) @ [VirtualStorage]\<rparr>\<rparr>)"

definition on_own_storage :: "(vstore \<Rightarrow> vstore res) \<Rightarrow> unit sio" where
  "on_own_storage f s =
     (case ss_storage s of
        None \<Rightarrow> (s, Inl Undefined)
      | Some a \<Rightarrow> on_manager (on_storage a (updateM f)) s)"

definition SS_Load :: "cenv \<Rightarrow> unit sio" where
  "SS_Load C =
     bindM (getM id) (\<lambda>s.
     if \<not> sc_loaded (ss_config s) then throwM (InvalidState loadStegoStorage storage notConfigured)
     else if \<not> ss_opened s then throwM (InvalidState loadStegoStorage storage notOpened)
     else
       bindM (askM (\<lambda>s. GetEncoder (sc_encoder (ss_config s)))) (\<lambda>e.
       seqM (on_manager (manager_only (CM_SetEncoder (Some e))))
      (seqM (on_manager (manager_only (ApplyEncoder C)))
      (seqM new_storage
      (seqM (on_own_storage (VS_SetPermutation (Some (GetPermutation (sc_global_perm (ss_config s))))))
      (bindM (getM ss_storage) (\<lambda>a.
       bindM (on_manager (LoadVirtualStorage C a)) (\<lambda>valid. returnM ()))))))))"

definition SS_Save :: "cenv \<Rightarrow> unit sio" where
  "SS_Save C =
     bindM (getM id) (\<lambda>s.
     if \<not> ss_opened s then throwM (InvalidState saveStegoStorage storage notOpened)
     else if ss_storage s = None then throwM (InvalidState saveStegoStorage storage notLoaded)
     else on_manager (SaveVirtualStorage C))"

definition own_storage :: "stego \<Rightarrow> vstore res" where
  "own_storage s = (case ss_storage s of
                      None \<Rightarrow> Inl (InvalidState ioStegoStorage storage notLoaded)
                    | Some a \<Rightarrow> the_storage a (ss_manager s, ss_world s))"

definition SS_Read :: "u64 \<Rightarrow> u64 \<Rightarrow> bytes sio" where
  "SS_Read offset len = askM (\<lambda>s. bindR (own_storage s) (\<lambda>vs. VS_Read vs offset len))"

definition SS_Write :: "bytes option \<Rightarrow> u64 \<Rightarrow> u64 \<Rightarrow> unit sio" where
  "SS_Write source offset len s =
     (if ss_storage s = None then (s, Inl (InvalidState ioStegoStorage storage notLoaded))
      else on_own_storage (\<lambda>vs. VS_Write vs offset len source) s)"

definition SS_GetSize :: "stego \<Rightarrow> u64 res" where
  "SS_GetSize s = (case ss_storage s of
                     None \<Rightarrow> Inr 0
                   | Some a \<Rightarrow> bindR (the_storage a (ss_manager s, ss_world s)) VS_GetUsableCapacity)"

text \<open>The parsed configuration is not used.\<close>

definition SS_ChangeEncoder :: "string \<Rightarrow> unit sio" where
  "SS_ChangeEncoder config =
     (case Parse config JNull of (json_config, parse_error) \<Rightarrow>
        if parse_error = [] then returnM () else throwM (ParseError config parse_error))"

text \<open>
  C35. \<open>Configure\<close> writes the global permutation under a name \<open>StegoConfig::Init\<close> does not read: whatever is asked for, the
  session uses the permutation an empty name stands for.  The encoder and the local permutation arrive.
\<close>

theorem Configure_global_perm:
  "snd (Configure e g l s) = Inr () \<and> sc_encoder (ss_config (fst (Configure e g l s))) = e \<and>
   sc_local_perm (ss_config (fst (Configure e g l s))) = l \<and>
   sc_global_perm (ss_config (fst (Configure e g l s))) = FEISTEL_MIX"
proof -
  have c: "configuration e g l = JObject [(''encoder'', JString (GetEncoderName e)), (''global_perm'', JString (GetPermutationName g)),
      (''local_perm'', JString (GetPermutationName l))]"
    by (simp add: configuration_def AddToObject_def ToObject_def)
  have k: "const_member ''encoder'' (configuration e g l) = JString (GetEncoderName e)"
      "const_member ''local_perm'' (configuration e g l) = JString (GetPermutationName l)"
      "const_member ''glob_perm'' (configuration e g l) = JNull"
      "const_member ''include_types'' (configuration e g l) = JNull"
      "const_member ''file_types'' (configuration e g l) = JNull"
      "const_member ''ffprobe_path'' (configuration e g l) = JNull"
    by (simp_all add: const_member_def c at_key_const_def map_at_def)
  have t: "GetEncoderType (GetEncoderName e) = e" "GetPermutationType (GetPermutationName l) = l"
    by (induction e; code_simp) (induction l; code_simp)
  have d: "GetPermutationType [] = FEISTEL_MIX" by code_simp
  show ?thesis by (simp add: t d Configure_def modifyM_def StegoConfig_Init_def k Let_def ToString_def ToString_default_def IsArray_def)
qed

end
