(* ===== verification/Stego_Session.thy ===== *)
theory Stego_Session
  imports Carrier_Capacity Stego_Storage
begin

text \<open>
  Sessions of the library (\<^verbatim>\<open>stego_storage.cc\<close>): load, write, save, and load again.
\<close>

section \<open>Writing through the interface\<close>

text \<open>A run of writes, each a position and the bytes to put there.\<close>

definition write_run :: "(u64 \<times> bytes) list \<Rightarrow> unit sio" where
  "write_run ws = forM (\<lambda>(offset, d). SS_Write (Some d) offset (word_of_nat (length d))) ws"

definition written :: "(u64 \<times> bytes) list \<Rightarrow> bytes \<Rightarrow> bytes" where
  "written ws content = fold (\<lambda>(offset, d). copy_at (unat offset) d) ws content"

definition write_fits :: "nat \<Rightarrow> u64 \<times> bytes \<Rightarrow> bool" where
  "write_fits n w = (case w of (offset, d) \<Rightarrow> unat offset + length d \<le> n)"

lemma SS_Write_run:
  assumes "ss_storage s = Some a" "st_ok a (ss_world s)" "write_fits (unat (vs_usable_capacity (w_storages (ss_world s) ! a))) (offset, d)"
  shows "\<exists>w2. SS_Write (Some d) offset (word_of_nat (length d)) s = (s\<lparr>ss_world := w2\<rparr>, Inr ()) \<and> st_ok a w2 \<and> st_same a (ss_world s) w2 \<and>
           vs_usable_capacity (w_storages w2 ! a) = vs_usable_capacity (w_storages (ss_world s) ! a) \<and>
           vs_abs (w_storages w2 ! a) = copy_at (unat offset) d (vs_abs (w_storages (ss_world s) ! a))"
proof -
  let ?w = "ss_world s" and ?vs = "w_storages (ss_world s) ! a" and ?n = "word_of_nat (length d) :: u64"
  have a: "a < length (w_storages ?w)" "vs_ok ?vs" using assms(2) by (simp_all add: st_ok_def)
  have l: "unat offset + length d \<le> unat (vs_usable_capacity ?vs)" using assms(3) by (simp add: write_fits_def)
  then have n: "unat ?n = length d" using unat_u64_less [of "vs_usable_capacity ?vs"] by (simp add: unat_of_nat_u64)
  obtain vs' where v: "VS_Write ?vs offset ?n (Some d) = Inr vs'" "vs_ok vs'" "vs_raw_capacity vs' = vs_raw_capacity ?vs"
      "vs_usable_capacity vs' = vs_usable_capacity ?vs" "vs_permutation vs' = vs_permutation ?vs" "vs_bytes vs' = copy_at (unat offset) d (vs_bytes ?vs)"
    using VS_Write_correct [OF a(2), of offset ?n d] l n by auto
  have abs: "vs_abs vs' = copy_at (unat offset) d (vs_abs ?vs)"
    unfolding vs_abs_def v(4,6) using l vs_capacity [OF a(2)] by (intro take_copy_at) simp_all
  let ?w2 = "?w\<lparr>w_storages := (w_storages ?w)[a := vs']\<rparr>"
  have "SS_Write (Some d) offset ?n s = (s\<lparr>ss_world := ?w2\<rparr>, Inr ())"
    using assms(1) a(1) v(1) by (simp add: SS_Write_def on_own_storage_def on_manager_def on_storage_def run_simps)
  then show ?thesis using a v abs by (intro exI [of _ ?w2]) (simp add: st_ok_def st_same_def)
qed

lemma write_run_run:
  assumes "ss_storage s = Some a" "st_ok a (ss_world s)" "\<forall>w \<in> set ws. write_fits (unat (vs_usable_capacity (w_storages (ss_world s) ! a))) w"
  shows "\<exists>w2. write_run ws s = (s\<lparr>ss_world := w2\<rparr>, Inr ()) \<and> st_ok a w2 \<and> st_same a (ss_world s) w2 \<and>
           vs_abs (w_storages w2 ! a) = written ws (vs_abs (w_storages (ss_world s) ! a))"
  using assms
proof (induction ws arbitrary: s)
  case Nil
  then show ?case by (intro exI [of _ "ss_world s"]) (simp add: write_run_def written_def run_simps)
next
  case (Cons x ws)
  obtain offset d where x: "x = (offset, d)" by (cases x)
  have "write_fits (unat (vs_usable_capacity (w_storages (ss_world s) ! a))) (offset, d)" using Cons.prems(3) x by simp
  from SS_Write_run [OF Cons.prems(1,2) this] obtain w1 where w1: "SS_Write (Some d) offset (word_of_nat (length d)) s = (s\<lparr>ss_world := w1\<rparr>, Inr ())" "st_ok a w1" "st_same a (ss_world s) w1"
      "vs_usable_capacity (w_storages w1 ! a) = vs_usable_capacity (w_storages (ss_world s) ! a)"
      "vs_abs (w_storages w1 ! a) = copy_at (unat offset) d (vs_abs (w_storages (ss_world s) ! a))"
    by (elim exE conjE)
  obtain w2 where "write_run ws (s\<lparr>ss_world := w1\<rparr>) = (s\<lparr>ss_world := w2\<rparr>, Inr ())" "st_ok a w2" "st_same a w1 w2"
      "vs_abs (w_storages w2 ! a) = written ws (vs_abs (w_storages w1 ! a))"
    using Cons.IH [of "s\<lparr>ss_world := w1\<rparr>"] Cons.prems(1,3) w1(2,4) by auto
  then show ?case using w1(1,5) x st_same_trans [OF w1(3)]
    by (intro exI [of _ w2]) (simp add: write_run_def written_def run_simps)
qed

section \<open>A session of the library\<close>

text \<open>What \<open>Load\<close> needs from its settings and from the manager up to the virtual storage.\<close>

definition can_load :: "cenv \<Rightarrow> stego \<Rightarrow> encoder \<Rightarrow> manager \<Rightarrow> key \<Rightarrow> permutation \<Rightarrow> bool" where
  "can_load C s e m k p \<longleftrightarrow>
     sc_loaded (ss_config s) \<and> ss_opened s \<and> GetEncoder (sc_encoder (ss_config s)) = Inr e \<and>
     ApplyEncoder C (fst (CM_SetEncoder (Some e) (ss_manager s))) = (m, Inr ()) \<and> cm_master_key m = Some k \<and>
     Perm_Init (env_of C) (cm_capacity m) k (GetPermutation (sc_global_perm (ss_config s))) = (p, Inr ()) \<and> 32 < Perm_GetSize p \<and>
     cm_ready C e (w_files (ss_world s)) (Perm_GetSize p) m"

definition loading :: "stego \<Rightarrow> world" where
  "loading s = (ss_world s)\<lparr>w_storages := w_storages (ss_world s) @ [new_vs (GetPermutation (sc_global_perm (ss_config s)))]\<rparr>"

lemma SS_Load_run:
  assumes "sc_loaded (ss_config s)" "ss_opened s" "GetEncoder (sc_encoder (ss_config s)) = Inr e"
      and "ApplyEncoder C (fst (CM_SetEncoder (Some e) (ss_manager s))) = (m, Inr ())"
      and "LoadVirtualStorage C (Some (length (w_storages (ss_world s)))) (m, loading s) = ((m1, w1), Inr valid)"
  shows "SS_Load C s = (s\<lparr>ss_manager := m1, ss_storage := Some (length (w_storages (ss_world s))), ss_world := w1\<rparr>, Inr ())"
proof -
  have ce: "CM_SetEncoder (Some e) (ss_manager s) = (fst (CM_SetEncoder (Some e) (ss_manager s)), Inr ())"
    by (simp add: CM_SetEncoder_def)
  let ?q = "GetPermutation (sc_global_perm (ss_config s))"
  have q: "updateM (VS_SetPermutation (Some ?q)) VirtualStorage = (new_vs ?q, Inr ())"
    by (simp add: updateM_run new_vs_made)
  let ?m0 = "fst (CM_SetEncoder (Some e) (ss_manager s))" and ?a = "length (w_storages (ss_world s))"
  let ?s1 = "s\<lparr>ss_manager := ?m0\<rparr>" and ?s2 = "s\<lparr>ss_manager := m\<rparr>"
  let ?s3 = "?s2\<lparr>ss_storage := Some ?a, ss_world := (ss_world s)\<lparr>w_storages := w_storages (ss_world s) @ [VirtualStorage]\<rparr>\<rparr>"
  let ?s4 = "?s2\<lparr>ss_storage := Some ?a, ss_world := loading s\<rparr>"
  have steps: "on_manager (manager_only (CM_SetEncoder (Some e))) s = (?s1, Inr ())"
      "on_manager (manager_only (ApplyEncoder C)) ?s1 = (?s2, Inr ())"
      "new_storage ?s2 = (?s3, Inr ())"
      "on_own_storage (VS_SetPermutation (Some ?q)) ?s3 = (?s4, Inr ())"
      "on_manager (LoadVirtualStorage C (Some ?a)) ?s4 = (s\<lparr>ss_manager := m1, ss_storage := Some ?a, ss_world := w1\<rparr>, Inr valid)"
    subgoal by (subst on_manager_def, subst manager_only_def, subst fst_conv, subst ce) simp
    subgoal using assms(4) by (simp add: on_manager_def manager_only_def split_def)
    subgoal by (simp add: new_storage_def run_simps)
    subgoal using q by (simp add: on_own_storage_def on_manager_def on_storage_def loading_def nth_append list_update_append)
    subgoal using assms(5) by (simp add: on_manager_def)
    done
  show ?thesis unfolding SS_Load_def using assms(1-3) steps by (simp add: run_simps)
qed

text \<open>The size and the bytes of a storage with its permutation applied.\<close>

lemma applied_size:
  assumes "vs_ok x" "vs_permutation x = Some p"
  shows "vs_usable_capacity x = Perm_GetSize p - 32" "unat (vs_usable_capacity x) = unat (Perm_GetSize p) - 32"
    "VS_GetUsableCapacity x = Inr (Perm_GetSize p - 32)"
proof -
  show u: "vs_usable_capacity x = Perm_GetSize p - 32" using assms by (auto simp: vs_ok_def)
  show "unat (vs_usable_capacity x) = unat (Perm_GetSize p) - 32" using assms by (elim vs_okE) auto
  have "vs_is_set x" using assms(1) by (elim vs_okE)
  then show "VS_GetUsableCapacity x = Inr (Perm_GetSize p - 32)" using u assms(2) by (simp add: VS_GetUsableCapacity_def)
qed

text \<open>Loading the files that hold storage \<open>a\<close> of the world \<open>w3\<close>.\<close>

lemma loads_saved:
  assumes "can_load C s e m k p" "list_all2 (cf_loaded_from C) (placed a 0 (Perm_GetSize p) (cm_carriers m)) ds"
      and "st_ok a w3" "vs_permutation (w_storages w3 ! a) = Some p" "vs_checksum_ok (w_storages w3 ! a)"
      and "\<forall>d \<in> set ds. \<exists>content. Open (w_files w3) (cf_file d) = Inr content \<and> (\<forall>p. cf_in_use p e a d \<longrightarrow> reloads C p e a d w3 content)"
      and "ss_manager t = ss_manager s" "ss_config t = ss_config s" "ss_opened t" "w_files (ss_world t) = w_files w3"
  shows "\<exists>t1. SS_Load C t = (t1, Inr ()) \<and> SS_GetSize t1 = Inr (Perm_GetSize p - 32) \<and>
           (\<forall>offset len. unat offset + unat len \<le> unat (Perm_GetSize p) - 32 \<longrightarrow>
              SS_Read offset len t1 = (t1, Inr (take (unat len) (drop (unat offset) (vs_abs (w_storages w3 ! a))))))"
proof -
  let ?q = "GetPermutation (sc_global_perm (ss_config s))" and ?b = "length (w_storages (ss_world t))"
  note c = assms(1) [unfolded can_load_def]
  have k: "cm_master_key m = Some k" "Perm_Init (env_of C) (cm_capacity m) k ?q = (p, Inr ())" "32 < Perm_GetSize p"
      "cm_ready C e (w_files (ss_world s)) (Perm_GetSize p) m" using c by simp_all
  have lb: "?b < length (w_storages (loading t))" "w_storages (loading t) ! ?b = new_vs ?q" "w_files (loading t) = w_files w3"
    using assms(8,10) by (simp_all add: loading_def nth_append)
  have saved: "\<forall>d \<in> set ds. \<exists>content. Open (w_files (loading t)) (cf_file d) = Inr content \<and>
      (\<forall>p. cf_in_use p e a d \<longrightarrow> reloads C p e a d w3 content)" using assms(6) lb(3) by simp
  obtain m5 w5 where r: "LoadVirtualStorage C (Some ?b) (m, loading t) = ((m5, w5), Inr True)" "st_ok ?b w5"
      "vs_abs (w_storages w5 ! ?b) = vs_abs (w_storages w3 ! a)" "vs_permutation (w_storages w5 ! ?b) = Some p"
    using load_again [OF k(4,1,2,3) assms(2-5) saved lb(1,2)] by blast
  let ?t1 = "t\<lparr>ss_manager := m5, ss_storage := Some ?b, ss_world := w5\<rparr>"
  have "SS_Load C t = (?t1, Inr ())" by (rule SS_Load_run [OF _ _ _ _ r(1)]) (use c assms(7-9) in auto)
  moreover have x5: "vs_ok (w_storages w5 ! ?b)" "?b < length (w_storages w5)" using r(2) by (simp_all add: st_ok_def)
  note u5 = applied_size [OF x5(1) r(4)]
  have "SS_GetSize ?t1 = Inr (Perm_GetSize p - 32)" using u5(3) x5(2) by (simp add: SS_GetSize_def the_storage_def)
  moreover have "SS_Read offset len ?t1 = (?t1, Inr (take (unat len) (drop (unat offset) (vs_abs (w_storages w3 ! a)))))"
    if "unat offset + unat len \<le> unat (Perm_GetSize p) - 32" for offset len
  proof -
    have "unat offset + unat len \<le> unat (vs_usable_capacity (w_storages w5 ! ?b))" using that u5(2) by linarith
    then show ?thesis using VS_Read_correct [OF x5(1)] x5(2) r(3) by (simp add: SS_Read_def own_storage_def the_storage_def run_simps)
  qed
  ultimately show ?thesis by blast
qed

text \<open>A process with one bitmap of 400 samples, the encoder that copies, and identity permutations.\<close>

definition stego2 :: stego where
  "stego2 = \<lparr>ss_manager = manager2\<lparr>cm_encoder := None\<rparr>, ss_storage = None, ss_opened = True,
             ss_config = StegoConfig\<lparr>sc_loaded := True\<rparr>,
             ss_world = \<lparr>w_files = [''a.bmp'' \<mapsto> replicate 454 77], w_storages = []\<rparr>\<rparr>"

definition ident50 :: permutation where
  "ident50 = IdentityPerm \<lparr>p_size = 50, p_initialized = True\<rparr>"

lemma stego2_can_load:
  "can_load cenv0 stego2 enc1
     (manager2\<lparr>cm_master_key := Some (key_with master2), cm_carriers := [bmp2_encoded], cm_capacity := 50, cm_active := True\<rparr>)
     (key_with master2) ident50"
proof -
  have g: "GetEncoder LSB = Inr enc1"
    by (simp add: LsbEncoder_default_def LsbEncoder_def kEncoderLsbDefaultBlockSize_def Lsb_Init_correct res_simps enc_base_init_def mapR_def enc1_def)
  have m: "fst (CM_SetEncoder (Some enc1) (manager2\<lparr>cm_encoder := None\<rparr>)) = manager2"
    by (simp add: CM_SetEncoder_def manager2_def)
  have "cf_idle cenv0 enc1 (w_files (ss_world stego2)) bmp2_encoded"
    unfolding cf_idle_def
    by (rule exI [of _ "IdentityPerm \<lparr>p_size = 400, p_initialized = True\<rparr>"], rule exI [of _ 50], rule exI [of _ "replicate 454 77"])
      (simp add: bmp2_encoded_def bmp2_def CarrierFile_def cf_perm_after_def Identity_Init_def IdentityPermutation_def Permutation_GetSize_def
        cf_encodes_def enc1_def lsb_ok_def cf_blocks_def MB_new_def mb_ok_def Encoder_GetCodewordBlockSize_def Encoder_GetDataBlockSize_def
        stego2_def Open_def GetAbsolutePath_def File_def cover_ok_def)
  then have "cm_ready cenv0 enc1 (w_files (ss_world stego2)) (Perm_GetSize ident50)
      (manager2\<lparr>cm_master_key := Some (key_with master2), cm_carriers := [bmp2_encoded], cm_capacity := 50, cm_active := True\<rparr>)"
    by (simp add: cm_ready_def manager2_def bmp2_encoded_def ident50_def Permutation_GetSize_def)
  then show ?thesis
    using g m manager2_applied
    by (simp add: can_load_def stego2_def StegoConfig_def Identity_Init_def ident50_def Permutation_GetSize_def)
qed

text \<open>Loading for the first time, whatever the files hold.\<close>

lemma SS_Load_first:
  assumes "can_load C s e m k p"
  defines "a \<equiv> length (w_storages (ss_world s))"
  shows "\<exists>ds w1. SS_Load C s = (s\<lparr>ss_manager := m\<lparr>cm_carriers := ds, cm_storage := Some a\<rparr>, ss_storage := Some a, ss_world := w1\<rparr>, Inr ()) \<and>
     list_all2 (cf_loaded_from C) (placed a 0 (Perm_GetSize p) (cm_carriers m)) ds \<and>
     st_ok a w1 \<and> w_files w1 = w_files (ss_world s) \<and> vs_permutation (w_storages w1 ! a) = Some p"
proof -
  note c = assms(1) [unfolded can_load_def]
  have lt: "a < length (w_storages (loading s))" "w_storages (loading s) ! a = new_vs (GetPermutation (sc_global_perm (ss_config s)))"
      "w_files (loading s) = w_files (ss_world s)"
    by (simp_all add: loading_def nth_append a_def)
  have rdy: "cm_ready C e (w_files (loading s)) (Perm_GetSize p) m" using c lt(3) by simp
  have k: "cm_master_key m = Some k" "Perm_Init (env_of C) (cm_capacity m) k (GetPermutation (sc_global_perm (ss_config s))) = (p, Inr ())"
      "32 < Perm_GetSize p" using c by simp_all
  obtain ds w1 v where l: "LoadVirtualStorage C (Some a) (m, loading s) = ((m\<lparr>cm_carriers := ds, cm_storage := Some a\<rparr>, w1), Inr v)"
      "list_all2 (cf_loaded_from C) (placed a 0 (Perm_GetSize p) (cm_carriers m)) ds"
      "st_ok a w1" "w_files w1 = w_files (loading s)" "vs_permutation (w_storages w1 ! a) = Some p"
    using first_load [OF rdy k lt(1,2)] by blast
  have "SS_Load C s = (s\<lparr>ss_manager := m\<lparr>cm_carriers := ds, cm_storage := Some a\<rparr>, ss_storage := Some a, ss_world := w1\<rparr>, Inr ())"
    unfolding a_def by (rule SS_Load_run [OF _ _ _ _ l(1) [unfolded a_def]]) (use c in blast)+
  then show ?thesis using l lt(3) by auto
qed

text \<open>
  C1. What is written in one session is read in the next one.  A library that is configured and has opened a directory
  whose carriers are covers loads, whatever the files hold; any run of writes within the size succeeds, and
  so does saving; a process with the same settings that has opened the same directory with the same
  password, found the same carriers and has the saved files loads them, reports the same size, and reads at every position what
  was there after the writes.
\<close>

theorem written_is_read_again:
  assumes "can_load C s e m k p"
  shows "\<exists>s1 content. SS_Load C s = (s1, Inr ()) \<and> SS_GetSize s1 = Inr (Perm_GetSize p - 32) \<and>
     length content = unat (Perm_GetSize p) - 32 \<and>
     (\<forall>ws. (\<forall>w \<in> set ws. write_fits (unat (Perm_GetSize p) - 32) w) \<longrightarrow>
        (\<exists>s2 s3. write_run ws s1 = (s2, Inr ()) \<and> SS_Save C s2 = (s3, Inr ()) \<and>
           (\<forall>t. ss_manager t = ss_manager s \<and> ss_config t = ss_config s \<and> ss_opened t \<and> w_files (ss_world t) = w_files (ss_world s3) \<longrightarrow>
              (\<exists>t1. SS_Load C t = (t1, Inr ()) \<and> SS_GetSize t1 = SS_GetSize s1 \<and>
                 (\<forall>offset len. unat offset + unat len \<le> unat (Perm_GetSize p) - 32 \<longrightarrow>
                    SS_Read offset len t1 = (t1, Inr (take (unat len) (drop (unat offset) (written ws content)))))))))"
proof -
  let ?q = "GetPermutation (sc_global_perm (ss_config s))" and ?a = "length (w_storages (ss_world s))"
  note c = assms [unfolded can_load_def]
  have rdy: "cm_ready C e (w_files (ss_world s)) (Perm_GetSize p) m" using c by simp
  have k: "cm_master_key m = Some k" "Perm_Init (env_of C) (cm_capacity m) k ?q = (p, Inr ())" "32 < Perm_GetSize p" using c by simp_all
  have size: "Perm_GetSize p \<le> cm_capacity m"
    using VS_Apply_run(4) [OF k(2,3)] rdy by (simp add: cm_ready_def word_le_nat_alt word_less_nat_alt)
  obtain ds w1 where l: "SS_Load C s = (s\<lparr>ss_manager := m\<lparr>cm_carriers := ds, cm_storage := Some ?a\<rparr>, ss_storage := Some ?a, ss_world := w1\<rparr>, Inr ())"
      "list_all2 (cf_loaded_from C) (placed ?a 0 (Perm_GetSize p) (cm_carriers m)) ds"
      "st_ok ?a w1" "w_files w1 = w_files (ss_world s)" "vs_permutation (w_storages w1 ! ?a) = Some p"
    using SS_Load_first [OF assms] by blast
  define s1 where "s1 = s\<lparr>ss_manager := m\<lparr>cm_carriers := ds, cm_storage := Some ?a\<rparr>, ss_storage := Some ?a, ss_world := w1\<rparr>"
  have L: "SS_Load C s = (s1, Inr ())" unfolding s1_def by (rule l(1))
  have x1: "vs_ok (w_storages w1 ! ?a)" "?a < length (w_storages w1)" using l(3) by (simp_all add: st_ok_def)
  note u1 = applied_size [OF x1(1) l(5)]
  have gs: "SS_GetSize s1 = Inr (Perm_GetSize p - 32)" using u1(3) x1(2) by (simp add: SS_GetSize_def s1_def the_storage_def)
  have "\<exists>s2 s3. write_run ws s1 = (s2, Inr ()) \<and> SS_Save C s2 = (s3, Inr ()) \<and>
           (\<forall>t. ss_manager t = ss_manager s \<and> ss_config t = ss_config s \<and> ss_opened t \<and> w_files (ss_world t) = w_files (ss_world s3) \<longrightarrow>
              (\<exists>t1. SS_Load C t = (t1, Inr ()) \<and> SS_GetSize t1 = SS_GetSize s1 \<and>
                 (\<forall>offset len. unat offset + unat len \<le> unat (Perm_GetSize p) - 32 \<longrightarrow>
                    SS_Read offset len t1 = (t1, Inr (take (unat len) (drop (unat offset) (written ws (vs_abs (w_storages w1 ! ?a)))))))))"
    if ws: "\<forall>w \<in> set ws. write_fits (unat (Perm_GetSize p) - 32) w" for ws
  proof -
    obtain w2 where w2: "write_run ws s1 = (s1\<lparr>ss_world := w2\<rparr>, Inr ())" "st_ok ?a w2" "st_same ?a w1 w2"
        "vs_abs (w_storages w2 ! ?a) = written ws (vs_abs (w_storages w1 ! ?a))"
      using write_run_run [of s1 ?a ws] ws l(3) u1(2) by (auto simp: s1_def)
    have f: "w_files w2 = w_files (ss_world s)" "vs_permutation (w_storages w2 ! ?a) = Some p" using w2(3) l(4,5) by (simp_all add: st_same_def)
    obtain m3 w3 where s: "SaveVirtualStorage C (m\<lparr>cm_carriers := ds, cm_storage := Some ?a\<rparr>, w2) = ((m3, w3), Inr ())"
        "st_ok ?a w3" "vs_permutation (w_storages w3 ! ?a) = Some p" "vs_checksum_ok (w_storages w3 ! ?a)"
        "vs_abs (w_storages w3 ! ?a) = vs_abs (w_storages w2 ! ?a)"
        "\<forall>d \<in> set ds. \<exists>content. Open (w_files w3) (cf_file d) = Inr content \<and> (\<forall>p. cf_in_use p e ?a d \<longrightarrow> reloads C p e ?a d w3 content)"
      using save_run_all [OF rdy size l(2) w2(2) f] by (elim exE conjE)
    have "SS_Save C (s1\<lparr>ss_world := w2\<rparr>) = (s1\<lparr>ss_manager := m3, ss_world := w3\<rparr>, Inr ())"
      using s(1) c by (simp add: SS_Save_def run_simps s1_def on_manager_def)
    then show ?thesis
      using w2(1) loads_saved [OF assms l(2) s(2-4,6)] s(5) w2(4) gs
      by (intro exI [of _ "s1\<lparr>ss_world := w2\<rparr>"] exI [of _ "s1\<lparr>ss_manager := m3, ss_world := w3\<rparr>"]) simp
  qed
  moreover have "length (vs_abs (w_storages w1 ! ?a)) = unat (Perm_GetSize p) - 32" using vs_capacity(4) [OF x1(1)] u1(2) by linarith
  ultimately show ?thesis using L gs by blast
qed

theorem written_is_read_again_witness:
  "\<exists>s1 s2 s3 t1 content. SS_Load cenv0 stego2 = (s1, Inr ()) \<and> write_run [(3, [1, 2])] s1 = (s2, Inr ()) \<and>
     SS_Save cenv0 s2 = (s3, Inr ()) \<and> SS_Load cenv0 (stego2\<lparr>ss_world := ss_world s3\<rparr>) = (t1, Inr ()) \<and>
     SS_Read 3 2 t1 = (t1, Inr (take 2 (drop 3 (copy_at 3 [1, 2] content)))) \<and> length content = 18"
proof -
  have n: "unat (Perm_GetSize ident50) - 32 = 18" by (simp add: ident50_def Permutation_GetSize_def)
  from written_is_read_again [OF stego2_can_load, unfolded n] obtain s1 content where s1: "SS_Load cenv0 stego2 = (s1, Inr ())" "length content = 18"
      "\<forall>ws. (\<forall>w \<in> set ws. write_fits 18 w) \<longrightarrow>
        (\<exists>s2 s3. write_run ws s1 = (s2, Inr ()) \<and> SS_Save cenv0 s2 = (s3, Inr ()) \<and>
           (\<forall>t. ss_manager t = ss_manager stego2 \<and> ss_config t = ss_config stego2 \<and> ss_opened t \<and> w_files (ss_world t) = w_files (ss_world s3) \<longrightarrow>
              (\<exists>t1. SS_Load cenv0 t = (t1, Inr ()) \<and> SS_GetSize t1 = SS_GetSize s1 \<and>
                 (\<forall>offset len. unat offset + unat len \<le> 18 \<longrightarrow>
                    SS_Read offset len t1 = (t1, Inr (take (unat len) (drop (unat offset) (written ws content))))))))"
    by (elim exE conjE)
  have "\<forall>w \<in> set [(3 :: u64, [1, 2] :: bytes)]. write_fits 18 w" by (simp add: write_fits_def)
  with s1(3) obtain s2 s3 where s2: "write_run [(3, [1, 2])] s1 = (s2, Inr ())" "SS_Save cenv0 s2 = (s3, Inr ())"
      "\<forall>t. ss_manager t = ss_manager stego2 \<and> ss_config t = ss_config stego2 \<and> ss_opened t \<and> w_files (ss_world t) = w_files (ss_world s3) \<longrightarrow>
              (\<exists>t1. SS_Load cenv0 t = (t1, Inr ()) \<and> SS_GetSize t1 = SS_GetSize s1 \<and>
                 (\<forall>offset len. unat offset + unat len \<le> 18 \<longrightarrow>
                    SS_Read offset len t1 = (t1, Inr (take (unat len) (drop (unat offset) (written [(3, [1, 2])] content))))))"
    by blast
  have "ss_opened (stego2\<lparr>ss_world := ss_world s3\<rparr>)" by (simp add: stego2_def)
  with s2(3) [THEN spec, of "stego2\<lparr>ss_world := ss_world s3\<rparr>"] obtain t1 where t1:
      "SS_Load cenv0 (stego2\<lparr>ss_world := ss_world s3\<rparr>) = (t1, Inr ())"
      "\<forall>offset len. unat offset + unat len \<le> 18 \<longrightarrow>
         SS_Read offset len t1 = (t1, Inr (take (unat len) (drop (unat offset) (written [(3, [1, 2])] content))))" by auto
  from t1(2) [THEN spec, of 3, THEN spec, of 2] have "SS_Read 3 2 t1 = (t1, Inr (take 2 (drop 3 (copy_at 3 [1, 2] content))))"
    by (simp add: written_def)
  with s1(1,2) s2(1,2) t1(1) show ?thesis by blast
qed

end
