(* ===== verification/Call_Order.thy ===== *)
theory Call_Order
  imports Stego_Session
begin

text \<open>
  \<^verbatim>\<open>src/stego_storage.cc\<close>, the calls in any order.  Each call, whether it returns or throws, leaves every pointer of the
  library to a storage that exists and every storage with a buffer of the size it announces, so reading and
  writing are exact in whatever state the calls before have left the object.
\<close>

section \<open>Methods that keep a property\<close>

definition keeps :: "('s \<Rightarrow> bool) \<Rightarrow> ('s, 'a) meth \<Rightarrow> bool" where
  "keeps I m \<longleftrightarrow> (\<forall>s. I s \<longrightarrow> I (fst (m s)))"

lemma keeps_result: "keeps I m \<Longrightarrow> I s \<Longrightarrow> m s = (t, r) \<Longrightarrow> I t"
  by (auto simp: keeps_def dest: spec [of _ s])

named_theorems keeps_rules "methods that keep a property, by their form"

lemma keepsD: "keeps I m \<Longrightarrow> I s \<Longrightarrow> I (fst (m s))"
  by (simp add: keeps_def)

lemma keeps_basic [keeps_rules]:
  "keeps I (returnM x)" "keeps I (throwM e)" "keeps I (getM g)" "keeps I (askM a)"
  by (simp_all add: keeps_def returnM_def throwM_def getM_def askM_def)

lemma keeps_modifyM [keeps_rules]: "(\<And>s. I s \<Longrightarrow> I (u s)) \<Longrightarrow> keeps I (modifyM u)"
  by (simp add: keeps_def modifyM_def)

lemma keeps_updateM [keeps_rules]: "(\<And>s s'. I s \<Longrightarrow> f s = Inr s' \<Longrightarrow> I s') \<Longrightarrow> keeps I (updateM f)"
  by (auto simp: keeps_def updateM_def split: sum.splits)

lemma keeps_bindM [keeps_rules]: "keeps I m \<Longrightarrow> (\<And>x. keeps I (f x)) \<Longrightarrow> keeps I (bindM m f)"
  by (auto simp: keeps_def bindM_def split: prod.splits sum.splits)

lemma keeps_seqM [keeps_rules]: "keeps I m \<Longrightarrow> keeps I n \<Longrightarrow> keeps I (seqM m n)"
  unfolding seqM_def by (rule keeps_bindM)

lemma keeps_if [keeps_rules]: "(b \<Longrightarrow> keeps I m) \<Longrightarrow> (\<not> b \<Longrightarrow> keeps I n) \<Longrightarrow> keeps I (if b then m else n)"
  by simp

lemma keeps_option [keeps_rules]:
  "keeps I m \<Longrightarrow> (\<And>x. keeps I (f x)) \<Longrightarrow> keeps I (case ox of None \<Rightarrow> m | Some x \<Rightarrow> f x)"
  by (simp split: option.splits)

lemma keeps_prod [keeps_rules]: "(\<And>x y. keeps I (f x y)) \<Longrightarrow> keeps I (case p of (x, y) \<Rightarrow> f x y)"
  by (simp split: prod.splits)

lemma keeps_Let [keeps_rules]: "(\<And>x. keeps I (f x)) \<Longrightarrow> keeps I (let x = t in f x)"
  by (simp add: Let_def)

lemma keeps_whenM [keeps_rules]: "keeps I m \<Longrightarrow> keeps I (whenM b m)"
  by (simp add: whenM_def keeps_basic)

lemma keeps_forM [keeps_rules]: "(\<And>i. keeps I (f i)) \<Longrightarrow> keeps I (forM f is)"
  by (induction "is") (auto intro: keeps_rules)

lemma keeps_catch [keeps_rules]: "keeps I m \<Longrightarrow> keeps I h \<Longrightarrow> keeps I (catch_range m h)"
  by (auto simp: keeps_def catch_range_def split: prod.splits sum.splits exn.splits)

section \<open>Storages with a buffer of their size\<close>

definition vs_shape :: "vstore \<Rightarrow> bool" where
  "vs_shape vs \<longleftrightarrow>
     (case vs_data vs of
        None \<Rightarrow> vs_raw_capacity vs = 0 \<and> vs_usable_capacity vs = 0
      | Some b \<Rightarrow> mb_ok b \<and> mb_size b = vs_raw_capacity vs \<and>
                  unat (vs_raw_capacity vs) = unat (vs_usable_capacity vs) + 32)"

lemma vs_shape_new [simp]: "vs_shape VirtualStorage"
  by (simp add: vs_shape_def VirtualStorage_def VS_Init_def)

lemma VS_SetPermutation_shape: "vs_shape vs \<Longrightarrow> VS_SetPermutation p vs = Inr vs' \<Longrightarrow> vs_shape vs'"
  by (auto simp: vs_shape_def VS_SetPermutation_def VS_UnSetPermutation_def VS_Init_def Let_def split: if_splits option.splits)

lemma VS_ApplyPermutation_shape: "vs_shape vs \<Longrightarrow> vs_shape (fst (VS_ApplyPermutation E n k vs))"
  by (auto simp: vs_shape_def VS_ApplyPermutation_def StorageHashLenght_def Let_def word_le_nat_alt unat_sub
           split: option.splits prod.splits sum.splits)

lemma VS_WriteByte_shape: "vs_shape vs \<Longrightarrow> VS_WriteByte vs p v = Inr vs' \<Longrightarrow> vs_shape vs'"
  using MB_set_ok by (auto simp: vs_shape_def VS_WriteByte_def vs_buffer_def res_simps split: if_splits option.splits)

lemma memcpy_length: "memcpy (Some d) off src n = Inr d' \<Longrightarrow> \<exists>bs. d' = Some bs \<and> length bs = length d"
  by (auto simp: memcpy_def split: if_splits option.splits)

lemma VS_Write_shape: "vs_shape vs \<Longrightarrow> VS_Write vs off len src = Inr vs' \<Longrightarrow> vs_shape vs'"
  using memcpy_length
  by (fastforce simp: vs_shape_def VS_Write_def vs_buffer_def res_simps mb_ok_def split: if_splits option.splits)

lemma MB_Write_shape:
  assumes "mb_ok b" "MB_Write b off src len = Inr b'"
  shows "mb_ok b' \<and> mb_size b' = mb_size b"
  using assms by (auto simp: MB_Write_def res_simps mb_ok_def memcpy_def split: if_splits option.splits)

lemma VS_WriteChecksum_shape: "vs_shape vs \<Longrightarrow> VS_WriteChecksum E vs = Inr vs' \<Longrightarrow> vs_shape vs'"
  using MB_Write_shape
  by (fastforce simp: vs_shape_def VS_WriteChecksum_def vs_buffer_def res_simps split: if_splits option.splits)


section \<open>Carriers\<close>

definition ptr_ok :: "nat \<Rightarrow> nat option \<Rightarrow> bool" where
  "ptr_ok n p \<longleftrightarrow> (case p of None \<Rightarrow> True | Some a \<Rightarrow> a < n)"

lemma ptr_ok_simps [simp]: "ptr_ok n None" "ptr_ok n (Some a) \<longleftrightarrow> a < n"
  by (simp_all add: ptr_ok_def)

lemma ptr_ok_mono: "ptr_ok n p \<Longrightarrow> n \<le> m \<Longrightarrow> ptr_ok m p"
  by (auto simp: ptr_ok_def split: option.splits)

definition w_inv :: "nat \<Rightarrow> world \<Rightarrow> bool" where
  "w_inv n w \<longleftrightarrow> length (w_storages w) = n \<and> (\<forall>vs \<in> set (w_storages w). vs_shape vs)"

definition c_inv :: "nat \<Rightarrow> carrier \<times> world \<Rightarrow> bool" where
  "c_inv n s \<longleftrightarrow> w_inv n (snd s) \<and> ptr_ok n (cf_storage (fst s))"

lemma w_inv_files [simp]: "w_inv n (w\<lparr>w_files := fs\<rparr>) = w_inv n w"
  by (simp add: w_inv_def)

lemma w_inv_set: "w_inv n w \<Longrightarrow> vs_shape vs \<Longrightarrow> w_inv n (w\<lparr>w_storages := (w_storages w)[a := vs]\<rparr>)"
  using set_update_subset_insert [of "w_storages w" a vs] by (auto simp: w_inv_def)

lemma w_inv_nth: "w_inv n w \<Longrightarrow> a < n \<Longrightarrow> vs_shape (w_storages w ! a)"
  by (simp add: w_inv_def)

lemma cf_vs_shape: "c_inv n s \<Longrightarrow> cf_vs s = Inr vs \<Longrightarrow> vs_shape vs"
  by (auto simp: c_inv_def cf_vs_def w_inv_def split: option.splits if_splits)

lemma cf_set_vs_inv: "c_inv n s \<Longrightarrow> vs_shape vs \<Longrightarrow> c_inv n (cf_set_vs vs s)"
  by (auto simp: c_inv_def cf_set_vs_def w_inv_set split: option.splits)

lemma keeps_write_byte [keeps_rules]: "keeps (c_inv n) (cf_write_byte b data i)"
  unfolding keeps_def cf_write_byte_def bindM_def askM_def modifyM_def
  by (auto split: prod.splits sum.splits dest: cf_vs_shape VS_WriteByte_shape intro!: cf_set_vs_inv)

lemma keeps_on_carrier [keeps_rules]:
  "(\<And>c c'. f c = Inr c' \<Longrightarrow> cf_storage c' = cf_storage c) \<Longrightarrow> keeps (c_inv n) (on_carrier f)"
  unfolding on_carrier_def by (rule keeps_updateM) (auto simp: c_inv_def res_simps)

lemma CF_SetBit_storage: "CF_SetBitInBufferPermuted i c = Inr c' \<Longrightarrow> cf_storage c' = cf_storage c"
  by (auto simp: CF_SetBitInBufferPermuted_def res_simps split: if_splits)

lemma keeps_cf [keeps_rules]:
  "keeps (c_inv n) cf_open" "keeps (c_inv n) (cf_put_file content)" "keeps (c_inv n) (cf_reset_buffer C m)"
  "keeps (c_inv n) cf_bits_to_modify"
  unfolding cf_open_def cf_put_file_def cf_reset_buffer_def cf_bits_to_modify_def
  by (rule keeps_rules; auto simp: c_inv_def res_simps)+

lemma keeps_init_permutation [keeps_rules]: "keeps (c_inv n) (cf_init_permutation C m)"
  by (auto simp: keeps_def cf_init_permutation_def c_inv_def split: sum.splits prod.splits)

lemma keeps_gather [keeps_rules]: "keeps (c_inv n) (cf_gather cover bits)"
  unfolding cf_gather_def by (intro keeps_rules CF_SetBit_storage)

lemma keeps_jpeg_gather [keeps_rules]: "keeps (c_inv n) (jpeg_gather bits xs m)"
  by (induction bits xs m rule: jpeg_gather.induct) (auto intro!: keeps_rules simp: CF_SetBit_storage Let_def)

lemma keeps_extract_blocks [keeps_rules]: "keeps (c_inv n) (cf_extract_blocks e bs data)"
  by (induction bs arbitrary: data) (auto intro!: keeps_rules simp: Let_def)

lemma keeps_read_byte [keeps_rules]: "keeps (c_inv n) (cf_read_byte b data i)"
  unfolding cf_read_byte_def by (intro keeps_rules)

lemma keeps_read_bytes [keeps_rules]: "keeps (c_inv n) (cf_read_bytes b is data)"
  by (induction "is" arbitrary: data) (auto intro!: keeps_rules)

lemma keeps_embed_blocks [keeps_rules]: "keeps (c_inv n) (cf_embed_blocks e bs data)"
  by (induction bs arbitrary: data) (auto intro!: keeps_rules simp: Let_def c_inv_def cf_set_codeword_def)

lemma keeps_extract [keeps_rules]: "keeps (c_inv n) (CF_ExtractBufferUsingEncoder C)"
  unfolding CF_ExtractBufferUsingEncoder_def by (intro keeps_rules)

lemma keeps_embed [keeps_rules]: "keeps (c_inv n) (CF_EmbedBufferUsingEncoder C)"
  unfolding CF_EmbedBufferUsingEncoder_def by (intro keeps_rules)

lemma keeps_loaded: "keeps (c_inv n) (modifyM (\<lambda>s. ((fst s)\<lparr>cf_file_loaded := b\<rparr>, snd s)))"
  by (rule keeps_rules) (simp add: c_inv_def)

lemma keeps_LoadFile [keeps_rules]: "keeps (c_inv n) (LoadFile C)"
proof -
  have "keeps (c_inv n) (BMP_LoadFile C)" unfolding BMP_LoadFile_def by (intro keeps_rules keeps_loaded)
  moreover have "keeps (c_inv n) (PNG_LoadFile C)" unfolding PNG_LoadFile_def by (intro keeps_rules keeps_loaded)
  moreover have "keeps (c_inv n) (JPEG_LoadFile C)" unfolding JPEG_LoadFile_def by (intro keeps_rules keeps_loaded)
  ultimately show ?thesis by (auto simp: keeps_def LoadFile_def split: carrier_class.splits)
qed

lemma keeps_SaveFile [keeps_rules]: "keeps (c_inv n) (SaveFile C)"
proof -
  have "keeps (c_inv n) (BMP_SaveFile C)" unfolding BMP_SaveFile_def by (intro keeps_rules)
  moreover have "keeps (c_inv n) (PNG_SaveFile C)" unfolding PNG_SaveFile_def by (intro keeps_rules)
  moreover have "keeps (c_inv n) (JPEG_SaveFile C)" unfolding JPEG_SaveFile_def by (intro keeps_rules)
  ultimately show ?thesis by (auto simp: keeps_def SaveFile_def split: carrier_class.splits)
qed


section \<open>The manager\<close>

definition m_ptrs :: "nat \<Rightarrow> manager \<Rightarrow> bool" where
  "m_ptrs n m \<longleftrightarrow> ptr_ok n (cm_storage m) \<and> (\<forall>c \<in> set (cm_carriers m). ptr_ok n (cf_storage c))"

definition m_inv :: "nat \<Rightarrow> manager \<times> world \<Rightarrow> bool" where
  "m_inv n s \<longleftrightarrow> m_ptrs n (fst s) \<and> w_inv n (snd s)"

lemma keeps_manager_only [keeps_rules]: "keeps (m_ptrs n) f \<Longrightarrow> keeps (m_inv n) (manager_only f)"
  by (auto simp: keeps_def manager_only_def m_inv_def split: prod.splits)

lemma run_tasks_keep:
  assumes "keeps (c_inv n) task" "w_inv n w" "\<forall>c \<in> set cs. ptr_ok n (cf_storage c)" "run_tasks task cs w = (cs', w', rs)"
  shows "w_inv n w' \<and> (\<forall>c \<in> set cs'. ptr_ok n (cf_storage c))"
  using assms(2-4)
proof (induction cs arbitrary: w cs' w' rs)
  case (Cons c cs)
  obtain c1 w1 r where t: "task (c, w) = ((c1, w1), r)" by (metis prod.exhaust)
  obtain cs2 w2 rs2 where u: "run_tasks task cs w1 = (cs2, w2, rs2)" by (metis prod.exhaust)
  have "c_inv n (c1, w1)" using keepsD [OF assms(1), of "(c, w)"] Cons.prems t by (simp add: c_inv_def)
  then have "w_inv n w2 \<and> (\<forall>c \<in> set cs2. ptr_ok n (cf_storage c))" "ptr_ok n (cf_storage c1)"
    using Cons.IH [OF _ _ u] Cons.prems by (auto simp: c_inv_def)
  then show ?case using Cons.prems(3) t u by auto
qed simp

lemma keeps_run_on_carriers [keeps_rules]:
  assumes "keeps (c_inv n) task"
  shows "keeps (m_inv n) (run_on_carriers task)"
  unfolding keeps_def
proof (intro allI impI)
  fix s assume "m_inv n s"
  moreover obtain cs w rs where r: "run_tasks task (cm_carriers (fst s)) (snd s) = (cs, w, rs)" by (metis prod.exhaust)
  ultimately show "m_inv n (fst (run_on_carriers task s))"
    using run_tasks_keep [OF assms _ _ r] by (simp add: run_on_carriers_def m_inv_def m_ptrs_def cm_set_carriers_def)
qed

lemma new_carrier_storage:
  assumes "CreateCarrierFile C sc fs f = Inr (Some c)"
  shows "cf_storage c = None"
proof -
  have bmp: "cf_storage d = None" if "BMP_new fs f e p = Inr d" for e p d
    using that by (auto simp: BMP_new_def Let_def CarrierFile_def res_simps split: if_splits)
  have jpeg: "cf_storage d = None" if "JPEG_new C fs f e p = Inr d" for e p d
    using that by (auto simp: JPEG_new_def JPEG_ComputeCapacity_def Let_def CarrierFile_def res_simps)
  have png: "cf_storage d = None" if "PNG_new C fs f e p = Inr d" for e p d
    using that by (auto simp: PNG_new_def Let_def CarrierFile_def res_simps split: if_splits option.splits)
  show ?thesis using assms
    by (auto simp: CreateCarrierFile_def Let_def mapR_def res_simps split: if_splits option.splits sum.splits dest: bmp jpeg png)
qed

lemma collect_carriers_storage:
  "\<forall>r \<in> set rs. \<forall>c. r = Inr (Some c) \<longrightarrow> cf_storage c = None \<Longrightarrow> \<forall>c \<in> set cs. cf_storage c = None \<Longrightarrow>
   \<forall>c \<in> set (fst (collect_carriers rs cs)). cf_storage c = None"
  by (induction rs cs rule: collect_carriers.induct) auto

lemma set_insert_carrier: "set (insert_carrier c ds) = insert c (set ds)"
  by (induction ds) auto

lemma set_sort_carriers: "set (sort_carriers cs) = set cs"
proof -
  have "set (fold insert_carrier cs ds) = set cs \<union> set ds" for ds
    by (induction cs arbitrary: ds) (auto simp: set_insert_carrier)
  then show ?thesis by (simp add: sort_carriers_def)
qed

lemma keeps_LoadDirectory [keeps_rules]: "keeps (m_inv n) (LoadDirectory C sc dir filter_text)"
proof -
  have "\<forall>c \<in> set cs. ptr_ok n (cf_storage c)"
    if "collect_carriers (map (CreateCarrierFile C sc fs) files') [] = (cs, r)" for fs files' cs r
    using collect_carriers_storage [of "map (CreateCarrierFile C sc fs) files'" "[]"] that new_carrier_storage by auto
  then show ?thesis
    by (auto simp: keeps_def LoadDirectory_def Let_def m_inv_def m_ptrs_def set_sort_carriers split: sum.splits prod.splits)
qed

lemma keeps_SetPassword [keeps_rules]: "keeps (m_ptrs n) (SetPassword password)"
  unfolding SetPassword_def by (rule keeps_updateM) (auto simp: m_ptrs_def res_simps)

lemma keeps_CM_SetEncoder [keeps_rules]: "keeps (m_ptrs n) (CM_SetEncoder e)"
  by (auto simp: keeps_def CM_SetEncoder_def CM_UnSetEncoder_def m_ptrs_def CF_UnSetEncoder_def)

lemma derive_subkeys_storage:
  "\<forall>c \<in> set cs. ptr_ok n (cf_storage c) \<Longrightarrow> derive_subkeys C k i h cs = (cs', r) \<Longrightarrow> \<forall>c \<in> set cs'. ptr_ok n (cf_storage c)"
proof (induction cs arbitrary: i h cs' r)
  case (Cons c cs)
  have sub: "cf_storage c' = cf_storage c" if "derive_subkey C k i c h = Inr (h', c')" for h' c'
    using that by (auto simp: derive_subkey_def CF_SetSubkey_def res_simps)
  show ?case
  proof (cases "derive_subkey C k i c h")
    case (Inr y)
    then obtain h' c' where y: "derive_subkey C k i c h = Inr (h', c')" by (cases y) auto
    obtain cs2 r2 where "derive_subkeys C k (Suc i) h' cs = (cs2, r2)" by (metis prod.exhaust)
    then show ?thesis using Cons.IH Cons.prems sub [OF y] y by auto
  qed (use Cons.prems in auto)
qed simp

lemma CF_SetEncoder_storage: "CF_SetEncoder E e c = (c', r) \<Longrightarrow> cf_storage c' = cf_storage c"
  by (auto simp: CF_SetEncoder_def CF_UnSetEncoder_def Let_def split: option.splits sum.splits if_splits)

lemma set_encoders_storage:
  "\<forall>c \<in> set cs. ptr_ok n (cf_storage c) \<Longrightarrow> set_encoders C e cs capacity = (cs', r) \<Longrightarrow> \<forall>c \<in> set cs'. ptr_ok n (cf_storage c)"
proof (induction cs arbitrary: capacity cs' r)
  case (Cons c cs)
  obtain c1 r1 where c1: "CF_SetEncoder (env_of C) e c = (c1, r1)" by (metis prod.exhaust)
  obtain cs2 r2 where "set_encoders C e cs (capacity + cf_capacity c1) = (cs2, r2)" by (metis prod.exhaust)
  then show ?case using Cons.IH Cons.prems c1 CF_SetEncoder_storage [OF c1] by (auto split: sum.splits)
qed simp

lemma keeps_ApplyEncoder [keeps_rules]: "keeps (m_ptrs n) (ApplyEncoder C)"
proof -
  have key: "cm_storage m' = cm_storage m \<and> cm_carriers m' = cm_carriers m" if "GenerateMasterKey C m = Inr m'" for m m'
    using that by (auto simp: GenerateMasterKey_def Let_def res_simps split: if_splits)
  have sub: "m_ptrs n m'" if "m_ptrs n m" "DeriveSubkeys C m = (m', r)" for m m' r
    using that derive_subkeys_storage by (auto simp: DeriveSubkeys_def m_ptrs_def split: if_splits option.splits sum.splits prod.splits)
  show ?thesis
    unfolding keeps_def
  proof (intro allI impI)
    fix m assume m: "m_ptrs n m"
    show "m_ptrs n (fst (ApplyEncoder C m))"
    proof (cases "GenerateMasterKey C m")
      case (Inr m1)
      then have "m_ptrs n m1" using key m by (simp add: m_ptrs_def)
      moreover obtain m2 r2 where m2: "DeriveSubkeys C m1 = (m2, r2)" by (metis prod.exhaust)
      ultimately have "m_ptrs n m2" using sub by blast
      moreover obtain cs r where "set_encoders C (cm_encoder m2) (cm_carriers m2) 0 = (cs, r)" by (metis prod.exhaust)
      ultimately show ?thesis using m Inr m2 set_encoders_storage [of "cm_carriers m2" n]
        by (auto simp: ApplyEncoder_def Let_def m_ptrs_def split: sum.splits)
    qed (use m in \<open>simp add: ApplyEncoder_def\<close>)
  qed
qed

lemma allocate_storage:
  "a < n \<Longrightarrow> \<forall>c \<in> set cs. ptr_ok n (cf_storage c) \<Longrightarrow> allocate a offset rest cs = (cs', r) \<Longrightarrow>
   \<forall>c \<in> set cs'. ptr_ok n (cf_storage c)"
proof (induction cs arbitrary: offset rest cs' r)
  case (Cons c cs)
  have add: "cf_storage c' = Some a" if "CF_AddToVirtualStorage (Some a) o1 u c = Inr c'" for o1 u c'
    using that by (auto simp: CF_AddToVirtualStorage_def Let_def split: if_splits)
  show ?case using Cons.IH Cons.prems add
    by (auto simp: Let_def split: sum.splits prod.splits if_splits)
qed simp

lemma keeps_on_storage [keeps_rules]: "keeps vs_shape f \<Longrightarrow> keeps (m_inv n) (on_storage a f)"
  using w_inv_nth [of n] w_inv_set [of n]
  by (auto simp: keeps_def on_storage_def m_inv_def split: prod.splits) (metis fst_conv w_inv_def)

lemma keeps_vs [keeps_rules]:
  "keeps vs_shape (VS_ApplyPermutation E size' k)" "keeps vs_shape (updateM (VS_SetPermutation p))"
  "keeps vs_shape (updateM (VS_WriteChecksum E))" "keeps vs_shape (updateM (\<lambda>vs. VS_Write vs offset len src))"
  by (simp add: keeps_def VS_ApplyPermutation_shape)
     (rule keeps_updateM; erule (1) VS_SetPermutation_shape VS_WriteChecksum_shape VS_Write_shape)+

lemma keeps_LoadVirtualStorage:
  assumes "ptr_ok n p"
  shows "keeps (m_inv n) (LoadVirtualStorage C p)"
proof (cases p)
  case None
  then show ?thesis unfolding LoadVirtualStorage_def by (auto intro!: keeps_rules)
next
  case (Some a)
  with assms have a: "a < n" by simp
  have alloc: "keeps (m_inv n) (\<lambda>s. case allocate a 0 rest (cm_carriers (fst s)) of
                       (cs, r) \<Rightarrow> ((cm_set_carriers cs (fst s), snd s), r))" for rest
    using allocate_storage [OF a] by (auto simp: keeps_def m_inv_def m_ptrs_def cm_set_carriers_def split: prod.splits)
  show ?thesis unfolding LoadVirtualStorage_def Some option.case
    by (intro keeps_rules alloc) (use a in \<open>simp add: m_inv_def m_ptrs_def\<close>)
qed

lemma keeps_SaveVirtualStorage [keeps_rules]: "keeps (m_inv n) (SaveVirtualStorage C)"
  unfolding SaveVirtualStorage_def SaveAllFiles_def by (intro keeps_rules)


section \<open>The calls of the interface\<close>

definition ss_inv :: "nat \<Rightarrow> stego \<Rightarrow> bool" where
  "ss_inv n s \<longleftrightarrow> m_inv n (ss_manager s, ss_world s) \<and> ptr_ok n (ss_storage s)"

text \<open>Storages are only ever added: a pointer that was valid stays valid.\<close>

definition ss_ok :: "stego \<Rightarrow> bool" where
  "ss_ok s \<longleftrightarrow> (\<exists>n. ss_inv n s)"

lemma keeps_ss_ok: "(\<And>n. keeps (ss_inv n) m) \<Longrightarrow> keeps ss_ok m"
  by (auto simp: keeps_def ss_ok_def)

lemma ss_inv_length: "ss_inv n s \<Longrightarrow> length (w_storages (ss_world s)) = n"
  by (simp add: ss_inv_def m_inv_def w_inv_def)

lemma keeps_on_manager [keeps_rules]: "keeps (m_inv n) f \<Longrightarrow> keeps (ss_inv n) (on_manager f)"
  by (auto simp: keeps_def on_manager_def ss_inv_def split: prod.splits) (metis fst_conv)

lemma keeps_ss_fields:
  "keeps (ss_inv n) (modifyM (\<lambda>s. s\<lparr>ss_opened := b\<rparr>))" "keeps (ss_inv n) (modifyM (\<lambda>s. s\<lparr>ss_config := g s\<rparr>))"
  by (rule keeps_rules; simp add: ss_inv_def)+

lemma keeps_SS_Open: "keeps (ss_inv n) (SS_Open C path password filter_text)"
proof -
  have "keeps (ss_inv n) (\<lambda>s. on_manager (LoadDirectory C (ss_config s) path f) s)" for f
    using keeps_on_manager [OF keeps_LoadDirectory] by (simp add: keeps_def)
  then show ?thesis unfolding SS_Open_def by (intro keeps_rules keeps_ss_fields)
qed

lemma keeps_Configure_file: "keeps (ss_inv n) (Configure_file path)"
  unfolding Configure_file_def by (intro keeps_rules keeps_ss_fields)

lemma keeps_Configure: "keeps (ss_inv n) (Configure e g l)" "keeps (ss_inv n) (SS_ChangeEncoder text')"
  unfolding Configure_def SS_ChangeEncoder_def by (intro keeps_rules keeps_ss_fields)+

lemma keeps_own_storage:
  assumes "keeps vs_shape (updateM f)"
  shows "keeps (ss_inv n) (on_own_storage f)"
  using keepsD [OF keeps_on_manager [OF keeps_on_storage [OF assms]]]
  by (auto simp: keeps_def on_own_storage_def split: option.splits)

lemma keeps_SS_Write: "keeps (ss_inv n) (SS_Write src offset len)"
  using keeps_own_storage [OF keeps_vs(4)] by (simp add: keeps_def SS_Write_def)

lemma keeps_SS_Save: "keeps (ss_inv n) (SS_Save C)"
  unfolding SS_Save_def by (intro keeps_rules)

lemma new_storage_inv: "ss_inv n s \<Longrightarrow> ss_inv (Suc n) (fst (new_storage s))"
  by (auto simp: new_storage_def modifyM_def ss_inv_def m_inv_def w_inv_def m_ptrs_def intro: ptr_ok_mono [of "length (w_storages (ss_world s))"])

lemma keeps_new_storage: "keeps ss_ok new_storage"
  using new_storage_inv by (auto simp: keeps_def ss_ok_def)

lemma keeps_load_storage:
  "keeps ss_ok (bindM (getM ss_storage) (\<lambda>a. bindM (on_manager (LoadVirtualStorage C a)) (\<lambda>valid. returnM ())))"
  unfolding keeps_def
proof (intro allI impI)
  fix t assume "ss_ok t"
  then obtain n where t: "ss_inv n t" by (auto simp: ss_ok_def)
  then have "keeps (ss_inv n) (bindM (on_manager (LoadVirtualStorage C (ss_storage t))) (\<lambda>valid. returnM ()))"
    by (intro keeps_rules keeps_LoadVirtualStorage) (simp add: ss_inv_def)
  from keepsD [OF this t]
  show "ss_ok (fst (bindM (getM ss_storage) (\<lambda>a. bindM (on_manager (LoadVirtualStorage C a)) (\<lambda>valid. returnM ())) t))"
    by (auto simp: run_simps ss_ok_def)
qed

lemma keeps_SS_Load: "keeps ss_ok (SS_Load C)"
proof -
  have "keeps ss_ok (on_manager (manager_only (CM_SetEncoder e)))" for e by (intro keeps_ss_ok keeps_rules)
  moreover have "keeps ss_ok (on_manager (manager_only (ApplyEncoder C)))" by (intro keeps_ss_ok keeps_rules)
  moreover have "keeps ss_ok (on_own_storage (VS_SetPermutation p))" for p
    by (intro keeps_ss_ok keeps_own_storage keeps_vs)
  ultimately show ?thesis
    unfolding SS_Load_def by (intro keeps_rules keeps_new_storage keeps_load_storage)
qed

lemma keeps_config_manager: "keeps (\<lambda>t. ss_config t = c) (on_manager f)"
  by (auto simp: keeps_def on_manager_def split: prod.splits)

lemma SS_Load_config: "ss_config (fst (SS_Load C s)) = ss_config s"
proof -
  note m = keeps_config_manager [of "ss_config s"]
  have o1: "keeps (\<lambda>t. ss_config t = ss_config s) (on_own_storage f)" for f
    using keepsD [OF m] by (auto simp: keeps_def on_own_storage_def split: option.splits)
  have n: "keeps (\<lambda>t. ss_config t = ss_config s) new_storage"
    unfolding new_storage_def by (rule keeps_rules) simp
  have "keeps (\<lambda>t. ss_config t = ss_config s) (SS_Load C)"
    unfolding SS_Load_def by (intro keeps_rules m o1 n)
  then show ?thesis by (simp add: keeps_def)
qed


section \<open>Any order of calls\<close>

text \<open>
  One call with any arguments after which the caller can go on: it returned or threw, and it left no task behind in the
  thread pool that still works on the carriers and the storage.  A call with undefined behaviour and one that does not
  return have nothing after them.  A \<open>Load\<close> or \<open>Save\<close> that throws because of one carrier does not wait for the tasks of
  those behind it; it is taken in when it returned, when it was refused before it gave out tasks (for \<open>Load\<close>: before it
  made a new storage) and when there was at most one carrier to give a task to.  \<open>Read\<close> and \<open>GetSize\<close> change nothing.
\<close>

definition settled :: "'a res \<Rightarrow> bool" where
  "settled r \<longleftrightarrow> (case r of Inr x \<Rightarrow> True | Inl e \<Rightarrow> e \<noteq> Undefined \<and> e \<noteq> Diverges)"

lemma settled_simps [simp]: "settled (Inr x)" "settled (Inl e) \<longleftrightarrow> e \<noteq> Undefined \<and> e \<noteq> Diverges"
  by (simp_all add: settled_def)

definition tasks_over :: "bool \<Rightarrow> stego \<Rightarrow> unit res \<Rightarrow> bool" where
  "tasks_over refused t r \<longleftrightarrow> r = Inr () \<or> refused \<or> length (cm_carriers (ss_manager t)) \<le> 1"

inductive stego_call :: "cenv \<Rightarrow> stego \<Rightarrow> stego \<Rightarrow> bool" for C where
  opens: "SS_Open C path password filter_text s = (t, r) \<Longrightarrow> settled r \<Longrightarrow> stego_call C s t"
| configures_file: "Configure_file config_path s = (t, r) \<Longrightarrow> settled r \<Longrightarrow> stego_call C s t"
| configures: "Configure encoder global_perm local_perm s = (t, r) \<Longrightarrow> settled r \<Longrightarrow> stego_call C s t"
| changes_encoder: "SS_ChangeEncoder config s = (t, r) \<Longrightarrow> settled r \<Longrightarrow> stego_call C s t"
| loads: "SS_Load C s = (t, r) \<Longrightarrow> settled r \<Longrightarrow>
    tasks_over (length (w_storages (ss_world t)) = length (w_storages (ss_world s))) t r \<Longrightarrow> stego_call C s t"
| saves: "SS_Save C s = (t, r) \<Longrightarrow> settled r \<Longrightarrow> tasks_over (\<not> ss_opened s \<or> ss_storage s = None) t r \<Longrightarrow> stego_call C s t"
| writes: "SS_Write source offset len s = (t, r) \<Longrightarrow> settled r \<Longrightarrow> stego_call C s t"

inductive_cases stego_callE: "stego_call C s t"

text \<open>A process that has made no storage yet, as the constructor leaves it.\<close>

definition ss_fresh :: "stego \<Rightarrow> bool" where
  "ss_fresh s \<longleftrightarrow> w_storages (ss_world s) = [] \<and> ss_storage s = None \<and> cm_storage (ss_manager s) = None \<and>
                  (\<forall>c \<in> set (cm_carriers (ss_manager s)). cf_storage c = None)"

lemma StegoStorage_fresh: "StegoStorage garbage sc w = Inr s \<Longrightarrow> w_storages w = [] \<Longrightarrow> ss_fresh s"
  by (auto simp: StegoStorage_def CarrierFilesManager_def ss_fresh_def res_simps)

lemma ss_fresh_ok: "ss_fresh s \<Longrightarrow> ss_ok s"
  by (auto simp: ss_fresh_def ss_ok_def ss_inv_def m_inv_def m_ptrs_def w_inv_def)

lemma stego_call_ok: "stego_call C s t \<Longrightarrow> ss_ok s \<Longrightarrow> ss_ok t"
  by (erule stego_callE)
    (blast intro: keeps_result [OF keeps_ss_ok [OF keeps_SS_Open]] keeps_result [OF keeps_ss_ok [OF keeps_Configure_file]]
       keeps_result [OF keeps_ss_ok [OF keeps_Configure(1)]] keeps_result [OF keeps_ss_ok [OF keeps_Configure(2)]]
       keeps_result [OF keeps_SS_Load] keeps_result [OF keeps_ss_ok [OF keeps_SS_Save]]
       keeps_result [OF keeps_ss_ok [OF keeps_SS_Write]])+

lemma stego_calls_ok: "(stego_call C)\<^sup>*\<^sup>* s t \<Longrightarrow> ss_ok s \<Longrightarrow> ss_ok t"
  by (induction rule: rtranclp_induct) (auto intro: stego_call_ok)

lemma ss_ok_storage:
  assumes "ss_ok s" "ss_storage s = Some a"
  shows "a < length (w_storages (ss_world s)) \<and> vs_shape (w_storages (ss_world s) ! a)"
  using assms by (auto simp: ss_ok_def ss_inv_def m_inv_def w_inv_def)

section \<open>Reading and writing a storage of that shape\<close>

lemma unat_sum_le: "unat off + unat len < 2 ^ 64 \<Longrightarrow> (off + len > (n :: u64)) = (unat n < unat off + unat len)" for off len :: u64
  by (simp add: word_less_nat_alt unat_simps)

lemma vs_shapeE:
  assumes "vs_shape vs" "0 < unat (vs_usable_capacity vs)"
  obtains b bs where "vs_data vs = Some b" "mb_buffer b = Some bs" "vs_bytes vs = bs" "unat (vs_usable_capacity vs) \<le> length bs" "mb_ok b"
  using assms by (auto simp: vs_shape_def vs_bytes_def mb_bytes_def mb_ok_def split: option.splits)

lemma VS_Read_shape:
  assumes "vs_shape vs" "unat off + unat len < 2 ^ 64"
  shows "VS_Read vs off len = (if unat off + unat len \<le> unat (vs_usable_capacity vs)
                               then Inr (take (unat len) (drop (unat off) (vs_abs vs))) else Inl OutOfRange)"
proof (cases "unat len = 0 \<or> unat (vs_usable_capacity vs) = 0")
  case True
  then show ?thesis using assms(2) by (auto simp: VS_Read_def unat_sum_le unat_eq_0)
next
  case False
  then have "0 < unat (vs_usable_capacity vs)" by simp
  then obtain b bs where b: "vs_data vs = Some b" "mb_buffer b = Some bs" "vs_bytes vs = bs" "unat (vs_usable_capacity vs) \<le> length bs"
    using vs_shapeE [OF assms(1)] by metis
  then show ?thesis using assms(2) False
    by (auto simp: VS_Read_def vs_buffer_def unat_sum_le vs_abs_def drop_take min_def unat_eq_0)
qed

lemma VS_Write_shape_correct:
  assumes "vs_shape vs" "unat off + length d < 2 ^ 64"
  shows "if unat off + length d \<le> unat (vs_usable_capacity vs)
         then \<exists>vs'. VS_Write vs off (word_of_nat (length d)) (Some d) = Inr vs' \<and> vs_abs vs' = copy_at (unat off) d (vs_abs vs)
         else VS_Write vs off (word_of_nat (length d)) (Some d) = Inl OutOfRange"
proof -
  have l: "unat (word_of_nat (length d) :: u64) = length d" using assms(2) by (simp add: unat_simps)
  have le: "(off + word_of_nat (length d) > vs_usable_capacity vs) = (unat (vs_usable_capacity vs) < unat off + length d)"
    using unat_sum_le [of off "word_of_nat (length d)"] assms(2) l by simp
  have abs: "length (vs_abs vs) = unat (vs_usable_capacity vs)"
    using assms(1) by (auto simp: vs_shape_def vs_abs_def vs_bytes_def length_mb_bytes split: option.splits)
  show ?thesis
  proof (cases "d = []")
    case True
    then show ?thesis using le abs by (auto simp: VS_Write_def copy_at_def)
  next
    case False
    show ?thesis
    proof (cases "unat off + length d \<le> unat (vs_usable_capacity vs)")
      case True
      moreover have "0 < unat (vs_usable_capacity vs)" using True False by (cases d) auto
      then obtain b bs where b: "vs_data vs = Some b" "mb_buffer b = Some bs" "vs_bytes vs = bs" "unat (vs_usable_capacity vs) \<le> length bs" "mb_ok b"
        using vs_shapeE [OF assms(1)] by metis
      moreover have "memcpy (Some bs) (unat off) (Some d) (length d) = Inr (Some (copy_at (unat off) d bs))"
        using memcpy_ok [of "length d" "unat off" bs "Some d" d] True b(4) by simp
      moreover have "word_of_nat (length d) \<noteq> (0 :: u64)" using l False by (metis length_0_conv unat_0)
      ultimately have "VS_Write vs off (word_of_nat (length d)) (Some d) =
          Inr (vs\<lparr>vs_data := Some (b\<lparr>mb_buffer := Some (copy_at (unat off) d bs)\<rparr>)\<rparr>)"
        using le l by (simp add: VS_Write_def vs_buffer_def)
      then show ?thesis using True b(3,4) take_copy_at [OF True b(4)]
        by (simp add: vs_abs_def vs_bytes_def mb_bytes_def)
    qed (use le in \<open>simp add: VS_Write_def\<close>)
  qed
qed


section \<open>Configured before loaded\<close>

lemma Load_needs_configuration: "\<not> sc_loaded (ss_config s) \<Longrightarrow> fst (SS_Load C s) = s"
  by (simp add: SS_Load_def run_simps)

definition ss_configured :: "stego \<Rightarrow> bool" where
  "ss_configured s \<longleftrightarrow> (ss_storage s \<noteq> None \<longrightarrow> sc_loaded (ss_config s))"

lemma Init_loaded: "sc_loaded (StegoConfig_Init config sc)"
proof -
  have "sc_loaded (fold add_include js sc) = sc_loaded sc" for js sc
    by (induction js arbitrary: sc) (auto simp: add_include_def)
  moreover have "sc_loaded (fold add_file_type js sc) = sc_loaded sc" for js sc
    by (induction js arbitrary: sc) (auto simp: add_file_type_def)
  ultimately show ?thesis by (simp add: StegoConfig_Init_def Let_def)
qed

lemma keeps_configured_manager: "keeps ss_configured (on_manager f)"
  by (auto simp: keeps_def on_manager_def ss_configured_def split: prod.splits)

lemma keeps_configured:
  "keeps ss_configured (SS_Open C path password filter_text)" "keeps ss_configured (Configure_file config_path)"
  "keeps ss_configured (Configure e g l)" "keeps ss_configured (SS_ChangeEncoder config)"
  "keeps ss_configured (SS_Save C)" "keeps ss_configured (SS_Write source offset len)"
proof -
  note m = keeps_configured_manager
  have o1: "keeps ss_configured (on_own_storage f)" for f
    using keepsD [OF m] by (auto simp: keeps_def on_own_storage_def split: option.splits)
  have l: "keeps ss_configured (\<lambda>s. on_manager (LoadDirectory C (ss_config s) path f) s)" for f
    unfolding keeps_def using keepsD [OF m] by blast
  have c: "keeps ss_configured (modifyM (\<lambda>s. s\<lparr>ss_config := StegoConfig_Init j (ss_config s)\<rparr>))" for j
    by (rule keeps_rules) (simp add: ss_configured_def Init_loaded)
  have o2: "keeps ss_configured (modifyM (\<lambda>s. s\<lparr>ss_opened := b\<rparr>))" for b
    by (rule keeps_rules) (simp add: ss_configured_def)
  show "keeps ss_configured (SS_Open C path password filter_text)" unfolding SS_Open_def by (intro keeps_rules m l o2)
  show "keeps ss_configured (Configure_file config_path)" unfolding Configure_file_def by (intro keeps_rules c)
  show "keeps ss_configured (Configure e g l)" unfolding Configure_def by (rule c)
  show "keeps ss_configured (SS_ChangeEncoder config)" unfolding SS_ChangeEncoder_def by (intro keeps_rules)
  show "keeps ss_configured (SS_Save C)" unfolding SS_Save_def by (intro keeps_rules m)
  show "keeps ss_configured (SS_Write source offset len)" using o1 by (simp add: keeps_def SS_Write_def)
qed

lemma keeps_configured_Load: "keeps ss_configured (SS_Load C)"
  using Load_needs_configuration [of _ C] SS_Load_config [of C] by (auto simp: keeps_def ss_configured_def)

lemma stego_call_configured: "stego_call C s t \<Longrightarrow> ss_configured s \<Longrightarrow> ss_configured t"
  by (erule stego_callE) (blast intro: keeps_configured [THEN keeps_result] keeps_result [OF keeps_configured_Load])+

lemma stego_calls_configured: "(stego_call C)\<^sup>*\<^sup>* s t \<Longrightarrow> ss_configured s \<Longrightarrow> ss_configured t"
  by (induction rule: rtranclp_induct) (auto intro: stego_call_configured)



text \<open>The process with one bitmap, loaded.\<close>

lemma stego2_loaded:
  "\<exists>s. (stego_call cenv0)\<^sup>*\<^sup>* stego2 s \<and> ss_storage s = Some 0 \<and> unat (vs_usable_capacity (w_storages (ss_world s) ! 0)) = 18"
proof -
  obtain ds w1 where l: "SS_Load cenv0 stego2 = (stego2\<lparr>ss_manager :=
        (manager2\<lparr>cm_master_key := Some (key_with master2), cm_carriers := [bmp2_encoded], cm_capacity := 50, cm_active := True\<rparr>)
          \<lparr>cm_carriers := ds, cm_storage := Some 0\<rparr>, ss_storage := Some 0, ss_world := w1\<rparr>, Inr ())"
      and w1: "st_ok 0 w1" "vs_permutation (w_storages w1 ! 0) = Some ident50"
    using SS_Load_first [OF stego2_can_load] by (auto simp: stego2_def)
  have "vs_ok (w_storages w1 ! 0)" using w1(1) by (simp add: st_ok_def)
  from applied_size(2) [OF this w1(2)] have "unat (vs_usable_capacity (w_storages w1 ! 0)) = 18"
    by (simp add: ident50_def Permutation_GetSize_def)
  moreover have "stego_call cenv0 stego2 (fst (SS_Load cenv0 stego2))"
    using l by (intro stego_call.loads [where r = "Inr ()"]) (simp_all add: tasks_over_def)
  ultimately show ?thesis using l by (intro exI [of _ "fst (SS_Load cenv0 stego2)"]) auto
qed

lemma stego2_fresh: "ss_fresh stego2"
  by (simp add: ss_fresh_def stego2_def manager2_def bmp2_def CarrierFile_def)


end
