(* ===== verification/Fuse_Service.thy ===== *)
theory Fuse_Service
  imports Call_Order
begin

text \<open>
  \<^verbatim>\<open>src/fuse/fuse_service.cc\<close>: the storage as the only file of a mounted file system.  The callbacks that
  \<^verbatim>\<open>libfuse\<close> calls are functions on the static members of \<open>FuseService\<close>; \<open>fork\<close>, \<open>kill\<close> and \<open>waitpid\<close> are
  modelled by what they do to the two processes.
\<close>

section \<open>The state\<close>

text \<open>
  The static members, with the library object the pointer \<open>stego_storage_\<close> leads to, and the signals
  sent to the parent process.  The error numbers and the bits of \<open>st_mode\<close> are those of Linux.
\<close>

datatype signal = SIGUSR1 | SIGUSR2 | SIGCHLD

record fuse =
  fu_stego :: stego
  fu_has_storage :: bool
  fu_capacity :: u64
  fu_mounted :: bool
  fu_mount_point :: string
  fu_proc_pid :: int
  fu_signals :: "signal list"

definition FuseService :: "stego \<Rightarrow> fuse" where
  "FuseService st =
     \<lparr>fu_stego = st, fu_has_storage = False, fu_capacity = 0, fu_mounted = False, fu_mount_point = [],
      fu_proc_pid = 0, fu_signals = []\<rparr>"

type_synonym 'a fio = "(fuse, 'a) meth"

definition file_path :: string where
  "file_path = ''/virtualdisc.iso''"

definition virtual_file_name :: string where
  "virtual_file_name = ''virtualdisc.iso''"

definition ENOENT :: int where "ENOENT = 2"
definition ENOSYS :: int where "ENOSYS = 38"
definition EROFS :: int where "EROFS = 30"

definition Fuse_Init :: "int fio" where
  "Fuse_Init s =
     (let s = s\<lparr>fu_has_storage := True\<rparr> in
      case SS_GetSize (fu_stego s) of
        Inl e \<Rightarrow> (s, Inl e)
      | Inr n \<Rightarrow> (s\<lparr>fu_capacity := n\<rparr>, Inr 0))"

section \<open>Callbacks\<close>

definition send_signal :: "signal \<Rightarrow> unit fio" where
  "send_signal sig = modifyM (\<lambda>s. s\<lparr>fu_signals := fu_signals s @ [sig]\<rparr>)"

text \<open>The names given to \<open>filler\<close>, and the result.\<close>

definition sfs_readdir :: "string \<Rightarrow> (string list \<times> int) fio" where
  "sfs_readdir path =
     (if path \<noteq> ''/'' then returnM ([], - ENOENT)
      else bindM (getM fu_mounted) (\<lambda>mounted.
        seqM (whenM (\<not> mounted) (seqM (modifyM (\<lambda>s. s\<lparr>fu_mounted := True\<rparr>)) (send_signal SIGUSR1)))
             (returnM ([''.'', ''..'', tl file_path], 0))))"

record stat =
  st_mode :: u32
  st_nlink :: u64
  st_size :: u64

text \<open>\<open>S_IFDIR | 0755\<close> and \<open>S_IFREG | 0777\<close>; \<open>st_size\<close> is an \<open>off_t\<close>, of the same 64 bits.\<close>

definition sfs_getattr :: "string \<Rightarrow> (stat \<times> int) fio" where
  "sfs_getattr path =
     bindM (getM fu_capacity) (\<lambda>capacity.
     let stbuf = \<lparr>st_mode = 0, st_nlink = 0, st_size = 0\<rparr> in
     if path = ''/'' then returnM (stbuf\<lparr>st_mode := 0x4000 OR 0x1ED, st_nlink := 3\<rparr>, 0)
     else if path = file_path
     then returnM (stbuf\<lparr>st_mode := 0x8000 OR 0x1FF, st_nlink := 1, st_size := capacity\<rparr>, 0)
     else returnM (stbuf, - ENOENT))"

definition sfs_access :: "string \<Rightarrow> int \<Rightarrow> int" where "sfs_access path amode = 0"
definition sfs_readlink :: "string \<Rightarrow> u64 \<Rightarrow> int" where "sfs_readlink path len = - ENOSYS"
definition sfs_mkdir :: "string \<Rightarrow> u32 \<Rightarrow> int" where "sfs_mkdir path mode = - EROFS"
definition sfs_unlink :: "string \<Rightarrow> int" where "sfs_unlink path = 0"
definition sfs_rmdir :: "string \<Rightarrow> int" where "sfs_rmdir path = - EROFS"
definition sfs_rename :: "string \<Rightarrow> string \<Rightarrow> int" where "sfs_rename old new = - EROFS"
definition sfs_chmod :: "string \<Rightarrow> u32 \<Rightarrow> int" where "sfs_chmod path mode = 0"
definition sfs_chown :: "string \<Rightarrow> u32 \<Rightarrow> u32 \<Rightarrow> int" where "sfs_chown path uid gid = 0"
definition sfs_open :: "string \<Rightarrow> int" where "sfs_open path = 0"
definition sfs_create :: "string \<Rightarrow> u32 \<Rightarrow> int" where "sfs_create path mode = sfs_open path"

text \<open>A call through the pointer \<open>stego_storage_\<close>.\<close>

definition on_stego :: "'a sio \<Rightarrow> 'a fio" where
  "on_stego f s =
     (if fu_has_storage s then (case f (fu_stego s) of (st, r) \<Rightarrow> (s\<lparr>fu_stego := st\<rparr>, r)) else (s, Inl Undefined))"

text \<open>\<open>static_cast<int>(size)\<close>\<close>

definition int_of_size :: "u64 \<Rightarrow> int" where
  "int_of_size sz = sint (ucast sz :: u32)"

text \<open>
  The part of the request that lies in the file, with the sum in 64 bits.  The result of both callbacks is the size
  that was asked for, not the one that was trimmed.
\<close>

definition trimmed :: "u64 \<Rightarrow> u64 \<Rightarrow> u64 \<Rightarrow> u64" where
  "trimmed capacity offset64 size64 = (if offset64 + size64 > capacity then capacity - offset64 else size64)"

definition sfs_read :: "string \<Rightarrow> bytes \<Rightarrow> u64 \<Rightarrow> u64 \<Rightarrow> (bytes \<times> int) fio" where
  "sfs_read path buf sz offset =
     (if path \<noteq> file_path then returnM (buf, - ENOENT)
      else bindM (getM fu_capacity) (\<lambda>capacity.
        if offset \<ge> capacity then returnM (buf, 0)
        else let size64 = trimmed capacity offset sz in
          bindM (on_stego (SS_Read offset size64)) (\<lambda>d.
          bindM (askM (\<lambda>s. memcpy (Some buf) 0 (Some d) (length d))) (\<lambda>b.
          returnM (case b of None \<Rightarrow> [] | Some b \<Rightarrow> b, int_of_size sz)))))"

definition sfs_write :: "string \<Rightarrow> bytes \<Rightarrow> u64 \<Rightarrow> u64 \<Rightarrow> int fio" where
  "sfs_write path buf sz offset =
     (if path \<noteq> file_path then returnM (- ENOENT)
      else bindM (getM fu_capacity) (\<lambda>capacity.
        if offset \<ge> capacity then returnM 0
        else let size64 = trimmed capacity offset sz in
          seqM (on_stego (SS_Write (Some buf) offset size64)) (returnM (int_of_size sz))))"

definition sfs_init :: "unit fio" where "sfs_init = returnM ()"
definition sfs_destroy :: "unit fio" where "sfs_destroy = send_signal SIGUSR2"

section \<open>The mount\<close>

text \<open>The requests the kernel sends to the mounted file system, and their answers.\<close>

datatype request =
    Readdir string
  | Getattr string
  | ReadAt string bytes u64
  | WriteAt string bytes u64
  | Other int

datatype answer = Names "string list" int | Attributes stat int | Contents bytes int | Count int

text \<open>
  The size of a request is that of its buffer.  \<open>Other r\<close> stands for a callback that looks at nothing and returns the
  constant \<open>r\<close>.
\<close>

definition answer_request :: "request \<Rightarrow> answer fio" where
  "answer_request q =
     (case q of
        Readdir path \<Rightarrow> bindM (sfs_readdir path) (\<lambda>(names, r). returnM (Names names r))
      | Getattr path \<Rightarrow> bindM (sfs_getattr path) (\<lambda>(st, r). returnM (Attributes st r))
      | ReadAt path buf offset \<Rightarrow>
          bindM (sfs_read path buf (word_of_nat (length buf)) offset) (\<lambda>(buf, r). returnM (Contents buf r))
      | WriteAt path buf offset \<Rightarrow>
          bindM (sfs_write path buf (word_of_nat (length buf)) offset) (\<lambda>r. returnM (Count r))
      | Other r \<Rightarrow> returnM (Count r))"

fun serve :: "request list \<Rightarrow> answer list fio" where
  "serve [] = returnM []"
| "serve (q # qs) = bindM (answer_request q) (\<lambda>a. bindM (serve qs) (\<lambda>as. returnM (a # as)))"

text \<open>
  \<open>MountFuse\<close> forks: the child process answers the requests with its copy of the memory and ends with
  \<open>_exit\<close>; the parent waits for it.  The two share the files and nothing else.  \<open>copied\<close> says whether \<open>new (std::nothrow)\<close> found
  memory for the copy of the path, \<open>pid\<close> is the result of \<open>fork\<close> in the parent, \<open>qs\<close> the requests until the file
  system is unmounted.  The result is the return value with what the child has answered.  A signal of the child
  may end \<open>waitpid\<close> before the child ends; no callback touches the files the two share, so that what the parent is left with and
  what it returns are the same.
\<close>

definition share_files :: "fuse \<Rightarrow> fuse \<Rightarrow> fuse" where
  "share_files child s =
     s\<lparr>fu_stego := (fu_stego s)\<lparr>ss_world := (ss_world (fu_stego s))\<lparr>w_files := w_files (ss_world (fu_stego child))\<rparr>\<rparr>\<rparr>"

definition MountFuse :: "bool \<Rightarrow> int \<Rightarrow> request list \<Rightarrow> string \<Rightarrow> fuse \<Rightarrow> fuse \<times> int \<times> answer list res" where
  "MountFuse copied pid qs mount_point s =
     (let s = s\<lparr>fu_mount_point := mount_point\<rparr> in
      if \<not> copied then (s, - 1, Inr [])
      else let s = s\<lparr>fu_mounted := False\<rparr> in
        if pid < 0 then (s, - 1, Inr [])
        else case seqM sfs_init (bindM (serve qs) (\<lambda>as. seqM sfs_destroy (returnM as))) s of
          (child, r) \<Rightarrow> (share_files child (s\<lparr>fu_proc_pid := pid, fu_mounted := False\<rparr>), 0, r))"

text \<open>The handlers of the parent: \<open>si_pid\<close> is the sender.\<close>

definition fuseSigChldSignalHandler :: "fuse \<Rightarrow> fuse" where
  "fuseSigChldSignalHandler s = s\<lparr>fu_mounted := False\<rparr>"

definition fuseSignalHandler :: "signal \<Rightarrow> int \<Rightarrow> fuse \<Rightarrow> fuse" where
  "fuseSignalHandler sig si_pid s =
     (if si_pid = fu_proc_pid s
      then (case sig of SIGCHLD \<Rightarrow> fuseSigChldSignalHandler s | _ \<Rightarrow> s)
      else s)"

text \<open>\<open>umount\<close> of the system is a parameter.\<close>

definition UnmountFuse :: "(string \<Rightarrow> int) \<Rightarrow> string \<Rightarrow> int fio" where
  "UnmountFuse umount path = bindM (modifyM (\<lambda>s. s\<lparr>fu_mounted := False\<rparr>)) (\<lambda>_. returnM (umount path))"

section \<open>A file of bytes\<close>

text \<open>
  What a mounted file should be: its contents, read and written at positions, with its size fixed.  Reading and writing
  give the number of bytes that were moved, which is smaller than what was asked for at the end of the file.
\<close>

definition spec_read :: "bytes \<Rightarrow> string \<Rightarrow> bytes \<Rightarrow> nat \<Rightarrow> bytes \<times> int" where
  "spec_read v path buf offset =
     (if path \<noteq> file_path then (buf, - ENOENT)
      else let moved = take (length buf) (drop offset v) in (copy_at 0 moved buf, int (length moved)))"

definition spec_write :: "bytes \<Rightarrow> string \<Rightarrow> bytes \<Rightarrow> nat \<Rightarrow> bytes \<times> int" where
  "spec_write v path buf offset =
     (if path \<noteq> file_path then (v, - ENOENT)
      else if length v \<le> offset then (v, 0)
      else let moved = take (length v - offset) buf in (copy_at offset moved v, int (length moved)))"

definition spec_answer :: "request \<Rightarrow> bytes \<Rightarrow> bytes \<times> answer" where
  "spec_answer q v =
     (case q of
        Readdir path \<Rightarrow>
          (v, if path = ''/'' then Names [''.'', ''..'', virtual_file_name] 0 else Names [] (- ENOENT))
      | Getattr path \<Rightarrow>
          (v, if path = ''/'' then Attributes \<lparr>st_mode = 0x41ED, st_nlink = 3, st_size = 0\<rparr> 0
              else if path = file_path
              then Attributes \<lparr>st_mode = 0x81FF, st_nlink = 1, st_size = word_of_nat (length v)\<rparr> 0
              else Attributes \<lparr>st_mode = 0, st_nlink = 0, st_size = 0\<rparr> (- ENOENT))
      | ReadAt path buf offset \<Rightarrow> (case spec_read v path buf (unat offset) of (b, r) \<Rightarrow> (v, Contents b r))
      | WriteAt path buf offset \<Rightarrow> (case spec_write v path buf (unat offset) of (v, r) \<Rightarrow> (v, Count r))
      | Other r \<Rightarrow> (v, Count r))"

fun spec_serve :: "request list \<Rightarrow> bytes \<Rightarrow> bytes \<times> answer list" where
  "spec_serve [] v = (v, [])"
| "spec_serve (q # qs) v =
     (case spec_answer q v of (v, a) \<Rightarrow> (case spec_serve qs v of (v, as) \<Rightarrow> (v, a # as)))"

text \<open>A request whose end fits in 64 bits.\<close>

fun request_fits :: "request \<Rightarrow> bool" where
  "request_fits (ReadAt path buf offset) \<longleftrightarrow> unat offset + length buf < 2 ^ 64"
| "request_fits (WriteAt path buf offset) \<longleftrightarrow> unat offset + length buf < 2 ^ 64"
| "request_fits q \<longleftrightarrow> True"

text \<open>
  What the service makes of the answer of a file of \<open>n\<close> bytes: to a read or a write that begins in the file it
  reports the size that was asked for, cast to an \<open>int\<close>, and not the number of bytes moved.
\<close>

fun reported :: "nat \<Rightarrow> request \<Rightarrow> answer \<Rightarrow> answer" where
  "reported n (ReadAt path buf offset) (Contents b r) =
     Contents b (if path = file_path \<and> unat offset < n then int_of_size (word_of_nat (length buf)) else r)"
| "reported n (WriteAt path buf offset) (Count r) =
     Count (if path = file_path \<and> unat offset < n then int_of_size (word_of_nat (length buf)) else r)"
| "reported n q a = a"

text \<open>A request that asks for no more than the file has from its position on, and for less than \<open>2 ^ 31\<close> bytes.\<close>

fun request_inside :: "nat \<Rightarrow> request \<Rightarrow> bool" where
  "request_inside n (ReadAt path buf offset) \<longleftrightarrow> unat offset + length buf \<le> n \<and> length buf < 2 ^ 31"
| "request_inside n (WriteAt path buf offset) \<longleftrightarrow> unat offset + length buf \<le> n \<and> length buf < 2 ^ 31"
| "request_inside n q \<longleftrightarrow> True"

lemma int_of_size_small: "k < 2 ^ 31 \<Longrightarrow> int_of_size (word_of_nat k) = int k"
proof -
  assume k: "k < 2 ^ 31"
  have "unat (ucast (word_of_nat k :: u64) :: u32) = k" using k by (simp add: unsigned_ucast_eq take_bit_nat_eq_self unat_simps)
  then have "uint (ucast (word_of_nat k :: u64) :: u32) = int k" by (simp only: uint_nat)
  then show ?thesis using k by (simp add: int_of_size_def sint_uint signed_take_bit_int_eq_self)
qed

lemma reported_inside: "request_inside (length v) q \<Longrightarrow> reported (length v) q (snd (spec_answer q v)) = snd (spec_answer q v)"
  by (cases q) (auto simp: spec_answer_def spec_read_def spec_write_def int_of_size_small Let_def split: prod.splits)

lemma spec_answer_length: "length (fst (spec_answer q v)) = length v"
  by (cases q) (auto simp: spec_answer_def spec_write_def spec_read_def Let_def length_copy_at split: prod.splits)

lemma spec_serve_length: "length (fst (spec_serve qs v)) = length v"
  using spec_answer_length by (induction qs arbitrary: v) (auto split: prod.splits, metis fst_conv)

lemma reported_all_inside:
  "\<forall>q \<in> set qs. request_inside (length v) q \<Longrightarrow> map2 (reported (length v)) qs (snd (spec_serve qs v)) = snd (spec_serve qs v)"
proof (induction qs arbitrary: v)
  case (Cons q qs)
  obtain v1 a where a: "spec_answer q v = (v1, a)" by (metis prod.exhaust)
  then have "length v1 = length v" using spec_answer_length [of q v] by simp
  then show ?case using Cons.IH [of v1] Cons.prems reported_inside [of v q] a by (auto split: prod.splits)
qed simp


section \<open>The callbacks refine the file\<close>

text \<open>The library holds storage \<open>a\<close>, whose usable bytes are \<open>v\<close>, and the service stands on it.\<close>

definition ss_view :: "nat \<Rightarrow> bytes \<Rightarrow> stego \<Rightarrow> bool" where
  "ss_view a v st \<longleftrightarrow>
     ss_storage st = Some a \<and> a < length (w_storages (ss_world st)) \<and>
     vs_shape (w_storages (ss_world st) ! a) \<and> v = vs_abs (w_storages (ss_world st) ! a)"

definition fuse_view :: "nat \<Rightarrow> bytes \<Rightarrow> fuse \<Rightarrow> bool" where
  "fuse_view a v s \<longleftrightarrow> fu_has_storage s \<and> ss_view a v (fu_stego s) \<and> length v = unat (fu_capacity s)"

lemma vs_abs_length: "vs_shape vs \<Longrightarrow> length (vs_abs vs) = unat (vs_usable_capacity vs)"
  by (auto simp: vs_shape_def vs_abs_def vs_bytes_def length_mb_bytes split: option.splits)

lemma fuse_view_length: "fuse_view a v s \<Longrightarrow> length v = unat (fu_capacity s)"
  by (simp add: fuse_view_def)

lemma unat_trimmed:
  assumes "unat offset < unat capacity" "unat offset + unat sz < 2 ^ 64"
  shows "unat (trimmed capacity offset sz) = min (unat sz) (unat capacity - unat offset)"
proof -
  have "(offset + sz > capacity) = (unat capacity < unat offset + unat sz)" by (rule unat_sum_le [OF assms(2)])
  moreover have "unat (capacity - offset) = unat capacity - unat offset"
    using assms(1) by (intro unat_sub) (simp add: word_le_nat_alt)
  ultimately show ?thesis
    using assms(1) by (cases "unat capacity < unat offset + unat sz") (simp_all add: trimmed_def)
qed

lemma VS_Write_take:
  assumes "unat len \<le> length buf"
  shows "VS_Write vs off len (Some buf) = VS_Write vs off len (Some (take (unat len) buf))"
proof -
  have "memcpy (Some bs) (unat off) (Some buf) (unat len) = memcpy (Some bs) (unat off) (Some (take (unat len) buf)) (unat len)" for bs
    using assms by (simp add: memcpy_def)
  then show ?thesis unfolding VS_Write_def by (simp cong: option.case_cong)
qed

text \<open>Reading and writing the part of a request that lies in the file.\<close>

lemma SS_Read_trimmed:
  assumes "ss_view a v st" "length v = unat capacity" "unat offset < length v" "unat offset + unat sz < 2 ^ 64"
  shows "SS_Read offset (trimmed capacity offset sz) st = (st, Inr (take (unat sz) (drop (unat offset) v)))"
proof -
  let ?vs = "w_storages (ss_world st) ! a" and ?t = "trimmed capacity offset sz"
  note view = assms(1) [unfolded ss_view_def]
  have t: "unat ?t = min (unat sz) (length v - unat offset)"
    using unat_trimmed [of offset capacity sz] assms(2-4) by simp
  have "unat offset + unat ?t \<le> unat capacity" using t assms(2,3) by linarith
  then have "VS_Read ?vs offset ?t = Inr (take (unat ?t) (drop (unat offset) v))"
    using VS_Read_shape [of ?vs offset ?t] view vs_abs_length [of ?vs] assms(2) unat_u64_less [of capacity] by simp
  moreover have "SS_Read offset ?t st = (st, VS_Read ?vs offset ?t)"
    using view by (simp add: SS_Read_def own_storage_def the_storage_def run_simps)
  moreover have "take (unat ?t) (drop (unat offset) v) = take (unat sz) (drop (unat offset) v)"
    by (cases "unat sz \<le> length v - unat offset") (simp_all add: t)
  ultimately show ?thesis by simp
qed

lemma SS_Write_trimmed:
  assumes "ss_view a v st" "length v = unat capacity" "unat offset < length v" "unat offset + unat sz < 2 ^ 64"
      and "unat sz = length buf"
  shows "\<exists>st'. SS_Write (Some buf) offset (trimmed capacity offset sz) st = (st', Inr ()) \<and>
               ss_view a (copy_at (unat offset) (take (length v - unat offset) buf) v) st' \<and>
               w_files (ss_world st') = w_files (ss_world st)"
proof -
  let ?vs = "w_storages (ss_world st) ! a" and ?t = "trimmed capacity offset sz"
  let ?d = "take (length v - unat offset) buf"
  note view = assms(1) [unfolded ss_view_def]
  have t: "unat ?t = min (length buf) (length v - unat offset)"
    using unat_trimmed [of offset capacity sz] assms(2-5) by simp
  then have l: "length ?d = unat ?t" by simp
  have tk: "take (unat ?t) buf = ?d" by (simp add: t min_def)
  have tl: "?t = word_of_nat (length ?d)" unfolding l by simp
  have "VS_Write ?vs offset ?t (Some buf) = VS_Write ?vs offset (word_of_nat (length ?d)) (Some ?d)"
    using VS_Write_take [of ?t buf] t tk unfolding tl [symmetric] by simp
  moreover have "unat offset + length ?d \<le> unat (vs_usable_capacity ?vs)" "unat offset + length ?d < 2 ^ 64"
    using assms(3-5) view by (auto simp: vs_abs_length min_def)
  ultimately obtain vs' where vs': "VS_Write ?vs offset ?t (Some buf) = Inr vs'" "vs_abs vs' = copy_at (unat offset) ?d v"
    using VS_Write_shape_correct [of ?vs offset ?d] view by auto
  then show ?thesis
    using view VS_Write_shape [OF _ vs'(1)]
    by (simp add: SS_Write_def on_own_storage_def on_manager_def on_storage_def updateM_def ss_view_def)
qed

lemma file_path_root [simp]: "file_path \<noteq> ''/''" "''/'' \<noteq> file_path"
  by (simp_all add: file_path_def)

lemma sfs_read_refines:
  assumes "fuse_view a v s" "unat offset + length buf < 2 ^ 64"
  shows "sfs_read path buf (word_of_nat (length buf)) offset s =
           (s, Inr (fst (spec_read v path buf (unat offset)),
                    if path = file_path \<and> unat offset < length v then int_of_size (word_of_nat (length buf))
                    else snd (spec_read v path buf (unat offset))))"
proof -
  let ?n = "word_of_nat (length buf) :: u64" and ?d = "take (length buf) (drop (unat offset) v)"
  have n: "unat ?n = length buf" using assms(2) by (simp add: unat_simps)
  note view = assms(1) [unfolded fuse_view_def]
  show ?thesis
  proof (cases "path = file_path \<and> unat offset < length v")
    case True
    then have rd: "on_stego (SS_Read offset (trimmed (fu_capacity s) offset ?n)) s = (s, Inr ?d)"
      using SS_Read_trimmed [of a v "fu_stego s" "fu_capacity s" offset ?n] view n assms(2) by (simp add: on_stego_def)
    have cp: "memcpy (Some buf) 0 (Some d) (length d) = Inr (Some (copy_at 0 d buf))" if "length d \<le> length buf" for d
      using memcpy_ok [of "length d" 0 buf "Some d" d] that by simp
    have "length ?d \<le> length buf" by simp
    note cp [OF this]
    moreover have "\<not> fu_capacity s \<le> offset" using True view by (simp add: word_le_nat_alt)
    ultimately show ?thesis
      using True by (simp add: sfs_read_def run_simps spec_read_def Let_def
          bindM_run(1) [where m = "on_stego (SS_Read offset (trimmed (fu_capacity s) offset ?n))", OF rd])
  next
    case False
    then have "path = file_path \<Longrightarrow> fu_capacity s \<le> offset" using view by (simp add: word_le_nat_alt)
    then show ?thesis using False by (auto simp: sfs_read_def run_simps spec_read_def Let_def copy_at_def)
  qed
qed

lemma sfs_write_refines:
  assumes "fuse_view a v s" "unat offset + length buf < 2 ^ 64"
  shows "\<exists>s'. sfs_write path buf (word_of_nat (length buf)) offset s =
                (s', Inr (if path = file_path \<and> unat offset < length v then int_of_size (word_of_nat (length buf))
                          else snd (spec_write v path buf (unat offset)))) \<and>
              fuse_view a (fst (spec_write v path buf (unat offset))) s' \<and>
              w_files (ss_world (fu_stego s')) = w_files (ss_world (fu_stego s))"
proof -
  let ?n = "word_of_nat (length buf) :: u64" and ?v = "copy_at (unat offset) (take (length v - unat offset) buf) v"
  have n: "unat ?n = length buf" using assms(2) by (simp add: unat_simps)
  note view = assms(1) [unfolded fuse_view_def]
  show ?thesis
  proof (cases "path = file_path \<and> unat offset < length v")
    case True
    obtain st where st: "SS_Write (Some buf) offset (trimmed (fu_capacity s) offset ?n) (fu_stego s) = (st, Inr ())"
        "ss_view a ?v st" "w_files (ss_world st) = w_files (ss_world (fu_stego s))"
      using SS_Write_trimmed [of a v "fu_stego s" "fu_capacity s" offset ?n buf] True view n assms(2) by auto
    have wr: "on_stego (SS_Write (Some buf) offset (trimmed (fu_capacity s) offset ?n)) s = (s\<lparr>fu_stego := st\<rparr>, Inr ())"
      using view st(1) by (simp add: on_stego_def)
    have "\<not> fu_capacity s \<le> offset" using True view by (simp add: word_le_nat_alt)
    then have "sfs_write path buf ?n offset s = (s\<lparr>fu_stego := st\<rparr>, Inr (int_of_size ?n))"
      using True by (simp add: sfs_write_def run_simps Let_def
          seqM_run(1) [where m = "on_stego (SS_Write (Some buf) offset (trimmed (fu_capacity s) offset ?n))", OF wr])
    moreover have "length ?v = length v" using True by (subst length_copy_at) auto
    then have "fuse_view a ?v (s\<lparr>fu_stego := st\<rparr>)" using view st(2) by (simp add: fuse_view_def)
    ultimately show ?thesis using True st(3) by (simp add: spec_write_def Let_def)
  next
    case False
    then have "path = file_path \<Longrightarrow> fu_capacity s \<le> offset" using view by (simp add: word_le_nat_alt)
    then show ?thesis using False assms(1) by (auto simp: sfs_write_def run_simps spec_write_def)
  qed
qed

lemma fuse_view_fields [simp]:
  "fuse_view a v (s\<lparr>fu_mounted := b\<rparr>) = fuse_view a v s"
  "fuse_view a v (s\<lparr>fu_signals := sg\<rparr>) = fuse_view a v s"
  "fuse_view a v (s\<lparr>fu_mount_point := mp\<rparr>) = fuse_view a v s"
  "fuse_view a v (s\<lparr>fu_proc_pid := pid\<rparr>) = fuse_view a v s"
  by (simp_all add: fuse_view_def)

lemma answer_request_refines:
  assumes "fuse_view a v s" "request_fits q" "spec_answer q v = (v', x)"
  shows "\<exists>s'. answer_request q s = (s', Inr (reported (length v) q x)) \<and> fuse_view a v' s' \<and>
              w_files (ss_world (fu_stego s')) = w_files (ss_world (fu_stego s))"
proof (cases q)
  case (Readdir path)
  have "\<exists>s'. sfs_readdir path s = (s', Inr (if path = ''/'' then ([''.'', ''..'', virtual_file_name], 0) else ([], - ENOENT))) \<and>
           fuse_view a v s' \<and> w_files (ss_world (fu_stego s')) = w_files (ss_world (fu_stego s))"
    using assms(1) by (auto simp: sfs_readdir_def run_simps send_signal_def file_path_def virtual_file_name_def whenM_def)
  then obtain s' where s': "sfs_readdir path s = (s', Inr (if path = ''/'' then ([''.'', ''..'', virtual_file_name], 0) else ([], - ENOENT)))"
      "fuse_view a v s'" "w_files (ss_world (fu_stego s')) = w_files (ss_world (fu_stego s))" by blast
  then show ?thesis using Readdir assms(3) by (auto simp: answer_request_def spec_answer_def bindM_run(1) [where m = "sfs_readdir path", OF s'(1)] run_simps)
next
  case (Getattr path)
  have "word_of_nat (length v) = fu_capacity s" using fuse_view_length [OF assms(1)] by simp
  then have "sfs_getattr path s = (s, Inr (if path = ''/'' then (\<lparr>st_mode = 0x41ED, st_nlink = 3, st_size = 0\<rparr>, 0)
      else if path = file_path then (\<lparr>st_mode = 0x81FF, st_nlink = 1, st_size = word_of_nat (length v)\<rparr>, 0)
      else (\<lparr>st_mode = 0, st_nlink = 0, st_size = 0\<rparr>, - ENOENT)))"
    by (simp add: sfs_getattr_def run_simps Let_def)
  note st = bindM_run(1) [where m = "sfs_getattr path", OF this]
  show ?thesis using Getattr assms(1,3) by (auto simp: answer_request_def spec_answer_def st run_simps)
next
  case (ReadAt path buf offset)
  with assms(2) have "unat offset + length buf < 2 ^ 64" by simp
  note st = bindM_run(1) [where m = "sfs_read path buf (word_of_nat (length buf)) offset", OF sfs_read_refines [OF assms(1) this]]
  show ?thesis using ReadAt assms(1,3) by (auto simp: answer_request_def spec_answer_def st run_simps split: prod.splits)
next
  case (WriteAt path buf offset)
  with assms(2) have f: "unat offset + length buf < 2 ^ 64" by simp
  obtain s' where s': "sfs_write path buf (word_of_nat (length buf)) offset s =
        (s', Inr (if path = file_path \<and> unat offset < length v then int_of_size (word_of_nat (length buf))
                  else snd (spec_write v path buf (unat offset))))"
      "fuse_view a (fst (spec_write v path buf (unat offset))) s'" "w_files (ss_world (fu_stego s')) = w_files (ss_world (fu_stego s))"
    using sfs_write_refines [OF assms(1) f, of path] by blast
  then show ?thesis using WriteAt assms(3)
    by (auto simp: answer_request_def spec_answer_def bindM_run(1) [where m = "sfs_write path buf (word_of_nat (length buf)) offset", OF s'(1)] run_simps split: prod.splits)
qed (use assms in \<open>auto simp: answer_request_def spec_answer_def run_simps\<close>)

lemma serve_refines:
  assumes "fuse_view a v s" "\<forall>q \<in> set qs. request_fits q"
  shows "\<exists>s'. serve qs s = (s', Inr (map2 (reported (length v)) qs (snd (spec_serve qs v)))) \<and> fuse_view a (fst (spec_serve qs v)) s' \<and>
              w_files (ss_world (fu_stego s')) = w_files (ss_world (fu_stego s))"
  using assms
proof (induction qs arbitrary: s v)
  case (Cons q qs)
  obtain v1 x where x: "spec_answer q v = (v1, x)" by (metis prod.exhaust)
  obtain s1 where s1: "answer_request q s = (s1, Inr (reported (length v) q x))" "fuse_view a v1 s1" "w_files (ss_world (fu_stego s1)) = w_files (ss_world (fu_stego s))"
    using answer_request_refines [OF Cons.prems(1) _ x] Cons.prems(2) by auto
  have l: "length v1 = length v" using spec_answer_length [of q v] x by simp
  obtain s2 where s2: "serve qs s1 = (s2, Inr (map2 (reported (length v)) qs (snd (spec_serve qs v1))))" "fuse_view a (fst (spec_serve qs v1)) s2"
      "w_files (ss_world (fu_stego s2)) = w_files (ss_world (fu_stego s1))"
    using Cons.IH [OF s1(2)] Cons.prems(2) unfolding l by auto
  show ?case using x s1(3) s2(2,3)
    by (auto simp: bindM_run(1) [where m = "answer_request q", OF s1(1)] bindM_run(1) [where m = "serve qs", OF s2(1)] run_simps split: prod.splits)
qed (simp add: run_simps)


section \<open>Initialisation and the two processes\<close>

lemma Fuse_Init_view:
  assumes "ss_ok (fu_stego s)" "ss_storage (fu_stego s) = Some a" "Fuse_Init s = (t, Inr r)"
  shows "r = 0 \<and> fu_stego t = fu_stego s \<and> fuse_view a (vs_abs (w_storages (ss_world (fu_stego s)) ! a)) t"
proof -
  have a: "a < length (w_storages (ss_world (fu_stego s)))" "vs_shape (w_storages (ss_world (fu_stego s)) ! a)"
    using ss_ok_storage [OF assms(1,2)] by simp_all
  then have "SS_GetSize (fu_stego s) = VS_GetUsableCapacity (w_storages (ss_world (fu_stego s)) ! a)"
    using assms(2) by (simp add: SS_GetSize_def the_storage_def)
  then show ?thesis using assms(2,3) a
    by (auto simp: Fuse_Init_def Let_def fuse_view_def ss_view_def vs_abs_length VS_GetUsableCapacity_def split: sum.splits if_splits)
qed


lemma sfs_destroy_run: "sfs_destroy s = (s\<lparr>fu_signals := fu_signals s @ [SIGUSR2]\<rparr>, Inr ())"
  by (simp add: sfs_destroy_def send_signal_def run_simps)

lemma MountFuse_run:
  assumes "fuse_view a v s" "\<forall>q \<in> set qs. request_fits q" "0 \<le> pid"
  shows "MountFuse True pid qs mp s =
    (s\<lparr>fu_mount_point := mp, fu_proc_pid := pid, fu_mounted := False\<rparr>, 0, Inr (map2 (reported (length v)) qs (snd (spec_serve qs v))))"
proof -
  let ?s = "s\<lparr>fu_mount_point := mp, fu_mounted := False\<rparr>" and ?as = "map2 (reported (length v)) qs (snd (spec_serve qs v))"
  have "fuse_view a v ?s" using assms(1) by simp
  then obtain u where u: "serve qs ?s = (u, Inr ?as)" "w_files (ss_world (fu_stego u)) = w_files (ss_world (fu_stego ?s))"
    using serve_refines [OF _ assms(2)] by blast
  have "bindM (serve qs) (\<lambda>as. seqM sfs_destroy (returnM as)) ?s = (u\<lparr>fu_signals := fu_signals u @ [SIGUSR2]\<rparr>, Inr ?as)"
    by (simp add: bindM_run(1) [where m = "serve qs", OF u(1)] seqM_run(1) [OF sfs_destroy_run] run_simps)
  moreover have "share_files (u\<lparr>fu_signals := sg\<rparr>) (s\<lparr>fu_mount_point := mp, fu_mounted := False, fu_proc_pid := pid, fu_mounted := False\<rparr>) =
      s\<lparr>fu_mount_point := mp, fu_proc_pid := pid, fu_mounted := False\<rparr>" for sg
    using u(2) by (simp add: share_files_def)
  ultimately show ?thesis using assms(3) by (simp add: MountFuse_def Let_def sfs_init_def run_simps)
qed


section \<open>The process with one bitmap, mounted\<close>

definition fuse2_requests :: "request list" where
  "fuse2_requests = [WriteAt file_path [1, 2, 3] 16, ReadAt file_path [9, 9, 9] 16]"

lemma fuse2_answers:
  "length v = 18 \<Longrightarrow> spec_serve fuse2_requests v = (take 16 v @ [1, 2], [Count 2, Contents [1, 2, 9] 2])"
  "map2 (reported 18) fuse2_requests [Count 2, Contents [1, 2, 9] 2] = [Count 3, Contents [1, 2, 9] 3]"
  by (simp_all add: fuse2_requests_def spec_answer_def spec_write_def spec_read_def copy_at_def int_of_size_def)

lemma fuse2_fits: "\<forall>q \<in> set fuse2_requests. request_fits q"
  by (simp add: fuse2_requests_def)

lemma stego2_mounted:
  "\<exists>s t. (stego_call cenv0)\<^sup>*\<^sup>* stego2 (fu_stego s) \<and> ss_storage (fu_stego s) = Some 0 \<and>
     length (vs_abs (w_storages (ss_world (fu_stego s)) ! 0)) = 18 \<and> Fuse_Init s = (t, Inr 0)"
proof -
  obtain ds w1 where l: "SS_Load cenv0 stego2 = (stego2\<lparr>ss_manager :=
        (manager2\<lparr>cm_master_key := Some (key_with master2), cm_carriers := [bmp2_encoded], cm_capacity := 50, cm_active := True\<rparr>)
          \<lparr>cm_carriers := ds, cm_storage := Some 0\<rparr>, ss_storage := Some 0, ss_world := w1\<rparr>, Inr ())"
      and w1: "st_ok 0 w1" "vs_permutation (w_storages w1 ! 0) = Some ident50"
    using SS_Load_first [OF stego2_can_load] by (auto simp: stego2_def)
  let ?s = "fst (SS_Load cenv0 stego2)"
  have x: "vs_ok (w_storages w1 ! 0)" "0 < length (w_storages w1)" using w1(1) by (simp_all add: st_ok_def)
  have "SS_GetSize ?s = Inr 18"
    using applied_size(3) [OF x(1) w1(2)] x(2) by (simp add: l SS_GetSize_def the_storage_def ident50_def Permutation_GetSize_def)
  then have "Fuse_Init (FuseService ?s) = ((FuseService ?s)\<lparr>fu_has_storage := True, fu_capacity := 18\<rparr>, Inr 0)"
    by (simp add: Fuse_Init_def FuseService_def)
  moreover have "length (vs_abs (w_storages (ss_world ?s) ! 0)) = 18"
    using vs_capacity(4) [OF x(1)] applied_size(2) [OF x(1) w1(2)] by (simp add: l ident50_def Permutation_GetSize_def)
  moreover have "(stego_call cenv0)\<^sup>*\<^sup>* stego2 ?s" by (rule r_into_rtranclp, rule stego_call.loads [where r = "Inr ()"]) (simp_all add: l tasks_over_def)
  moreover have "ss_storage ?s = Some 0" by (simp add: l)
  ultimately show ?thesis
    by (intro exI [of _ "FuseService ?s"] exI [of _ "(FuseService ?s)\<lparr>fu_has_storage := True, fu_capacity := 18\<rparr>"])
      (simp add: FuseService_def)
qed



end
