(* ===== verification/Dokan_Service.thy ===== *)
theory Dokan_Service
  imports Fuse_Service
begin

text \<open>
  \<^verbatim>\<open>src/fuse/dokan_service.cc\<close>: the same file for Windows.  The callbacks that Dokan calls are functions on the
  static members of \<open>DokanService\<close>; each of them holds \<open>dokan_mutex_\<close> from its first line to its end, so
  it is one step.  A wide string made of a string has the same characters.
\<close>

section \<open>The state\<close>

datatype ntstatus = STATUS_SUCCESS | STATUS_NO_SUCH_FILE | STATUS_END_OF_FILE

text \<open>
  The static members, with the library object behind the pointer.  \<open>dk_waiting\<close> says that a thread is blocked in
  \<open>IsMounted\<close>, \<open>dk_mounting\<close> that the thread of \<open>Mount\<close> has not yet called \<open>SFSMounted\<close>.
\<close>

record dokan =
  dk_stego :: stego
  dk_has_storage :: bool
  dk_capacity :: u64
  dk_file_path :: string
  dk_mount_point :: string
  dk_file_name :: string
  dk_waiting :: bool
  dk_mounting :: bool

definition DokanService :: "stego \<Rightarrow> dokan" where
  "DokanService st =
     \<lparr>dk_stego = st, dk_has_storage = False, dk_capacity = 0, dk_file_path = [], dk_mount_point = [],
      dk_file_name = [], dk_waiting = False, dk_mounting = False\<rparr>"

type_synonym 'a dio = "(dokan, 'a) meth"

definition root_path :: string where
  "root_path = [CHR 0x5C]"

text \<open>The sizes of a pointer and of the two structures of Dokan are parameters.\<close>

record dokan_sizes =
  sz_pointer :: nat
  sz_options :: nat
  sz_operations :: nat

text \<open>\<open>ZeroMemory(p, n)\<close> on a block of \<open>allocated\<close> bytes.\<close>

definition ZeroMemory :: "nat \<Rightarrow> nat \<Rightarrow> unit dio" where
  "ZeroMemory allocated n = (if n \<le> allocated then returnM () else throwM Undefined)"

text \<open>
  Both blocks are allocated with the size of a pointer to the structure and cleared with the size of the
  structure.
\<close>

definition Dokan_Init :: "dokan_sizes \<Rightarrow> bool \<Rightarrow> string \<Rightarrow> unit dio" where
  "Dokan_Init sz has_storage mount_point =
     seqM (modifyM (\<lambda>s. s\<lparr>dk_file_path := root_path @ ''virtualdisc.iso'', dk_file_name := ''virtualdisc.iso''\<rparr>))
    (seqM (whenM has_storage
             (bindM (askM (\<lambda>s. SS_GetSize (dk_stego s))) (\<lambda>n.
              modifyM (\<lambda>s. s\<lparr>dk_capacity := n, dk_has_storage := True\<rparr>))))
    (seqM (modifyM (\<lambda>s. s\<lparr>dk_mount_point := mount_point\<rparr>))
    (seqM (ZeroMemory (sz_pointer sz) (sz_options sz))
          (ZeroMemory (sz_pointer sz) (sz_operations sz)))))"

text \<open>\<open>Mount\<close> starts the thread that runs \<open>DokanMain\<close>; \<open>IsMounted\<close> blocks until it is notified.\<close>

definition Mount :: "unit dio" where
  "Mount = modifyM (\<lambda>s. s\<lparr>dk_mounting := True\<rparr>)"

definition Unmount :: "(string \<Rightarrow> unit) \<Rightarrow> unit dio" where
  "Unmount DokanUnmount =
     bindM (askM (\<lambda>s. case dk_mount_point s of [] \<Rightarrow> Inr (CHR 0x00) | c # cs \<Rightarrow> Inr c)) (\<lambda>c. returnM (DokanUnmount [c]))"

definition IsMounted :: "unit dio" where
  "IsMounted = modifyM (\<lambda>s. s\<lparr>dk_waiting := True\<rparr>)"

section \<open>Callbacks\<close>

text \<open>The status, and \<open>IsDirectory\<close> where it is set.\<close>

definition SFSCreateFile :: "string \<Rightarrow> (ntstatus \<times> bool option) dio" where
  "SFSCreateFile FileName =
     bindM (getM dk_file_path) (\<lambda>path.
     if FileName = root_path then returnM (STATUS_SUCCESS, Some True)
     else if FileName = path then returnM (STATUS_SUCCESS, Some False)
     else returnM (STATUS_NO_SUCH_FILE, None))"

datatype file_attributes = FILE_ATTRIBUTE_NORMAL | FILE_ATTRIBUTE_DIRECTORY

text \<open>What the callbacks tell of a file: its attributes, the two halves of its size, its times and its name.\<close>

record 't file_info =
  fi_attributes :: file_attributes
  fi_size_low :: u32
  fi_size_high :: u32
  fi_time :: 't
  fi_name :: string

text \<open>The system's time is a parameter.  The capacity is cast to 32 bits.\<close>

definition SFSFindFiles :: "'t \<Rightarrow> string \<Rightarrow> (ntstatus \<times> 't file_info list) dio" where
  "SFSFindFiles file_time FileName =
     bindM (getM id) (\<lambda>s.
     if FileName = root_path
     then returnM (STATUS_SUCCESS,
       [\<lparr>fi_attributes = FILE_ATTRIBUTE_NORMAL, fi_size_low = ucast (dk_capacity s), fi_size_high = 0,
         fi_time = file_time, fi_name = dk_file_name s\<rparr>])
     else returnM (STATUS_END_OF_FILE, []))"

definition SFSMounted :: "ntstatus dio" where
  "SFSMounted = seqM (modifyM (\<lambda>s. s\<lparr>dk_mounting := False, dk_waiting := False\<rparr>)) (returnM STATUS_SUCCESS)"

definition SFSUnmounted :: "ntstatus dio" where
  "SFSUnmounted = returnM STATUS_SUCCESS"

definition SFSGetVolumeInformation :: "ntstatus dio" where
  "SFSGetVolumeInformation = returnM STATUS_SUCCESS"

text \<open>The size of a directory and the name are not set.\<close>

definition SFSGetFileInformation :: "'t \<Rightarrow> string \<Rightarrow> (ntstatus \<times> (file_attributes \<times> 't \<times> (u32 \<times> u32) option) option) dio" where
  "SFSGetFileInformation file_time FileName =
     bindM (getM id) (\<lambda>s.
     if FileName = root_path then returnM (STATUS_SUCCESS, Some (FILE_ATTRIBUTE_DIRECTORY, file_time, None))
     else if FileName = dk_file_path s
     then returnM (STATUS_SUCCESS, Some (FILE_ATTRIBUTE_NORMAL, file_time, Some (ucast (dk_capacity s), 0)))
     else returnM (STATUS_NO_SUCH_FILE, None))"

definition on_library :: "'a sio \<Rightarrow> 'a dio" where
  "on_library f s =
     (if dk_has_storage s then (case f (dk_stego s) of (st, r) \<Rightarrow> (s\<lparr>dk_stego := st\<rparr>, r)) else (s, Inl Undefined))"

text \<open>
  The buffer, the number of bytes asked for and the offset; the result is the status, the buffer
  and \<open>*ReadLength\<close> where it is set.
\<close>

definition SFSReadFile :: "string \<Rightarrow> bytes \<Rightarrow> u32 \<Rightarrow> u64 \<Rightarrow> (ntstatus \<times> bytes \<times> u32 option) dio" where
  "SFSReadFile FileName buf BufferLength offset64 =
     bindM (getM id) (\<lambda>s.
     if FileName \<noteq> dk_file_path s then returnM (STATUS_NO_SUCH_FILE, buf, None)
     else if offset64 \<ge> dk_capacity s then returnM (STATUS_END_OF_FILE, buf, Some 0)
     else let size64 = trimmed (dk_capacity s) offset64 (ucast BufferLength) in
       bindM (on_library (SS_Read offset64 size64)) (\<lambda>d.
       bindM (askM (\<lambda>s. memcpy (Some buf) 0 (Some d) (length d))) (\<lambda>b.
       returnM (STATUS_SUCCESS, case b of None \<Rightarrow> [] | Some b \<Rightarrow> b, Some (ucast size64)))))"

definition SFSWriteFile :: "string \<Rightarrow> bytes \<Rightarrow> u32 \<Rightarrow> u64 \<Rightarrow> (ntstatus \<times> u32 option) dio" where
  "SFSWriteFile FileName buf NumberOfBytesToWrite offset64 =
     bindM (getM id) (\<lambda>s.
     if FileName \<noteq> dk_file_path s then returnM (STATUS_NO_SUCH_FILE, None)
     else if offset64 \<ge> dk_capacity s then returnM (STATUS_END_OF_FILE, Some 0)
     else let size64 = trimmed (dk_capacity s) offset64 (ucast NumberOfBytesToWrite) in
       seqM (on_library (SS_Write (Some buf) offset64 size64)) (returnM (STATUS_SUCCESS, Some (ucast size64))))"

section \<open>Initialisation overruns its blocks\<close>

lemma Dokan_Init_overruns:
  assumes "sz_pointer sz < sz_options sz"
  shows "\<exists>e. snd (Dokan_Init sz has_storage mp s) = Inl e \<and> (\<not> has_storage \<longrightarrow> e = Undefined)"
proof (cases "has_storage")
  case False
  with assms show ?thesis by (simp add: Dokan_Init_def run_simps ZeroMemory_def seqM_run(2) [where m = "throwM e" for e])
next
  case True
  with assms show ?thesis
    by (cases "SS_GetSize (dk_stego s)")
      (simp_all add: Dokan_Init_def seqM_def bindM_def modifyM_def askM_def returnM_def throwM_def whenM_def ZeroMemory_def)
qed

section \<open>Waiting for the mount\<close>

text \<open>What Dokan's threads do; \<open>SFSMounted\<close> is called once, when the thread of \<open>Mount\<close> has mounted the volume.\<close>

inductive dokan_step :: "dokan \<Rightarrow> dokan \<Rightarrow> bool" where
  "dk_mounting s \<Longrightarrow> dokan_step s (fst (SFSMounted s))"
| "dokan_step s (fst (SFSCreateFile path s))"
| "dokan_step s (fst (SFSFindFiles (t :: nat) path s))"
| "dokan_step s (fst (SFSGetFileInformation (t :: nat) path s))"
| "dokan_step s (fst (SFSReadFile path buf n offset s))"
| "dokan_step s (fst (SFSWriteFile path buf n offset s))"
| "dokan_step s (fst (SFSUnmounted s))"

definition waits :: "dokan \<Rightarrow> bool" where
  "waits s \<longleftrightarrow> dk_waiting s \<and> \<not> dk_mounting s"

lemma keeps_on_library: "keeps waits (on_library f)"
  by (auto simp: keeps_def on_library_def waits_def split: prod.splits)

lemma keeps_waits:
  "keeps waits (SFSCreateFile path)" "keeps waits (SFSFindFiles t path)" "keeps waits (SFSGetFileInformation t path)"
  "keeps waits (SFSReadFile path buf n offset)" "keeps waits (SFSWriteFile path buf n offset)" "keeps waits SFSUnmounted"
  unfolding SFSCreateFile_def SFSFindFiles_def SFSGetFileInformation_def SFSReadFile_def SFSWriteFile_def SFSUnmounted_def
  by (intro keeps_rules keeps_on_library)+

lemma dokan_step_waits: "dokan_step s t \<Longrightarrow> waits s \<Longrightarrow> waits t"
  by (induction rule: dokan_step.induct) (simp_all add: waits_def [of s for s] keeps_waits [unfolded keeps_def waits_def, rule_format])

text \<open>A volume that is mounted before \<open>IsMounted\<close> is called leaves the caller blocked for ever.\<close>

lemma IsMounted_blocks:
  assumes "\<not> dk_mounting s" "dokan_step\<^sup>*\<^sup>* (fst (IsMounted s)) t"
  shows "dk_waiting t"
proof -
  have "waits (fst (IsMounted s))" using assms(1) by (simp add: IsMounted_def modifyM_def waits_def)
  with assms(2) have "waits t" by (induction rule: rtranclp_induct) (auto intro: dokan_step_waits)
  then show ?thesis by (simp add: waits_def)
qed

section \<open>The same file as through FUSE\<close>

definition dokan_view :: "nat \<Rightarrow> bytes \<Rightarrow> dokan \<Rightarrow> bool" where
  "dokan_view a v s \<longleftrightarrow> dk_has_storage s \<and> ss_view a v (dk_stego s) \<and> length v = unat (dk_capacity s) \<and>
                        dk_file_path s = root_path @ ''virtualdisc.iso''"

abbreviation dokan_path :: string where
  "dokan_path \<equiv> root_path @ ''virtualdisc.iso''"

lemma unat_sz: "length buf < 2 ^ 32 \<Longrightarrow> unat (ucast (word_of_nat (length buf) :: u32) :: u64) = length buf"
  by (simp add: unat_ucast_u32_u64 unat_simps)

lemma ucast_u64_u32: "(ucast (w :: u64) :: u32) = word_of_nat (unat w)"
  by (simp add: word_unat_eq_iff unsigned_ucast_eq take_bit_eq_mod unat_simps)

lemma SFSReadFile_run:
  assumes "dokan_view a v s" "length buf < 2 ^ 32" "unat offset + length buf < 2 ^ 64" "unat offset < length v"
  shows "SFSReadFile dokan_path buf (word_of_nat (length buf)) offset s =
    (s, Inr (STATUS_SUCCESS, copy_at 0 (take (length buf) (drop (unat offset) v)) buf,
             Some (word_of_nat (min (length buf) (length v - unat offset)))))"
proof -
  let ?n = "ucast (word_of_nat (length buf) :: u32) :: u64" and ?d = "take (length buf) (drop (unat offset) v)"
  let ?t = "trimmed (dk_capacity s) offset ?n"
  note view = assms(1) [unfolded dokan_view_def] and n = unat_sz [OF assms(2)]
  have rd: "on_library (SS_Read offset ?t) s = (s, Inr ?d)"
    using SS_Read_trimmed [of a v "dk_stego s" "dk_capacity s" offset ?n] view n assms(3,4) by (simp add: on_library_def)
  have cp: "memcpy (Some buf) 0 (Some d) (length d) = Inr (Some (copy_at 0 d buf))" if "length d \<le> length buf" for d
    using memcpy_ok [of "length d" 0 buf "Some d" d] that by simp
  have "length ?d \<le> length buf" by simp
  note cp [OF this]
  moreover have "\<not> dk_capacity s \<le> offset" using view assms(4) by (simp add: word_le_nat_alt)
  moreover have "unat ?t = min (length buf) (length v - unat offset)"
    using unat_trimmed [of offset "dk_capacity s" ?n] view n assms(3,4) by simp
  then have "ucast ?t = (word_of_nat (min (length buf) (length v - unat offset)) :: u32)"
    by (simp add: ucast_u64_u32)
  ultimately show ?thesis
    using view by (simp add: SFSReadFile_def run_simps Let_def bindM_run(1) [where m = "on_library (SS_Read offset ?t)", OF rd])
qed

lemma SFSWriteFile_run:
  assumes "dokan_view a v s" "length buf < 2 ^ 32" "unat offset + length buf < 2 ^ 64" "unat offset < length v"
  shows "\<exists>st. SFSWriteFile dokan_path buf (word_of_nat (length buf)) offset s =
    (s\<lparr>dk_stego := st\<rparr>, Inr (STATUS_SUCCESS, Some (word_of_nat (min (length buf) (length v - unat offset))))) \<and>
    SS_Write (Some buf) offset (trimmed (dk_capacity s) offset (word_of_nat (length buf))) (dk_stego s) = (st, Inr ()) \<and>
    ss_view a (copy_at (unat offset) (take (length v - unat offset) buf) v) st"
proof -
  let ?n = "ucast (word_of_nat (length buf) :: u32) :: u64"
  let ?t = "trimmed (dk_capacity s) offset ?n"
  note view = assms(1) [unfolded dokan_view_def] and n = unat_sz [OF assms(2)]
  have e: "?n = word_of_nat (length buf)" unfolding word_unat_eq_iff n using assms(2) by (simp add: unat_simps)
  obtain st where st: "SS_Write (Some buf) offset ?t (dk_stego s) = (st, Inr ())"
      "ss_view a (copy_at (unat offset) (take (length v - unat offset) buf) v) st"
    using SS_Write_trimmed [of a v "dk_stego s" "dk_capacity s" offset ?n buf] view n assms(3,4) by auto
  have wr: "on_library (SS_Write (Some buf) offset ?t) s = (s\<lparr>dk_stego := st\<rparr>, Inr ())"
    using view st(1) by (simp add: on_library_def)
  have "unat ?t = min (length buf) (length v - unat offset)"
    using unat_trimmed [of offset "dk_capacity s" ?n] view n assms(3,4) by simp
  then have "ucast ?t = (word_of_nat (min (length buf) (length v - unat offset)) :: u32)"
    by (simp add: ucast_u64_u32)
  moreover have "\<not> dk_capacity s \<le> offset" using view assms(4) by (simp add: word_le_nat_alt)
  ultimately have "SFSWriteFile dokan_path buf (word_of_nat (length buf)) offset s =
      (s\<lparr>dk_stego := st\<rparr>, Inr (STATUS_SUCCESS, Some (word_of_nat (min (length buf) (length v - unat offset)))))"
    using view by (simp add: SFSWriteFile_def run_simps Let_def seqM_run(1) [where m = "on_library (SS_Write (Some buf) offset ?t)", OF wr])
  then show ?thesis using st unfolding e by blast
qed


text \<open>
  C18. The two services show the same file.  On the same library, and for the same request inside the file, both
  put the same bytes into the buffer, and both writes leave the library in the same state.  Dokan is told how many bytes lie in
  the file, FUSE how many were asked for; the sizes they report agree up to the lowest 32 bits.
\<close>

theorem dokan_and_fuse_agree:
  assumes "dokan_view a v s" "fuse_view a v t" "dk_stego s = fu_stego t"
      and "length buf < 2 ^ 32" "unat offset + length buf < 2 ^ 64" "unat offset < length v"
  shows "(\<exists>b. sfs_read file_path buf (word_of_nat (length buf)) offset t = (t, Inr (b, int_of_size (word_of_nat (length buf)))) \<and>
              SFSReadFile dokan_path buf (word_of_nat (length buf)) offset s =
                (s, Inr (STATUS_SUCCESS, b, Some (word_of_nat (min (length buf) (length v - unat offset))))))
       \<and> (\<exists>st. sfs_write file_path buf (word_of_nat (length buf)) offset t = (t\<lparr>fu_stego := st\<rparr>, Inr (int_of_size (word_of_nat (length buf)))) \<and>
               SFSWriteFile dokan_path buf (word_of_nat (length buf)) offset s =
                (s\<lparr>dk_stego := st\<rparr>, Inr (STATUS_SUCCESS, Some (word_of_nat (min (length buf) (length v - unat offset))))))
       \<and> SFSGetFileInformation time dokan_path s =
            (s, Inr (STATUS_SUCCESS, Some (FILE_ATTRIBUTE_NORMAL, time, Some (word_of_nat (length v mod 2 ^ 32), 0))))
       \<and> sfs_getattr file_path t = (t, Inr (\<lparr>st_mode = 0x81FF, st_nlink = 1, st_size = word_of_nat (length v)\<rparr>, 0))"
proof (intro conjI)
  have c: "dk_capacity s = fu_capacity t"
    using assms(1,2) by (simp add: dokan_view_def fuse_view_def word_unat_eq_iff)
  note rd = sfs_read_refines [OF assms(2,5), of file_path]
  show "\<exists>b. sfs_read file_path buf (word_of_nat (length buf)) offset t = (t, Inr (b, int_of_size (word_of_nat (length buf)))) \<and>
              SFSReadFile dokan_path buf (word_of_nat (length buf)) offset s =
                (s, Inr (STATUS_SUCCESS, b, Some (word_of_nat (min (length buf) (length v - unat offset)))))"
    using rd SFSReadFile_run [OF assms(1,4-6)] assms(6) by (simp add: spec_read_def Let_def)
  obtain st where st: "SFSWriteFile dokan_path buf (word_of_nat (length buf)) offset s =
      (s\<lparr>dk_stego := st\<rparr>, Inr (STATUS_SUCCESS, Some (word_of_nat (min (length buf) (length v - unat offset)))))"
      "SS_Write (Some buf) offset (trimmed (dk_capacity s) offset (word_of_nat (length buf))) (dk_stego s) = (st, Inr ())"
    using SFSWriteFile_run [OF assms(1,4-6)] by blast
  have "\<not> fu_capacity t \<le> offset" using assms(2,6) by (simp add: fuse_view_def word_le_nat_alt)
  moreover have wr: "on_stego (SS_Write (Some buf) offset (trimmed (fu_capacity t) offset (word_of_nat (length buf)))) t = (t\<lparr>fu_stego := st\<rparr>, Inr ())"
    using st(2) assms(2,3) c by (simp add: on_stego_def fuse_view_def)
  ultimately have "sfs_write file_path buf (word_of_nat (length buf)) offset t = (t\<lparr>fu_stego := st\<rparr>, Inr (int_of_size (word_of_nat (length buf))))"
    by (simp add: sfs_write_def run_simps Let_def
        seqM_run(1) [where m = "on_stego (SS_Write (Some buf) offset (trimmed (fu_capacity t) offset (word_of_nat (length buf))))", OF wr])
  with st(1) show "\<exists>st. sfs_write file_path buf (word_of_nat (length buf)) offset t = (t\<lparr>fu_stego := st\<rparr>, Inr (int_of_size (word_of_nat (length buf)))) \<and>
               SFSWriteFile dokan_path buf (word_of_nat (length buf)) offset s =
                (s\<lparr>dk_stego := st\<rparr>, Inr (STATUS_SUCCESS, Some (word_of_nat (min (length buf) (length v - unat offset)))))"
    by blast
  have "(ucast (dk_capacity s) :: u32) = word_of_nat (length v mod 2 ^ 32)"
    using assms(1) by (simp add: dokan_view_def word_unat_eq_iff unsigned_ucast_eq take_bit_eq_mod unat_simps)
  moreover have "dokan_path \<noteq> root_path" by (simp add: root_path_def)
  ultimately show "SFSGetFileInformation time dokan_path s =
            (s, Inr (STATUS_SUCCESS, Some (FILE_ATTRIBUTE_NORMAL, time, Some (word_of_nat (length v mod 2 ^ 32), 0))))"
    using assms(1) by (simp add: SFSGetFileInformation_def run_simps dokan_view_def)
  show "sfs_getattr file_path t = (t, Inr (\<lparr>st_mode = 0x81FF, st_nlink = 1, st_size = word_of_nat (length v)\<rparr>, 0))"
    using fuse_view_length [OF assms(2)] by (simp add: sfs_getattr_def run_simps Let_def)
qed

theorem dokan_and_fuse_agree_witness:
  "\<exists>s t b. SFSReadFile dokan_path [9, 9, 9] 3 16 s = (s, Inr (STATUS_SUCCESS, b, Some 2)) \<and>
           sfs_read file_path [9, 9, 9] 3 16 t = (t, Inr (b, 3))"
proof -
  obtain s t where s: "(stego_call cenv0)\<^sup>*\<^sup>* stego2 (fu_stego s)" "ss_storage (fu_stego s) = Some 0"
      "length (vs_abs (w_storages (ss_world (fu_stego s)) ! 0)) = 18" "Fuse_Init s = (t, Inr 0)"
    using stego2_mounted by blast
  let ?v = "vs_abs (w_storages (ss_world (fu_stego s)) ! 0)"
  have "ss_ok (fu_stego s)" using stego_calls_ok [OF s(1)] ss_fresh_ok [OF stego2_fresh] .
  then have t: "fuse_view 0 ?v t" using Fuse_Init_view [OF _ s(2,4)] by simp
  let ?d = "(DokanService (fu_stego t))\<lparr>dk_has_storage := True, dk_capacity := fu_capacity t, dk_file_path := dokan_path\<rparr>"
  have d: "dokan_view 0 ?v ?d" using t by (simp add: fuse_view_def dokan_view_def DokanService_def)
  have "dk_stego ?d = fu_stego t" by (simp add: DokanService_def)
  from dokan_and_fuse_agree [OF d t this, of "[9, 9, 9]" 16 "0 :: nat"] s(3)
  obtain b where "SFSReadFile dokan_path [9, 9, 9] 3 16 ?d = (?d, Inr (STATUS_SUCCESS, b, Some 2))"
      "sfs_read file_path [9, 9, 9] 3 16 t = (t, Inr (b, 3))"
    by (auto simp: int_of_size_def)
  then show ?thesis by blast
qed

end
