(* ===== verification/Thread_Pool.thy ===== *)
theory Thread_Pool
  imports Stego_Exceptions "HOL-Library.Multiset"
begin

text \<open>
  \<^verbatim>\<open>src/utils/thread_pool.h\<close>: worker threads over one queue of tasks.  Everything a thread does while it
  holds \<open>queue_mutex\<close> is one step; threads interleave between steps, and the condition variable is
  modelled with its lost and spurious notifications.
\<close>

section \<open>The state\<close>

text \<open>
  The point a worker has reached: before it takes the mutex, blocked in \<open>condition.wait\<close>, in
  \<open>task()\<close> outside of the mutex, or returned.  The owner of the pool uses it, has set \<open>stop\<close> in the
  destructor, joins the worker of the number, or has left the destructor.
\<close>

datatype 'a worker = Locking | Waiting | Running 'a | Exited

datatype owner = Using | Stopping | Joining nat | Destroyed

text \<open>
  A task acts on one object, as \<open>&CarrierFile::SaveFile\<close> bound to a carrier does; the value or the
  exception that its future receives is part of the object it leaves.  \<open>tp_notifies\<close> counts the calls
  of \<open>enqueue\<close> between the unlocking and \<open>notify_one\<close>.  The last three fields are histories: the tasks
  in the order they were added, taken and finished.
\<close>

type_synonym 'o task = "nat \<times> ('o \<Rightarrow> 'o)"

record 'o pool =
  tp_workers :: "'o task worker list"
  tp_tasks :: "'o task list"
  tp_stop :: bool
  tp_notifies :: nat
  tp_owner :: owner
  tp_objects :: "nat \<Rightarrow> 'o"
  tp_added :: "'o task list"
  tp_taken :: "'o task list"
  tp_done :: "'o task list"

text \<open>\<open>hardware_concurrency\<close> is an \<open>unsigned\<close>, cast to \<open>int\<close> before the maximum is taken.\<close>

definition thread_count :: "u64 \<Rightarrow> u32 \<Rightarrow> nat" where
  "thread_count threads hardware_concurrency =
     (if threads = 0 then nat (max 4 (sint hardware_concurrency)) else unat threads)"

definition ThreadPool :: "u64 \<Rightarrow> u32 \<Rightarrow> (nat \<Rightarrow> 'o) \<Rightarrow> 'o pool" where
  "ThreadPool threads hardware_concurrency objects =
     \<lparr>tp_workers = replicate (thread_count threads hardware_concurrency) Locking, tp_tasks = [],
      tp_stop = False, tp_notifies = 0, tp_owner = Using, tp_objects = objects,
      tp_added = [], tp_taken = [], tp_done = []\<rparr>"

section \<open>The steps\<close>

text \<open>The locked part of \<open>enqueue\<close>.\<close>

definition enqueue_task :: "'o task \<Rightarrow> 'o pool \<Rightarrow> 'o pool res" where
  "enqueue_task t p =
     (if tp_stop p then Inl (InvalidState enqueue threadPool stopped)
      else Inr (p\<lparr>tp_tasks := tp_tasks p @ [t], tp_notifies := Suc (tp_notifies p), tp_added := tp_added p @ [t]\<rparr>))"

definition set_worker :: "nat \<Rightarrow> 'o task worker \<Rightarrow> 'o pool \<Rightarrow> 'o pool" where
  "set_worker i x p = p\<lparr>tp_workers := (tp_workers p)[i := x]\<rparr>"

text \<open>
  The locked part of the loop of worker \<open>i\<close>: the predicate of \<open>condition.wait\<close>, the test that
  leaves the loop, and the task taken from the front of the queue.
\<close>

definition take_task :: "nat \<Rightarrow> 'o pool \<Rightarrow> 'o pool" where
  "take_task i p =
     (if \<not> (tp_stop p \<or> tp_tasks p \<noteq> []) then set_worker i Waiting p
      else if tp_stop p \<and> tp_tasks p = [] then set_worker i Exited p
      else set_worker i (Running (hd (tp_tasks p)))
             (p\<lparr>tp_tasks := tl (tp_tasks p), tp_taken := tp_taken p @ [hd (tp_tasks p)]\<rparr>))"

definition on_object :: "'o task \<Rightarrow> (nat \<Rightarrow> 'o) \<Rightarrow> nat \<Rightarrow> 'o" where
  "on_object t st = st(fst t := snd t (st (fst t)))"

definition run_task :: "nat \<Rightarrow> 'o task \<Rightarrow> 'o pool \<Rightarrow> 'o pool" where
  "run_task i t p =
     set_worker i Locking (p\<lparr>tp_objects := on_object t (tp_objects p), tp_done := tp_done p @ [t]\<rparr>)"

definition wake_worker :: "'o task worker \<Rightarrow> 'o task worker" where
  "wake_worker x = (if x = Waiting then Locking else x)"

definition wake_all :: "'o pool \<Rightarrow> 'o pool" where
  "wake_all p = p\<lparr>tp_workers := map wake_worker (tp_workers p)\<rparr>"

text \<open>The steps of the threads and of a destructor that has begun.\<close>

inductive pool_work :: "'o pool \<Rightarrow> 'o pool \<Rightarrow> bool" where
  pw_lock: "i < length (tp_workers p) \<Longrightarrow> tp_workers p ! i = Locking \<Longrightarrow> pool_work p (take_task i p)"
| pw_run: "i < length (tp_workers p) \<Longrightarrow> tp_workers p ! i = Running t \<Longrightarrow> pool_work p (run_task i t p)"
| pw_notify_one: "tp_notifies p = Suc k \<Longrightarrow> i < length (tp_workers p) \<Longrightarrow> tp_workers p ! i = Waiting \<Longrightarrow>
    pool_work p (set_worker i Locking (p\<lparr>tp_notifies := k\<rparr>))"
| pw_notify_lost: "tp_notifies p = Suc k \<Longrightarrow> Waiting \<notin> set (tp_workers p) \<Longrightarrow>
    pool_work p (p\<lparr>tp_notifies := k\<rparr>)"
| pw_notify_all: "tp_owner p = Stopping \<Longrightarrow> pool_work p (wake_all (p\<lparr>tp_owner := Joining 0\<rparr>))"
| pw_join: "tp_owner p = Joining k \<Longrightarrow> k < length (tp_workers p) \<Longrightarrow> tp_workers p ! k = Exited \<Longrightarrow>
    pool_work p (p\<lparr>tp_owner := Joining (Suc k)\<rparr>)"
| pw_leave: "tp_owner p = Joining (length (tp_workers p)) \<Longrightarrow> pool_work p (p\<lparr>tp_owner := Destroyed\<rparr>)"

text \<open>All steps: a call of \<open>enqueue\<close>, a spurious wake-up, and the destructor's beginning as well.\<close>

inductive pool_step :: "'o pool \<Rightarrow> 'o pool \<Rightarrow> bool" where
  ps_work: "pool_work p q \<Longrightarrow> pool_step p q"
| ps_enqueue: "enqueue_task t p = Inr q \<Longrightarrow> pool_step p q"
| ps_spurious: "i < length (tp_workers p) \<Longrightarrow> tp_workers p ! i = Waiting \<Longrightarrow> pool_step p (set_worker i Locking p)"
| ps_stop: "tp_owner p = Using \<Longrightarrow> pool_step p (p\<lparr>tp_stop := True, tp_owner := Stopping\<rparr>)"

abbreviation pool_steps :: "'o pool \<Rightarrow> 'o pool \<Rightarrow> bool" where
  "pool_steps \<equiv> pool_step\<^sup>*\<^sup>*"

abbreviation pool_works :: "'o pool \<Rightarrow> 'o pool \<Rightarrow> bool" where
  "pool_works \<equiv> pool_work\<^sup>*\<^sup>*"

lemmas pool_defs = take_task_def run_task_def set_worker_def wake_all_def

text \<open>
  A relation of steps that keep an invariant and lose weight: it has no infinite run, and every
  state of the invariant reaches one where nothing is left to do.
\<close>

locale work_system =
  fixes work :: "'s \<Rightarrow> 's \<Rightarrow> bool"
    and inv :: "'s \<Rightarrow> bool"
    and weight :: "'s \<Rightarrow> nat"
  assumes work_keeps: "inv s \<Longrightarrow> work s t \<Longrightarrow> inv t"
      and work_lighter: "inv s \<Longrightarrow> work s t \<Longrightarrow> weight t < weight s"
begin

lemma works_keep:
  assumes "work\<^sup>*\<^sup>* s t" "inv s"
  shows "inv t"
  using assms by (induction rule: rtranclp_induct) (auto intro: work_keeps)

lemma no_infinite_work:
  assumes "inv (f 0)"
  shows "\<exists>i. \<not> work (f i) (f (Suc i))"
proof (rule ccontr)
  assume "\<not> ?thesis"
  then have step: "work (f i) (f (Suc i))" for i by blast
  have "inv (f i)" for i by (induction i) (use assms step work_keeps in auto)
  then have "weight (f (Suc i)) < weight (f i)" for i using step work_lighter by blast
  then have "\<forall>i. (f (Suc i), f i) \<in> measure weight" by simp
  then show False using wf_iff_no_infinite_down_chain [of "measure weight"] by auto
qed

lemma work_ends:
  assumes "inv s"
  shows "\<exists>t. work\<^sup>*\<^sup>* s t \<and> (\<forall>u. \<not> work t u)"
  using assms
proof (induction "weight s" arbitrary: s rule: less_induct)
  case less
  show ?case
  proof (cases "\<exists>u. work s u")
    case True
    then obtain u where u: "work s u" ..
    then obtain t where "work\<^sup>*\<^sup>* u t" "\<forall>v. \<not> work t v"
      using less work_keeps work_lighter by blast
    with u show ?thesis by (meson converse_rtranclp_into_rtranclp)
  qed blast
qed

end

section \<open>What every reachable state satisfies\<close>

lemma sum_list_update_swap:
  fixes f :: "'a \<Rightarrow> 'b :: comm_monoid_add"
  assumes "i < length xs"
  shows "sum_list (map f (xs[i := x])) + f (xs ! i) = sum_list (map f xs) + f x"
  using assms by (induction xs arbitrary: i) (auto simp: ac_simps split: nat.splits)

primrec held :: "'a worker \<Rightarrow> 'a multiset" where
  "held Locking = {#}"
| "held Waiting = {#}"
| "held (Running t) = {#t#}"
| "held Exited = {#}"

definition running :: "'a worker list \<Rightarrow> 'a multiset" where
  "running ws = sum_list (map held ws)"

primrec busy :: "'a worker \<Rightarrow> bool" where
  "busy Locking = True"
| "busy Waiting = False"
| "busy (Running t) = True"
| "busy Exited = False"

text \<open>
  No wake-up is lost: while a task is queued, a worker will look at the queue or a notification is
  under way.  A worker returns only once the pool is stopped and the queue is empty, nobody waits
  after \<open>notify_all\<close>, and the destructor has joined the workers it has passed.
\<close>

fun owner_ok :: "'a worker list \<Rightarrow> bool \<Rightarrow> owner \<Rightarrow> bool" where
  "owner_ok ws st Using \<longleftrightarrow> \<not> st"
| "owner_ok ws st Stopping \<longleftrightarrow> st"
| "owner_ok ws st (Joining k) \<longleftrightarrow> st \<and> Waiting \<notin> set ws \<and> k \<le> length ws \<and> (\<forall>j < k. ws ! j = Exited)"
| "owner_ok ws st Destroyed \<longleftrightarrow> st \<and> (\<forall>j < length ws. ws ! j = Exited)"

definition pool_ok :: "(nat \<Rightarrow> 'o) \<Rightarrow> 'o pool \<Rightarrow> bool" where
  "pool_ok objects p \<longleftrightarrow>
     tp_workers p \<noteq> [] \<and>
     tp_taken p @ tp_tasks p = tp_added p \<and>
     mset (tp_taken p) = running (tp_workers p) + mset (tp_done p) \<and>
     tp_objects p = fold on_object (tp_done p) objects \<and>
     (tp_tasks p \<noteq> [] \<longrightarrow> 0 < tp_notifies p \<or> (\<exists>i < length (tp_workers p). busy (tp_workers p ! i))) \<and>
     (\<forall>i < length (tp_workers p). tp_workers p ! i = Exited \<longrightarrow> tp_stop p \<and> tp_tasks p = []) \<and>
     owner_ok (tp_workers p) (tp_stop p) (tp_owner p)"

primrec worker_weight :: "'a worker \<Rightarrow> nat" where
  "worker_weight Locking = 1"
| "worker_weight Waiting = 0"
| "worker_weight (Running t) = 2"
| "worker_weight Exited = 0"

fun owner_weight :: "nat \<Rightarrow> owner \<Rightarrow> nat" where
  "owner_weight n Using = 0"
| "owner_weight n Stopping = 2 * n + 3"
| "owner_weight n (Joining k) = n + 1 - k"
| "owner_weight n Destroyed = 0"

definition pool_weight :: "'o pool \<Rightarrow> nat" where
  "pool_weight p =
     sum_list (map worker_weight (tp_workers p)) + 2 * length (tp_tasks p) + 2 * tp_notifies p
     + owner_weight (length (tp_workers p)) (tp_owner p)"

lemma thread_count_pos: "0 < thread_count threads hw"
  by (auto simp: thread_count_def unat_gt_0)

lemma running_replicate [simp]: "running (replicate n Locking) = {#}"
  by (induction n) (auto simp: running_def)

lemma running_none: "(\<And>x. x \<in> set ws \<Longrightarrow> x = Waiting \<or> x = Exited) \<Longrightarrow> running ws = {#}"
  unfolding running_def by (induction ws) force+

lemma ThreadPool_ok: "pool_ok objects (ThreadPool threads hw objects)"
  using thread_count_pos [of threads hw]
  by (auto simp: pool_ok_def ThreadPool_def)

lemma running_update:
  assumes "i < length ws"
  shows "running (ws[i := x]) + held (ws ! i) = running ws + held x"
  unfolding running_def by (rule sum_list_update_swap [OF assms])

lemma owner_ok_update:
  assumes "owner_ok ws st ow" "i < length ws" "ws ! i \<noteq> Exited" "x \<noteq> Waiting \<or> \<not> st"
  shows "owner_ok (ws[i := x]) st ow"
proof (cases ow)
  case (Joining k)
  then have "Waiting \<notin> set (ws[i := x])"
    using assms set_update_subset_insert [of ws i x] by auto
  moreover have "ws[i := x] ! j = Exited" if "j < k" for j
    using assms that Joining by (cases "j = i") auto
  ultimately show ?thesis using assms Joining by simp
qed (use assms in \<open>auto simp: nth_list_update\<close>)

lemma waiting_weight: "sum_list (map worker_weight (map wake_worker ws)) \<le> sum_list (map worker_weight ws) + length ws"
  by (induction ws) (auto simp: wake_worker_def)

lemma held_wake [simp]: "held (wake_worker x) = held x"
  by (simp add: wake_worker_def)

lemma running_wake [simp]: "running (map wake_worker ws) = running ws"
  by (simp add: running_def comp_def)

lemma wake_worker_simps [simp]:
  "wake_worker x = Exited \<longleftrightarrow> x = Exited" "wake_worker x \<noteq> Waiting" "Waiting \<noteq> wake_worker x" "busy x \<Longrightarrow> busy (wake_worker x)"
  by (auto simp: wake_worker_def)


lemma take_task_ok:
  assumes ok: "pool_ok objects p" and i: "i < length (tp_workers p)" "tp_workers p ! i = Locking"
  shows "pool_ok objects (take_task i p) \<and> pool_weight (take_task i p) < pool_weight p"
proof -
  note run = running_update [OF i(1)] and weigh = sum_list_update_swap [OF i(1), of worker_weight]
  have own: "owner_ok ((tp_workers p)[i := x]) (tp_stop p) (tp_owner p)" if "x \<noteq> Waiting \<or> \<not> tp_stop p" for x
    using ok i that by (intro owner_ok_update) (auto simp: pool_ok_def)
  consider (wait) "\<not> tp_stop p" "tp_tasks p = []" | (exit) "tp_stop p" "tp_tasks p = []"
    | (take) t ts where "tp_tasks p = t # ts"
    by (cases "tp_tasks p") auto
  then show ?thesis
  proof cases
    case wait
    then show ?thesis using ok i run [of Waiting] weigh [of Waiting] own [of Waiting]
      by (auto simp: pool_ok_def pool_weight_def take_task_def set_worker_def nth_list_update)
  next
    case exit
    then show ?thesis using ok i run [of Exited] weigh [of Exited] own [of Exited]
      by (auto simp: pool_ok_def pool_weight_def take_task_def set_worker_def nth_list_update)
  next
    case take
    then show ?thesis using ok i run [of "Running t"] weigh [of "Running t"] own [of "Running t"]
      by (auto simp: pool_ok_def pool_weight_def take_task_def set_worker_def nth_list_update intro!: exI [of _ i])
  qed
qed

lemma run_task_ok:
  assumes ok: "pool_ok objects p" and i: "i < length (tp_workers p)" "tp_workers p ! i = Running t"
  shows "pool_ok objects (run_task i t p) \<and> pool_weight (run_task i t p) < pool_weight p"
proof -
  have "owner_ok ((tp_workers p)[i := Locking]) (tp_stop p) (tp_owner p)"
    using ok i by (intro owner_ok_update) (auto simp: pool_ok_def)
  then show ?thesis
    using ok i running_update [OF i(1), of Locking] sum_list_update_swap [OF i(1), of worker_weight Locking]
    by (auto simp: pool_ok_def pool_weight_def run_task_def set_worker_def nth_list_update add.assoc intro!: exI [of _ i])
qed

lemma wake_one_ok:
  assumes ok: "pool_ok objects p" and i: "i < length (tp_workers p)" "tp_workers p ! i = Waiting"
  shows "pool_ok objects (set_worker i Locking (p\<lparr>tp_notifies := n\<rparr>))"
proof -
  have "owner_ok ((tp_workers p)[i := Locking]) (tp_stop p) (tp_owner p)"
    using ok i by (intro owner_ok_update) (auto simp: pool_ok_def)
  then show ?thesis
    using ok i running_update [OF i(1), of Locking]
    by (auto simp: pool_ok_def set_worker_def nth_list_update intro!: exI [of _ i])
qed

lemma wake_one_lighter:
  assumes "i < length (tp_workers p)" "tp_workers p ! i = Waiting" "tp_notifies p = Suc n"
  shows "pool_weight (set_worker i Locking (p\<lparr>tp_notifies := n\<rparr>)) < pool_weight p"
  using assms sum_list_update_swap [of i "tp_workers p" worker_weight Locking]
  by (simp add: pool_weight_def set_worker_def)

lemma notify_lost_ok:
  assumes ok: "pool_ok objects p" and none: "Waiting \<notin> set (tp_workers p)"
  shows "pool_ok objects (p\<lparr>tp_notifies := n\<rparr>)"
proof -
  have "busy (tp_workers p ! 0)" if "tp_tasks p \<noteq> []"
    using ok none that nth_mem [of 0 "tp_workers p"] by (cases "tp_workers p ! 0") (auto simp: pool_ok_def)
  with ok show ?thesis by (auto simp: pool_ok_def)
qed

lemma wake_all_ok:
  assumes ok: "pool_ok objects p" and "tp_owner p = Stopping"
  shows "pool_ok objects (wake_all (p\<lparr>tp_owner := Joining 0\<rparr>)) \<and>
         pool_weight (wake_all (p\<lparr>tp_owner := Joining 0\<rparr>)) < pool_weight p"
  using assms waiting_weight [of "tp_workers p"]
  by (auto simp: pool_ok_def pool_weight_def wake_all_def intro!: exI)

lemma join_ok:
  assumes "pool_ok objects p" "tp_owner p = Joining k" "k < length (tp_workers p)" "tp_workers p ! k = Exited"
  shows "pool_ok objects (p\<lparr>tp_owner := Joining (Suc k)\<rparr>) \<and>
         pool_weight (p\<lparr>tp_owner := Joining (Suc k)\<rparr>) < pool_weight p"
  using assms by (auto simp: pool_ok_def pool_weight_def less_Suc_eq)

lemma leave_ok:
  assumes "pool_ok objects p" "tp_owner p = Joining (length (tp_workers p))"
  shows "pool_ok objects (p\<lparr>tp_owner := Destroyed\<rparr>) \<and> pool_weight (p\<lparr>tp_owner := Destroyed\<rparr>) < pool_weight p"
  using assms by (auto simp: pool_ok_def pool_weight_def)

lemma pool_work_ok:
  assumes "pool_ok objects p" "pool_work p q"
  shows "pool_ok objects q \<and> pool_weight q < pool_weight p"
  using assms(2)
proof cases
  case (pw_notify_lost k)
  then show ?thesis using notify_lost_ok [OF assms(1)] by (simp add: pool_weight_def)
qed (use assms(1) in \<open>auto simp: take_task_ok run_task_ok wake_one_ok wake_one_lighter wake_all_ok join_ok leave_ok\<close>)

lemma enqueue_ok:
  assumes ok: "pool_ok objects p" and q: "enqueue_task t p = Inr q"
  shows "pool_ok objects q"
proof -
  have "\<not> tp_stop p" and q: "q = p\<lparr>tp_tasks := tp_tasks p @ [t], tp_notifies := Suc (tp_notifies p), tp_added := tp_added p @ [t]\<rparr>"
    using q by (auto simp: enqueue_task_def split: if_splits)
  with ok show ?thesis by (auto simp: pool_ok_def)
qed

lemma pool_step_ok:
  assumes "pool_ok objects p" "pool_step p q"
  shows "pool_ok objects q"
  using assms(2)
proof cases
  case ps_work
  then show ?thesis using pool_work_ok [OF assms(1)] by blast
next
  case (ps_enqueue t)
  then show ?thesis by (rule enqueue_ok [OF assms(1)])
next
  case (ps_spurious i)
  then show ?thesis using wake_one_ok [OF assms(1), of i "tp_notifies p"] by simp
next
  case ps_stop
  then show ?thesis using assms(1) by (auto simp: pool_ok_def)
qed

interpretation pool: work_system pool_work "pool_ok objects" pool_weight
  by unfold_locales (use pool_work_ok in auto)

lemma pool_reachable:
  assumes "pool_steps (ThreadPool threads hw objects) p"
  shows "pool_ok objects p"
  using assms by (induction rule: rtranclp_induct) (auto intro: ThreadPool_ok pool_step_ok)

text \<open>A state in which no thread can go on: nothing is left to do.\<close>

lemma no_work_left:
  assumes ok: "pool_ok objects p" and none: "\<And>q. \<not> pool_work p q"
  shows "mset (tp_done p) = mset (tp_added p) \<and> tp_tasks p = [] \<and> (tp_owner p = Using \<or> tp_owner p = Destroyed)"
proof -
  have stuck: "tp_workers p ! i = Waiting \<or> tp_workers p ! i = Exited" if "i < length (tp_workers p)" for i
    using none pool_work.pw_lock [OF that] pool_work.pw_run [OF that] by (cases "tp_workers p ! i") blast+
  then have "running (tp_workers p) = {#}"
    by (intro running_none) (auto simp: in_set_conv_nth)
  moreover have notify: "tp_notifies p = 0"
  proof (cases "tp_notifies p")
    case (Suc k)
    then show ?thesis using none pool_work.pw_notify_lost [OF Suc] pool_work.pw_notify_one [OF Suc]
      by (auto simp: in_set_conv_nth)
  qed
  then have tasks: "tp_tasks p = []" using ok stuck by (fastforce simp: pool_ok_def)
  moreover have "tp_owner p = Using \<or> tp_owner p = Destroyed"
  proof (cases "tp_owner p")
    case Stopping
    then show ?thesis using none pool_work.pw_notify_all by blast
  next
    case (Joining k)
    then have "k \<le> length (tp_workers p)" "Waiting \<notin> set (tp_workers p)" using ok by (auto simp: pool_ok_def)
    with stuck have "k < length (tp_workers p) \<Longrightarrow> tp_workers p ! k = Exited" by (metis nth_mem)
    with none pool_work.pw_join [OF Joining] pool_work.pw_leave [of p] Joining \<open>k \<le> _\<close> show ?thesis
      by (metis le_neq_implies_less)
  qed simp_all
  ultimately show ?thesis using ok by (auto simp: pool_ok_def)
qed


lemma work_keeps_added:
  assumes "pool_works p q"
  shows "tp_added q = tp_added p \<and> tp_stop q = tp_stop p"
  using assms
  by (induction rule: rtranclp_induct) (auto elim!: pool_work.cases simp: pool_defs split: if_splits)

lemma on_object_commute: "fst t \<noteq> fst u \<Longrightarrow> on_object t (on_object u st) = on_object u (on_object t st)"
  by (simp add: on_object_def fun_upd_twist)

lemma tasks_in_any_order:
  assumes "mset ts = mset us" "distinct (map fst us)"
  shows "fold on_object ts st = fold on_object us st"
proof -
  have "on_object t \<circ> on_object u = on_object u \<circ> on_object t" if "t \<in> set us" "u \<in> set us" for t u
    using that assms(2) on_object_commute [of t u]
    by (cases "t = u") (auto simp: fun_eq_iff distinct_map inj_on_def)
  moreover have "set ts = set us" using assms(1) by (rule mset_eq_setD)
  ultimately show ?thesis using fold_multiset_equiv [of ts on_object us] assms(1) by simp
qed

lemma destroyed_pool:
  assumes ok: "pool_ok objects p" and "tp_owner p = Destroyed"
  shows "tp_tasks p = [] \<and> mset (tp_done p) = mset (tp_added p)"
proof -
  have exited: "\<forall>j < length (tp_workers p). tp_workers p ! j = Exited" and "tp_workers p \<noteq> []"
    using assms by (auto simp: pool_ok_def)
  then have "tp_tasks p = []" using ok by (auto simp: pool_ok_def)
  moreover have "running (tp_workers p) = {#}"
    using exited by (intro running_none) (auto simp: in_set_conv_nth)
  ultimately show ?thesis using ok by (auto simp: pool_ok_def)
qed

text \<open>
  C14.  Tasks are taken in the order in which they were added, each of them once: what was taken is
  what a worker runs now together with what is finished, and the rest is the queue.  A worker
  returns only from a stopped pool whose queue is empty.
\<close>

theorem pool_takes_each_task_once:
  assumes "pool_steps (ThreadPool threads hw objects) p"
  shows "tp_taken p @ tp_tasks p = tp_added p
       \<and> mset (tp_taken p) = running (tp_workers p) + mset (tp_done p)
       \<and> (Exited \<in> set (tp_workers p) \<longrightarrow> tp_stop p \<and> tp_tasks p = [])"
  using pool_reachable [OF assms] by (auto simp: pool_ok_def in_set_conv_nth)

text \<open>
  C12.  From every state the pool can reach, its threads cannot go on for ever by themselves, and when
  they cannot go on at all every task that was added is finished, exactly once; a destructor that
  has begun has returned.
\<close>

theorem pool_finishes_its_tasks:
  assumes "pool_steps (ThreadPool threads hw objects) p"
  shows "(\<forall>f. f 0 = p \<longrightarrow> (\<exists>i. \<not> pool_work (f i) (f (Suc i))))
       \<and> (\<exists>q. pool_works p q \<and> (\<forall>r. \<not> pool_work q r))
       \<and> (\<forall>q. pool_works p q \<and> (\<forall>r. \<not> pool_work q r) \<longrightarrow>
              mset (tp_done q) = mset (tp_added p) \<and> tp_owner q = (if tp_stop p then Destroyed else Using))"
proof (intro conjI allI impI)
  have ok: "pool_ok objects p" by (rule pool_reachable [OF assms])
  show "\<exists>i. \<not> pool_work (f i) (f (Suc i))" if "f 0 = p" for f
    using pool.no_infinite_work [of objects f] ok that by simp
  show "\<exists>q. pool_works p q \<and> (\<forall>r. \<not> pool_work q r)" by (rule pool.work_ends [OF ok])
  fix q assume q: "pool_works p q \<and> (\<forall>r. \<not> pool_work q r)"
  then have ok': "pool_ok objects q" using pool.works_keep ok by blast
  with q have "mset (tp_done q) = mset (tp_added q)" "tp_owner q = Using \<or> tp_owner q = Destroyed"
    using no_work_left by blast+
  with q ok' show "mset (tp_done q) = mset (tp_added p)" "tp_owner q = (if tp_stop p then Destroyed else Using)"
    using work_keeps_added [of p q] by (auto simp: pool_ok_def)
qed

text \<open>
  C13.  Whatever the number of threads and however they interleave, a pool that is destroyed leaves every object as the
  loop that runs the tasks one after the other in the order of their \<open>enqueue\<close> would, when no
  two tasks act on the same object.
\<close>

theorem pool_runs_like_a_loop:
  assumes "pool_steps (ThreadPool threads hw objects) p" "tp_owner p = Destroyed"
      and "distinct (map fst (tp_added p))"
  shows "tp_objects p = fold on_object (tp_added p) objects"
proof -
  have ok: "pool_ok objects p" by (rule pool_reachable [OF assms(1)])
  then have "tp_objects p = fold on_object (tp_done p) objects" by (simp add: pool_ok_def)
  also have "\<dots> = fold on_object (tp_added p) objects"
    using destroyed_pool [OF ok assms(2)] assms(3) by (intro tasks_in_any_order) simp_all
  finally show ?thesis .
qed

text \<open>Two tasks on two threads: the second task is finished first, and the pool is destroyed.\<close>

definition pool2 :: "nat pool" where
  "pool2 = ThreadPool 2 4 (\<lambda>_. 7)"

definition pool2_tasks :: "nat task list" where
  "pool2_tasks = [(0, \<lambda>x. x + 5), (1, \<lambda>x. x * 3)]"

definition pool2_filled :: "nat pool" where
  "pool2_filled = pool2\<lparr>tp_tasks := pool2_tasks, tp_notifies := 2, tp_added := pool2_tasks\<rparr>"

definition pool2_run :: "nat pool" where
  "pool2_run = (run_task 0 (pool2_tasks ! 0) (run_task 1 (pool2_tasks ! 1)
     (take_task 1 (take_task 0 pool2_filled))))\<lparr>tp_notifies := 0\<rparr>"

definition pool2_stopped :: "nat pool" where
  "pool2_stopped = wake_all (pool2_run\<lparr>tp_stop := True, tp_owner := Joining 0\<rparr>)"

definition pool2_gone :: "nat pool" where
  "pool2_gone = (take_task 1 (take_task 0 pool2_stopped))\<lparr>tp_owner := Destroyed\<rparr>"

lemma two_workers: "replicate 2 x = [x, x]"
  by (simp add: numeral_2_eq_2)

lemmas pool2_defs = pool2_def pool2_tasks_def pool2_filled_def pool2_run_def pool2_stopped_def pool2_gone_def
  ThreadPool_def thread_count_def pool_defs two_workers wake_worker_def

lemmas pool_work_steps = pool_work.intros [THEN ps_work]

lemma pool2_fill: "pool_steps pool2 pool2_filled"
proof -
  define p where "p = pool2\<lparr>tp_tasks := [pool2_tasks ! 0], tp_notifies := 1, tp_added := [pool2_tasks ! 0]\<rparr>"
  have "pool_step pool2 p"
    by (rule ps_enqueue [of "pool2_tasks ! 0"]) (simp add: enqueue_task_def p_def pool2_defs)
  moreover have "pool_step p pool2_filled"
    by (rule ps_enqueue [of "pool2_tasks ! 1"]) (simp add: enqueue_task_def p_def pool2_defs)
  ultimately show ?thesis by (meson rtranclp.simps)
qed

lemma pool2_runs: "pool_steps pool2_filled pool2_run"
proof -
  define p where "p = take_task 1 (take_task 0 pool2_filled)"
  define q where "q = run_task 0 (pool2_tasks ! 0) (run_task 1 (pool2_tasks ! 1) p)"
  have "pool_step pool2_filled (take_task 0 pool2_filled)" "pool_step (take_task 0 pool2_filled) p"
    unfolding p_def by (rule pool_work_steps(1); simp add: pool2_defs)+
  moreover have "pool_step p (run_task 1 (pool2_tasks ! 1) p)" "pool_step (run_task 1 (pool2_tasks ! 1) p) q"
    unfolding p_def q_def by (rule pool_work_steps(2); simp add: pool2_defs)+
  moreover have "pool_step q (q\<lparr>tp_notifies := 1\<rparr>)" "pool_step (q\<lparr>tp_notifies := 1\<rparr>) (q\<lparr>tp_notifies := 1, tp_notifies := 0\<rparr>)"
    unfolding p_def q_def by (rule pool_work_steps(4); simp add: pool2_defs)+
  moreover have "q\<lparr>tp_notifies := 1, tp_notifies := 0\<rparr> = pool2_run"
    by (simp add: q_def p_def pool2_run_def)
  ultimately show ?thesis by (metis (no_types, lifting) rtranclp.simps)
qed

lemma pool2_stops: "pool_steps pool2_run pool2_gone"
proof -
  define p where "p = take_task 1 (take_task 0 pool2_stopped)"
  have "pool_step pool2_run (pool2_run\<lparr>tp_stop := True, tp_owner := Stopping\<rparr>)"
    by (rule ps_stop) (simp add: pool2_defs)
  moreover have "pool_step (pool2_run\<lparr>tp_stop := True, tp_owner := Stopping\<rparr>) pool2_stopped"
    using pool_work_steps(5) [of "pool2_run\<lparr>tp_stop := True, tp_owner := Stopping\<rparr>"] by (simp add: pool2_stopped_def)
  moreover have "pool_step pool2_stopped (take_task 0 pool2_stopped)" "pool_step (take_task 0 pool2_stopped) p"
    unfolding p_def by (rule pool_work_steps(1); simp add: pool2_defs)+
  moreover have "pool_step p (p\<lparr>tp_owner := Joining 1\<rparr>)"
    using pool_work_steps(6) [of p 0] by (simp add: p_def pool2_defs)
  moreover have "pool_step (p\<lparr>tp_owner := Joining 1\<rparr>) (p\<lparr>tp_owner := Joining (Suc 1)\<rparr>)"
    using pool_work_steps(6) [of "p\<lparr>tp_owner := Joining 1\<rparr>" 1] by (simp add: p_def pool2_defs)
  moreover have "pool_step (p\<lparr>tp_owner := Joining (Suc 1)\<rparr>) pool2_gone"
    using pool_work_steps(7) [of "p\<lparr>tp_owner := Joining (Suc 1)\<rparr>"] by (simp add: p_def pool2_defs)
  ultimately show ?thesis by (metis (no_types, lifting) rtranclp.simps)
qed

lemma pool2_end: "pool_steps (ThreadPool 2 4 (\<lambda>_. 7)) pool2_gone"
  using pool2_fill pool2_runs pool2_stops unfolding pool2_def by (meson rtranclp_trans)

lemma pool2_gone_fields:
  "tp_added pool2_gone = pool2_tasks" "tp_owner pool2_gone = Destroyed" "Exited \<in> set (tp_workers pool2_gone)"
  "map fst pool2_tasks = [0, 1]"
  by (simp_all add: pool2_defs)

theorem pool_takes_each_task_once_witness:
  "tp_taken pool2_gone @ tp_tasks pool2_gone = pool2_tasks \<and> tp_stop pool2_gone"
  using pool_takes_each_task_once [OF pool2_end] by (auto simp: pool2_gone_fields)

theorem pool_finishes_its_tasks_witness:
  "\<exists>q. pool_works pool2_filled q \<and> mset (tp_done q) = mset pool2_tasks \<and> tp_owner q = Using"
  using pool_finishes_its_tasks [OF pool2_fill [unfolded pool2_def]] by (fastforce simp: pool2_defs)

theorem pool_runs_like_a_loop_witness:
  "tp_objects pool2_gone 0 = 12 \<and> tp_objects pool2_gone 1 = 21 \<and> tp_objects pool2_gone 2 = 7"
  using pool_runs_like_a_loop [OF pool2_end pool2_gone_fields(2)] pool2_gone_fields
  by (simp add: pool2_tasks_def on_object_def)

end
