(* ===== verification/Video_Container.thy ===== *)
theory Video_Container
  imports Carrier_Factory "HOL-Library.Sublist"
begin

text \<open>
  \<^verbatim>\<open>src/carrier_files/container_handler.cc\<close> and the two carriers of the build with ffmpeg,
  \<^verbatim>\<open>carrier_file_mkv.cc\<close> and \<^verbatim>\<open>carrier_file_mpeg.cc\<close>: the bits lie in the time stamps of the packets of a video.
  What ffmpeg does is a parameter.
\<close>

section \<open>Packets and containers\<close>

text \<open>
  The fields of \<open>AVPacket\<close> the code looks at; the time stamps are the 64 bits of \<open>int64_t\<close>.
\<close>

record packet =
  pk_pts :: u64
  pk_dts :: u64
  pk_stream_index :: nat
  pk_data :: bytes

datatype stream_type = UnknownStream | VideoStream | AudioStream | SubtitlesStream

text \<open>
  The calls of ffmpeg: whether \<open>avformat_open_input\<close> opens the contents of a file, the codec types of its streams when
  \<open>avformat_find_stream_info\<close> finds them, the packets \<open>av_read_frame\<close> delivers; whether an output context of a name can be
  allocated, its \<open>i\<close>-th stream made, the parameters of a stream copied, the output opened, the header and a packet written; the
  contents of the file after a number of packets, with or without the trailer; and the packet
  \<open>av_packet_unref\<close> leaves.  \<open>v_ffprobe\<close> is the command run by \<open>system\<close>: its result and what it has printed.
\<close>

record venv =
  v_open :: "bytes \<Rightarrow> bool"
  v_streams :: "bytes \<Rightarrow> int list option"
  v_frames :: "bytes \<Rightarrow> packet list"
  v_alloc :: "string \<Rightarrow> bool"
  v_new_stream :: "nat \<Rightarrow> bool"
  v_copy_parameters :: "int \<Rightarrow> bool"
  v_create :: "string \<Rightarrow> bool"
  v_header :: "int list \<Rightarrow> bool"
  v_write :: "packet \<Rightarrow> bool"
  v_file :: "int list \<Rightarrow> packet list \<Rightarrow> bool \<Rightarrow> bytes"
  v_unref :: packet
  v_ffprobe :: "string \<Rightarrow> int \<times> string"

text \<open>
  \<open>ct_data\<close> owns the packets; \<open>stream_data_\<close> refers to them, as positions in \<open>ct_data\<close>, by stream type.  The input context is the
  codec types of its streams, or null.
\<close>

record container =
  ct_file_name :: string
  ct_input :: "int list option"
  ct_data :: "packet list"
  ct_stream_data :: "stream_type \<Rightarrow> nat list"
  ct_has_b_frames :: bool

definition ct_empty :: "string \<Rightarrow> container" where
  "ct_empty name = \<lparr>ct_file_name = name, ct_input = None, ct_data = [], ct_stream_data = (\<lambda>_. []), ct_has_b_frames = False\<rparr>"

text \<open>\<open>AVMEDIA_TYPE_VIDEO\<close>, \<open>AVMEDIA_TYPE_AUDIO\<close> and \<open>AVMEDIA_TYPE_SUBTITLE\<close> are 0, 1 and 3.\<close>

definition GetStreamType :: "int \<Rightarrow> stream_type" where
  "GetStreamType type' =
     (if type' = 0 then VideoStream else if type' = 1 then AudioStream
      else if type' = 3 then SubtitlesStream else UnknownStream)"

fun GetStreamStr :: "stream_type \<Rightarrow> string" where
  "GetStreamStr VideoStream = ''video''"
| "GetStreamStr AudioStream = ''audio''"
| "GetStreamStr SubtitlesStream = ''subtitles''"
| "GetStreamStr UnknownStream = ''unknown''"

text \<open>\<open>Init\<close> on the contents of the file, \<open>None\<close> when there is none.\<close>

definition CT_Init :: "venv \<Rightarrow> bytes option \<Rightarrow> container \<Rightarrow> container res" where
  "CT_Init V content ct =
     (case content of
        None \<Rightarrow> Inl (IoError (ct_file_name ct))
      | Some bs \<Rightarrow>
          if \<not> v_open V bs then Inl (IoError (ct_file_name ct))
          else case v_streams V bs of
              None \<Rightarrow> Inl (ParseError (ct_file_name ct) ''Could not find stream info'')
            | Some types \<Rightarrow> Inr (ct\<lparr>ct_input := Some types\<rparr>))"

text \<open>\<open>std::string::find\<close> of a fixed text.\<close>

definition contains_text :: "string \<Rightarrow> string \<Rightarrow> bool" where
  "contains_text t s \<longleftrightarrow> list_ex (prefix t) (suffixes s)"

definition ffprobe_command :: "stego_config \<Rightarrow> string \<Rightarrow> string" where
  "ffprobe_command sc name =
     sc_ffprobe_path sc @ '' -show_frames -read_intervals '' @ [CHR 0x22] @ ''%+#30'' @ [CHR 0x22] @ '' '' @ name @ '' > out.txt''"

definition BFrameDetection :: "venv \<Rightarrow> stego_config \<Rightarrow> container \<Rightarrow> container \<times> bool" where
  "BFrameDetection V sc ct =
     (if sc_ffprobe_path sc \<noteq> []
      then case v_ffprobe V (ffprobe_command sc (ct_file_name ct)) of
          (r, out) \<Rightarrow> if r = 0 then (ct\<lparr>ct_has_b_frames := contains_text ''pict_type=B'' out\<rparr>, True) else (ct, False)
      else (ct, False))"

text \<open>\<open>std::abs(pts - dts)\<close> in \<open>int64_t\<close>: the difference must be representable, and its absolute value as well.\<close>

definition pts_distance :: "packet \<Rightarrow> int res" where
  "pts_distance p =
     (let d = sint (pk_pts p) - sint (pk_dts p) in if \<bar>d\<bar> < 2 ^ 63 then Inr \<bar>d\<bar> else Inl Undefined)"

text \<open>The loop over the packets; \<open>guess\<close> says that ffprobe has not decided about B frames.\<close>

fun load_packets :: "bool \<Rightarrow> packet list \<Rightarrow> container \<Rightarrow> container res" where
  "load_packets guess [] ct = Inr ct"
| "load_packets guess (p # ps) ct =
     (case ct_input ct of
        None \<Rightarrow> Inl Undefined
      | Some types \<Rightarrow>
          if \<not> pk_stream_index p < length types then Inl Undefined
          else let type' = GetStreamType (types ! pk_stream_index p) in
            bindR (if guess \<and> type' = VideoStream then mapR (\<lambda>d. 2 \<le> d) (pts_distance p) else Inr False) (\<lambda>b.
            load_packets guess ps
              (ct\<lparr>ct_has_b_frames := ct_has_b_frames ct \<or> b, ct_data := ct_data ct @ [p],
                  ct_stream_data := (ct_stream_data ct)(type' := ct_stream_data ct type' @ [length (ct_data ct)])\<rparr>)))"

definition CT_Load :: "venv \<Rightarrow> stego_config \<Rightarrow> bytes option \<Rightarrow> container \<Rightarrow> container res" where
  "CT_Load V sc content ct =
     (case BFrameDetection V sc ct of
        (ct, r) \<Rightarrow>
          (case ct_input ct of
             None \<Rightarrow> Inl Undefined
           | Some types \<Rightarrow>
               load_packets (sc_ffprobe_path sc = [] \<or> \<not> r) (case content of None \<Rightarrow> [] | Some bs \<Rightarrow> v_frames V bs) ct))"

definition ContainerHandler :: "venv \<Rightarrow> bytes option \<Rightarrow> string \<Rightarrow> container res" where
  "ContainerHandler V content name = CT_Init V content (ct_empty name)"

definition SetFileName :: "string \<Rightarrow> container \<Rightarrow> container" where
  "SetFileName name ct = ct\<lparr>ct_file_name := name\<rparr>"

section \<open>Writing the container\<close>

type_synonym 'a tio = "(container \<times> files, 'a) meth"

definition put_output :: "bytes \<Rightarrow> unit tio" where
  "put_output bs = modifyM (\<lambda>(ct, fs). (ct, fs(ct_file_name ct \<mapsto> bs)))"

text \<open>The loop that writes the packets: each is given back after it was written.\<close>

fun write_packets :: "venv \<Rightarrow> int list \<Rightarrow> nat list \<Rightarrow> packet list \<Rightarrow> unit tio" where
  "write_packets V types [] sent = returnM ()"
| "write_packets V types (i # is) sent =
     bindM (getM (\<lambda>(ct, fs). ct_data ct ! i)) (\<lambda>p.
     if \<not> v_write V p then bindM (getM (\<lambda>(ct, fs). ct_file_name ct)) (\<lambda>name. throwM (IoError name))
     else seqM (put_output (v_file V types (sent @ [p]) False))
         (seqM (modifyM (\<lambda>(ct, fs). (ct\<lparr>ct_data := (ct_data ct)[i := v_unref V]\<rparr>, fs)))
               (write_packets V types is (sent @ [p]))))"

definition CT_Close :: "unit tio" where
  "CT_Close = modifyM (\<lambda>(ct, fs). (ct\<lparr>ct_input := None\<rparr>, fs))"

text \<open>
  The loop that makes the streams of the output.  The test after \<open>avformat_new_stream\<close> is on the context, not on the
  stream: a null pointer it returned is followed.
\<close>

fun add_streams :: "venv \<Rightarrow> string \<Rightarrow> nat \<Rightarrow> int list \<Rightarrow> unit res" where
  "add_streams V name i [] = Inr ()"
| "add_streams V name i (type' # types) =
     (if \<not> v_new_stream V i then Inl Undefined
      else if \<not> v_copy_parameters V type' then Inl (IoError name)
      else add_streams V name (Suc i) types)"

definition CT_Save :: "venv \<Rightarrow> unit tio" where
  "CT_Save V =
     bindM (getM fst) (\<lambda>ct. let name = ct_file_name ct in
     if \<not> v_alloc V name then throwM AllocError
     else case ct_input ct of
         None \<Rightarrow> throwM Undefined
       | Some types \<Rightarrow>
           seqM (askM (\<lambda>s. add_streams V name 0 types))
          (if \<not> v_create V name then throwM (IoError name)
           else seqM (put_output [])
               (if \<not> v_header V types then throwM (IoError name)
                else seqM (put_output (v_file V types [] False))
                    (seqM (write_packets V types [0..<length (ct_data ct)] [])
                    (seqM (put_output (v_file V types (ct_data ct) True))
                          CT_Close)))))"

section \<open>The lowest bits of time stamps\<close>

text \<open>\<open>buffer.Resize(raw_capacity_ * 8); buffer.Clear();\<close> on a new buffer.\<close>

definition video_buffer :: "cenv \<Rightarrow> u64 \<Rightarrow> mbuf res" where
  "video_buffer C raw_capacity =
     bindR (MB_Resize (e_garbage C) (raw_capacity * 8) MB_new) (\<lambda>(buffer, freed). Inr (MB_Clear buffer))"

text \<open>\<open>ReadByte\<close> with the offset it changes; the result says whether there is room for another byte.\<close>

definition ReadByte :: "packet \<Rightarrow> mbuf \<Rightarrow> u64 \<Rightarrow> (mbuf \<times> u64 \<times> bool) res" where
  "ReadByte p buffer offset =
     bindR (MB_Write buffer offset (Some [ucast (pk_pts p AND 0xFF)]) 1) (\<lambda>buffer.
     Inr (buffer, offset + 1, offset + 1 \<noteq> mb_size buffer))"

definition set_lsb :: "u64 \<Rightarrow> u8 \<Rightarrow> u64" where
  "set_lsb pts v = (pts AND NOT 1) OR ucast (v AND 1)"

definition WriteByte :: "packet \<Rightarrow> mbuf \<Rightarrow> u64 \<Rightarrow> bool \<Rightarrow> (packet \<times> u64 \<times> bool) res" where
  "WriteByte p buffer offset update_dts =
     bindR (MB_index buffer offset) (\<lambda>v.
     let p = p\<lparr>pk_pts := set_lsb (pk_pts p) v\<rparr>;
         p = (if update_dts then p\<lparr>pk_dts := pk_pts p\<rparr> else p)
     in Inr (p, offset + 1, offset + 1 \<noteq> mb_size buffer))"

definition ModifyLSB :: "u64 \<Rightarrow> u64 \<Rightarrow> u64" where
  "ModifyLSB v lsb = (v AND NOT 1) OR lsb"

definition GetTestValues :: "packet \<Rightarrow> u64 \<times> u64 \<times> u64" where
  "GetTestValues p = (ModifyLSB (pk_pts p) 0, ModifyLSB (pk_pts p) 1, pk_dts p)"

text \<open>A packet of a stream with B frames is used when neither value puts it before its decoding time, as unsigned numbers.\<close>

definition applicable :: "packet \<Rightarrow> bool" where
  "applicable p = (case GetTestValues p of (zero_pts, one_pts, dts) \<Rightarrow> zero_pts \<ge> dts \<and> one_pts \<ge> dts)"

section \<open>MKV\<close>

text \<open>The loop visits the keys of a \<open>std::map\<close>, in the order of their values.\<close>

fun stream_value :: "stream_type \<Rightarrow> nat" where
  "stream_value UnknownStream = 0"
| "stream_value VideoStream = 1"
| "stream_value AudioStream = 2"
| "stream_value SubtitlesStream = 3"

lemma stream_value_inject: "stream_value a = stream_value b \<longleftrightarrow> a = b"
  by (cases a; cases b) simp_all

instantiation stream_type :: linorder
begin

definition less_eq_stream_type :: "stream_type \<Rightarrow> stream_type \<Rightarrow> bool" where
  "less_eq_stream_type a b \<longleftrightarrow> stream_value a \<le> stream_value b"

definition less_stream_type :: "stream_type \<Rightarrow> stream_type \<Rightarrow> bool" where
  "less_stream_type a b \<longleftrightarrow> stream_value a < stream_value b"

instance
  by standard (auto simp: less_eq_stream_type_def less_stream_type_def stream_value_inject)

end

definition stream_types :: "stream_type list" where
  "stream_types = [UnknownStream, VideoStream, AudioStream, SubtitlesStream]"

lemma stream_types_keys: "stream_types = sorted_list_of_set UNIV"
proof (rule sorted_distinct_set_unique)
  have "t \<in> set stream_types" for t by (cases t) (simp_all add: stream_types_def)
  then have "set stream_types = UNIV" by auto
  then show "set stream_types = set (sorted_list_of_set (UNIV :: stream_type set))"
    using finite_set [of stream_types] by simp
qed (simp_all add: stream_types_def less_eq_stream_type_def)

definition MKV_CalculateCapacity :: "container \<Rightarrow> u64" where
  "MKV_CalculateCapacity ct = fold (\<lambda>t n. n + word_of_nat (length (ct_stream_data ct t))) stream_types 0 div 8"

fun mkv_read :: "packet list \<Rightarrow> mbuf \<Rightarrow> u64 \<Rightarrow> mbuf res" where
  "mkv_read [] buffer offset = Inr buffer"
| "mkv_read (p # ps) buffer offset =
     bindR (ReadByte p buffer offset) (\<lambda>(buffer, offset, go_on). if go_on then mkv_read ps buffer offset else Inr buffer)"

definition MKV_LoadBuffer :: "cenv \<Rightarrow> u64 \<Rightarrow> container \<Rightarrow> mbuf res" where
  "MKV_LoadBuffer C raw_capacity ct =
     bindR (video_buffer C raw_capacity) (\<lambda>buffer. mkv_read (ct_data ct) buffer 0)"

text \<open>A packet that would be shown before it is decoded is decoded earlier, as signed numbers.\<close>

definition mkv_write :: "packet \<Rightarrow> u8 \<Rightarrow> packet" where
  "mkv_write p v =
     (let p = p\<lparr>pk_pts := set_lsb (pk_pts p) v\<rparr>
      in if sint (pk_pts p) < sint (pk_dts p) then p\<lparr>pk_dts := pk_pts p\<rparr> else p)"

fun mkv_put :: "mbuf \<Rightarrow> packet list \<Rightarrow> u64 \<Rightarrow> packet list \<times> unit res" where
  "mkv_put buffer [] offset = ([], Inr ())"
| "mkv_put buffer (p # ps) offset =
     (case MB_index buffer offset of
        Inl e \<Rightarrow> (p # ps, Inl e)
      | Inr v \<Rightarrow> if offset + 1 = mb_size buffer then (mkv_write p v # ps, Inr ())
                 else (case mkv_put buffer ps (offset + 1) of (ps', r) \<Rightarrow> (mkv_write p v # ps', r)))"

definition MKV_SaveBuffer :: "venv \<Rightarrow> mbuf \<Rightarrow> unit tio" where
  "MKV_SaveBuffer V buffer =
     seqM (\<lambda>(ct, fs). case mkv_put buffer (ct_data ct) 0 of (ps, r) \<Rightarrow> ((ct\<lparr>ct_data := ps\<rparr>, fs), r)) (CT_Save V)"

section \<open>MPEG\<close>

definition MPEG_CalculateCapacity :: "container \<Rightarrow> u64" where
  "MPEG_CalculateCapacity ct =
     (let video = ct_stream_data ct VideoStream; audio = ct_stream_data ct AudioStream;
          n = (if ct_has_b_frames ct
               then fold (\<lambda>i n. if applicable (ct_data ct ! i) then n + 1 else n) video 0
               else word_of_nat (length video))
      in (n + word_of_nat (length audio)) div 8)"

text \<open>
  The loops over the packets of one stream type, given as positions; \<open>filtered\<close> says that packets that are not
  applicable are left out.  A loop ends when the byte after the last one would not fit.
\<close>

fun mpeg_read :: "packet list \<Rightarrow> bool \<Rightarrow> nat list \<Rightarrow> mbuf \<times> u64 \<Rightarrow> (mbuf \<times> u64) res" where
  "mpeg_read ps filtered [] st = Inr st"
| "mpeg_read ps filtered (i # is) (buffer, offset) =
     (if filtered \<and> \<not> applicable (ps ! i) then mpeg_read ps filtered is (buffer, offset)
      else bindR (ReadByte (ps ! i) buffer offset) (\<lambda>(buffer, offset, go_on).
           if go_on then mpeg_read ps filtered is (buffer, offset) else Inr (buffer, offset)))"

definition MPEG_LoadBuffer :: "cenv \<Rightarrow> u64 \<Rightarrow> container \<Rightarrow> mbuf res" where
  "MPEG_LoadBuffer C raw_capacity ct =
     bindR (video_buffer C raw_capacity) (\<lambda>buffer.
     bindR (mpeg_read (ct_data ct) (ct_has_b_frames ct) (ct_stream_data ct VideoStream) (buffer, 0)) (\<lambda>st.
     bindR (mpeg_read (ct_data ct) False (ct_stream_data ct AudioStream) st) (\<lambda>(buffer, offset). Inr buffer)))"

fun mpeg_put :: "mbuf \<Rightarrow> bool \<Rightarrow> bool \<Rightarrow> nat list \<Rightarrow> packet list \<times> u64 \<Rightarrow> (packet list \<times> u64) \<times> unit res" where
  "mpeg_put buffer filtered update_dts [] st = (st, Inr ())"
| "mpeg_put buffer filtered update_dts (i # is) (ps, offset) =
     (if filtered \<and> \<not> applicable (ps ! i) then mpeg_put buffer filtered update_dts is (ps, offset)
      else case WriteByte (ps ! i) buffer offset update_dts of
          Inl e \<Rightarrow> ((ps, offset), Inl e)
        | Inr (p, offset, go_on) \<Rightarrow>
            if go_on then mpeg_put buffer filtered update_dts is (ps[i := p], offset) else ((ps[i := p], offset), Inr ()))"

definition MPEG_SaveBuffer :: "venv \<Rightarrow> mbuf \<Rightarrow> unit tio" where
  "MPEG_SaveBuffer V buffer =
     seqM (\<lambda>(ct, fs).
        case mpeg_put buffer (ct_has_b_frames ct) (\<not> ct_has_b_frames ct) (ct_stream_data ct VideoStream) (ct_data ct, 0) of
          ((ps, offset), Inl e) \<Rightarrow> ((ct\<lparr>ct_data := ps\<rparr>, fs), Inl e)
        | ((ps, offset), Inr u) \<Rightarrow>
            (case mpeg_put buffer False True (ct_stream_data ct AudioStream) (ps, offset) of
               ((ps, offset), r) \<Rightarrow> ((ct\<lparr>ct_data := ps\<rparr>, fs), r)))
       (CT_Save V)"

section \<open>The carriers\<close>

text \<open>The state of a video carrier: that of every carrier, and its container.\<close>

type_synonym 'a vio = "((carrier \<times> world) \<times> container, 'a) meth"

definition on_cf :: "'a cio \<Rightarrow> 'a vio" where
  "on_cf f s = (case f (fst s) of (cw, r) \<Rightarrow> ((cw, snd s), r))"

definition on_ct :: "'a tio \<Rightarrow> 'a vio" where
  "on_ct f s =
     (case f (snd s, w_files (snd (fst s))) of ((ct, fs), r) \<Rightarrow> (((fst (fst s), (snd (fst s))\<lparr>w_files := fs\<rparr>), ct), r))"

datatype video_class = MKV | MPEG

definition CalculateCapacity :: "video_class \<Rightarrow> container \<Rightarrow> u64" where
  "CalculateCapacity k = (case k of MKV \<Rightarrow> MKV_CalculateCapacity | MPEG \<Rightarrow> MPEG_CalculateCapacity)"

definition LoadBuffer :: "video_class \<Rightarrow> cenv \<Rightarrow> u64 \<Rightarrow> container \<Rightarrow> mbuf res" where
  "LoadBuffer k = (case k of MKV \<Rightarrow> MKV_LoadBuffer | MPEG \<Rightarrow> MPEG_LoadBuffer)"

definition SaveBuffer :: "video_class \<Rightarrow> venv \<Rightarrow> mbuf \<Rightarrow> unit tio" where
  "SaveBuffer k = (case k of MKV \<Rightarrow> MKV_SaveBuffer | MPEG \<Rightarrow> MPEG_SaveBuffer)"

text \<open>The constructors have the same text; the class given to \<open>CarrierFile\<close> is not looked at.\<close>

definition Video_new :: "video_class \<Rightarrow> venv \<Rightarrow> stego_config \<Rightarrow> files \<Rightarrow> file_obj \<Rightarrow> encoder option \<Rightarrow> permutation option \<Rightarrow>
    (carrier \<times> container) res" where
  "Video_new k V sc fs file' encoder permutation =
     (let name = GetAbsolutePath file' in
      bindR (ContainerHandler V (fs name) name) (\<lambda>ct.
      bindR (CT_Load V sc (fs name) ct) (\<lambda>ct.
      Inr ((CarrierFile PNG file' encoder permutation)\<lparr>cf_raw_capacity := CalculateCapacity k ct\<rparr>, ct))))"

text \<open>So have \<open>LoadFile\<close> and \<open>SaveFile\<close>; neither looks at \<open>file_loaded_\<close>.\<close>

definition Video_prepare :: "video_class \<Rightarrow> cenv \<Rightarrow> (mbuf \<times> u64) vio" where
  "Video_prepare k C =
     bindM (getM (\<lambda>s. cf_raw_capacity (fst (fst s)))) (\<lambda>raw.
     bindM (askM (\<lambda>s. LoadBuffer k C raw (snd s))) (\<lambda>data_buffer.
     seqM (on_cf (cf_reset_buffer C raw))
    (seqM (on_cf (cf_init_permutation C (raw * 8)))
    (bindM (on_cf cf_bits_to_modify) (\<lambda>bits.
     seqM (on_cf (cf_gather (\<lambda>i. MB_index data_buffer (word_of_nat i)) (unat bits)))
          (returnM (data_buffer, bits)))))))"

definition Video_LoadFile :: "video_class \<Rightarrow> cenv \<Rightarrow> unit vio" where
  "Video_LoadFile k C = seqM (Video_prepare k C) (seqM (on_cf (CF_ExtractBufferUsingEncoder C)) (returnM ()))"

definition Video_SaveFile :: "video_class \<Rightarrow> cenv \<Rightarrow> venv \<Rightarrow> unit vio" where
  "Video_SaveFile k C V =
     bindM (Video_prepare k C) (\<lambda>(data_buffer, bits).
     seqM (on_cf (CF_EmbedBufferUsingEncoder C))
    (bindM (askM (\<lambda>s. mb_scatter (fst (fst s)) (unat bits) data_buffer)) (\<lambda>data_buffer.
     on_ct (SaveBuffer k V data_buffer))))"

text \<open>The branches of the factory in this build.\<close>

definition CreateVideoCarrier :: "venv \<Rightarrow> stego_config \<Rightarrow> files \<Rightarrow> file_obj \<Rightarrow> (video_class \<times> carrier \<times> container) option res" where
  "CreateVideoCarrier V sc fs file' =
     (let ext = GetExtension file' True; perm = Some (CreatePermutation sc ext) in
      bindR (if ext = ''mkv'' then mapR (\<lambda>(c, ct). Some (MKV, c, ct)) (Video_new MKV V sc fs file' None perm)
             else if ext = ''mp4'' then mapR (\<lambda>(c, ct). Some (MPEG, c, ct)) (Video_new MPEG V sc fs file' None perm)
             else Inr None) (\<lambda>r.
      case r of
        None \<Rightarrow> Inr None
      | Some (k, c, ct) \<Rightarrow> if cf_raw_capacity c < 1 then Inr None else Inr (Some (k, c, ct))))"

end
