(* ===== verification/Video_Carriers.thy ===== *)
theory Video_Carriers
  imports Video_Container Carrier_Roundtrip
begin

text \<open>
  The carriers of the build with ffmpeg: what the loops of \<open>LoadBuffer\<close> and \<open>SaveBuffer\<close> do to the time stamps, when the buffer
  of an MPEG file is left, what \<open>Save\<close> of the container leaves behind, and the round trip over the file.  The lowest bits are those of a
  memory buffer, so the halves of the round trip are the ones proved for \<open>lsb_cover\<close> and interpreted for bitmaps.
\<close>

section \<open>Lowest bits of time stamps\<close>

definition pts_byte :: "packet \<Rightarrow> u8" where
  "pts_byte p = ucast (pk_pts p AND 0xFF)"

lemma and_0xFF: "x AND 0xFF = take_bit 8 (x :: u64)"
  by (simp add: take_bit_eq_mask mask_eq_exp_minus_1)

lemma bit_pts_byte: "k < 8 \<Longrightarrow> bit (pts_byte p) k = bit (pk_pts p) k"
  by (simp add: pts_byte_def bit_ucast_iff and_0xFF bit_take_bit_iff)

lemma bit_set_lsb: "bit (set_lsb x v) k = (if k = 0 then bit v 0 else bit x k)"
  by (cases "k < 64")
     (auto simp: set_lsb_def bit_or_iff bit_and_iff bit_not_iff bit_ucast_iff bit_1_iff dest: bit_imp_le_length)

section \<open>Reading\<close>

lemma ReadByte_run:
  assumes "mb_ok b" "unat off < unat (mb_size b)"
  shows "\<exists>b'. ReadByte p b off = Inr (b', off + 1, off + 1 \<noteq> mb_size b) \<and> mb_ok b' \<and> mb_size b' = mb_size b \<and>
              mb_bytes b' = (mb_bytes b)[unat off := pts_byte p]"
proof -
  obtain b' where b': "MB_Write b off (Some [pts_byte p]) 1 = Inr b'" "mb_ok b'" "mb_size b' = mb_size b"
      "mb_bytes b' = copy_at (unat off) [pts_byte p] (mb_bytes b)"
    using MB_Write_correct [OF assms(1), of off 1 "[pts_byte p]"] assms(2) by auto
  moreover have "copy_at (unat off) [pts_byte p] (mb_bytes b) = (mb_bytes b)[unat off := pts_byte p]"
    using assms length_mb_bytes by (simp add: copy_at_def upd_conv_take_nth_drop)
  ultimately show ?thesis by (simp add: ReadByte_def pts_byte_def res_simps)
qed

lemma offset_next:
  assumes "unat off < unat (n :: u64)"
  shows "unat (off + 1) = Suc (unat off)" "off + 1 = n \<longleftrightarrow> Suc (unat off) = unat n"
proof -
  have "unat off + 1 < 2 ^ 64" using assms unat_u64_less [of n] unfolding power_numeral by simp
  then show n: "unat (off + 1) = Suc (unat off)" by (simp add: unat_simps)
  show "off + 1 = n \<longleftrightarrow> Suc (unat off) = unat n" by (simp add: word_eq_unat n)
qed

text \<open>Leaving out packets while reading is reading without them.\<close>

lemma mpeg_read_filter:
  "mpeg_read ps filtered is st = mpeg_read ps False (filter (\<lambda>i. filtered \<longrightarrow> applicable (ps ! i)) is) st"
  by (induction "is" arbitrary: st) (auto split: prod.splits intro!: bindR_cong)

lemma mkv_read_mpeg: "mkv_read (map ((!) ps) is) b off = mapR fst (mpeg_read ps False is (b, off))"
proof (induction "is" arbitrary: b off)
  case (Cons i "is")
  then show ?case by (cases "ReadByte (ps ! i) b off") (auto simp: mapR_def split: prod.splits)
qed (simp add: mapR_def)

lemma mpeg_read_run:
  assumes "mb_ok b" "unat off < unat (mb_size b) \<or> is = []" "unat off \<le> unat (mb_size b)"
  shows "\<exists>b' off'. mpeg_read ps False is (b, off) = Inr (b', off') \<and> mb_ok b' \<and> mb_size b' = mb_size b \<and>
           unat off' = min (unat (mb_size b)) (unat off + length is) \<and>
           mb_bytes b' = take (unat off) (mb_bytes b) @
             take (unat (mb_size b) - unat off) (map (\<lambda>i. pts_byte (ps ! i)) is) @ drop (unat off + length is) (mb_bytes b)"
  using assms
proof (induction "is" arbitrary: b off)
  case Nil
  then show ?case by simp
next
  case (Cons i "is")
  let ?N = "unat (mb_size b)" and ?v = "pts_byte (ps ! i)"
  have o: "unat off < ?N" using Cons.prems(2) by simp
  obtain b1 where b1: "ReadByte (ps ! i) b off = Inr (b1, off + 1, off + 1 \<noteq> mb_size b)" "mb_ok b1" "mb_size b1 = mb_size b"
      "mb_bytes b1 = (mb_bytes b)[unat off := ?v]"
    using ReadByte_run [OF Cons.prems(1) o] by blast
  note n = offset_next [OF o]
  have l: "length (mb_bytes b) = ?N" using length_mb_bytes [OF Cons.prems(1)] .
  have t: "take (Suc (unat off)) (mb_bytes b1) = take (unat off) (mb_bytes b) @ [?v]"
    using o l by (simp add: b1(4) take_Suc_conv_app_nth)
  have d: "drop (Suc (unat off) + k) (mb_bytes b1) = drop (Suc (unat off) + k) (mb_bytes b)" for k
    by (simp add: b1(4))
  show ?case
  proof (cases "Suc (unat off) = ?N")
    case True
    then have "mpeg_read ps False (i # is) (b, off) = Inr (b1, off + 1)" using b1(1) n(2) by (simp add: res_simps)
    moreover have "mb_bytes b1 = take (unat off) (mb_bytes b) @ [?v]"
      using t True length_mb_bytes [OF b1(2)] b1(3) by simp
    moreover have "drop (Suc (unat off)) (mb_bytes b) = []" "?N - unat off = 1" using l True by simp_all
    ultimately show ?thesis using b1(2,3) n(1) True l by (auto simp: min_def)
  next
    case False
    then have m: "unat (off + 1) < unat (mb_size b1)" using n(1) o b1(3) by simp
    then have m': "unat (off + 1) \<le> unat (mb_size b1)" by simp
    obtain b' off' where r: "mpeg_read ps False is (b1, off + 1) = Inr (b', off')" "mb_ok b'" "mb_size b' = mb_size b1"
        "unat off' = min (unat (mb_size b1)) (unat (off + 1) + length is)"
        "mb_bytes b' = take (unat (off + 1)) (mb_bytes b1) @
           take (unat (mb_size b1) - unat (off + 1)) (map (\<lambda>i. pts_byte (ps ! i)) is) @ drop (unat (off + 1) + length is) (mb_bytes b1)"
      using Cons.IH [OF b1(2) disjI1 [OF m] m'] by blast
    have "?N - unat off = Suc (?N - Suc (unat off))" using o by simp
    then have "mb_bytes b' = take (unat off) (mb_bytes b) @ take (?N - unat off) (map (\<lambda>i. pts_byte (ps ! i)) (i # is)) @
        drop (unat off + length (i # is)) (mb_bytes b)"
      using r(5) t d [of "length is"] by (simp add: n(1) b1(3))
    moreover have "mpeg_read ps False (i # is) (b, off) = Inr (b', off')"
      using b1(1) n(2) False r(1) by (simp add: res_simps)
    moreover have "unat off' = min ?N (unat off + length (i # is))" using r(4) by (simp add: n(1) b1(3))
    ultimately show ?thesis using r(2) r(3) [unfolded b1(3)] by blast
  qed
qed

text \<open>A full buffer takes no further byte.\<close>

lemma mpeg_read_full:
  assumes "unat (mb_size b) + 1 < 2 ^ 64"
  shows "mpeg_read ps False (i # is) (b, mb_size b) = Inl OutOfRange"
proof -
  have "mb_size b < mb_size b + 1" using assms by (simp add: word_less_nat_alt unat_simps)
  then show ?thesis by (simp add: ReadByte_def MB_Write_def res_simps)
qed

text \<open>The buffer is new, so \<open>Resize\<close> finds nothing to overwrite.\<close>

definition blank_buffer :: "u64 \<Rightarrow> mbuf" where
  "blank_buffer raw = MB_Clear (mb_resized (raw * 8) MB_new)"

lemma video_buffer_run [simp]: "video_buffer C raw = Inr (blank_buffer raw)"
  by (simp add: video_buffer_def blank_buffer_def MB_Resize_new)

lemma blank_buffer_ok:
  "mb_ok (blank_buffer raw)" "mb_size (blank_buffer raw) = raw * 8"
  "mb_bytes (blank_buffer raw) = replicate (unat (raw * 8)) 0"
  using MB_reset [of MB_new "raw * 8"] by (simp_all add: blank_buffer_def)


section \<open>The packets that carry bits\<close>

text \<open>
  The positions of the packets whose time stamps carry the bits, in their order; and the packets of the video stream
  among them.
\<close>

definition video_positions :: "container \<Rightarrow> nat list" where
  "video_positions ct = filter (\<lambda>i. ct_has_b_frames ct \<longrightarrow> applicable (ct_data ct ! i)) (ct_stream_data ct VideoStream)"

definition bit_positions :: "video_class \<Rightarrow> container \<Rightarrow> nat list" where
  "bit_positions k ct =
     (case k of MKV \<Rightarrow> [0..<length (ct_data ct)] | MPEG \<Rightarrow> video_positions ct @ ct_stream_data ct AudioStream)"

text \<open>The packets of the video stream do not fill the buffer when there are packets of sound after them.\<close>

definition sound_fits :: "video_class \<Rightarrow> u64 \<Rightarrow> container \<Rightarrow> bool" where
  "sound_fits k raw ct \<longleftrightarrow> k = MKV \<or> ct_stream_data ct AudioStream = [] \<or> length (video_positions ct) < 8 * unat raw"

lemma times_8: "8 * unat (r :: u64) < 2 ^ 64 \<Longrightarrow> unat (r * 8) = 8 * unat r"
  by (simp add: unat_simps)

lemma LoadBuffer_MPEG:
  "LoadBuffer MPEG C raw ct =
     bindR (mpeg_read (ct_data ct) False (video_positions ct) (blank_buffer raw, 0)) (\<lambda>st.
     bindR (mpeg_read (ct_data ct) False (ct_stream_data ct AudioStream) st) (\<lambda>(buffer, offset). Inr buffer))"
  unfolding LoadBuffer_def MPEG_LoadBuffer_def video_positions_def
  using mpeg_read_filter [of "ct_data ct" "ct_has_b_frames ct"] by simp

lemma LoadBuffer_MKV:
  "LoadBuffer MKV C raw ct = mapR fst (mpeg_read (ct_data ct) False [0..<length (ct_data ct)] (blank_buffer raw, 0))"
  using mkv_read_mpeg [of "ct_data ct" "[0..<length (ct_data ct)]" "blank_buffer raw" 0]
  by (simp add: LoadBuffer_def MKV_LoadBuffer_def map_nth)

lemma LoadBuffer_run:
  assumes "0 < unat raw" "8 * unat raw < 2 ^ 64" "8 * unat raw \<le> length (bit_positions k ct)" "sound_fits k raw ct"
  shows "\<exists>b. LoadBuffer k C raw ct = Inr b \<and> mb_ok b \<and> mb_size b = raw * 8 \<and>
             mb_bytes b = map (\<lambda>i. pts_byte (ct_data ct ! i)) (take (8 * unat raw) (bit_positions k ct))"
proof -
  let ?b = "blank_buffer raw" and ?N = "8 * unat raw" and ?g = "\<lambda>i. pts_byte (ct_data ct ! i)"
  have N: "unat (mb_size ?b) = ?N" using blank_buffer_ok times_8 [OF assms(2)] by simp
  have pos: "unat 0 < unat (mb_size ?b)" using assms(1) N by simp
  have z: "length (mb_bytes ?b) = ?N" using blank_buffer_ok length_mb_bytes [of ?b] N by simp
  have read: "\<exists>b' off'. mpeg_read (ct_data ct) False is (?b, 0) = Inr (b', off') \<and> mb_ok b' \<and> mb_size b' = mb_size ?b \<and>
        unat off' = min ?N (length is) \<and> mb_bytes b' = take ?N (map ?g is) @ drop (length is) (mb_bytes ?b)" for "is"
    using mpeg_read_run [OF blank_buffer_ok(1), of 0 raw "is" "ct_data ct"] pos N by simp
  show ?thesis
  proof (cases k)
    case MKV
    have l: "?N \<le> length [0..<length (ct_data ct)]" using assms(3) by (simp add: MKV bit_positions_def)
    obtain b' off' where r: "mpeg_read (ct_data ct) False [0..<length (ct_data ct)] (?b, 0) = Inr (b', off')" "mb_ok b'"
        "mb_size b' = mb_size ?b" "mb_bytes b' = take ?N (map ?g [0..<length (ct_data ct)]) @ drop (length [0..<length (ct_data ct)]) (mb_bytes ?b)"
      using read by blast
    have "LoadBuffer k C raw ct = Inr b'" using r(1) by (simp add: MKV LoadBuffer_MKV mapR_def)
    moreover have "mb_bytes b' = map ?g (take ?N (bit_positions k ct))"
      using r(4) l z by (simp add: MKV bit_positions_def take_map)
    ultimately show ?thesis using r(2,3) blank_buffer_ok(2) by metis
  next
    case MPEG
    let ?v = "video_positions ct" and ?a = "ct_stream_data ct AudioStream"
    obtain b1 o1 where r: "mpeg_read (ct_data ct) False ?v (?b, 0) = Inr (b1, o1)" "mb_ok b1" "mb_size b1 = mb_size ?b"
        "unat o1 = min ?N (length ?v)" "mb_bytes b1 = take ?N (map ?g ?v) @ drop (length ?v) (mb_bytes ?b)"
      using read by blast
    have l: "?N \<le> length ?v + length ?a" using assms(3) by (simp add: MPEG bit_positions_def)
    have c: "unat o1 < unat (mb_size b1) \<or> ?a = []" "unat o1 \<le> unat (mb_size b1)"
      using assms(4) r(3,4) N by (auto simp: sound_fits_def MPEG)
    obtain b2 o2 where s: "mpeg_read (ct_data ct) False ?a (b1, o1) = Inr (b2, o2)" "mb_ok b2" "mb_size b2 = mb_size b1"
        "mb_bytes b2 = take (unat o1) (mb_bytes b1) @ take (unat (mb_size b1) - unat o1) (map ?g ?a) @ drop (unat o1 + length ?a) (mb_bytes b1)"
      using mpeg_read_run [OF r(2) c, of "ct_data ct"] by blast
    have "mb_bytes b2 = map ?g (take ?N (?v @ ?a))"
    proof (cases "?N \<le> length ?v")
      case True
      with assms(4) l have "?a = []" by (auto simp: sound_fits_def MPEG)
      moreover have "mb_bytes b1 = map ?g (take ?N ?v)" using True r(5) z by (simp add: take_map)
      ultimately show ?thesis using s(4) True by simp
    next
      case False
      then have "unat o1 = length ?v" "take (length ?v) (mb_bytes b1) = map ?g ?v" using r(4,5) by simp_all
      moreover have "length (mb_bytes b1) = ?N" using r(2,3) N length_mb_bytes by metis
      ultimately show ?thesis using s(4) r(3) N False l by (simp add: take_map)
    qed
    then show ?thesis using r(1,3) s(1-3) blank_buffer_ok(2)
      by (auto simp: MPEG LoadBuffer_MPEG bit_positions_def res_simps)
  qed
qed

lemma CalculateCapacity_positions:
  "CalculateCapacity MPEG ct = word_of_nat (length (bit_positions MPEG ct)) div 8"
proof -
  have f: "fold (\<lambda>i n. if P i then n + 1 else n) is (m :: u64) = m + word_of_nat (length (filter P is))" for P "is" m
    by (induction "is" arbitrary: m) (simp_all add: algebra_simps)
  show ?thesis by (simp add: CalculateCapacity_def MPEG_CalculateCapacity_def bit_positions_def video_positions_def f Let_def)
qed

lemma capacity_div:
  "n < 2 ^ 64 \<Longrightarrow> unat (word_of_nat n div 8 :: u64) = n div 8"
  by (simp add: unat_div unat_simps)

lemma LoadBuffer_overflow:
  assumes "0 < unat raw" "8 * unat raw < 2 ^ 64" "\<not> sound_fits k raw ct"
  shows "LoadBuffer k C raw ct = Inl OutOfRange"
proof -
  let ?b = "blank_buffer raw" and ?N = "8 * unat raw" and ?v = "video_positions ct" and ?a = "ct_stream_data ct AudioStream"
  have k: "k = MPEG" "?a \<noteq> []" "?N \<le> length ?v" using assms(3) by (cases k; auto simp: sound_fits_def)+
  have N: "unat (mb_size ?b) = ?N" using blank_buffer_ok times_8 [OF assms(2)] by simp
  have pos: "unat 0 < unat (mb_size ?b)" using assms(1) N by simp
  obtain b1 o1 where r: "mpeg_read (ct_data ct) False ?v (?b, 0) = Inr (b1, o1)" "mb_size b1 = mb_size ?b" "unat o1 = ?N"
    using mpeg_read_run [OF blank_buffer_ok(1), of 0 raw ?v "ct_data ct"] pos N k(3) by auto
  have o: "o1 = mb_size b1" using r(2,3) N by (simp add: word_eq_unat)
  have "unat (mb_size b1) = ?N" using N r(2) by simp
  moreover have "?N + 1 < 2 ^ 64" using assms(2) by simp
  ultimately have "unat (mb_size b1) + 1 < 2 ^ 64" by simp
  then have "mpeg_read (ct_data ct) False ?a (b1, o1) = Inl OutOfRange"
    using mpeg_read_full [of b1 "ct_data ct"] k(2) o by (cases ?a) auto
  then show ?thesis using r(1) by (simp add: k(1) LoadBuffer_MPEG res_simps)
qed


section \<open>Writing\<close>

text \<open>What the loops make of a packet: \<open>MKV\<close> corrects the decoding time, \<open>MPEG\<close> sets it or keeps it.\<close>

definition mpeg_write :: "bool \<Rightarrow> packet \<Rightarrow> u8 \<Rightarrow> packet" where
  "mpeg_write update_dts p v =
     (let p = p\<lparr>pk_pts := set_lsb (pk_pts p) v\<rparr> in if update_dts then p\<lparr>pk_dts := pk_pts p\<rparr> else p)"

definition put_at :: "(packet \<Rightarrow> u8 \<Rightarrow> packet) \<Rightarrow> (nat \<times> u8) list \<Rightarrow> packet list \<Rightarrow> packet list" where
  "put_at f ivs ps = fold (\<lambda>(i, v) ps. ps[i := f (ps ! i) v]) ivs ps"

lemma length_put_at [simp]: "length (put_at f ivs ps) = length ps"
  unfolding put_at_def by (induction ivs arbitrary: ps) auto

lemma put_at_other: "i \<notin> fst ` set ivs \<Longrightarrow> put_at f ivs ps ! i = ps ! i"
  unfolding put_at_def by (induction ivs arbitrary: ps) auto

lemma put_at_hit:
  "distinct (map fst ivs) \<Longrightarrow> (i, v) \<in> set ivs \<Longrightarrow> i < length ps \<Longrightarrow> put_at f ivs ps ! i = f (ps ! i) v"
proof (induction ivs arbitrary: ps)
  case (Cons a ivs)
  obtain j x where a: "a = (j, x)" by (cases a)
  have u: "put_at f (a # ivs) ps = put_at f ivs (ps[j := f (ps ! j) x])" by (simp add: put_at_def a)
  show ?case
  proof (cases "i = j")
    case True
    then have "v = x" "i \<notin> fst ` set ivs" using Cons.prems(1,2) by (force simp: a)+
    then show ?thesis using True Cons.prems(3) by (simp add: u put_at_other)
  next
    case False
    then show ?thesis unfolding u using Cons.IH [of "ps[j := f (ps ! j) x]"] Cons.prems by (auto simp: a)
  qed
qed simp

lemma WriteByte_run:
  assumes "mb_ok b" "unat off < unat (mb_size b)"
  shows "WriteByte p b off upd = Inr (mpeg_write upd p (mb_bytes b ! unat off), off + 1, off + 1 \<noteq> mb_size b)"
  using assms by (simp add: WriteByte_def MB_index_correct res_simps mpeg_write_def Let_def)

text \<open>Whether a packet is applicable depends on nothing a loop changes at another position.\<close>

lemma mpeg_put_filter:
  assumes "distinct is"
  shows "mpeg_put b filtered upd is (ps, off) = mpeg_put b False upd (filter (\<lambda>i. filtered \<longrightarrow> applicable (ps ! i)) is) (ps, off)"
  using assms
proof (induction "is" arbitrary: ps off)
  case (Cons i "is")
  have f: "filter (\<lambda>j. filtered \<longrightarrow> applicable (ps[i := p] ! j)) is = filter (\<lambda>j. filtered \<longrightarrow> applicable (ps ! j)) is" for p
  proof (rule filter_cong [OF refl])
    fix j assume "j \<in> set is"
    then have "i \<noteq> j" using Cons.prems by auto
    then show "(filtered \<longrightarrow> applicable (ps[i := p] ! j)) = (filtered \<longrightarrow> applicable (ps ! j))" by simp
  qed
  have IH: "mpeg_put b filtered upd is (ps[i := p], off) =
      mpeg_put b False upd (filter (\<lambda>j. filtered \<longrightarrow> applicable (ps ! j)) is) (ps[i := p], off)" for p off
    using Cons.IH [of "ps[i := p]" off] Cons.prems by (simp only: f) simp
  show ?case
    using Cons.IH [of ps off] Cons.prems by (auto simp: IH split: sum.splits prod.splits)
qed simp

lemma mpeg_put_run:
  assumes "mb_ok b" "unat off < unat (mb_size b) \<or> is = []" "unat off \<le> unat (mb_size b)"
  shows "\<exists>off'. mpeg_put b False upd is (ps, off) = ((put_at (mpeg_write upd) (zip is (drop (unat off) (mb_bytes b))) ps, off'), Inr ()) \<and>
                unat off' = min (unat (mb_size b)) (unat off + length is)"
  using assms(2,3)
proof (induction "is" arbitrary: ps off)
  case Nil
  then show ?case by (simp add: put_at_def)
next
  case (Cons i "is")
  let ?N = "unat (mb_size b)"
  have o: "unat off < ?N" using Cons.prems by simp
  note n = offset_next [OF o] and w = WriteByte_run [OF assms(1) o]
  have l: "length (mb_bytes b) = ?N" using length_mb_bytes [OF assms(1)] .
  have d: "drop (unat off) (mb_bytes b) = mb_bytes b ! unat off # drop (Suc (unat off)) (mb_bytes b)"
    using o l by (simp add: Cons_nth_drop_Suc)
  let ?ps = "ps[i := mpeg_write upd (ps ! i) (mb_bytes b ! unat off)]"
  have p: "put_at (mpeg_write upd) (zip (i # is) (drop (unat off) (mb_bytes b))) ps =
      put_at (mpeg_write upd) (zip is (drop (Suc (unat off)) (mb_bytes b))) ?ps"
    by (simp add: d put_at_def)
  show ?case
  proof (cases "Suc (unat off) = ?N")
    case True
    then show ?thesis using n l unfolding p by (auto simp: w put_at_def min_def)
  next
    case False
    then have m: "unat (off + 1) < ?N" "unat (off + 1) \<le> ?N" using n(1) o by simp_all
    obtain off' where r: "mpeg_put b False upd is (?ps, off + 1) =
        ((put_at (mpeg_write upd) (zip is (drop (unat (off + 1)) (mb_bytes b))) ?ps, off'), Inr ())"
        "unat off' = min ?N (unat (off + 1) + length is)"
      using Cons.IH [OF disjI1 [OF m(1)] m(2), of ?ps] by blast
    then show ?thesis using n False unfolding p by (auto simp: w)
  qed
qed

lemma mkv_put_run:
  assumes "mb_ok b" "unat off < unat (mb_size b)"
  shows "mkv_put b ps off =
     (map (\<lambda>(p, v). mkv_write p v) (zip ps (drop (unat off) (mb_bytes b))) @ drop (unat (mb_size b) - unat off) ps, Inr ())"
  using assms(2)
proof (induction ps arbitrary: off)
  case (Cons p ps)
  let ?N = "unat (mb_size b)"
  note n = offset_next [OF Cons.prems]
  have l: "length (mb_bytes b) = ?N" using length_mb_bytes [OF assms(1)] .
  have d: "drop (unat off) (mb_bytes b) = mb_bytes b ! unat off # drop (Suc (unat off)) (mb_bytes b)"
    using Cons.prems l by (simp add: Cons_nth_drop_Suc)
  have i: "MB_index b off = Inr (mb_bytes b ! unat off)" using assms(1) Cons.prems by (simp add: MB_index_correct)
  have s: "?N - unat off = Suc (?N - Suc (unat off))" using Cons.prems by simp
  show ?case
  proof (cases "Suc (unat off) = ?N")
    case True
    then show ?thesis using n l s by (simp add: i d)
  next
    case False
    then have "unat (off + 1) < ?N" using n(1) Cons.prems by simp
    from Cons.IH [OF this] show ?thesis using n False by (simp add: i d s)
  qed
qed simp


lemma put_at_cases:
  assumes "distinct (map fst ivs)" "i < length ps"
  shows "put_at f ivs ps ! i = ps ! i \<or> (\<exists>v. put_at f ivs ps ! i = f (ps ! i) v)"
  using put_at_other [of i ivs f ps] put_at_hit [OF assms(1) _ assms(2), of _ f] by (cases "i \<in> fst ` set ivs") force+

text \<open>All of a packet but the lowest bit of its time stamp, and but its decoding time.\<close>

definition packet_high :: "packet \<Rightarrow> packet" where
  "packet_high p = p\<lparr>pk_pts := pk_pts p AND NOT 1, pk_dts := 0\<rparr>"

lemma set_lsb_high: "set_lsb x v AND NOT 1 = x AND NOT 1"
  by (rule bit_word_eqI) (auto simp: bit_and_iff bit_not_iff bit_set_lsb bit_1_iff)

lemma packet_writes [simp]:
  "pk_pts (mkv_write p v) = set_lsb (pk_pts p) v" "pk_pts (mpeg_write u p v) = set_lsb (pk_pts p) v"
  "packet_high (mkv_write p v) = packet_high p" "packet_high (mpeg_write u p v) = packet_high p"
  "pk_dts (mpeg_write False p v) = pk_dts p" "pk_dts (mpeg_write True p v) = set_lsb (pk_pts p) v"
  by (simp_all add: mkv_write_def mpeg_write_def packet_high_def Let_def set_lsb_high [simplified])

lemma dts_of_writes:
  "pk_dts (mkv_write p v) = pk_dts p \<or> pk_dts (mkv_write p v) = set_lsb (pk_pts p) v"
  "pk_dts (mpeg_write u p v) = pk_dts p \<or> pk_dts (mpeg_write u p v) = set_lsb (pk_pts p) v"
  by (simp_all add: mkv_write_def mpeg_write_def Let_def)

text \<open>The container as \<open>Load\<close> fills it.\<close>

definition container_ok :: "int list \<Rightarrow> container \<Rightarrow> bool" where
  "container_ok types ct \<longleftrightarrow>
     ct_input ct = Some types \<and> (\<forall>p \<in> set (ct_data ct). pk_stream_index p < length types) \<and>
     (\<forall>t. ct_stream_data ct t =
            filter (\<lambda>i. GetStreamType (types ! pk_stream_index (ct_data ct ! i)) = t) [0..<length (ct_data ct)])"

lemma container_ok_positions:
  assumes "container_ok types ct"
  shows "distinct (bit_positions k ct)" "set (bit_positions k ct) \<subseteq> {..<length (ct_data ct)}" "distinct (ct_stream_data ct t)"
  using assms by (cases k; auto simp: container_ok_def bit_positions_def video_positions_def)+

text \<open>What the loops of \<open>SaveBuffer\<close> make of the packets.\<close>

definition bits_put :: "video_class \<Rightarrow> container \<Rightarrow> bytes \<Rightarrow> packet list \<Rightarrow> bool" where
  "bits_put k ct bs ps \<longleftrightarrow>
     length ps = length (ct_data ct) \<and>
     (\<forall>j < length bs. pk_pts (ps ! (bit_positions k ct ! j)) = set_lsb (pk_pts (ct_data ct ! (bit_positions k ct ! j))) (bs ! j)) \<and>
     (\<forall>i < length ps. packet_high (ps ! i) = packet_high (ct_data ct ! i) \<and>
        (pk_dts (ps ! i) = pk_dts (ct_data ct ! i) \<or> pk_dts (ps ! i) = pk_pts (ps ! i)) \<and>
        (k = MPEG \<and> i \<in> set (ct_stream_data ct VideoStream) \<longrightarrow>
           (if ct_has_b_frames ct then pk_dts (ps ! i) = pk_dts (ct_data ct ! i)
            else ps ! i = ct_data ct ! i \<or> pk_dts (ps ! i) = pk_pts (ps ! i))))"

lemma mkv_bits_put:
  assumes "mb_ok b" "0 < unat (mb_size b)" "unat (mb_size b) \<le> length (ct_data ct)"
  shows "\<exists>ps. mkv_put b (ct_data ct) 0 = (ps, Inr ()) \<and> bits_put MKV ct (mb_bytes b) ps"
proof -
  let ?ps = "map (\<lambda>(p, v). mkv_write p v) (zip (ct_data ct) (mb_bytes b)) @ drop (unat (mb_size b)) (ct_data ct)"
  have l: "length (mb_bytes b) = unat (mb_size b)" using length_mb_bytes [OF assms(1)] .
  have n: "?ps ! i = (if i < unat (mb_size b) then mkv_write (ct_data ct ! i) (mb_bytes b ! i) else ct_data ct ! i)"
    if "i < length (ct_data ct)" for i
    using that assms(3) l by (auto simp: nth_append min_def)
  have "mkv_put b (ct_data ct) 0 = (?ps, Inr ())" using mkv_put_run [OF assms(1), of 0 "ct_data ct"] assms(2) by simp
  moreover have "bits_put MKV ct (mb_bytes b) ?ps"
    unfolding bits_put_def using assms(3) l n dts_of_writes(1) by (auto simp: bit_positions_def min_def simp del: map_append)
  ultimately show ?thesis by blast
qed


text \<open>Two loops one after the other, over positions they do not share.\<close>

lemma two_puts:
  fixes f g :: "packet \<Rightarrow> u8 \<Rightarrow> packet"
  assumes "distinct (v @ a)" "set (v @ a) \<subseteq> {..<length old}" "length bs \<le> length (v @ a)" "o1 = min (length bs) (length v)"
  defines "mid \<equiv> put_at f (zip v bs) old"
  defines "ps \<equiv> put_at g (zip a (drop o1 bs)) mid"
  shows "length ps = length old" "\<And>i. i \<notin> set a \<Longrightarrow> ps ! i = mid ! i"
    "\<And>j. j < length bs \<Longrightarrow> ps ! ((v @ a) ! j) = (if j < length v then f else g) (old ! ((v @ a) ! j)) (bs ! j)"
    "\<And>i. i < length old \<Longrightarrow> mid ! i = old ! i \<or> (\<exists>x. mid ! i = f (old ! i) x)"
    "\<And>i. i < length old \<Longrightarrow> ps ! i = mid ! i \<or> (\<exists>x. ps ! i = g (mid ! i) x)"
proof -
  let ?iv = "zip v bs" and ?ia = "zip a (drop o1 bs)"
  have di: "distinct (map fst ?iv)" "distinct (map fst ?ia)" using assms(1) by (simp_all add: map_fst_zip_take)
  have fst_iv: "fst ` set ?iv \<subseteq> set v" "fst ` set ?ia \<subseteq> set a" by (auto dest: set_zip_leftD)
  show l: "length ps = length old" by (simp add: ps_def mid_def)
  show keep: "ps ! i = mid ! i" if "i \<notin> set a" for i unfolding ps_def using that fst_iv(2) by (intro put_at_other) auto
  show "mid ! i = old ! i \<or> (\<exists>x. mid ! i = f (old ! i) x)" if "i < length old" for i
    unfolding mid_def by (rule put_at_cases [OF di(1) that])
  show "ps ! i = mid ! i \<or> (\<exists>x. ps ! i = g (mid ! i) x)" if "i < length old" for i
    unfolding ps_def using that by (intro put_at_cases [OF di(2)]) (simp add: mid_def)
  fix j assume j: "j < length bs"
  show "ps ! ((v @ a) ! j) = (if j < length v then f else g) (old ! ((v @ a) ! j)) (bs ! j)"
  proof (cases "j < length v")
    case True
    have "v ! j \<in> set v" using True by (rule nth_mem)
    with assms(1,2) have i: "v ! j \<notin> set a" "v ! j < length old" by auto
    have "(v ! j, bs ! j) \<in> set ?iv" using True j by (auto simp: in_set_zip)
    from put_at_hit [OF di(1) this i(2), of f] keep [OF i(1)] show ?thesis using True by (simp add: nth_append mid_def)
  next
    case False
    let ?k = "j - length v"
    have k: "?k < length a" "o1 = length v" using False j assms(3,4) by simp_all
    have i: "a ! ?k \<in> set a" using k(1) by (rule nth_mem)
    with assms(2) have il: "a ! ?k < length mid" by (auto simp: mid_def)
    have "(a ! ?k, bs ! j) \<in> set ?ia" using False j k by (auto simp: in_set_zip intro!: exI [of _ ?k])
    then have "ps ! (a ! ?k) = g (mid ! (a ! ?k)) (bs ! j)" unfolding ps_def by (rule put_at_hit [OF di(2) _ il])
    moreover have "a ! ?k \<notin> fst ` set ?iv" using i assms(1) fst_iv(1) by auto
    ultimately show ?thesis using False by (simp add: nth_append put_at_other mid_def)
  qed
qed

text \<open>The loops of \<open>MPEG\<close> are two such loops.\<close>

lemma mpeg_puts_run:
  assumes "mb_ok b" "0 < unat (mb_size b)" "container_ok types ct"
      and "ct_stream_data ct AudioStream = [] \<or> length (video_positions ct) < unat (mb_size b)"
  defines "mid \<equiv> put_at (mpeg_write (\<not> ct_has_b_frames ct)) (zip (video_positions ct) (mb_bytes b)) (ct_data ct)"
  shows "\<exists>o1 off. mpeg_put b (ct_has_b_frames ct) (\<not> ct_has_b_frames ct) (ct_stream_data ct VideoStream) (ct_data ct, 0) = ((mid, o1), Inr ()) \<and>
     unat o1 = min (unat (mb_size b)) (length (video_positions ct)) \<and>
     mpeg_put b False True (ct_stream_data ct AudioStream) (mid, o1) =
       ((put_at (mpeg_write True) (zip (ct_stream_data ct AudioStream) (drop (unat o1) (mb_bytes b))) mid, off), Inr ())"
proof -
  let ?v = "video_positions ct" and ?a = "ct_stream_data ct AudioStream" and ?u = "\<not> ct_has_b_frames ct" and ?N = "unat (mb_size b)"
  obtain o1 where m1: "mpeg_put b False ?u ?v (ct_data ct, 0) = ((mid, o1), Inr ())" "unat o1 = min ?N (length ?v)"
    using mpeg_put_run [OF assms(1), of 0 ?v ?u "ct_data ct"] assms(2) by (auto simp: mid_def)
  have m1': "mpeg_put b (ct_has_b_frames ct) ?u (ct_stream_data ct VideoStream) (ct_data ct, 0) = ((mid, o1), Inr ())"
    using mpeg_put_filter [OF container_ok_positions(3) [OF assms(3), where t = VideoStream], of b "ct_has_b_frames ct" ?u "ct_data ct" 0] m1(1)
    by (simp add: video_positions_def)
  have "unat o1 < ?N \<or> ?a = []" "unat o1 \<le> ?N" using m1(2) assms(4) by auto
  then show ?thesis using mpeg_put_run [OF assms(1), of o1 ?a True mid] m1(2) m1' by blast
qed

lemma mpeg_bits_put:
  assumes "mb_ok b" "0 < unat (mb_size b)" "unat (mb_size b) \<le> length (bit_positions MPEG ct)" "container_ok types ct"
      and "ct_stream_data ct AudioStream = [] \<or> length (video_positions ct) < unat (mb_size b)"
  shows "\<exists>ps off. bits_put MPEG ct (mb_bytes b) ps \<and>
     (\<exists>ps1 o1. mpeg_put b (ct_has_b_frames ct) (\<not> ct_has_b_frames ct) (ct_stream_data ct VideoStream) (ct_data ct, 0) = ((ps1, o1), Inr ()) \<and>
        mpeg_put b False True (ct_stream_data ct AudioStream) (ps1, o1) = ((ps, off), Inr ()))"
proof -
  let ?v = "video_positions ct" and ?a = "ct_stream_data ct AudioStream" and ?bs = "mb_bytes b" and ?old = "ct_data ct"
  let ?u = "\<not> ct_has_b_frames ct"
  let ?mid = "put_at (mpeg_write ?u) (zip ?v ?bs) ?old"
  have P: "bit_positions MPEG ct = ?v @ ?a" by (simp add: bit_positions_def)
  obtain o1 off where run:
      "mpeg_put b (ct_has_b_frames ct) ?u (ct_stream_data ct VideoStream) (?old, 0) = ((?mid, o1), Inr ())"
      "unat o1 = min (length ?bs) (length ?v)"
      "mpeg_put b False True ?a (?mid, o1) = ((put_at (mpeg_write True) (zip ?a (drop (unat o1) ?bs)) ?mid, off), Inr ())"
    using mpeg_puts_run [OF assms(1,2,4,5)] length_mb_bytes [OF assms(1)] by auto
  let ?ps = "put_at (mpeg_write True) (zip ?a (drop (unat o1) ?bs)) ?mid"
  have d: "distinct (?v @ ?a)" "set (?v @ ?a) \<subseteq> {..<length ?old}" "length ?bs \<le> length (?v @ ?a)"
    using container_ok_positions(1,2) [OF assms(4), where k = MPEG] assms(3) length_mb_bytes [OF assms(1)] by (simp_all only: P)
  note two = two_puts(1-3,5) [OF d run(2), where f = "mpeg_write ?u" and g = "mpeg_write True"]
    and mid = two_puts(4) [OF d run(2), where f = "mpeg_write ?u"]
  have va: "i \<notin> set ?a" if "i \<in> set (ct_stream_data ct VideoStream)" for i
    using that assms(4) by (auto simp: container_ok_def)
  have "bits_put MPEG ct ?bs ?ps"
    unfolding bits_put_def P
  proof (intro conjI allI impI two(1))
    show "pk_pts (?ps ! ((?v @ ?a) ! j)) = set_lsb (pk_pts (?old ! ((?v @ ?a) ! j))) (?bs ! j)" if "j < length ?bs" for j
      using two(3) [OF that] by simp
    fix i assume i: "i < length ?ps"
    then have c1: "?mid ! i = ?old ! i \<or> (\<exists>x. ?mid ! i = mpeg_write ?u (?old ! i) x)"
        and c2: "?ps ! i = ?mid ! i \<or> (\<exists>x. ?ps ! i = mpeg_write True (?mid ! i) x)"
      using mid two(4) by simp_all
    have m: "packet_high (?mid ! i) = packet_high (?old ! i)" "pk_dts (?mid ! i) = pk_dts (?old ! i) \<or> pk_dts (?mid ! i) = pk_pts (?mid ! i)"
      using c1 dts_of_writes(2) [of ?u "?old ! i"] by (elim disjE exE; simp)+
    show "packet_high (?ps ! i) = packet_high (?old ! i)" "pk_dts (?ps ! i) = pk_dts (?old ! i) \<or> pk_dts (?ps ! i) = pk_pts (?ps ! i)"
      using c2 m by (elim disjE exE; simp)+
    assume "MPEG = MPEG \<and> i \<in> set (ct_stream_data ct VideoStream)"
    then have "?ps ! i = ?mid ! i" using two(2) va by blast
    then show "if ct_has_b_frames ct then pk_dts (?ps ! i) = pk_dts (?old ! i)
          else ?ps ! i = ?old ! i \<or> pk_dts (?ps ! i) = pk_pts (?ps ! i)"
      using c1 by (elim disjE exE) auto
  qed
  with run(1,3) show ?thesis by blast
qed

section \<open>Loading and saving the container\<close>

text \<open>What a carrier makes of a file: the container the constructor opens and loads.\<close>

definition video_container :: "venv \<Rightarrow> stego_config \<Rightarrow> bytes \<Rightarrow> string \<Rightarrow> container res" where
  "video_container V sc content name = bindR (ContainerHandler V (Some content) name) (CT_Load V sc (Some content))"

definition time_gap :: "packet \<Rightarrow> int" where
  "time_gap p = \<bar>sint (pk_pts p) - sint (pk_dts p)\<bar>"

lemma container_ok_step:
  assumes "container_ok types ct" "pk_stream_index p < length types" "t = GetStreamType (types ! pk_stream_index p)"
  shows "container_ok types (ct\<lparr>ct_has_b_frames := b, ct_data := ct_data ct @ [p],
           ct_stream_data := (ct_stream_data ct)(t := ct_stream_data ct t @ [length (ct_data ct)])\<rparr>)"
proof -
  have "filter (\<lambda>i. GetStreamType (types ! pk_stream_index ((ct_data ct @ [p]) ! i)) = u) [0..<length (ct_data ct)] = ct_stream_data ct u" for u
    using assms(1) by (auto simp: container_ok_def nth_append intro: filter_cong)
  then show ?thesis using assms by (auto simp: container_ok_def nth_append)
qed

text \<open>Whether the time stamps of the packets make the loop guess that there are B frames.\<close>

definition b_frames_guess :: "int list \<Rightarrow> packet list \<Rightarrow> bool" where
  "b_frames_guess types ps \<longleftrightarrow> (\<exists>p \<in> set ps. GetStreamType (types ! pk_stream_index p) = VideoStream \<and> 2 \<le> time_gap p)"

lemma load_packets_ok:
  assumes "load_packets guess ps ct = Inr ct'" "container_ok types ct"
  shows "container_ok types ct' \<and> ct_data ct' = ct_data ct @ ps \<and> ct_file_name ct' = ct_file_name ct \<and>
         ct_has_b_frames ct' = (ct_has_b_frames ct \<or> guess \<and> b_frames_guess types ps)"
  using assms
proof (induction ps arbitrary: ct)
  case Nil
  then show ?case by (simp add: b_frames_guess_def)
next
  case (Cons p ps)
  have i: "ct_input ct = Some types" using Cons.prems(2) by (simp add: container_ok_def)
  let ?t = "GetStreamType (types ! pk_stream_index p)"
  obtain b where b: "pk_stream_index p < length types" "b = (guess \<and> ?t = VideoStream \<and> 2 \<le> time_gap p)"
      "load_packets guess ps (ct\<lparr>ct_has_b_frames := ct_has_b_frames ct \<or> b, ct_data := ct_data ct @ [p],
         ct_stream_data := (ct_stream_data ct)(?t := ct_stream_data ct ?t @ [length (ct_data ct)])\<rparr>) = Inr ct'"
    using Cons.prems(1) i
    by (auto simp: res_simps Let_def pts_distance_def mapR_def time_gap_def split: if_splits)
  show ?case
    using Cons.IH [OF b(3) container_ok_step [OF Cons.prems(2) b(1) refl]] b(2) by (auto simp: b_frames_guess_def)
qed

lemma load_packets_returns:
  assumes "container_ok types ct" "\<forall>p \<in> set ps. pk_stream_index p < length types \<and> time_gap p < 2 ^ 63"
  shows "\<exists>ct'. load_packets True ps ct = Inr ct'"
  using assms
proof (induction ps arbitrary: ct)
  case (Cons p ps)
  let ?t = "GetStreamType (types ! pk_stream_index p)"
  have p: "pk_stream_index p < length types" "pts_distance p = Inr (time_gap p)" "ct_input ct = Some types"
    using Cons.prems by (simp_all add: pts_distance_def time_gap_def container_ok_def Let_def)
  have "load_packets True (p # ps) ct = load_packets True ps
      (ct\<lparr>ct_has_b_frames := ct_has_b_frames ct \<or> (?t = VideoStream \<and> 2 \<le> time_gap p), ct_data := ct_data ct @ [p],
         ct_stream_data := (ct_stream_data ct)(?t := ct_stream_data ct ?t @ [length (ct_data ct)])\<rparr>)"
    using p by (cases "?t = VideoStream") (auto simp: res_simps mapR_def Let_def)
  moreover have "\<forall>p \<in> set ps. pk_stream_index p < length types \<and> time_gap p < 2 ^ 63" using Cons.prems(2) by simp
  ultimately show ?case using Cons.IH [OF container_ok_step [OF Cons.prems(1) p(1) refl]] by metis
qed simp

lemma container_ok_empty: "container_ok types ((ct_empty name)\<lparr>ct_input := Some types\<rparr>)"
  by (simp add: container_ok_def ct_empty_def)

lemma video_container_eq:
  assumes "sc_ffprobe_path sc = []"
  shows "video_container V sc content name =
     (if \<not> v_open V content then Inl (IoError name)
      else case v_streams V content of
          None \<Rightarrow> Inl (ParseError name ''Could not find stream info'')
        | Some types \<Rightarrow> load_packets True (v_frames V content) ((ct_empty name)\<lparr>ct_input := Some types\<rparr>))"
  using assms
  by (simp add: video_container_def ContainerHandler_def CT_Init_def CT_Load_def BFrameDetection_def ct_empty_def res_simps
      split: option.splits)

lemma video_container_ok:
  assumes "video_container V sc content name = Inr ct"
  shows "\<exists>types. container_ok types ct \<and> v_streams V content = Some types \<and> ct_data ct = v_frames V content \<and>
           ct_file_name ct = name \<and> (sc_ffprobe_path sc = [] \<longrightarrow> ct_has_b_frames ct = b_frames_guess types (ct_data ct))"
proof -
  from assms obtain types where t: "v_streams V content = Some types"
      "CT_Load V sc (Some content) ((ct_empty name)\<lparr>ct_input := Some types\<rparr>) = Inr ct"
    by (auto simp: video_container_def ContainerHandler_def CT_Init_def ct_empty_def res_simps split: if_splits option.splits)
  obtain b r where b: "BFrameDetection V sc ((ct_empty name)\<lparr>ct_input := Some types\<rparr>) =
      ((ct_empty name)\<lparr>ct_input := Some types, ct_has_b_frames := b\<rparr>, r)" "sc_ffprobe_path sc = [] \<longrightarrow> \<not> b"
  proof -
    let ?ct = "(ct_empty name)\<lparr>ct_input := Some types\<rparr>"
    have "?ct = ?ct\<lparr>ct_has_b_frames := False\<rparr>" by (simp add: ct_empty_def)
    then have "\<exists>b r. BFrameDetection V sc ?ct = (?ct\<lparr>ct_has_b_frames := b\<rparr>, r) \<and> (sc_ffprobe_path sc = [] \<longrightarrow> \<not> b)"
      unfolding BFrameDetection_def by (cases "v_ffprobe V (ffprobe_command sc (ct_file_name ?ct))") (auto simp: Let_def)
    then show thesis using that by auto
  qed
  then have l: "load_packets (sc_ffprobe_path sc = [] \<or> \<not> r) (v_frames V content)
      ((ct_empty name)\<lparr>ct_input := Some types, ct_has_b_frames := b\<rparr>) = Inr ct"
    using t(2) by (simp add: CT_Load_def)
  have "container_ok types ((ct_empty name)\<lparr>ct_input := Some types, ct_has_b_frames := b\<rparr>)"
    by (simp add: container_ok_def ct_empty_def)
  from load_packets_ok [OF l this] show ?thesis using t(1) b(2) by (auto simp: ct_empty_def)
qed

text \<open>Setting the lowest bit moves a time stamp by at most one.\<close>

lemma sint_set_lsb: "\<bar>sint (set_lsb x v) - sint x\<bar> \<le> 1"
proof -
  have c: "sint (ucast (v AND 1) :: u64) \<in> {0, 1}" by (cases "bit v 0") (simp_all add: and_one_eq odd_iff_mod_2_eq_one bit_0)
  have o: "sint (set_lsb x v) = (sint x AND NOT 1) OR sint (ucast (v AND 1) :: u64)"
    by (simp add: set_lsb_def signed_or_eq signed_and_eq signed_not_eq)
  have a: "sint x AND NOT 1 = 2 * (sint x div 2)" using unset_bit_eq_and_not [of 0 "sint x"] by (simp add: unset_bit_0)
  have d: "(2 * k) OR 1 = 1 + 2 * k" for k :: int using set_bit_eq_or [of 0 "2 * k"] by (simp add: set_bit_0)
  from c show ?thesis
  proof (elim insertE emptyE)
    assume "sint (ucast (v AND 1) :: u64) = 0"
    then have "sint (set_lsb x v) = 2 * (sint x div 2)" by (simp only: o a) simp
    then show ?thesis by presburger
  next
    assume "sint (ucast (v AND 1) :: u64) = 1"
    then have "sint (set_lsb x v) = 1 + 2 * (sint x div 2)" by (simp only: o a d)
    then show ?thesis by presburger
  qed
qed


text \<open>Writing the container: it ends without an error when \<open>ffmpeg\<close> takes every packet, and gives all of them back.\<close>

lemma upt_Cons: "i # is = [k..<n] \<Longrightarrow> i = k \<and> k < n \<and> is = [Suc k..<n]"
  by (cases "k < n") (simp_all add: upt_conv_Cons)

lemma write_packets_run:
  assumes "k + length is = length (ct_data ct)" "is = [k..<length (ct_data ct)]" "list_all (v_write V) (drop k (ct_data ct))"
  shows "\<exists>fs'. write_packets V types is sent (ct, fs) =
           ((ct\<lparr>ct_data := take k (ct_data ct) @ replicate (length is) (v_unref V)\<rparr>, fs'), Inr ()) \<and>
           (\<forall>bs. fs'(ct_file_name ct \<mapsto> bs) = fs(ct_file_name ct \<mapsto> bs))"
  using assms
proof (induction "is" arbitrary: k ct sent fs)
  case Nil
  then show ?case by (simp add: run_simps)
next
  case (Cons i "is")
  have i: "i = k" "k < length (ct_data ct)" "is = [Suc k..<length (ct_data ct)]"
    using upt_Cons [OF Cons.prems(2)] by blast+
  let ?ct = "ct\<lparr>ct_data := (ct_data ct)[k := v_unref V]\<rparr>"
  let ?sent = "sent @ [ct_data ct ! k]"
  have w: "v_write V (ct_data ct ! k)" "list_all (v_write V) (drop (Suc k) (ct_data ?ct))"
    using Cons.prems(3) i(2) by (simp_all add: Cons_nth_drop_Suc [symmetric])
  have k: "Suc k + length is = length (ct_data ?ct)" "is = [Suc k..<length (ct_data ?ct)]" using Cons.prems(1) i by simp_all
  obtain fs' where r: "write_packets V types is ?sent (?ct, fs(ct_file_name ct \<mapsto> v_file V types ?sent False)) =
      ((?ct\<lparr>ct_data := take (Suc k) (ct_data ?ct) @ replicate (length is) (v_unref V)\<rparr>, fs'), Inr ())"
      "\<forall>bs. fs'(ct_file_name ?ct \<mapsto> bs) = (fs(ct_file_name ct \<mapsto> v_file V types ?sent False))(ct_file_name ?ct \<mapsto> bs)"
    using Cons.IH [OF k w(2)] by blast
  have "write_packets V types (i # is) sent (ct, fs) =
      write_packets V types is ?sent (?ct, fs(ct_file_name ct \<mapsto> v_file V types ?sent False))"
    using w(1) i(1) by (simp add: run_simps put_output_def seqM_def)
  moreover have "?ct\<lparr>ct_data := take (Suc k) (ct_data ?ct) @ replicate (length is) (v_unref V)\<rparr> =
      ct\<lparr>ct_data := take k (ct_data ct) @ replicate (length (i # is)) (v_unref V)\<rparr>"
    using i(2) by (simp add: take_Suc_conv_app_nth)
  moreover have "fs'(ct_file_name ct \<mapsto> bs) = fs(ct_file_name ct \<mapsto> bs)" for bs using r(2) by simp
  ultimately show ?case using r(1) by metis
qed

lemma write_packets_refused:
  assumes "is = [k..<length (ct_data ct)]" "k \<le> length (ct_data ct)" "\<not> list_all (v_write V) (drop k (ct_data ct))"
  shows "\<exists>s. write_packets V types is sent (ct, fs) = (s, Inl (IoError (ct_file_name ct)))"
  using assms
proof (induction "is" arbitrary: k ct sent fs)
  case Nil
  then have "k = length (ct_data ct)" by (metis le_antisym not_le_imp_less upt_conv_Cons list.distinct(1))
  then show ?case using Nil by simp
next
  case (Cons i "is")
  have i: "i = k" "k < length (ct_data ct)" "is = [Suc k..<length (ct_data ct)]"
    using upt_Cons [OF Cons.prems(1)] by blast+
  let ?ct = "ct\<lparr>ct_data := (ct_data ct)[k := v_unref V]\<rparr>"
  show ?case
  proof (cases "v_write V (ct_data ct ! k)")
    case False
    then show ?thesis using i(1) by (auto simp: run_simps)
  next
    case True
    then have "\<not> list_all (v_write V) (drop (Suc k) (ct_data ?ct))"
      using Cons.prems(3) i(2) by (simp add: Cons_nth_drop_Suc [symmetric])
    then obtain s where "write_packets V types is (sent @ [ct_data ct ! k])
        (?ct, fs(ct_file_name ct \<mapsto> v_file V types (sent @ [ct_data ct ! k]) False)) = (s, Inl (IoError (ct_file_name ct)))"
      using Cons.IH [of "Suc k" ?ct] i by fastforce
    then show ?thesis using True i(1) by (simp add: run_simps put_output_def seqM_def)
  qed
qed

lemma add_streams_Inr:
  "add_streams V name i types = Inr u \<longleftrightarrow> (\<forall>j < length types. v_new_stream V (i + j)) \<and> list_all (v_copy_parameters V) types"
  by (induction types arbitrary: i) (auto simp: All_less_Suc2)

lemma CT_Save_run:
  assumes "v_alloc V (ct_file_name ct)" "ct_input ct = Some types" "add_streams V (ct_file_name ct) 0 types = Inr ()"
      and "v_create V (ct_file_name ct)" "v_header V types"
  shows "if list_all (v_write V) (ct_data ct)
         then \<exists>ct'. CT_Save V (ct, fs) = ((ct', fs(ct_file_name ct \<mapsto> v_file V types (ct_data ct) True)), Inr ()) \<and> ct_input ct' = None
         else \<exists>s. CT_Save V (ct, fs) = (s, Inl (IoError (ct_file_name ct)))"
proof -
  let ?n = "ct_file_name ct"
  let ?fs = "(fs(?n \<mapsto> []))(?n \<mapsto> v_file V types [] False)"
  have e: "CT_Save V (ct, fs) = (seqM (write_packets V types [0..<length (ct_data ct)] [])
      (seqM (put_output (v_file V types (ct_data ct) True)) CT_Close)) (ct, ?fs)"
    unfolding CT_Save_def using assms by (simp add: run_simps put_output_def seqM_def Let_def)
  show ?thesis
  proof (cases "list_all (v_write V) (ct_data ct)")
    case True
    have z: "0 + length [0..<length (ct_data ct)] = length (ct_data ct)" by simp
    obtain fs' where r: "write_packets V types [0..<length (ct_data ct)] [] (ct, ?fs) =
        ((ct\<lparr>ct_data := take 0 (ct_data ct) @ replicate (length [0..<length (ct_data ct)]) (v_unref V)\<rparr>, fs'), Inr ())"
        "\<forall>bs. fs'(?n \<mapsto> bs) = ?fs(?n \<mapsto> bs)"
      using write_packets_run [OF z refl, of V types "[]" ?fs] True by auto
    show ?thesis using True r by (simp add: e run_simps put_output_def CT_Close_def)
  next
    case False
    then obtain s where "write_packets V types [0..<length (ct_data ct)] [] (ct, ?fs) = (s, Inl (IoError ?n))"
      using write_packets_refused [OF refl, of 0 ct V types "[]" ?fs] by auto
    then show ?thesis using False by (simp add: e run_simps)
  qed
qed


section \<open>The container of the saved file\<close>

lemma high_pts: "packet_high p = packet_high q \<Longrightarrow> pk_pts p AND NOT 1 = pk_pts q AND NOT 1"
  by (drule arg_cong [of _ _ pk_pts]) (simp add: packet_high_def)

lemma high_index: "packet_high p = packet_high q \<Longrightarrow> pk_stream_index p = pk_stream_index q"
  by (drule arg_cong [of _ _ pk_stream_index]) (simp add: packet_high_def)

lemma applicable_high:
  "packet_high p = packet_high q \<Longrightarrow> pk_dts p = pk_dts q \<Longrightarrow> applicable p = applicable q"
  using high_pts [of p q] by (simp add: applicable_def GetTestValues_def ModifyLSB_def)

lemma same_but_lsb: "x AND NOT 1 = y AND NOT 1 \<Longrightarrow> x = set_lsb y (ucast x)"
proof -
  assume e: "x AND NOT 1 = y AND NOT 1"
  have "bit x k = bit y k" if "0 < k" "k < 64" for k
    using arg_cong [OF e, of "\<lambda>z. bit z k"] that by (simp only: bit_and_iff bit_not_iff bit_1_iff) simp
  then show ?thesis by (intro bit_word_eqI) (simp add: bit_set_lsb bit_ucast_iff)
qed

lemma time_gap_saved:
  assumes "packet_high p = packet_high q" "pk_dts p = pk_dts q \<or> pk_dts p = pk_pts p"
  shows "time_gap p \<le> time_gap q + 1"
  using assms(2) sint_set_lsb [of "pk_pts q" "ucast (pk_pts p)"] same_but_lsb [OF high_pts [OF assms(1)]]
  by (auto simp: time_gap_def)

lemma bits_put_high: "bits_put k ct bs ps \<Longrightarrow> map packet_high ps = map packet_high (ct_data ct)"
  by (rule nth_equalityI) (simp_all add: bits_put_def)

text \<open>A container with the packets of \<open>bits_put\<close> has the same streams and the same packets for bits, which hold the bytes put.\<close>

lemma saved_streams:
  assumes "container_ok types ct" "container_ok types ct0" "map packet_high (ct_data ct0) = map packet_high (ct_data ct)"
  shows "ct_stream_data ct0 = ct_stream_data ct"
proof
  fix t
  have l: "length (ct_data ct0) = length (ct_data ct)" using arg_cong [OF assms(3), of length] by simp
  have "pk_stream_index (ct_data ct0 ! i) = pk_stream_index (ct_data ct ! i)" if "i < length (ct_data ct)" for i
    using arg_cong [OF assms(3), of "\<lambda>xs. xs ! i"] that l by (intro high_index) simp
  then show "ct_stream_data ct0 t = ct_stream_data ct t"
    using assms(1,2) l by (auto simp: container_ok_def intro: filter_cong)
qed

lemma saved_positions:
  assumes "container_ok types ct" "container_ok types ct0" "bits_put k ct bs (ct_data ct0)"
      and "k = MPEG \<longrightarrow> ct_has_b_frames ct0 = ct_has_b_frames ct"
  shows "bit_positions k ct0 = bit_positions k ct" "video_positions ct0 = video_positions ct \<or> k = MKV"
    "CalculateCapacity k ct0 = CalculateCapacity k ct"
proof -
  note h = bits_put_high [OF assms(3)] and s = saved_streams [OF assms(1,2) bits_put_high [OF assms(3)]]
  have l: "length (ct_data ct0) = length (ct_data ct)" using arg_cong [OF h, of length] by simp
  have v: "video_positions ct0 = video_positions ct" if k: "k = MPEG"
  proof (cases "ct_has_b_frames ct")
    case True
    have "applicable (ct_data ct0 ! i) = applicable (ct_data ct ! i)" if "i \<in> set (ct_stream_data ct VideoStream)" for i
    proof (rule applicable_high)
      have i: "i < length (ct_data ct0)" using that assms(1) l by (auto simp: container_ok_def)
      then show "packet_high (ct_data ct0 ! i) = packet_high (ct_data ct ! i)" "pk_dts (ct_data ct0 ! i) = pk_dts (ct_data ct ! i)"
        using assms(3) that k True by (simp_all add: bits_put_def)
    qed
    then show ?thesis using assms(4) k True by (auto simp: video_positions_def s intro: filter_cong)
  qed (use assms(4) k in \<open>simp add: video_positions_def s\<close>)
  then show "bit_positions k ct0 = bit_positions k ct" "video_positions ct0 = video_positions ct \<or> k = MKV"
    by (cases k; simp add: bit_positions_def s l)+
  then show "CalculateCapacity k ct0 = CalculateCapacity k ct"
    by (cases k) (simp_all add: CalculateCapacity_positions, simp add: CalculateCapacity_def MKV_CalculateCapacity_def s)
qed

text \<open>Saving introduces no B frames.\<close>

lemma saved_b_frames:
  assumes "container_ok types ct" "bits_put MPEG ct bs ps" "\<not> ct_has_b_frames ct" "\<not> b_frames_guess types (ct_data ct)"
  shows "\<not> b_frames_guess types ps"
  unfolding b_frames_guess_def
proof (rule notI, elim bexE conjE)
  fix p assume p: "p \<in> set ps" "GetStreamType (types ! pk_stream_index p) = VideoStream" "2 \<le> time_gap p"
  then obtain i where i: "i < length ps" "p = ps ! i" by (auto simp: in_set_conv_nth)
  have l: "length ps = length (ct_data ct)" "packet_high (ps ! i) = packet_high (ct_data ct ! i)"
    using assms(2) i(1) by (simp_all add: bits_put_def)
  have t: "GetStreamType (types ! pk_stream_index (ct_data ct ! i)) = VideoStream" using p(2) i(2) high_index [OF l(2)] by simp
  then have "i \<in> set (ct_stream_data ct VideoStream)" using assms(1) i(1) l(1) by (simp add: container_ok_def)
  then have "ps ! i = ct_data ct ! i \<or> pk_dts (ps ! i) = pk_pts (ps ! i)" using assms(2,3) i(1) by (simp add: bits_put_def)
  moreover have "\<not> 2 \<le> time_gap (ct_data ct ! i)" using assms(4) t i(1) l(1) by (auto simp: b_frames_guess_def)
  ultimately show False using p(3) i(2) by (auto simp: time_gap_def)
qed

lemma CalculateCapacity_MKV:
  assumes "container_ok types ct"
  shows "CalculateCapacity MKV ct = word_of_nat (length (bit_positions MKV ct)) div 8"
proof -
  let ?f = "\<lambda>i. GetStreamType (types ! pk_stream_index (ct_data ct ! i))"
  have "length (filter (\<lambda>i. f i = UnknownStream) xs) + length (filter (\<lambda>i. f i = VideoStream) xs) +
      length (filter (\<lambda>i. f i = AudioStream) xs) + length (filter (\<lambda>i. f i = SubtitlesStream) xs) = length xs" for f and xs :: "nat list"
  proof (induction xs)
    case (Cons x xs)
    then show ?case by (cases "f x") simp_all
  qed simp
  from this [of ?f "[0..<length (ct_data ct)]"]
  have "length (ct_stream_data ct UnknownStream) + length (ct_stream_data ct VideoStream) +
      length (ct_stream_data ct AudioStream) + length (ct_stream_data ct SubtitlesStream) = length (ct_data ct)"
    using assms by (simp add: container_ok_def)
  then show ?thesis
    by (simp add: CalculateCapacity_def MKV_CalculateCapacity_def stream_types_def bit_positions_def flip: of_nat_add)
qed

lemma CalculateCapacity_eq:
  "container_ok types ct \<Longrightarrow> CalculateCapacity k ct = word_of_nat (length (bit_positions k ct)) div 8"
  by (cases k) (simp_all add: CalculateCapacity_MKV CalculateCapacity_positions)

lemma capacity_positions:
  assumes "container_ok types ct"
  shows "8 * unat (CalculateCapacity k ct) \<le> length (bit_positions k ct)"
proof -
  let ?m = "unat (word_of_nat (length (bit_positions k ct)) :: u64)"
  have "8 * (?m div 8) \<le> ?m" by simp
  also have "?m \<le> length (bit_positions k ct)" by (simp add: unat_of_nat)
  finally show ?thesis by (simp add: CalculateCapacity_eq [OF assms] unat_div)
qed

section \<open>Saving and loading a video\<close>

lemma SaveBuffer_run:
  assumes "mb_ok b" "0 < unat (mb_size b)" "unat (mb_size b) \<le> length (bit_positions k ct)" "container_ok types ct"
      and "k = MPEG \<longrightarrow> ct_stream_data ct AudioStream = [] \<or> length (video_positions ct) < unat (mb_size b)"
  shows "\<exists>ps. bits_put k ct (mb_bytes b) ps \<and> SaveBuffer k V b (ct, fs) = CT_Save V (ct\<lparr>ct_data := ps\<rparr>, fs)"
proof (cases k)
  case MKV
  obtain ps where "mkv_put b (ct_data ct) 0 = (ps, Inr ())" "bits_put MKV ct (mb_bytes b) ps"
    using mkv_bits_put [OF assms(1,2)] assms(3) by (auto simp: MKV bit_positions_def)
  then show ?thesis by (auto simp: MKV SaveBuffer_def MKV_SaveBuffer_def run_simps)
next
  case MPEG
  have p: "unat (mb_size b) \<le> length (bit_positions MPEG ct)"
      "ct_stream_data ct AudioStream = [] \<or> length (video_positions ct) < unat (mb_size b)"
    using assms(3,5) MPEG by simp_all
  obtain ps off ps1 o1 where "bits_put MPEG ct (mb_bytes b) ps"
      "mpeg_put b (ct_has_b_frames ct) (\<not> ct_has_b_frames ct) (ct_stream_data ct VideoStream) (ct_data ct, 0) = ((ps1, o1), Inr ())"
      "mpeg_put b False True (ct_stream_data ct AudioStream) (ps1, o1) = ((ps, off), Inr ())"
    using mpeg_bits_put [OF assms(1,2) p(1) assms(4) p(2)] by blast
  then show ?thesis by (auto simp: MPEG SaveBuffer_def MPEG_SaveBuffer_def run_simps)
qed

text \<open>
  With the container \<open>ct0\<close> every carrier of the same layout reads the contents of the storage at its positions, and changes
  no other byte.
\<close>

definition video_loads :: "video_class \<Rightarrow> cenv \<Rightarrow> permutation \<Rightarrow> encoder \<Rightarrow> nat \<Rightarrow> carrier \<Rightarrow> world \<Rightarrow> container \<Rightarrow> bool" where
  "video_loads k C p e a c w ct0 \<longleftrightarrow>
     (\<forall>c0 w0 a0. cf_raw_capacity c0 = cf_raw_capacity c \<and> cf_perm_after C c0 p \<and>
        cf_in_use p e a0 (c0\<lparr>cf_permutation := Some p\<rparr>) \<and> cf_layout c c0 \<and> st_ok a0 w0 \<longrightarrow>
        (\<exists>c3 w3. Video_LoadFile k C ((c0, w0), ct0) = (((c3, w3), ct0), Inr ()) \<and> st_ok a0 w3 \<and> st_same a0 w0 w3 \<and>
           (\<forall>q. st_byte a0 w3 q =
              (if unat (cf_offset c) \<le> unat q \<and>
                  unat q < unat (cf_offset c) + unat (cf_blocks_used c) * unat (cf_data_block_size c) \<and> unat q < st_capacity a0 w0
               then st_byte a w q else st_byte a0 w0 q))))"

lemma on_cf_run [run_simps]:
  "f cw = (cw', Inr x) \<Longrightarrow> on_cf f (cw, ct) = ((cw', ct), Inr x)"
  by (simp add: on_cf_def)

lemma Video_prepare_run:
  assumes "LoadBuffer k C (cf_raw_capacity c) ct = Inr b" "cf_perm_after C c p" "cf_in_use p e a (c\<lparr>cf_permutation := Some p\<rparr>)"
      and "cf_gather (\<lambda>i. MB_index b (word_of_nat i)) (unat (Perm_GetSize p)) (cf_reset (c\<lparr>cf_permutation := Some p\<rparr>), w) = ((c1, w), Inr ())"
  shows "Video_prepare k C ((c, w), ct) = (((c1, w), ct), Inr (b, Perm_GetSize p))"
proof -
  let ?c = "cf_reset (c\<lparr>cf_permutation := Some p\<rparr>)"
  have "cf_init_permutation C (cf_raw_capacity c * 8) (cf_reset c, w) = ((?c, w), Inr ())"
    using cf_init_permutation_run [of C "cf_reset c" p w] assms(2) cf_reset_permutation [where c = c and p = p] by simp
  moreover have "cf_bits_to_modify (?c, w) = ((?c, w), Inr (Perm_GetSize p))" by (rule cf_bits_to_modify_run) simp
  ultimately show ?thesis using assms(1,4) in_use_reset(2) [OF assms(3)] by (simp add: Video_prepare_def run_simps)
qed


text \<open>The two halves around the container, over the contract \<open>lsb_cover\<close> of a buffer.\<close>

lemma cf_gather_lsb:
  assumes "\<And>i. i < n \<Longrightarrow> f i = Inr (g i)" "\<And>i. i < n \<Longrightarrow> f' i = Inr (g' i)" "\<And>i. i < n \<Longrightarrow> bit (g i) 0 = bit (g' i) 0"
  shows "cf_gather f n = cf_gather f' n"
  unfolding cf_gather_def
proof (rule forM_cong)
  fix i assume "i \<in> set [0..<n]"
  then have "f i = Inr (g i)" "f' i = Inr (g' i)" "(g i AND 1 = 0) = (g' i AND 1 = 0)"
    using assms by (simp_all add: and_one_eq even_iff_mod_2_eq_zero [symmetric] bit_0)
  then show "bindM (askM (\<lambda>s. f i)) (\<lambda>v. whenM (v AND 1 \<noteq> 0) (on_carrier (CF_SetBitInBufferPermuted (word_of_nat i)))) =
      bindM (askM (\<lambda>s. f' i)) (\<lambda>v. whenM (v AND 1 \<noteq> 0) (on_carrier (CF_SetBitInBufferPermuted (word_of_nat i))))"
    by (intro ext) (simp add: run_simps)
qed

lemma video_load_run:
  assumes "cf_in_use p e a c" "mb_ok m \<and> unat (Perm_GetSize p) \<le> unat (mb_size m) \<and> mb_size m = cf_raw_capacity c * 8"
      and "mb_scatter c2 (unat (Perm_GetSize p)) m = Inr m'" "bits_ready p c2" "cf_room c2" "cf_decodes e c2 (cf_data a w c)"
      and "cf_same (cf_reset c) c2" "LoadBuffer k C (cf_raw_capacity c) ct0 = Inr m0"
      and "mb_ok m'" "mb_size m' = mb_size m" "mb_ok m0" "mb_size m0 = mb_size m"
      and "\<And>i. i < unat (Perm_GetSize p) \<Longrightarrow> bit (mb_bytes m0 ! i) 0 = bit (mb_bytes m' ! i) 0"
  shows "video_loads k C p e a c w ct0"
  unfolding video_loads_def
proof (intro allI impI, elim conjE)
  note u = in_use_facts [OF assms(1)]
  fix c0 w0 a0
  assume l: "cf_raw_capacity c0 = cf_raw_capacity c" "cf_perm_after C c0 p" "cf_in_use p e a0 (c0\<lparr>cf_permutation := Some p\<rparr>)"
    "cf_layout c c0" "st_ok a0 w0"
  let ?c0 = "c0\<lparr>cf_permutation := Some p\<rparr>"
  have b: "8 * (unat (cf_blocks_used c2) * unat (cf_codeword_block_size c2)) \<le> unat (Perm_GetSize p)"
    using u(6) cf_same_fields [OF assms(7)] by simp
  obtain c3 w3 where g: "cf_gather (\<lambda>i. MB_index m' (word_of_nat i)) (unat (Perm_GetSize p)) (cf_reset ?c0, w0) = ((c3, w0), Inr ())"
      "CF_ExtractBufferUsingEncoder C (c3, w0) = ((c3, w3), Inr 0)" "cf_same (cf_reset ?c0) c3" "st_ok a0 w3" "st_same a0 w0 w3"
      "\<And>q. st_byte a0 w3 q = (if unat (cf_offset ?c0) \<le> unat q \<and>
            unat q < unat (cf_offset ?c0) + unat (cf_blocks_used ?c0) * unat (cf_data_block_size ?c0) \<and> unat q < st_capacity a0 w0
          then cf_data a w c ((unat q - unat (cf_offset ?c0)) div unat (cf_data_block_size ?c0)) ! ((unat q - unat (cf_offset ?c0)) mod unat (cf_data_block_size ?c0))
          else st_byte a0 w0 q)"
    using bmp.load_run [OF assms(3) refl assms(2,4,5,6) b l(3) layout_facts [OF l(4) assms(7)] l(5), of C] by blast
  have "cf_gather (\<lambda>i. MB_index m0 (word_of_nat i)) (unat (Perm_GetSize p)) = cf_gather (\<lambda>i. MB_index m' (word_of_nat i)) (unat (Perm_GetSize p))"
  proof (rule cf_gather_lsb [OF _ _ assms(13)])
    fix i assume "i < unat (Perm_GetSize p)"
    then have "i < unat (mb_size m)" using assms(2) by (metis less_le_trans)
    moreover have "i < 2 ^ 64" using calculation unat_u64_less [of "mb_size m"] by simp
    ultimately show "MB_index m0 (word_of_nat i) = Inr (mb_bytes m0 ! i)" "MB_index m' (word_of_nat i) = Inr (mb_bytes m' ! i)"
      using assms(9-12) by (simp_all add: MB_index_correct unat_simps)
  qed
  with g(1) have g0: "cf_gather (\<lambda>i. MB_index m0 (word_of_nat i)) (unat (Perm_GetSize p)) (cf_reset ?c0, w0) = ((c3, w0), Inr ())"
    by simp
  have "LoadBuffer k C (cf_raw_capacity c0) ct0 = Inr m0" using assms(8) l(1) by simp
  from Video_prepare_run [OF this l(2,3) g0]
  have "Video_LoadFile k C ((c0, w0), ct0) = (((c3, w3), ct0), Inr ())"
    using g(2) by (simp add: Video_LoadFile_def run_simps)
  then show "\<exists>c3 w3. Video_LoadFile k C ((c0, w0), ct0) = (((c3, w3), ct0), Inr ()) \<and> st_ok a0 w3 \<and> st_same a0 w0 w3 \<and>
         (\<forall>q. st_byte a0 w3 q =
            (if unat (cf_offset c) \<le> unat q \<and>
                unat q < unat (cf_offset c) + unat (cf_blocks_used c) * unat (cf_data_block_size c) \<and> unat q < st_capacity a0 w0
             then st_byte a w q else st_byte a0 w0 q))"
    using g(4,5,6) [unfolded reload_bytes [OF u(7) l(4)]] by fastforce
qed

text \<open>
  A container read from the saved file keeps the bits of the packets \<open>ps\<close> that were written: it has a packet for every bit, the sound
  does not leave the buffer, and the time stamps have the lowest bits put there.
\<close>

definition keeps_bits :: "video_class \<Rightarrow> u64 \<Rightarrow> container \<Rightarrow> packet list \<Rightarrow> container \<Rightarrow> bool" where
  "keeps_bits k raw ct ps ct0 \<longleftrightarrow>
     sound_fits k raw ct0 \<and> 8 * unat raw \<le> length (bit_positions k ct0) \<and>
     (\<forall>j < 8 * unat raw.
        bit (pk_pts (ct_data ct0 ! (bit_positions k ct0 ! j))) 0 = bit (pk_pts (ps ! (bit_positions k ct ! j))) 0)"

lemma keeps_bits_read:
  assumes "keeps_bits k raw ct ps ct0" "bits_put k ct (mb_bytes m') ps" "mb_ok m'" "mb_size m' = raw * 8"
      and "0 < unat raw" "8 * unat raw < 2 ^ 64"
  shows "\<exists>m0. LoadBuffer k C raw ct0 = Inr m0 \<and> mb_ok m0 \<and> mb_size m0 = raw * 8 \<and>
           (\<forall>j < 8 * unat raw. bit (mb_bytes m0 ! j) 0 = bit (mb_bytes m' ! j) 0)"
proof -
  have l: "length (mb_bytes m') = 8 * unat raw" using length_mb_bytes [OF assms(3)] assms(4) times_8 [OF assms(6)] by simp
  obtain m0 where m0: "LoadBuffer k C raw ct0 = Inr m0" "mb_ok m0" "mb_size m0 = raw * 8"
      "mb_bytes m0 = map (\<lambda>i. pts_byte (ct_data ct0 ! i)) (take (8 * unat raw) (bit_positions k ct0))"
    using LoadBuffer_run [OF assms(5,6), of k ct0 C] assms(1) by (auto simp: keeps_bits_def)
  have "bit (mb_bytes m0 ! j) 0 = bit (mb_bytes m' ! j) 0" if j: "j < 8 * unat raw" for j
  proof -
    have "bit (mb_bytes m0 ! j) 0 = bit (pk_pts (ct_data ct0 ! (bit_positions k ct0 ! j))) 0"
      using j assms(1) by (simp add: m0(4) keeps_bits_def bit_pts_byte)
    also have "\<dots> = bit (pk_pts (ps ! (bit_positions k ct ! j))) 0" using j assms(1) by (simp add: keeps_bits_def)
    also have "\<dots> = bit (mb_bytes m' ! j) 0" using j l assms(2) by (simp add: bits_put_def bit_set_lsb)
    finally show ?thesis .
  qed
  with m0(1-3) show ?thesis by blast
qed

text \<open>The packets themselves keep the bits, when the answer about B frames is the same or does not matter.\<close>

lemma keeps_bits_same:
  assumes "container_ok types ct" "bits_put k ct bs ps" "container_ok types ct0" "ct_data ct0 = ps"
      and "k = MPEG \<longrightarrow> ct_has_b_frames ct0 = ct_has_b_frames ct" "sound_fits k raw ct" "8 * unat raw \<le> length (bit_positions k ct)"
  shows "keeps_bits k raw ct ps ct0 \<and> CalculateCapacity k ct0 = CalculateCapacity k ct"
proof -
  have sp: "bits_put k ct bs (ct_data ct0)" using assms(2,4) by simp
  note pos = saved_positions [OF assms(1,3) sp assms(5)]
  have "ct_stream_data ct0 = ct_stream_data ct" using saved_streams [OF assms(1,3)] bits_put_high [OF sp] by simp
  then have "sound_fits k raw ct0" using assms(6) pos(2) by (auto simp: sound_fits_def)
  then show ?thesis using pos(1,3) assms(4,7) by (simp add: keeps_bits_def)
qed

lemma video_save_run:
  assumes "cf_in_use p e a c" "st_ok a w" "container_ok types ct" "cf_raw_capacity c = CalculateCapacity k ct"
      and "sound_fits k (cf_raw_capacity c) ct"
  shows "\<exists>c2 b ps. Video_SaveFile k C V ((c, w), ct) = on_ct (CT_Save V) ((c2, w), ct\<lparr>ct_data := ps\<rparr>) \<and> cf_file c2 = cf_file c \<and>
           bits_put k ct (mb_bytes b) ps \<and>
           (\<forall>ct0. keeps_bits k (cf_raw_capacity c) ct ps ct0 \<longrightarrow> video_loads k C p e a c w ct0)"
proof -
  note u = in_use_facts [OF assms(1)]
  let ?n = "Perm_GetSize p" and ?raw = "cf_raw_capacity c" and ?P = "bit_positions k ct"
  let ?N = "8 * unat ?raw"
  have N: "?N < 2 ^ 64" "unat (?raw * 8) = ?N" "?N \<le> length ?P"
    using u(3) times_8 [of ?raw] capacity_positions [OF assms(3), of k] assms(4) by simp_all
  obtain m where m: "LoadBuffer k C ?raw ct = Inr m" "mb_ok m" "mb_size m = ?raw * 8"
      "mb_bytes m = map (\<lambda>i. pts_byte (ct_data ct ! i)) (take ?N ?P)"
    using LoadBuffer_run [OF u(2) N(1,3) assms(5), of C] by blast
  have valid: "mb_ok m \<and> unat ?n \<le> unat (mb_size m) \<and> mb_size m = ?raw * 8" using m u(4) N(2) by simp
  obtain c1 c2 m' where s: "cf_gather (\<lambda>i. MB_index m (word_of_nat i)) (unat ?n) (cf_reset c, w) = ((c1, w), Inr ())"
      "CF_EmbedBufferUsingEncoder C (c1, w) = ((c2, w), Inr 0)" "cf_same (cf_reset c) c2"
      "mb_scatter c2 (unat ?n) m = Inr m'" "mb_ok m' \<and> unat ?n \<le> unat (mb_size m') \<and> mb_size m' = ?raw * 8"
      "bits_ready p c2" "cf_room c2" "cf_decodes e c2 (cf_data a w c)"
    using bmp.save_run [OF assms(1,2) refl valid, of C] by blast
  note f = cf_same_fields [OF s(3)]
  have pa: "cf_perm_after C c p" "c\<lparr>cf_permutation := Some p\<rparr> = c" using cf_perm_after_self [OF assms(1), of C] by simp_all
  have prep: "Video_prepare k C ((c, w), ct) = (((c1, w), ct), Inr (m, ?n))"
    using Video_prepare_run [OF m(1) pa(1), of e a w c1] s(1) pa(2) assms(1) by simp
  have sz: "unat (mb_size m') = ?N" using s(5) N(2) by simp
  have fit: "0 < unat (mb_size m')" "unat (mb_size m') \<le> length ?P"
      "k = MPEG \<longrightarrow> ct_stream_data ct AudioStream = [] \<or> length (video_positions ct) < unat (mb_size m')"
    using sz u(2) N(3) assms(5) by (auto simp: sound_fits_def)
  obtain ps where ps: "bits_put k ct (mb_bytes m') ps"
      "SaveBuffer k V m' (ct, w_files w) = CT_Save V (ct\<lparr>ct_data := ps\<rparr>, w_files w)"
    using SaveBuffer_run [OF _ fit(1,2) assms(3) fit(3), of V "w_files w"] s(5) by blast
  have save: "Video_SaveFile k C V ((c, w), ct) = on_ct (CT_Save V) ((c2, w), ct\<lparr>ct_data := ps\<rparr>)"
    using prep s(2,4) ps(2) by (simp add: Video_SaveFile_def run_simps) (simp add: on_ct_def)
  have "video_loads k C p e a c w ct0" if ct0: "keeps_bits k ?raw ct ps ct0" for ct0
  proof -
    have ok: "mb_ok m'" "mb_size m' = ?raw * 8" "mb_size m' = mb_size m" using s(5) m(3) by simp_all
    obtain m0 where m0: "LoadBuffer k C ?raw ct0 = Inr m0" "mb_ok m0" "mb_size m0 = ?raw * 8"
        "\<forall>j < ?N. bit (mb_bytes m0 ! j) 0 = bit (mb_bytes m' ! j) 0"
      using keeps_bits_read [OF ct0 ps(1) ok(1,2) u(2) N(1), of C] by blast
    show "video_loads k C p e a c w ct0"
    proof (rule video_load_run [OF assms(1) valid s(4,6,7,8,3) m0(1) ok(1,3) m0(2)])
      show "mb_size m0 = mb_size m" using m0(3) m(3) by simp
      show "bit (mb_bytes m0 ! i) 0 = bit (mb_bytes m' ! i) 0" if "i < unat ?n" for i using m0(4) u(4) that by simp
    qed
  qed
  with save ps(1) f(8) show ?thesis by fastforce
qed

text \<open>The packets \<open>SaveFile\<close> writes: those of the file, but for the lowest bits of the presentation times and the decoding times.\<close>

definition packets_like :: "packet list \<Rightarrow> packet list \<Rightarrow> bool" where
  "packets_like ps qs \<longleftrightarrow>
     list_all2 (\<lambda>p q. packet_high p = packet_high q \<and> (pk_dts p = pk_dts q \<or> pk_dts p = pk_pts p)) ps qs"

lemma bits_put_like: "bits_put k ct bs ps \<Longrightarrow> packets_like ps (ct_data ct)"
  by (auto simp: packets_like_def bits_put_def list_all2_conv_all_nth)

text \<open>When the file written delivers the packets it was given, it can be opened again.\<close>

lemma saved_file_opens:
  assumes "container_ok types ct" "packets_like ps (ct_data ct)" "sc_ffprobe_path sc = []" "\<forall>q \<in> set (ct_data ct). time_gap q < 2 ^ 63 - 1"
      and "v_open V f" "v_streams V f = Some types" "v_frames V f = ps"
  shows "\<exists>ct0. video_container V sc f name = Inr ct0 \<and> container_ok types ct0 \<and> ct_data ct0 = ps \<and>
           ct_has_b_frames ct0 = b_frames_guess types ps"
proof -
  have good: "pk_stream_index q < length types \<and> time_gap q < 2 ^ 63" if q: "q \<in> set ps" for q
  proof -
    obtain q0 where o: "packet_high q = packet_high q0" "pk_dts q = pk_dts q0 \<or> pk_dts q = pk_pts q" "q0 \<in> set (ct_data ct)"
      using assms(2) q unfolding packets_like_def list_all2_conv_all_nth in_set_conv_nth by metis
    then have "pk_stream_index q0 < length types" "time_gap q0 < 2 ^ 63 - 1" using assms(1,4) by (auto simp: container_ok_def)
    then show ?thesis using high_index [OF o(1)] time_gap_saved [OF o(1,2)] by simp
  qed
  have "video_container V sc f name = load_packets True ps ((ct_empty name)\<lparr>ct_input := Some types\<rparr>)"
    using assms(5-7) by (simp add: video_container_eq [OF assms(3)])
  moreover obtain ct0 where l0: "load_packets True ps ((ct_empty name)\<lparr>ct_input := Some types\<rparr>) = Inr ct0"
    using load_packets_returns [OF container_ok_empty, of ps types name] good by blast
  ultimately show ?thesis using load_packets_ok [OF l0 container_ok_empty] by (simp add: ct_empty_def)
qed

text \<open>What the code relies on: the output can be opened and takes the streams of the input.\<close>

definition muxer_accepts :: "venv \<Rightarrow> container \<Rightarrow> bool" where
  "muxer_accepts V ct \<longleftrightarrow>
     v_alloc V (ct_file_name ct) \<and> v_create V (ct_file_name ct) \<and>
     (case ct_input ct of
        None \<Rightarrow> False
      | Some types \<Rightarrow> (\<forall>i < length types. v_new_stream V i) \<and> list_all (v_copy_parameters V) types \<and> v_header V types)"

lemma Video_SaveFile_correct:
  assumes "cf_in_use p e a c" "st_ok a w"
      and "video_container V sc content (GetAbsolutePath (cf_file c)) = Inr ct"
      and "cf_raw_capacity c = CalculateCapacity k ct" "sound_fits k (cf_raw_capacity c) ct" "muxer_accepts V ct"
  shows "\<exists>types bs ps. container_ok types ct \<and> bits_put k ct bs ps \<and>
           (if list_all (v_write V) ps
            then (\<exists>c2 ct2. ct_input ct2 = None \<and> Video_SaveFile k C V ((c, w), ct) =
                    (((c2, w\<lparr>w_files := set_content (cf_file c) (v_file V types ps True) (w_files w)\<rparr>), ct2), Inr ())) \<and>
                 (\<forall>ct0. keeps_bits k (cf_raw_capacity c) ct ps ct0 \<longrightarrow> video_loads k C p e a c w ct0)
            else \<exists>s. Video_SaveFile k C V ((c, w), ct) = (s, Inl (IoError (GetAbsolutePath (cf_file c)))))"
proof -
  obtain types where ct: "container_ok types ct" "ct_file_name ct = GetAbsolutePath (cf_file c)"
    using video_container_ok [OF assms(3)] by blast
  have i: "ct_input ct = Some types" using ct(1) by (simp add: container_ok_def)
  obtain c2 b ps where s: "Video_SaveFile k C V ((c, w), ct) = on_ct (CT_Save V) ((c2, w), ct\<lparr>ct_data := ps\<rparr>)" "cf_file c2 = cf_file c"
      "bits_put k ct (mb_bytes b) ps" "\<And>ct0. keeps_bits k (cf_raw_capacity c) ct ps ct0 \<Longrightarrow> video_loads k C p e a c w ct0"
    using video_save_run [OF assms(1,2) ct(1) assms(4,5), of C V] by blast
  have m: "v_alloc V (ct_file_name (ct\<lparr>ct_data := ps\<rparr>))" "ct_input (ct\<lparr>ct_data := ps\<rparr>) = Some types"
      "add_streams V (ct_file_name (ct\<lparr>ct_data := ps\<rparr>)) 0 types = Inr ()" "v_create V (ct_file_name (ct\<lparr>ct_data := ps\<rparr>))" "v_header V types"
    using assms(6) i by (simp_all add: muxer_accepts_def add_streams_Inr)
  note save = CT_Save_run [OF m, of "w_files w"]
  show ?thesis
  proof (cases "list_all (v_write V) ps")
    case False
    then have "\<exists>s. Video_SaveFile k C V ((c, w), ct) = (s, Inl (IoError (GetAbsolutePath (cf_file c))))"
      using save s(1) ct(2) by (auto simp: on_ct_def)
    with False ct(1) s(3) show ?thesis by meson
  next
    case True
    with save obtain ct2 where "CT_Save V (ct\<lparr>ct_data := ps\<rparr>, w_files w) =
        ((ct2, (w_files w)(GetAbsolutePath (cf_file c) \<mapsto> v_file V types ps True)), Inr ())" "ct_input ct2 = None" by (auto simp: ct(2))
    then have "\<exists>c2 ct2. ct_input ct2 = None \<and> Video_SaveFile k C V ((c, w), ct) =
        (((c2, w\<lparr>w_files := set_content (cf_file c) (v_file V types ps True) (w_files w)\<rparr>), ct2), Inr ())"
      using s(1) by (auto simp: on_ct_def set_content_def)
    then show ?thesis using True s(3,4) ct(1) by meson
  qed
qed

section \<open>A video\<close>

text \<open>
  A format for the witnesses: a packet is written as the 64 bits of its two time stamps, one byte each, and everything belongs to one
  video stream.
\<close>

definition bits_of :: "u64 \<Rightarrow> bytes" where
  "bits_of x = map (\<lambda>k. of_bool (bit x k)) [0..<64]"

definition of_bits :: "bytes \<Rightarrow> u64" where
  "of_bits bs = horner_sum of_bool 2 (map (\<lambda>v. v = 1) bs)"

definition pack :: "packet list \<Rightarrow> bytes" where
  "pack ps = concat (map (\<lambda>p. bits_of (pk_pts p) @ bits_of (pk_dts p)) ps)"

primrec unpack :: "nat \<Rightarrow> bytes \<Rightarrow> packet list" where
  "unpack 0 bs = []"
| "unpack (Suc n) bs =
     \<lparr>pk_pts = of_bits (take 64 bs), pk_dts = of_bits (take 64 (drop 64 bs)), pk_stream_index = 0, pk_data = []\<rparr> # unpack n (drop 128 bs)"

definition venv0 :: venv where
  "venv0 = \<lparr>v_open = (\<lambda>_. True), v_streams = (\<lambda>_. Some [0]), v_frames = (\<lambda>bs. unpack (length bs div 128) bs), v_alloc = (\<lambda>_. True),
            v_new_stream = (\<lambda>_. True), v_copy_parameters = (\<lambda>_. True), v_create = (\<lambda>_. True), v_header = (\<lambda>_. True), v_write = (\<lambda>_. True),
            v_file = (\<lambda>types ps done'. pack ps), v_unref = \<lparr>pk_pts = 2 ^ 63, pk_dts = 2 ^ 63, pk_stream_index = 0, pk_data = []\<rparr>,
            v_ffprobe = (\<lambda>_. (1, []))\<rparr>"

definition packet0 :: packet where
  "packet0 = \<lparr>pk_pts = 0, pk_dts = 0, pk_stream_index = 0, pk_data = []\<rparr>"

definition video0 :: bytes where
  "video0 = pack (replicate 40 packet0)"

definition vid0 :: carrier where
  "vid0 = bmp0\<lparr>cf_file := File ''a.mp4''\<rparr>"

lemma of_bits_of: "of_bits (bits_of x) = x"
  by (simp add: of_bits_def bits_of_def comp_def horner_sum_bit_eq_take_bit take_bit_word_eq_self)

lemma length_bits_of [simp]: "length (bits_of x) = 64"
  by (simp add: bits_of_def)

lemma length_pack [simp]: "length (pack ps) = 128 * length ps"
  by (induction ps) (simp_all add: pack_def)

lemma unpack_pack: "\<forall>p \<in> set ps. pk_stream_index p = 0 \<and> pk_data p = [] \<Longrightarrow> unpack (length ps) (pack ps) = ps"
proof (induction ps)
  case (Cons p ps)
  have "pack (p # ps) = bits_of (pk_pts p) @ bits_of (pk_dts p) @ pack ps" by (simp add: pack_def)
  then show ?case using Cons by (cases p) (simp add: of_bits_of)
qed simp

lemma packets0_kept:
  assumes "packets_like ps (replicate n packet0)"
  shows "unpack (length (pack ps) div 128) (pack ps) = ps"
proof -
  have "pk_stream_index q = 0 \<and> pk_data q = []" if "q \<in> set ps" for q
  proof -
    have "packet_high q = packet_high packet0"
      using assms that by (auto simp: packets_like_def list_all2_conv_all_nth in_set_conv_nth)
    then show ?thesis using high_index [of q packet0] by (auto simp: packet0_def packet_high_def dest: arg_cong [of _ _ pk_data])
  qed
  then show ?thesis using unpack_pack [of ps] by simp
qed

lemma video0_container: "\<exists>ct. video_container venv0 StegoConfig video0 ''a.mp4'' = Inr ct"
proof -
  have f: "v_frames venv0 video0 = replicate 40 packet0"
    using unpack_pack [of "replicate 40 packet0"] by (simp add: venv0_def video0_def packet0_def)
  have "video_container venv0 StegoConfig video0 ''a.mp4'' =
      load_packets True (replicate 40 packet0) ((ct_empty ''a.mp4'')\<lparr>ct_input := Some [0]\<rparr>)"
    using video_container_eq [of StegoConfig venv0 video0 "''a.mp4''"] unfolding f by (simp add: venv0_def StegoConfig_def)
  then show ?thesis using load_packets_returns [OF container_ok_empty, of "replicate 40 packet0" "[0]" "''a.mp4''"]
    by (simp add: packet0_def time_gap_def)
qed

lemma video0_facts:
  assumes "video_container venv0 StegoConfig video0 ''a.mp4'' = Inr ct"
  shows "cf_in_use perm40 enc1 0 vid0" "st_ok 0 world0"
    "video_container venv0 StegoConfig video0 (GetAbsolutePath (cf_file vid0)) = Inr ct" "cf_raw_capacity vid0 = CalculateCapacity MPEG ct"
    "sound_fits MPEG (cf_raw_capacity vid0) ct" "muxer_accepts venv0 ct"
    "\<forall>q \<in> set (ct_data ct). time_gap q < 2 ^ 63 - 1" "\<not> ct_has_b_frames ct" "container_ok [0] ct" "ct_data ct = replicate 40 packet0"
proof -
  have e: "cf_permutation vid0 = cf_permutation bmp0" "cf_encoder vid0 = cf_encoder bmp0" "cf_codeword_block_size vid0 = cf_codeword_block_size bmp0"
      "cf_data_block_size vid0 = cf_data_block_size bmp0" "cf_storage vid0 = cf_storage bmp0" "cf_buffer vid0 = cf_buffer bmp0"
      "cf_blocks_used vid0 = cf_blocks_used bmp0" "cf_raw_capacity vid0 = cf_raw_capacity bmp0" "cf_offset vid0 = cf_offset bmp0"
    by (simp_all add: vid0_def)
  show "cf_in_use perm40 enc1 0 vid0" using bmp0_in_use unfolding cf_in_use_def cf_encodes_def cf_fits_def e .
  show "st_ok 0 world0" by (rule bmp0_ready)
  have p: "sc_ffprobe_path StegoConfig = []" by (simp add: StegoConfig_def)
  show "video_container venv0 StegoConfig video0 (GetAbsolutePath (cf_file vid0)) = Inr ct"
    using assms by (simp add: vid0_def GetAbsolutePath_def File_def)
  obtain types where t: "container_ok types ct" "v_streams venv0 video0 = Some types" "ct_data ct = v_frames venv0 video0"
      "ct_has_b_frames ct = b_frames_guess types (ct_data ct)"
    using video_container_ok [OF assms] p by blast
  have d: "ct_data ct = replicate 40 packet0" "types = [0]"
    using t(2,3) unpack_pack [of "replicate 40 packet0"] by (simp_all add: venv0_def video0_def packet0_def)
  have b: "\<not> ct_has_b_frames ct" using t(4) by (simp add: d b_frames_guess_def packet0_def time_gap_def)
  have s: "ct_stream_data ct AudioStream = []" "ct_stream_data ct VideoStream = [0..<40]"
    using t(1) by (auto simp: container_ok_def d packet0_def GetStreamType_def intro: filter_True)
  have "length (bit_positions MPEG ct) = 40" by (simp add: bit_positions_def video_positions_def b s)
  then show "cf_raw_capacity vid0 = CalculateCapacity MPEG ct" by (simp add: CalculateCapacity_positions vid0_def bmp0_def)
  show "sound_fits MPEG (cf_raw_capacity vid0) ct" by (simp add: sound_fits_def s)
  show "\<forall>q \<in> set (ct_data ct). time_gap q < 2 ^ 63 - 1" by (simp add: d packet0_def time_gap_def)
  show "muxer_accepts venv0 ct" using t(1) by (simp add: muxer_accepts_def container_ok_def d venv0_def)
  show "\<not> ct_has_b_frames ct" "container_ok [0] ct" "ct_data ct = replicate 40 packet0" using b t(1) d by simp_all
qed

section \<open>After the file was saved\<close>

lemma CT_Save_done:
  assumes "CT_Save V (ct, fs) = ((ct', fs'), Inr u)"
  shows "ct_input ct \<noteq> None \<and> ct_input ct' = None \<and> ct_data ct' = replicate (length (ct_data ct)) (v_unref V)"
proof -
  let ?n = "ct_file_name ct"
  obtain types where t: "ct_input ct = Some types" "v_alloc V ?n" "add_streams V ?n 0 types = Inr ()" "v_create V ?n" "v_header V types"
    using assms by (auto simp: CT_Save_def bindM_direct seqM_eq throwM_def askM_def Let_def split: if_splits option.splits)
  have "list_all (v_write V) (ct_data ct)"
    using CT_Save_run [OF t(2,1,3,4,5), of fs] assms by (auto split: if_splits)
  moreover have z: "0 + length [0..<length (ct_data ct)] = length (ct_data ct)" by simp
  ultimately obtain fs1 where "write_packets V types [0..<length (ct_data ct)] [] (ct, (fs(?n \<mapsto> []))(?n \<mapsto> v_file V types [] False)) =
      ((ct\<lparr>ct_data := take 0 (ct_data ct) @ replicate (length [0..<length (ct_data ct)]) (v_unref V)\<rparr>, fs1), Inr ())"
    using write_packets_run [OF z refl, of V types "[]"] by fastforce
  then have "ct' = ct\<lparr>ct_data := replicate (length (ct_data ct)) (v_unref V), ct_input := None\<rparr>"
    using assms t by (simp add: CT_Save_def run_simps put_output_def seqM_def CT_Close_def Let_def)
  then show ?thesis using t(1) by simp
qed


lemma on_cf_Inr: "on_cf f s = (t, Inr x) \<Longrightarrow> snd t = snd s"
  by (auto simp: on_cf_def split: prod.splits)

lemma Video_prepare_Inr: "Video_prepare k C s = (t, Inr x) \<Longrightarrow> snd t = snd s"
  by (auto simp: Video_prepare_def bindM_direct bindM_eq seqM_eq run_simps(1) dest!: on_cf_Inr split: sum.splits)

lemma length_mkv_put: "mkv_put b ps off = (ps', r) \<Longrightarrow> length ps' = length ps"
  by (induction ps arbitrary: off ps') (auto split: sum.splits if_splits prod.splits)

lemma length_mpeg_put: "mpeg_put b filtered upd is (ps, off) = ((ps', off'), r) \<Longrightarrow> length ps' = length ps"
  by (induction "is" arbitrary: ps off) (auto split: sum.splits if_splits prod.splits)

lemma SaveBuffer_Inr:
  assumes "SaveBuffer k V b (ct, fs) = (s, Inr u)"
  shows "\<exists>ps. length ps = length (ct_data ct) \<and> CT_Save V (ct\<lparr>ct_data := ps\<rparr>, fs) = (s, Inr u)"
proof (cases k)
  case MKV
  then show ?thesis using assms
    by (auto simp: SaveBuffer_def MKV_SaveBuffer_def seqM_eq dest: length_mkv_put split: prod.splits)
next
  case MPEG
  then show ?thesis using assms
    by (auto simp: SaveBuffer_def MPEG_SaveBuffer_def seqM_eq split: prod.splits sum.splits) (metis length_mpeg_put)+
qed

lemma Video_SaveFile_Inr:
  assumes "Video_SaveFile k C V s = (s', Inr u)"
  shows "\<exists>ps fs fs'. length ps = length (ct_data (snd s)) \<and> CT_Save V ((snd s)\<lparr>ct_data := ps\<rparr>, fs) = ((snd s', fs'), Inr u)"
proof -
  obtain t b where t: "snd t = snd s" "on_ct (SaveBuffer k V b) t = (s', Inr u)"
    using assms
    by (auto simp: Video_SaveFile_def bindM_eq seqM_eq run_simps(5) split: prod.splits dest!: Video_prepare_Inr on_cf_Inr)
  then obtain ct' fs' where "SaveBuffer k V b (snd s, w_files (snd (fst t))) = ((ct', fs'), Inr u)" "snd s' = ct'"
    by (auto simp: on_ct_def split: prod.splits)
  from SaveBuffer_Inr [OF this(1)] this(2) show ?thesis by metis
qed

text \<open>
  C20. A video is saved once.  When \<open>SaveFile\<close> has returned, the input is closed and every packet is the empty one
  \<open>av_packet_unref\<close> leaves; so what \<open>LoadFile\<close> would read now are the time stamps of empty packets, and a second
  \<open>SaveFile\<close> of the same object never returns normally, whatever \<open>ffmpeg\<close> does: if nothing fails before, it
  follows the null pointer to the closed input.
\<close>

theorem video_saves_once:
  assumes "Video_SaveFile k C V s = (s', Inr ())"
  shows "ct_input (snd s') = None \<and> ct_data (snd s') = replicate (length (ct_data (snd s))) (v_unref V) \<and>
         (\<forall>C' V' r u. Video_SaveFile k C' V' s' \<noteq> (r, Inr u))"
proof -
  obtain ps fs fs' where s: "length ps = length (ct_data (snd s))" "CT_Save V ((snd s)\<lparr>ct_data := ps\<rparr>, fs) = ((snd s', fs'), Inr ())"
    using Video_SaveFile_Inr [OF assms] by blast
  note d = CT_Save_done [OF s(2)]
  have "Video_SaveFile k C' V' s' \<noteq> (r, Inr u)" for C' V' r u
    using Video_SaveFile_Inr [of k C' V' s' r u] CT_Save_done d by fastforce
  with d s(1) show ?thesis by simp
qed

theorem video_saves_once_witness:
  "\<exists>ct s. Video_SaveFile MPEG cenv0 venv0 ((vid0, world0), ct) = (s, Inr ()) \<and> length (ct_data (snd s)) = 40 \<and>
     (\<forall>C' V' r u. Video_SaveFile MPEG C' V' s \<noteq> (r, Inr u))"
proof -
  obtain ct where ct: "video_container venv0 StegoConfig video0 ''a.mp4'' = Inr ct" using video0_container by blast
  note f = video0_facts [OF ct]
  obtain types ps where "if list_all (v_write venv0) ps
       then (\<exists>c2 ct2. ct_input ct2 = None \<and> Video_SaveFile MPEG cenv0 venv0 ((vid0, world0), ct) =
            (((c2, world0\<lparr>w_files := set_content (cf_file vid0) (v_file venv0 types ps True) (w_files world0)\<rparr>), ct2), Inr ())) \<and>
         (\<forall>ct0. keeps_bits MPEG (cf_raw_capacity vid0) ct ps ct0 \<longrightarrow> video_loads MPEG cenv0 perm40 enc1 0 vid0 world0 ct0)
       else \<exists>s. Video_SaveFile MPEG cenv0 venv0 ((vid0, world0), ct) = (s, Inl (IoError (GetAbsolutePath (cf_file vid0))))"
    using Video_SaveFile_correct [OF f(1-6), of cenv0] by blast
  moreover have "list_all (v_write venv0) ps" by (simp add: venv0_def list_all_iff)
  ultimately obtain s where s: "Video_SaveFile MPEG cenv0 venv0 ((vid0, world0), ct) = (s, Inr ())" by auto
  have "length (ct_data ct) = 40" using f(10) by simp
  with video_saves_once [OF s] s show ?thesis by (intro exI [of _ ct] exI [of _ s]) simp
qed

text \<open>
  C19. \<open>LoadBuffer\<close> of a file with video and sound leaves its buffer when the video packets alone fill it: the loop over
  the video packets ends on the full buffer, and the loop over the sound writes one byte beyond it.  With \<open>n\<close> usable
  packets this happens exactly when there are packets of sound, but not more than the remainder of \<open>n\<close> by 8; then the file
  can be neither loaded nor saved.  Otherwise the buffer takes the lowest bytes of the time stamps.
\<close>

theorem mpeg_load_overflow:
  assumes "n = length (bit_positions MPEG ct)" "8 \<le> n" "n < 2 ^ 64 - 8" "cf_raw_capacity c = CalculateCapacity MPEG ct"
  shows "if ct_stream_data ct AudioStream \<noteq> [] \<and> length (ct_stream_data ct AudioStream) \<le> n mod 8
         then Video_LoadFile MPEG C ((c, w), ct) = (((c, w), ct), Inl OutOfRange) \<and>
              Video_SaveFile MPEG C V ((c, w), ct) = (((c, w), ct), Inl OutOfRange)
         else \<exists>b. LoadBuffer MPEG C (cf_raw_capacity c) ct = Inr b \<and>
                  mb_bytes b = map (\<lambda>i. pts_byte (ct_data ct ! i)) (take (n - n mod 8) (bit_positions MPEG ct))"
proof -
  let ?a = "ct_stream_data ct AudioStream" and ?raw = "cf_raw_capacity c"
  have r: "unat ?raw = n div 8" using capacity_div [of n] assms by (simp add: CalculateCapacity_positions)
  have R: "0 < unat ?raw" "8 * unat ?raw = n - n mod 8" "8 * unat ?raw < 2 ^ 64" "8 * unat ?raw \<le> n"
    using r assms(2,3) by (simp_all add: minus_mod_eq_mult_div [symmetric])
  have n: "n = length (video_positions ct) + length ?a" using assms(1) by (simp add: bit_positions_def)
  have f: "sound_fits MPEG ?raw ct \<longleftrightarrow> \<not> (?a \<noteq> [] \<and> length ?a \<le> n mod 8)"
    using R(2,4) n by (auto simp: sound_fits_def)
  show ?thesis
  proof (cases "sound_fits MPEG ?raw ct")
    case True
    then show ?thesis using LoadBuffer_run [OF R(1,3) _ True, of C] R(4) assms(1) f by (auto simp: R(2))
  next
    case False
    have "LoadBuffer MPEG C ?raw ct = Inl OutOfRange" by (rule LoadBuffer_overflow [OF R(1,3) False])
    then have "Video_prepare MPEG C ((c, w), ct) = (((c, w), ct), Inl OutOfRange)" by (simp add: Video_prepare_def run_simps)
    then show ?thesis using False f by (simp add: Video_LoadFile_def Video_SaveFile_def run_simps)
  qed
qed

text \<open>Eight packets of video and one of sound.\<close>

definition nine_packets :: container where
  "nine_packets = (ct_empty ''a.mp4'')\<lparr>ct_input := Some [0, 1], ct_data := replicate 8 packet0 @ [packet0\<lparr>pk_stream_index := 1\<rparr>],
     ct_stream_data := (\<lambda>t. if t = VideoStream then [0..<8] else if t = AudioStream then [8] else [])\<rparr>"

theorem mpeg_load_overflow_witness:
  "Video_LoadFile MPEG cenv0 ((vid0\<lparr>cf_raw_capacity := 1\<rparr>, world0), nine_packets) =
     (((vid0\<lparr>cf_raw_capacity := 1\<rparr>, world0), nine_packets), Inl OutOfRange)"
proof -
  have n: "9 = length (bit_positions MPEG nine_packets)" "ct_stream_data nine_packets AudioStream = [8]"
    by (simp_all add: bit_positions_def video_positions_def nine_packets_def ct_empty_def)
  have c: "cf_raw_capacity (vid0\<lparr>cf_raw_capacity := 1\<rparr>) = CalculateCapacity MPEG nine_packets"
    by (simp add: CalculateCapacity_positions n(1) [symmetric])
  show ?thesis using mpeg_load_overflow [OF n(1) _ _ c, of cenv0 world0 venv0] by (simp add: n(2))
qed



end
