(* ===== verification/Context_Fitness.thy ===== *)
theory Context_Fitness
  imports Carrier_Roundtrip
begin

text \<open>
  \<^verbatim>\<open>src/fitness/context_fitness.cc\<close>: which pixels of a grey picture may carry a bit, by the pixels around them.  Nothing in
  the program builds one; the class is complete nevertheless, and shows what its \<open>forward_list\<close> does to it.
\<close>

section \<open>Squares of pixels\<close>

text \<open>\<open>validity <<= !(a - b)\<close> on an \<open>unsigned char\<close>.\<close>

definition shift_if_equal :: "u8 \<Rightarrow> u8 \<Rightarrow> u8 \<Rightarrow> u8" where
  "shift_if_equal a b validity = (if a = b then push_bit 1 validity else validity)"

definition CheckSubboxValidity :: "bytes \<Rightarrow> bool" where
  "CheckSubboxValidity subbox =
     (let validity = 1;
          validity = shift_if_equal (subbox ! 0) (subbox ! 1) validity;
          validity = shift_if_equal (subbox ! 0) (subbox ! 2) validity;
          validity = shift_if_equal (subbox ! 0) (subbox ! 3) validity;
          validity = shift_if_equal (subbox ! 1) (subbox ! 2) validity;
          validity = shift_if_equal (subbox ! 1) (subbox ! 3) validity;
          validity = shift_if_equal (subbox ! 2) (subbox ! 3) validity
      in \<not> validity > 2)"

text \<open>The four squares of a box of nine pixels around its middle.\<close>

definition subboxes :: "bytes \<Rightarrow> u8 \<Rightarrow> bytes list" where
  "subboxes box central_pixel =
     [[box ! 0, box ! 1, box ! 3, central_pixel], [box ! 1, box ! 2, central_pixel, box ! 5],
      [box ! 3, central_pixel, box ! 6, box ! 7], [central_pixel, box ! 5, box ! 7, box ! 8]]"

definition CheckValidity :: "bytes \<Rightarrow> bool" where
  "CheckValidity box =
     (let central_pixel = box ! 4 AND 0xFE;
          zero = list_all CheckSubboxValidity (subboxes box central_pixel);
          central_pixel = central_pixel OR 0x01;
          one = list_all CheckSubboxValidity (subboxes box central_pixel)
      in zero \<and> one)"

section \<open>Selecting and inserting\<close>

text \<open>The places the two loops look at, in 64 bits; all of them are computed before the pixels are read.\<close>

definition box_indices :: "carrier \<Rightarrow> u64 list" where
  "box_indices file' =
     (let width = ucast (cf_width file') :: u64; i_max = unat (cf_height file' div 3); j_max = unat (cf_width file' div 3)
      in concat (map (\<lambda>i. map (\<lambda>j. (1 + 3 * word_of_nat i) * width + (2 + 3 * word_of_nat j) - 1) [0..<j_max]) [0..<i_max]))"

definition read_box :: "carrier \<Rightarrow> mbuf \<Rightarrow> u64 \<Rightarrow> bytes res" where
  "read_box file' inb index =
     (let width = ucast (cf_width file') :: u64
      in foldR (\<lambda>k box. bindR (MB_index inb k) (\<lambda>v. Inr (box @ [v])))
           [index - width - 1, index - width, index - width + 1, index - 1, index, index + 1,
            index + width - 1, index + width, index + width + 1] [])"

text \<open>
  \<open>selected_bits_\<close> is a \<open>forward_list\<close>.  Its first element is put with \<open>push_front\<close>; every other one is inserted after
  \<open>end()\<close>, which no iterator may point to.
\<close>

definition select_box :: "carrier \<Rightarrow> mbuf \<Rightarrow> u64 \<Rightarrow> u64 \<times> u64 list \<Rightarrow> (u64 \<times> u64 list) res" where
  "select_box file' inb index st =
     (case st of (counter, selected_bits) \<Rightarrow>
      bindR (read_box file' inb index) (\<lambda>box.
      if CheckValidity box
      then if selected_bits = [] then Inr (counter + 1, [index]) else Inl Undefined
      else Inr (counter, selected_bits)))"

text \<open>
  The loop after \<open>Resize\<close>.  \<open>*out = in[element]\<close> does not write a byte: the pixel is converted by the constructor that
  takes a size, and the buffer \<open>out\<close> points to is replaced by a new one of as many bytes.  \<open>++out\<close> then moves the pointer
  past this buffer (\<open>moved\<close> steps), where there is none.
\<close>

fun put_selected :: "(nat \<Rightarrow> u8) \<Rightarrow> (nat \<Rightarrow> u8) \<Rightarrow> mbuf \<Rightarrow> u64 list \<Rightarrow> nat \<Rightarrow> mbuf \<Rightarrow> mbuf res" where
  "put_selected garbage gen inb [] moved out = Inr out"
| "put_selected garbage gen inb (element # selected_bits) moved out =
     bindR (MB_index inb element) (\<lambda>v.
     if moved \<noteq> 0 then Inl Undefined
     else bindR (MB_move_assign gen out (MB_new_sized garbage (ucast v))) (\<lambda>(out, temporary).
          put_selected garbage gen inb selected_bits (moved + 1) out))"

text \<open>
  Both operations take the buffer of the caller; for a picture with colours they delete it and make a copy the caller
  never sees, so the buffer is gone.
\<close>

definition SelectBytes ::
  "(nat \<Rightarrow> u8) \<Rightarrow> (nat \<Rightarrow> u8) \<Rightarrow> carrier \<Rightarrow> mbuf \<Rightarrow> mbuf \<Rightarrow> u64 list \<Rightarrow> (u64 list \<times> mbuf option \<times> u64) res" where
  "SelectBytes garbage gen file' inb out selected_bits =
     (if cf_is_grayscale file'
      then bindR (foldR (select_box file' inb) (box_indices file') (0, selected_bits)) (\<lambda>(counter, selected_bits).
           bindR (MB_Resize gen counter out) (\<lambda>(out, freed).
           bindR (put_selected garbage gen inb selected_bits 0 out) (\<lambda>out.
           Inr (selected_bits, Some out, counter))))
      else Inr (selected_bits, None, mb_size inb))"

definition InsertBytes :: "(nat \<Rightarrow> u8) \<Rightarrow> carrier \<Rightarrow> mbuf \<Rightarrow> mbuf \<Rightarrow> u64 list \<Rightarrow> mbuf option res" where
  "InsertBytes gen file' inb out selected_bits =
     (if cf_is_grayscale file'
      then bindR (MB_Resize gen (mb_size inb) out) (\<lambda>(out, freed).
           bindR (foldR (\<lambda>element st. case st of (out, index) \<Rightarrow>
                    bindR (MB_index inb index) (\<lambda>v. bindR (MB_set out element v) (\<lambda>out. Inr (out, index + 1))))
                  selected_bits (out, 0)) (\<lambda>(out, index).
           Inr (Some out)))
      else Inr None)"

section \<open>What is selected\<close>

text \<open>The pairs of equal pixels of a square.\<close>

definition equal_pairs :: "bytes \<Rightarrow> nat" where
  "equal_pairs s = length (filter (\<lambda>(i, j). s ! i = s ! j) [(0, 1), (0, 2), (0, 3), (1, 2), (1, 3), (2, 3)])"

lemma CheckSubboxValidity_pairs: "CheckSubboxValidity s \<longleftrightarrow> equal_pairs s \<le> 1"
  by (simp add: CheckSubboxValidity_def equal_pairs_def shift_if_equal_def Let_def push_bit_eq_mult)

lemma lowest_bit_values: "(v :: u8) AND 0xFE = x AND 0xFE \<longleftrightarrow> v = x AND 0xFE \<or> v = (x AND 0xFE) OR 1"
proof
  assume e: "v AND 0xFE = x AND 0xFE"
  have "bit v k = bit x k" if "k < 8" "0 < k" for k
    using arg_cong [OF e, of "\<lambda>z. bit z k"] that(2) by (simp only: bit_and_iff bit_0xFE [OF that(1)]) simp
  then have "v = with_lsb x (bit v 0)" by (auto simp: byte_eq_bits bit_with_lsb)
  then show "v = x AND 0xFE \<or> v = (x AND 0xFE) OR 1" by (cases "bit v 0") (simp_all add: with_lsb_def bit_byte_def)
next
  have "with_lsb x b AND 0xFE = x AND 0xFE" for b
    by (auto simp: byte_eq_bits bit_and_iff bit_with_lsb bit_0xFE)
  from this [of False] this [of True]
  show "v = x AND 0xFE \<or> v = (x AND 0xFE) OR 1 \<Longrightarrow> v AND 0xFE = x AND 0xFE" by (auto simp: with_lsb_def bit_byte_def)
qed

lemma CheckValidity_values:
  "CheckValidity box \<longleftrightarrow> (\<forall>v. v AND 0xFE = box ! 4 AND 0xFE \<longrightarrow> (\<forall>s \<in> set (subboxes box v). equal_pairs s \<le> 1))"
  unfolding lowest_bit_values CheckValidity_def Let_def list_all_iff CheckSubboxValidity_pairs by auto

lemma CheckValidity_update:
  assumes "v AND 0xFE = box ! 4 AND 0xFE"
  shows "CheckValidity (box[4 := v]) = CheckValidity box"
proof -
  have "box[4 := v] ! 4 AND 0xFE = box ! 4 AND 0xFE" using assms by (cases "4 < length box") (simp_all add: list_update_beyond)
  moreover have "subboxes (box[4 := v]) u = subboxes box u" for u by (simp add: subboxes_def)
  ultimately show ?thesis by (simp add: CheckValidity_def Let_def)
qed

section \<open>The places in the picture\<close>

text \<open>The nine pixels around a place.\<close>

definition pixel_indices :: "carrier \<Rightarrow> u64 \<Rightarrow> u64 list" where
  "pixel_indices file' index =
     (let width = ucast (cf_width file') :: u64
      in [index - width - 1, index - width, index - width + 1, index - 1, index, index + 1,
          index + width - 1, index + width, index + width + 1])"

definition box_at :: "carrier \<Rightarrow> mbuf \<Rightarrow> u64 \<Rightarrow> bytes" where
  "box_at file' inb index = map (\<lambda>k. mb_bytes inb ! unat k) (pixel_indices file' index)"

lemma pixel_indices_inside:
  assumes "k \<in> set (box_indices file')" "x \<in> set (pixel_indices file' k)"
  shows "\<exists>n. x = word_of_nat n \<and> n < unat (cf_width file') * unat (cf_height file')"
proof -
  let ?w = "unat (cf_width file')" and ?h = "unat (cf_height file')"
  have W: "ucast (cf_width file') = (word_of_nat ?w :: u64)"
  proof -
    have "?w < 18446744073709551616" using unat_u32_less [of "cf_width file'"] by simp
    then show ?thesis by (simp only: word_eq_unat unat_ucast_u32_u64 unat_of_nat_u64)
  qed
  obtain i j where ij: "i < ?h div 3" "j < ?w div 3"
      "k = (1 + 3 * word_of_nat i) * word_of_nat ?w + (2 + 3 * word_of_nat j) - 1"
    using assms(1) unfolding box_indices_def Let_def W by (auto simp: unat_div)
  have "\<exists>a b. a \<le> 2 \<and> b \<le> 2 \<and> x = word_of_nat ((a + 3 * i) * ?w + (b + 3 * j))"
  proof -
    let ?n = "\<lambda>a b. word_of_nat ((a + 3 * i) * ?w + (b + 3 * j)) :: u64"
    have "[0..<3] = [0, 1, 2 :: nat]" by (simp add: upt_rec)
    then have "pixel_indices file' k = concat (map (\<lambda>a. map (?n a) [0..<3]) [0..<3])"
      unfolding pixel_indices_def Let_def W ij(3) by (simp add: algebra_simps)
    then have "x \<in> (\<Union>a \<in> {0..<3}. ?n a ` {0..<3})" using assms(2) by (simp only: set_concat set_map set_upt image_image)
    then obtain a b where "a \<in> {0..<3}" "b \<in> {0..<3}" "x = ?n a b" by blast
    then show ?thesis by (intro exI [of _ a] exI [of _ b]) simp
  qed
  then obtain a b where ab: "a \<le> 2" "b \<le> 2" "x = word_of_nat ((a + 3 * i) * ?w + (b + 3 * j))" by blast
  have "b + 3 * j < ?w" "Suc (a + 3 * i) \<le> ?h" using ab(1,2) ij(1,2) by linarith+
  then have "(a + 3 * i) * ?w + (b + 3 * j) < Suc (a + 3 * i) * ?w" by simp
  also have "\<dots> \<le> ?h * ?w" using \<open>Suc (a + 3 * i) \<le> ?h\<close> by (rule mult_le_mono1)
  finally have "(a + 3 * i) * ?w + (b + 3 * j) < ?w * ?h" by (simp only: mult.commute [of ?h])
  with ab(3) show ?thesis by blast
qed


lemma read_box_run:
  assumes "mb_ok inb" "unat (cf_width file') * unat (cf_height file') \<le> unat (mb_size inb)" "k \<in> set (box_indices file')"
  shows "read_box file' inb k = Inr (box_at file' inb k)"
proof -
  have read: "foldR (\<lambda>k box. bindR (MB_index inb k) (\<lambda>v. Inr (box @ [v]))) ks acc = Inr (acc @ map (\<lambda>k. mb_bytes inb ! unat k) ks)"
    if "\<forall>x \<in> set ks. unat x < unat (mb_size inb)" for ks acc
    using that by (induction ks arbitrary: acc) (simp_all add: MB_index_correct [OF assms(1)] res_simps)
  have "unat x < unat (mb_size inb)" if x: "x \<in> set (pixel_indices file' k)" for x
  proof -
    obtain n where n: "x = word_of_nat n" "n < unat (cf_width file') * unat (cf_height file')"
      using pixel_indices_inside [OF assms(3) x] by blast
    then have "n < unat (mb_size inb)" using assms(2) by simp
    then show ?thesis using n(1) unat_of_nat_below by simp
  qed
  then show ?thesis using read [of "pixel_indices file' k" "[]"] by (simp add: read_box_def box_at_def pixel_indices_def Let_def)
qed

text \<open>The loops, when they can reach every pixel.\<close>

lemma select_run:
  assumes "mb_ok inb" "unat (cf_width file') * unat (cf_height file') \<le> unat (mb_size inb)" "set ks \<subseteq> set (box_indices file')"
  shows "foldR (select_box file' inb) ks (n, sel) =
     (let valid = filter (\<lambda>k. CheckValidity (box_at file' inb k)) ks
      in if valid = [] then Inr (n, sel) else if sel = [] \<and> length valid = 1 then Inr (n + 1, valid) else Inl Undefined)"
  using assms(3)
proof (induction ks arbitrary: n sel)
  case (Cons k ks)
  then have r: "read_box file' inb k = Inr (box_at file' inb k)" using read_box_run [OF assms(1,2)] by simp
  show ?case
  proof (cases "CheckValidity (box_at file' inb k)")
    case True
    then show ?thesis using Cons.IH [of "n + 1" "[k]"] Cons.prems r
      by (cases sel) (auto simp: select_box_def res_simps Let_def)
  next
    case False
    then show ?thesis using Cons.IH [of n sel] Cons.prems r by (simp add: select_box_def res_simps)
  qed
qed simp

text \<open>The one selected pixel replaces the buffer by one of its value as size.\<close>

lemma put_selected_run:
  assumes "mb_ok inb" "unat k < unat (mb_size inb)" "mb_ok out" "unat (mb_size out) < 2 ^ 32"
  shows "put_selected garbage gen inb [k] 0 out = Inr (MB_new_sized garbage (ucast (mb_bytes inb ! unat k)))"
  using assms by (auto simp: MB_index_correct MB_move_assign_def MB_Destroy_eq MB_new_def mb_ok_def)

lemma box_middle: "k \<in> set (pixel_indices file' k)"
  by (simp add: pixel_indices_def Let_def)

text \<open>
  C40. \<open>ContextFitness\<close> takes a pixel when, with either value of its lowest bit, each of the four squares around it has at most
  one pair of equal pixels; so the choice does not depend on the bit that is stored there.  \<open>SelectBytes\<close> on a grey picture never reads outside
  it.  With no such pixel it empties \<open>out\<close>; with one it selects it, and \<open>out\<close> becomes a new buffer whose size is the value of the
  pixel; a second one is inserted after \<open>end()\<close> of a \<open>forward_list\<close>, which is undefined.
\<close>

theorem context_fitness_correct:
  assumes "mb_ok inb" "unat (cf_width file') * unat (cf_height file') \<le> unat (mb_size inb)" "cf_is_grayscale file'"
      and "mb_ok out" "unat (mb_size out) < 2 ^ 32"
  shows "(CheckValidity box \<longleftrightarrow> (\<forall>v. v AND 0xFE = box ! 4 AND 0xFE \<longrightarrow> (\<forall>s \<in> set (subboxes box v). equal_pairs s \<le> 1))) \<and>
         (\<forall>v. v AND 0xFE = box ! 4 AND 0xFE \<longrightarrow> CheckValidity (box[4 := v]) = CheckValidity box) \<and>
         SelectBytes garbage gen file' inb out [] =
           (case filter (\<lambda>k. CheckValidity (box_at file' inb k)) (box_indices file') of
              [] \<Rightarrow> Inr ([], Some (mb_resized 0 out), 0)
            | [k] \<Rightarrow> Inr ([k], Some (MB_new_sized garbage (ucast (mb_bytes inb ! unat k))), 1)
            | _ \<Rightarrow> Inl Undefined)"
proof -
  let ?v = "filter (\<lambda>k. CheckValidity (box_at file' inb k)) (box_indices file')"
  have resize: "\<exists>f. MB_Resize gen n out = Inr (mb_resized n out, f) \<and> mb_ok (mb_resized n out) \<and> mb_size (mb_resized n out) = n" for n
    using MB_Resize_run [OF assms(4,5)] mb_resized_correct [OF assms(4)] by blast
  have inside: "unat k < unat (mb_size inb)" if k: "k \<in> set (box_indices file')" for k
  proof -
    obtain n where "k = word_of_nat n" "n < unat (mb_size inb)"
      using pixel_indices_inside [OF k box_middle] assms(2) by auto
    then show ?thesis using unat_of_nat_below by simp
  qed
  note run = select_run [OF assms(1,2) subset_refl, of 0 "[]"] assms(3)
  have "SelectBytes garbage gen file' inb out [] =
          (case ?v of [] \<Rightarrow> Inr ([], Some (mb_resized 0 out), 0)
           | [k] \<Rightarrow> Inr ([k], Some (MB_new_sized garbage (ucast (mb_bytes inb ! unat k))), 1) | _ \<Rightarrow> Inl Undefined)"
  proof (cases ?v)
    case Nil
    then show ?thesis using run resize [of 0] by (auto simp: SelectBytes_def Let_def)
  next
    case (Cons k ks)
    then have "k \<in> set ?v" by simp
    then have "k \<in> set (box_indices file')" by simp
    then have "put_selected garbage gen inb [k] 0 (mb_resized 1 out) = Inr (MB_new_sized garbage (ucast (mb_bytes inb ! unat k)))"
      using put_selected_run [OF assms(1) inside] resize [of 1] by simp
    then show ?thesis using run resize [of 1] Cons
      by (cases ks) (auto simp: SelectBytes_def Let_def simp del: put_selected.simps)
  qed
  then show ?thesis using CheckValidity_values [of box] CheckValidity_update by simp
qed

definition gray9 :: carrier where
  "gray9 = bmp0\<lparr>cf_is_grayscale := True, cf_width := 3, cf_height := 3\<rparr>"

theorem context_fitness_correct_witness:
  "SelectBytes (\<lambda>_. 7) (\<lambda>_. 0) gray9 (mb_of [10, 20, 30, 40, 5, 60, 70, 80, 90]) MB_new [] =
     Inr ([4], Some (mb_of [7, 7, 7, 7, 7]), 1) \<and> \<not> CheckValidity [10, 10, 30, 10, 50, 60, 70, 80, 90]"
proof -
  let ?b = "mb_of [10, 20, 30, 40, 5, 60, 70, 80, 90]"
  have m: "mb_ok ?b" "unat (cf_width gray9) * unat (cf_height gray9) \<le> unat (mb_size ?b)" "cf_is_grayscale gray9"
      "mb_ok MB_new" "unat (mb_size MB_new) < 2 ^ 32"
    by (simp_all add: gray9_def mb_of_def mb_ok_def MB_new_def)
  have i: "box_indices gray9 = [4]" by (simp add: box_indices_def gray9_def Let_def)
  have "box_at gray9 ?b 4 = [10, 20, 30, 40, 5, 60, 70, 80, 90]"
    by (simp add: box_at_def pixel_indices_def gray9_def Let_def)
  moreover have "CheckValidity [10, 20, 30, 40, 5, 60, 70, 80, 90]" "\<not> CheckValidity [10, 10, 30, 10, 50, 60, 70, 80, 90]" by code_simp+
  moreover have "MB_new_sized (\<lambda>_. 7) (ucast (mb_bytes ?b ! unat (4 :: u64))) = mb_of [7, 7, 7, 7, 7]"
    by (simp add: MB_new_sized_def MB_Init_eq mb_of_def mb_bytes_def upt_conv_Cons)
  ultimately show ?thesis using context_fitness_correct [OF m, of "[]" "\<lambda>_. 7" "\<lambda>_. 0"] by (simp add: i)
qed

end
