(* ===== verification/Spec2Isabelle.thy ===== *)
theory Spec2Isabelle
  imports Dokan_Service Thread_Pool Video_Carriers Context_Fitness
begin

text \<open>
  \<^bold>\<open>Verification library of StegoDisk\<close>, a library that hides the contents of one virtual disk in the lowest bits
  of many picture and video files.

  \<^bold>\<open>The program.\<close>  \<open>StegoStorage\<close> (\<^verbatim>\<open>src/stego_storage.cc\<close>) is the interface: \<open>Configure\<close>, \<open>Open\<close>, \<open>Load\<close>, \<open>Read\<close>,
  \<open>Write\<close>, \<open>Save\<close>.  \<open>Open\<close> makes \<open>CarrierFilesManager\<close> collect the files of a directory as carriers and derive a key for each from the
  password.  \<open>Load\<close> gives every carrier an encoder and a part of a \<open>VirtualStorage\<close>, whose bytes are spread by a global permutation;
  each carrier then reads the lowest bits of its file through its local permutation into a buffer, and the encoder turns the codeword blocks of
  the buffer into the bytes of the storage.  \<open>Save\<close> goes the way back.  \<open>FuseService\<close> and \<open>DokanService\<close> show the storage as the
  only file of a mounted file system.

  \<^bold>\<open>How code is modelled.\<close>  A member function of a class is a function on a record with the members of the class.  Machine integers are
  words of their width, so sums and products wrap as in C++.  A function that may throw returns \<open>'a res\<close>, with the exception on the left; a
  method that changes an object and may throw is a \<open>meth\<close>, which keeps the changes made before the throw (\<open>Stego_State\<close>).
  Undefined behaviour that the code can reach (a null pointer, a copy outside a block, a division by zero) is the value \<open>Undefined\<close>, so that a
  theorem that a function returns rules it out.  A loop whose end is not obvious is a \<open>function\<close> with its measure; the loops that need not
  end are \<open>partial_function (option)\<close>, and \<open>None\<close> is not returning.  There is no fuel.  Pointers shared between objects are positions in a list of the
  world (\<open>w_storages\<close>), the disk is a map from paths to contents (\<open>w_files\<close>).

  \<^bold>\<open>The theories\<close>, in the order of their imports:
  \<^item> \<open>Stego_Prelude\<close>, \<open>Stego_Exceptions\<close>, \<open>Stego_State\<close>: integer types, results, exceptions (\<^verbatim>\<open>utils/exceptions.h\<close>), methods; the collections
    \<open>unat_simps\<close>, \<open>res_simps\<close> and \<open>run_simps\<close> that run a model step by step.
  \<^item> \<open>Stego_Math\<close> (\<^verbatim>\<open>utils/stego_math.cc\<close>): modular arithmetic, bit counting, primes; what the functions compute, and that they end.
  \<^item> \<open>Memory_Buffer\<close> (\<^verbatim>\<open>utils/memory_buffer.cc\<close>): the owned byte array with its invariant \<open>mb_ok\<close>; every access, and the wiping of freed memory.
  \<^item> \<open>Hash_Key\<close> (\<^verbatim>\<open>utils/keccak\<close>, \<^verbatim>\<open>hash\<close>, \<^verbatim>\<open>keys\<close>): the sponge, the hash object, keys; a hash object is a chain of digests.
  \<^item> \<open>Permutation_Base\<close> states the contract \<open>permutation_class\<close>: \<open>Init\<close> succeeds with the announced size, \<open>Permute\<close> is total and a bijection.
    \<open>Permutation_Affine\<close>, \<open>Permutation_Feistel\<close> and \<open>Permutation_Factory\<close> (\<^verbatim>\<open>permutations\<close>) interpret it for the five classes and for the
    virtual calls over all of them.
  \<^item> \<open>Virtual_Storage\<close> (\<^verbatim>\<open>virtual_storage\<close>): the byte array behind the disk, the contract \<open>byte_store\<close> the carriers rely on and its interpretation;
    \<open>Read\<close> and \<open>Write\<close> refine an array of bytes, the checksum, and what a wrapping request does.
  \<^item> \<open>Encoder_Base\<close>, \<open>Hamming_Encoder\<close>, \<open>Encoder_Factory\<close> (\<^verbatim>\<open>encoders\<close>): the contract \<open>encoder_class\<close>, that \<open>Extract\<close> undoes \<open>Embed\<close>, for the LSB and the
    Hamming encoders and for the virtual calls.
  \<^item> \<open>File_System\<close> (\<^verbatim>\<open>utils/file.cc\<close>, \<^verbatim>\<open>utils/file_impl.cc\<close>), \<open>Carrier_File\<close> (\<^verbatim>\<open>carrier_files/carrier_file.cc\<close>), \<open>Carrier_Images\<close> (the BMP, PNG and JPEG
    classes), \<open>Carrier_Covers\<close> (the contract \<open>lsb_cover\<close> between the loops over lowest bits and the buffer, interpreted for the three formats),
    \<open>Carrier_Roundtrip\<close> (what \<open>SaveFile\<close> writes, \<open>LoadFile\<close> reads back, and nothing visible changes), \<open>Carrier_Capacity\<close> (what fits into a file).
  \<^item> \<open>Json_Object\<close>, \<open>Json_Parser\<close> (\<^verbatim>\<open>utils/json_object.h\<close>, \<^verbatim>\<open>utils/json.h\<close>), \<open>Stego_Config\<close> (\<^verbatim>\<open>utils/stego_config.h\<close>): the settings and the file they come from.
  \<^item> \<open>Carrier_Factory\<close>, \<open>Carrier_Manager\<close>, \<open>Session_Keys\<close> (\<^verbatim>\<open>file_management/carrier_files_manager.cc\<close>): the carriers of a directory, their keys, their parts of the
    storage.
  \<^item> \<open>Stego_Storage\<close>, \<open>Storage_Session\<close>, \<open>Stego_Session\<close>, \<open>Call_Order\<close> (\<^verbatim>\<open>stego_storage.cc\<close>): the interface; what one process writes and saves, a later
    one with the same settings loads; and that no sequence of calls, whichever throw, spoils the objects: \<open>keeps\<close> and its rules follow the text of a method.
  \<^item> \<open>Thread_Pool\<close> (\<^verbatim>\<open>utils/thread_pool.h\<close>): a step relation of the workers, the queue and the destructor, under every interleaving, with spurious and
    lost wake-ups; the contract \<open>work_system\<close> (an invariant and a measure) gives termination.  The manager runs \<open>LoadFile\<close> and \<open>SaveFile\<close> of the carriers on the pool;
    each is a task on one carrier, and by \<open>allocation_partitions_storage\<close> different carriers write different bytes of the storage.  So the manager is modelled
    with a loop over the carriers, as \<open>pool_runs_like_a_loop\<close> allows for tasks that share no object.
  \<^item> \<open>Fuse_Service\<close>, \<open>Dokan_Service\<close> (\<^verbatim>\<open>fuse\<close>): every callback, \<open>Init\<close>, mounting and unmounting; the answers to a sequence of requests are those of a file
    of the size of the storage.
  \<^item> \<open>Video_Container\<close>, \<open>Video_Carriers\<close> (\<^verbatim>\<open>container_handler.cc\<close>, \<^verbatim>\<open>carrier_file_mkv.cc\<close>, \<^verbatim>\<open>carrier_file_mpeg.cc\<close>): packets, streams and the lowest bits of
    time stamps; their round trip, the overflow of the MPEG loops, and the second save.
  \<^item> \<open>Context_Fitness\<close> (\<^verbatim>\<open>fitness/context_fitness.cc\<close>): the choice of pixels by their surroundings, which no other class uses.

  \<^bold>\<open>What is outside.\<close>  Code that is not part of the repository is an argument of the definitions.  \<open>env\<close> and \<open>cenv\<close> hold the contents of fresh memory, the numbers of
  \<open>rand\<close>, the entries of a directory, regular expressions, and the picture libraries \<^verbatim>\<open>lodepng\<close> and \<^verbatim>\<open>libjpeg\<close>; \<open>venv\<close> holds \<open>ffmpeg\<close> and \<open>ffprobe\<close>; the services take the results of
  \<open>fork\<close>, of mounting and of the clock.  What is relied on is a named hypothesis: \<open>png_lossless\<close>, \<open>jpeg_lossless\<close> and \<open>muxer_keeps\<close> say that a file just written is read back as
  it was given, and each has a witness.  The standard library is modelled where the source uses it.

  \<^bold>\<open>Bounds.\<close>  A carrier counts its blocks in 32 bits and casts the number of its bits to 32 bits, so \<open>cf_in_use\<close> asks for fewer than \<open>2 ^ 32\<close> bits per file; the
  permutations are asked for at most \<open>2 ^ 32 - 1\<close> blocks (\<open>perm_supported\<close>), the most all five classes serve; sums of offsets stay below
  \<open>2 ^ 64\<close>, and where the code forgets to check this a theorem says what happens.

  \<^bold>\<open>Not modelled.\<close>  Messages of the logger have no effect on the library and are left out.  The delegate interface of FUSE, the old file fragments \<^verbatim>\<open>file_unix.inc\<close> and
  \<^verbatim>\<open>file_win.inc\<close> and the header of error numbers are not compiled or not used.  The tests are programs that use the library.  Of \<^verbatim>\<open>file.cc\<close> only the branch with the
  C++17 filesystem library is modelled, which \<^verbatim>\<open>include_fs_library.h\<close> selects where the compiler has it.  The file \<^verbatim>\<open>out.txt\<close> that the call of \<open>ffprobe\<close> leaves behind is not part of the files of the
  world.  Running out of memory is modelled only where the code tests for it.
\<close>

section \<open>Properties that span components\<close>

text \<open>
  C36. The names that \<open>GetPermutationName\<close> and \<open>GetEncoderName\<close> print lead back to the same type
  through \<open>GetPermutationType\<close> and \<open>GetEncoderType\<close>.  The look-up of a permutation by the name of
  its class, which compares without case, finds each class by its own name; of the names
  \<open>GetPermutationName\<close> prints it accepts only those of the three classes that are not Feistel.
\<close>

theorem factory_names_roundtrip:
  "GetEncoderType (GetEncoderName t) = t \<and> GetPermutationType (GetPermutationName p) = p \<and>
   GetPermutation_name (lower (Perm_GetNameInstance (GetPermutation p))) = Inr (GetPermutation p) \<and>
   GetPermutation_name (GetPermutationName p) =
     (if p = FEISTEL_NUM \<or> p = FEISTEL_MIX then Inl InvalidArgument else Inr (GetPermutation p))"
proof -
  have "GetEncoderType (GetEncoderName t) = t" by (induction t) code_simp+
  moreover have "GetPermutationType (GetPermutationName p) = p" by (induction p) code_simp+
  moreover have "GetPermutation_name (lower (Perm_GetNameInstance (GetPermutation p))) = Inr (GetPermutation p)"
    by (induction p) code_simp+
  moreover have "GetPermutation_name (GetPermutationName p) =
     (if p = FEISTEL_NUM \<or> p = FEISTEL_MIX then Inl InvalidArgument else Inr (GetPermutation p))"
    by (induction p) code_simp+
  ultimately show ?thesis by blast
qed

end
